(* ===== verification/Prelude.thy ===== *)
theory Prelude
  imports Complex_Main "HOL-Library.Word" "HOL-Library.Char_ord" "HOL-Library.List_Lexorder"
begin

section \<open>Shared vocabulary of the model\<close>

text \<open>
  The types every component uses (bytes, digests, times, inode numbers), the Python
  exceptions the code raises or lets through as values, and the generic lemmas on byte
  strings: Python slices, zero padding, and the splice a positioned write makes.
  A fallible operation on a state returns a pair: \<open>Inl e\<close> (an exception) or \<open>Inr x\<close>
  (a result), and the state it leaves behind, because a Python function that raises keeps
  the changes it made before.
\<close>

type_synonym byte = "8 word"
type_synonym bytes = "byte list"
type_synonym sha = string
type_synonym time = real
type_synonym ino = nat

text \<open>The errno values \<open>fuse_ops.py\<close> raises, and \<open>EIO\<close>, the adapter's fallback.\<close>

datatype errno = ENOENT | EEXIST | ENOTDIR | EISDIR | ENOTEMPTY | EPERM | EINVAL | EBADF | EIO

text \<open>
  Exceptions. \<open>OSError (Some c)\<close> is an \<open>OSError\<close> with an errno; \<open>OSError None\<close> one built
  from a message only, whose \<open>errno\<close> attribute is \<open>None\<close> (this includes the
  \<open>FileNotFoundError(msg)\<close> and \<open>IOError(msg)\<close> the code raises itself). The others are not
  subclasses of \<open>OSError\<close>, except \<open>ConnectionError\<close>, which is one without an errno.
\<close>

datatype exn =
    OSError "errno option"
  | ConnectionError
  | IntegrityError
  | TypeError
  | AttributeError
  | ValueError
  | RuntimeError
  | FloodWait nat

type_synonym ('a, 's) res = "(exn + 'a) \<times> 's"

named_theorems frame \<open>what an operation leaves unchanged\<close>
named_theorems table_simps \<open>rewriting SQL tables to their lookup maps\<close>

subsection \<open>Python slices\<close>

definition slice :: "'a list \<Rightarrow> nat \<Rightarrow> nat \<Rightarrow> 'a list" where
  "slice xs lo hi = take (hi - lo) (drop lo xs)"

lemma length_slice [simp]: "length (slice xs lo hi) = min (hi - lo) (length xs - lo)"
  by (simp add: slice_def min.commute)

lemma slice_nth: "i < length (slice xs lo hi) \<Longrightarrow> slice xs lo hi ! i = xs ! (lo + i)"
  by (auto simp: slice_def intro!: nth_drop)

lemma slice_empty [simp]: "hi \<le> lo \<Longrightarrow> slice xs lo hi = []"
  by (simp add: slice_def)

lemma slice_full [simp]: "length xs \<le> hi \<Longrightarrow> slice xs 0 hi = xs"
  by (simp add: slice_def)

lemma slice_Nil [simp]: "slice [] lo hi = []"
  by (simp add: slice_def)

lemma slice_append_split:
  "lo \<le> mid \<Longrightarrow> mid \<le> hi \<Longrightarrow> slice xs lo mid @ slice xs mid hi = slice xs lo hi"
proof -
  assume "lo \<le> mid" "mid \<le> hi"
  then have "slice xs mid hi = take (hi - mid) (drop (mid - lo) (drop lo xs))"
    by (simp add: slice_def)
  moreover have "hi - lo = (mid - lo) + (hi - mid)"
    using \<open>lo \<le> mid\<close> \<open>mid \<le> hi\<close> by simp
  ultimately show ?thesis
    unfolding slice_def by (metis take_add)
qed

lemma slice_append:
  "slice (xs @ ys) lo hi = slice xs lo hi @ slice ys (lo - length xs) (hi - length xs)"
  unfolding slice_def by (cases "lo \<le> length xs") (auto simp: take_append drop_append)

lemma slice_prefix: "hi \<le> length xs \<Longrightarrow> slice (xs @ ys) lo hi = slice xs lo hi"
  by (simp add: slice_append)

lemma slice_min: "slice xs lo hi = slice xs lo (min hi (length xs))"
  by (rule nth_equalityI) (auto simp: slice_nth)

subsection \<open>Bytes at positions, zero padding\<close>

text \<open>A sparse file reads as zeros where nothing was written.\<close>

definition byte_at :: "bytes \<Rightarrow> nat \<Rightarrow> byte" where
  "byte_at xs p = (if p < length xs then xs ! p else 0)"

definition zeros :: "nat \<Rightarrow> bytes" where
  "zeros n = replicate n 0"

definition resize :: "nat \<Rightarrow> bytes \<Rightarrow> bytes" where
  "resize n xs = take n xs @ zeros (n - length xs)"

lemma length_zeros [simp]: "length (zeros n) = n"
  by (simp add: zeros_def)

lemma zeros_0 [simp]: "zeros 0 = []"
  by (simp add: zeros_def)

lemma length_resize [simp]: "length (resize n xs) = n"
  by (simp add: resize_def)

lemma byte_at_zeros [simp]: "byte_at (zeros n) p = 0"
  by (simp add: byte_at_def zeros_def)

lemma byte_at_Nil [simp]: "byte_at [] p = 0"
  by (simp add: byte_at_def)

lemma byte_at_resize: "byte_at (resize n xs) p = (if p < n then byte_at xs p else 0)"
  by (auto simp: resize_def byte_at_def zeros_def nth_append)

lemma byte_at_slice: "byte_at (slice xs lo hi) i = (if i < hi - lo then byte_at xs (lo + i) else 0)"
  by (auto simp: byte_at_def slice_nth)

lemma byte_at_append:
  "byte_at (xs @ ys) p = (if p < length xs then byte_at xs p else byte_at ys (p - length xs))"
  by (auto simp: byte_at_def nth_append)

lemma bytes_eqI:
  "length xs = length ys \<Longrightarrow> (\<And>p. p < length xs \<Longrightarrow> byte_at xs p = byte_at ys p) \<Longrightarrow> xs = ys"
  by (rule nth_equalityI) (auto simp: byte_at_def)

text \<open>
  The byte string a file of content \<open>xs\<close> holds after \<open>data\<close> is written at \<open>off\<close>:
  zeros fill the gap when \<open>off\<close> lies past the end.
\<close>

definition splice :: "bytes \<Rightarrow> nat \<Rightarrow> bytes \<Rightarrow> bytes" where
  "splice xs off d = take off xs @ zeros (off - length xs) @ d @ drop (off + length d) xs"

lemma length_splice [simp]: "length (splice xs off d) = max (length xs) (off + length d)"
  by (simp add: splice_def)

lemma byte_at_splice:
  "byte_at (splice xs off d) p =
     (if off \<le> p \<and> p < off + length d then d ! (p - off) else byte_at xs p)"
  by (cases "p < off"; cases "off \<le> length xs")
     (auto simp: splice_def byte_at_def zeros_def nth_append min_def)

lemma splice_append_end: "splice xs (length xs) d = xs @ d"
  by (simp add: splice_def)

lemma splice_resize: "off + length d \<le> n \<Longrightarrow> length xs \<le> n \<Longrightarrow>
    splice (resize n xs) off d = resize n (splice xs off d)"
  by (rule bytes_eqI) (auto simp: byte_at_splice byte_at_resize)

subsection \<open>Enumerated and counted lists\<close>

lemma count_list_filter: "count_list (filter P xs) x = (if P x then count_list xs x else 0)"
  by (induction xs) auto

lemma length_filter_eq_count: "length (filter (\<lambda>x. x = a) xs) = count_list xs a"
  by (induction xs) auto

lemma count_list_map_filter:
  "count_list (map f xs) y = length (filter (\<lambda>x. f x = y) xs)"
  by (induction xs) auto

lemma filter_partition_length:
  "length (filter P xs) + length (filter (\<lambda>x. \<not> P x) xs) = length xs"
  by (induction xs) auto

end
