(* ===== verification/SqlTable.thy ===== *)
theory SqlTable
  imports Prelude
begin

section \<open>SQLite tables\<close>

text \<open>
  What the code uses of the \<open>sqlite3\<close> module: a table with a primary key is its list of
  rows, each row a pair of the key and the other columns. \<open>INSERT\<close> of a present key raises
  \<open>IntegrityError\<close> (\<open>None\<close> here), \<open>UPDATE\<close> and \<open>DELETE\<close> with a key that matches no row
  do nothing. All statements of one method run on one connection under one lock, so each
  sees the changes of the earlier ones at once.
\<close>

type_synonym ('k, 'v) table = "('k \<times> 'v) list"

definition sql_select :: "('k, 'v) table \<Rightarrow> 'k \<Rightarrow> 'v option" where
  "sql_select t k = map_of t k"

definition sql_insert :: "('k, 'v) table \<Rightarrow> 'k \<Rightarrow> 'v \<Rightarrow> ('k, 'v) table option" where
  "sql_insert t k v = (case sql_select t k of None \<Rightarrow> Some (t @ [(k, v)]) | Some _ \<Rightarrow> None)"

definition sql_update :: "('k, 'v) table \<Rightarrow> 'k \<Rightarrow> ('v \<Rightarrow> 'v) \<Rightarrow> ('k, 'v) table" where
  "sql_update t k f = map (\<lambda>(k', v). (k', if k' = k then f v else v)) t"

definition sql_delete :: "('k, 'v) table \<Rightarrow> ('k \<Rightarrow> bool) \<Rightarrow> ('k, 'v) table" where
  "sql_delete t P = filter (\<lambda>(k, v). \<not> P k) t"

text \<open>\<open>UPDATE ... SET key = k' WHERE key = k\<close>: the row keeps its place and its columns.\<close>

definition sql_rekey :: "('k, 'v) table \<Rightarrow> 'k \<Rightarrow> 'k \<Rightarrow> ('k, 'v) table" where
  "sql_rekey t k k' = map (\<lambda>(j, v). (if j = k then k' else j, v)) t"

text \<open>The primary key constraint.\<close>

definition keyed :: "('k, 'v) table \<Rightarrow> bool" where
  "keyed t \<longleftrightarrow> distinct (map fst t)"

subsection \<open>Tables as maps\<close>

lemma keyed_Nil [simp]: "keyed []"
  by (simp add: keyed_def)

lemma select_insert [table_simps]:
  "sql_insert t k v = Some t' \<Longrightarrow> sql_select t' j = (if j = k then Some v else sql_select t j)"
  by (auto simp: sql_insert_def sql_select_def map_add_def split: option.splits if_splits)

lemma insert_Some: "sql_insert t k v = Some t' \<longleftrightarrow> sql_select t k = None \<and> t' = t @ [(k, v)]"
  by (auto simp: sql_insert_def split: option.splits)

lemma insert_None: "sql_insert t k v = None \<longleftrightarrow> sql_select t k \<noteq> None"
  by (auto simp: sql_insert_def split: option.splits)

lemma select_append_new [table_simps]:
  "sql_select t k = None \<Longrightarrow>
     sql_select (t @ [(k, v)]) j = (if j = k then Some v else sql_select t j)"
  by (auto simp: sql_select_def map_add_def split: option.splits)

lemma select_update [table_simps]:
  "sql_select (sql_update t k f) j =
     (if j = k then map_option f (sql_select t j) else sql_select t j)"
  by (induction t) (auto simp: sql_select_def sql_update_def)

lemma select_delete [table_simps]:
  "sql_select (sql_delete t P) j = (if P j then None else sql_select t j)"
  by (induction t) (auto simp: sql_select_def sql_delete_def)

lemma select_rekey [table_simps]:
  "sql_select t k' = None \<Longrightarrow> k \<noteq> k' \<Longrightarrow>
     sql_select (sql_rekey t k k') j =
       (if j = k' then sql_select t k else if j = k then None else sql_select t j)"
  by (induction t) (auto simp: sql_select_def sql_rekey_def split: if_splits)

lemma select_Some_mem: "keyed t \<Longrightarrow> sql_select t k = Some v \<longleftrightarrow> (k, v) \<in> set t"
  by (simp add: keyed_def sql_select_def map_of_eq_Some_iff)

lemma select_None_iff: "sql_select t k = None \<longleftrightarrow> k \<notin> fst ` set t"
  by (simp add: sql_select_def map_of_eq_None_iff)

lemma keys_update [simp]: "map fst (sql_update t k f) = map fst t"
  by (induction t) (auto simp: sql_update_def)

lemma keyed_update [simp]: "keyed (sql_update t k f) = keyed t"
  by (simp add: keyed_def)

lemma keyed_delete [simp]: "keyed t \<Longrightarrow> keyed (sql_delete t P)"
  by (auto simp: keyed_def sql_delete_def intro: distinct_map_filter)

lemma keyed_insert: "keyed t \<Longrightarrow> sql_insert t k v = Some t' \<Longrightarrow> keyed t'"
  by (auto simp: keyed_def insert_Some select_None_iff)

lemma keyed_append_new: "keyed t \<Longrightarrow> sql_select t k = None \<Longrightarrow> keyed (t @ [(k, v)])"
  by (auto simp: keyed_def select_None_iff)

lemma keyed_rekey: "keyed t \<Longrightarrow> sql_select t k' = None \<Longrightarrow> keyed (sql_rekey t k k')"
proof (induction t)
  case Nil
  then show ?case by (simp add: sql_rekey_def)
next
  case (Cons r t)
  obtain j w where r: "r = (j, w)" by force
  with Cons.prems have t: "keyed t" "sql_select t k' = None" "j \<noteq> k'" "sql_select t j = None"
    by (auto simp: keyed_def sql_select_def map_of_eq_None_iff split: if_splits)
  have keys: "fst ` set (sql_rekey u k k') \<subseteq> fst ` set u \<union> {k'}" for u :: "('a, 'b) table"
    by (force simp: sql_rekey_def)
  have same: "sql_select t k = None \<Longrightarrow> sql_rekey t k k' = t"
    by (induction t) (auto simp: sql_rekey_def sql_select_def split: if_splits)
  show ?case
  proof (cases "j = k")
    case True
    with t same r show ?thesis
      by (simp add: keyed_def sql_rekey_def sql_select_def map_of_eq_None_iff)
  next
    case False
    have "j \<notin> fst ` set (sql_rekey t k k')"
      using keys [of t] t(3,4) by (auto simp: select_None_iff)
    with Cons.IH t(1,2) False r show ?thesis
      by (simp add: keyed_def sql_rekey_def image_image)
  qed
qed

lemma update_absent: "sql_select t k = None \<Longrightarrow> sql_update t k f = t"
  by (induction t) (auto simp: sql_update_def sql_select_def split: if_splits)

lemma rekey_absent: "sql_select t k = None \<Longrightarrow> sql_rekey t k k' = t"
  by (induction t) (auto simp: sql_rekey_def sql_select_def split: if_splits)

lemma delete_absent: "sql_select t k = None \<Longrightarrow> sql_delete t (\<lambda>j. j = k) = t"
  by (induction t) (auto simp: sql_delete_def sql_select_def split: if_splits)

subsection \<open>Counting rows\<close>

text \<open>\<open>SELECT COUNT(*) FROM t WHERE P\<close>.\<close>

definition sql_count :: "('k, 'v) table \<Rightarrow> ('k \<Rightarrow> 'v \<Rightarrow> bool) \<Rightarrow> nat" where
  "sql_count t P = length (filter (\<lambda>(k, v). P k v) t)"

lemma count_Nil [simp]: "sql_count [] P = 0"
  by (simp add: sql_count_def)

lemma count_append [simp]: "sql_count (t @ u) P = sql_count t P + sql_count u P"
  by (simp add: sql_count_def)

lemma count_Cons: "sql_count ((k, v) # t) P = (if P k v then 1 else 0) + sql_count t P"
  by (simp add: sql_count_def)

lemma count_zero_iff: "sql_count t P = 0 \<longleftrightarrow> (\<forall>(k, v) \<in> set t. \<not> P k v)"
  by (auto simp: sql_count_def filter_empty_conv)

lemma count_pos: "(k, v) \<in> set t \<Longrightarrow> P k v \<Longrightarrow> 0 < sql_count t P"
  by (auto simp: sql_count_def length_greater_0_conv filter_empty_conv simp del: length_greater_0_conv)

lemma count_cong: "(\<And>k v. (k, v) \<in> set t \<Longrightarrow> P k v = Q k v) \<Longrightarrow> sql_count t P = sql_count t Q"
  unfolding sql_count_def by (rule arg_cong [where f = length]) (auto intro: filter_cong)

lemma count_delete_key:
  "keyed t \<Longrightarrow> sql_select t k = Some v \<Longrightarrow>
     sql_count t P = sql_count (sql_delete t (\<lambda>j. j = k)) P + (if P k v then 1 else 0)"
proof (induction t)
  case Nil
  then show ?case by (simp add: sql_select_def)
next
  case (Cons r t)
  obtain j w where r: "r = (j, w)" by force
  show ?case
  proof (cases "j = k")
    case True
    with Cons.prems r have "w = v" and "sql_select t k = None"
      by (auto simp: sql_select_def keyed_def map_of_eq_None_iff)
    with True r show ?thesis
      using delete_absent [of t k] by (simp add: sql_delete_def count_Cons)
  next
    case False
    with Cons.prems r have "keyed t" "sql_select t k = Some v"
      by (auto simp: sql_select_def keyed_def)
    with Cons.IH False r show ?thesis by (simp add: sql_delete_def count_Cons)
  qed
qed

lemma count_rekey:
  "keyed t \<Longrightarrow> sql_select t k = Some v \<Longrightarrow>
     sql_count (sql_rekey t k k') P =
       sql_count (sql_delete t (\<lambda>j. j = k)) P + (if P k' v then 1 else 0)"
proof (induction t)
  case Nil
  then show ?case by (simp add: sql_select_def)
next
  case (Cons r t)
  obtain j w where r: "r = (j, w)" by force
  show ?case
  proof (cases "j = k")
    case True
    with Cons.prems r have "w = v" and "sql_select t k = None"
      by (auto simp: sql_select_def keyed_def map_of_eq_None_iff)
    with True r show ?thesis
      using delete_absent [of t k] rekey_absent [of t k k']
      by (simp add: sql_delete_def sql_rekey_def count_Cons)
  next
    case False
    with Cons.prems r have "keyed t" "sql_select t k = Some v"
      by (auto simp: sql_select_def keyed_def)
    with Cons.IH False r show ?thesis by (simp add: sql_delete_def sql_rekey_def count_Cons)
  qed
qed

subsection \<open>The interface the metadata index relies on\<close>

text \<open>
  A keyed table promises: a lookup after an insert finds the row, an update changes only
  the row named, a delete removes it, and every statement keeps the primary key.
  The lemmas of the block are what a client derives from these laws alone.
\<close>

locale keyed_rows =
  fixes sel :: "'t \<Rightarrow> 'k \<Rightarrow> 'v option"
    and ins :: "'t \<Rightarrow> 'k \<Rightarrow> 'v \<Rightarrow> 't option"
    and upd :: "'t \<Rightarrow> 'k \<Rightarrow> ('v \<Rightarrow> 'v) \<Rightarrow> 't"
    and del :: "'t \<Rightarrow> ('k \<Rightarrow> bool) \<Rightarrow> 't"
    and wf :: "'t \<Rightarrow> bool"
  assumes ins_iff: "ins t k v = None \<longleftrightarrow> sel t k \<noteq> None"
    and sel_ins: "ins t k v = Some t' \<Longrightarrow> sel t' j = (if j = k then Some v else sel t j)"
    and sel_upd: "sel (upd t k f) j = (if j = k then map_option f (sel t j) else sel t j)"
    and sel_del: "sel (del t P) j = (if P j then None else sel t j)"
    and wf_ins: "wf t \<Longrightarrow> ins t k v = Some t' \<Longrightarrow> wf t'"
    and wf_upd: "wf t \<Longrightarrow> wf (upd t k f)"
    and wf_del: "wf t \<Longrightarrow> wf (del t P)"
begin

lemma insert_then_delete:
  assumes "ins t k v = Some t'"
  shows "sel (del t' (\<lambda>j. j = k)) = sel t"
proof
  fix j
  have "sel t k = None" using assms ins_iff [of t k v] by auto
  with assms show "sel (del t' (\<lambda>j. j = k)) j = sel t j"
    by (auto simp: sel_del sel_ins)
qed

lemma update_frame: "j \<noteq> k \<Longrightarrow> sel (upd t k f) j = sel t j"
  by (simp add: sel_upd)

lemma update_update: "sel (upd (upd t k f) k g) = sel (upd t k (g \<circ> f))"
  by (rule ext) (simp add: sel_upd option.map_comp)

lemma insert_fresh_succeeds: "sel t k = None \<Longrightarrow> \<exists>t'. ins t k v = Some t'"
  using ins_iff [of t k v] by auto

end

interpretation rows: keyed_rows sql_select sql_insert sql_update sql_delete keyed
  by unfold_locales
    (auto simp: insert_None select_insert select_update select_delete intro: keyed_insert)

end
