(* ===== verification/Meta.thy ===== *)
theory Meta
  imports SqlTable
begin

unbundle bit_operations_syntax

section \<open>The metadata index (tgfs/meta.py)\<close>

text \<open>
  The SQLite database as a record of its four tables, the \<open>AUTOINCREMENT\<close> counter and the
  clock that \<open>time.time()\<close> reads (the environment moves it between operations). Each
  method of \<open>Meta\<close> is one definition over the record. A method that raises keeps the
  statements it has executed: the connection stays in its transaction and the next
  \<open>commit\<close> writes them.
\<close>

subsection \<open>Rows\<close>

datatype kind = KFile | KDir | KLink

record inode =
  i_id :: ino
  i_kind :: kind
  i_mode :: int
  i_uid :: int
  i_gid :: int
  i_size :: nat
  i_atime :: time
  i_mtime :: time
  i_ctime :: time
  i_nlink :: int
  i_target :: "string option"

record chunk =
  c_off :: nat
  c_len :: nat
  c_sha :: sha

record blob =
  b_handle :: nat
  b_len :: nat
  b_refcount :: nat

record meta =
  inodes :: "(ino, inode) table"
  dirents :: "(ino \<times> string, ino) table"
  chunks :: "(ino \<times> nat, chunk) table"
  blobs :: "(sha, blob) table"
  seq :: nat
  clock :: time

definition ROOT_INO :: ino where
  "ROOT_INO = 1"

definition is_dir :: "inode \<Rightarrow> bool" where
  "is_dir n \<longleftrightarrow> i_kind n = KDir"

definition is_link :: "inode \<Rightarrow> bool" where
  "is_link n \<longleftrightarrow> i_kind n = KLink"

definition S_IFDIR :: int where "S_IFDIR = 16384"
definition S_IFREG :: int where "S_IFREG = 32768"
definition S_IFLNK :: int where "S_IFLNK = 40960"

subsection \<open>Opening the database\<close>

text \<open>
  \<open>_ensure_root\<close>: an explicit id moves the \<open>AUTOINCREMENT\<close> counter to at least that id.
  The two extra arguments are \<open>os.getuid()\<close> and \<open>os.getgid()\<close>.
\<close>

definition ensure_root :: "meta \<Rightarrow> int \<Rightarrow> int \<Rightarrow> meta" where
  "ensure_root m uid gid =
     (case sql_select (inodes m) ROOT_INO of
        Some _ \<Rightarrow> m
      | None \<Rightarrow>
          m\<lparr>inodes := inodes m @
               [(ROOT_INO, \<lparr>i_id = ROOT_INO, i_kind = KDir, i_mode = S_IFDIR OR 493,
                   i_uid = uid, i_gid = gid, i_size = 0, i_atime = clock m, i_mtime = clock m,
                   i_ctime = clock m, i_nlink = 2, i_target = None\<rparr>)],
             seq := max (seq m) ROOT_INO\<rparr>)"

definition new_meta :: "time \<Rightarrow> int \<Rightarrow> int \<Rightarrow> meta" where
  "new_meta now uid gid =
     ensure_root \<lparr>inodes = [], dirents = [], chunks = [], blobs = [], seq = 0, clock = now\<rparr>
       uid gid"

subsection \<open>Inode access\<close>

definition get_inode :: "meta \<Rightarrow> ino \<Rightarrow> inode option" where
  "get_inode m i = sql_select (inodes m) i"

definition lookup :: "meta \<Rightarrow> ino \<Rightarrow> string \<Rightarrow> inode option" where
  "lookup m parent name =
     (case sql_select (dirents m) (parent, name) of
        None \<Rightarrow> None
      | Some child \<Rightarrow> get_inode m child)"

text \<open>\<open>[p for p in path.split("/") if p]\<close>: the non-empty components between slashes.\<close>

fun path_parts_aux :: "string \<Rightarrow> string \<Rightarrow> string list" where
  "path_parts_aux acc [] = (if acc = [] then [] else [rev acc])"
| "path_parts_aux acc (c # cs) =
     (if c = CHR ''/''
      then (if acc = [] then path_parts_aux [] cs else rev acc # path_parts_aux [] cs)
      else path_parts_aux (c # acc) cs)"

definition path_parts :: "string \<Rightarrow> string list" where
  "path_parts path = path_parts_aux [] path"

fun resolve_parts :: "meta \<Rightarrow> inode option \<Rightarrow> string list \<Rightarrow> inode option" where
  "resolve_parts m cur [] = cur"
| "resolve_parts m cur (part # parts) =
     (case cur of
        None \<Rightarrow> None
      | Some n \<Rightarrow>
          if \<not> is_dir n then None
          else (case lookup m (i_id n) part of
                  None \<Rightarrow> None
                | Some n' \<Rightarrow> resolve_parts m (Some n') parts))"

definition resolve :: "meta \<Rightarrow> string \<Rightarrow> inode option" where
  "resolve m path = resolve_parts m (get_inode m ROOT_INO) (path_parts path)"

definition readdir :: "meta \<Rightarrow> ino \<Rightarrow> (string \<times> ino) list" where
  "readdir m parent =
     sort_key fst [(name, c). ((p, name), c) \<leftarrow> dirents m, p = parent]"

definition child_count :: "meta \<Rightarrow> ino \<Rightarrow> nat" where
  "child_count m parent = sql_count (dirents m) (\<lambda>(p, name) c. p = parent)"

subsection \<open>Mutations of the tree\<close>

text \<open>\<open>UPDATE inodes SET nlink=nlink+d WHERE id=i\<close>.\<close>

definition add_nlink :: "meta \<Rightarrow> ino \<Rightarrow> int \<Rightarrow> meta" where
  "add_nlink m i d = m\<lparr>inodes := sql_update (inodes m) i (\<lambda>n. n\<lparr>i_nlink := i_nlink n + d\<rparr>)\<rparr>"

text \<open>
  \<open>create\<close> inserts the inode first, so a name that is taken leaves the inode row behind.
  The final \<open>get_inode\<close> always finds the row.
\<close>

definition create ::
    "meta \<Rightarrow> ino \<Rightarrow> string \<Rightarrow> int \<Rightarrow> kind \<Rightarrow> int \<Rightarrow> int \<Rightarrow> string option \<Rightarrow> (inode, meta) res" where
  "create m parent name mode knd uid gid target =
     (let ino = Suc (seq m);
          row = \<lparr>i_id = ino, i_kind = knd, i_mode = mode, i_uid = uid, i_gid = gid, i_size = 0,
                 i_atime = clock m, i_mtime = clock m, i_ctime = clock m,
                 i_nlink = (if knd = KDir then 2 else 1), i_target = target\<rparr>;
          m1 = m\<lparr>inodes := inodes m @ [(ino, row)], seq := ino\<rparr>
      in case sql_insert (dirents m1) (parent, name) ino of
           None \<Rightarrow> (Inl IntegrityError, m1)
         | Some ds \<Rightarrow>
             (let m2 = m1\<lparr>dirents := ds\<rparr>;
                  m3 = (if knd = KDir then add_nlink m2 parent 1 else m2)
              in case get_inode m3 ino of
                   Some n \<Rightarrow> (Inr n, m3)
                 | None \<Rightarrow> (Inl TypeError, m3)))"

definition link :: "meta \<Rightarrow> ino \<Rightarrow> string \<Rightarrow> ino \<Rightarrow> (unit, meta) res" where
  "link m parent name target_ino =
     (case sql_insert (dirents m) (parent, name) target_ino of
        None \<Rightarrow> (Inl IntegrityError, m)
      | Some ds \<Rightarrow>
          (Inr (), m\<lparr>dirents := ds,
             inodes := sql_update (inodes m) target_ino
                         (\<lambda>n. n\<lparr>i_nlink := i_nlink n + 1, i_ctime := clock m\<rparr>)\<rparr>))"

definition delete_inode :: "meta \<Rightarrow> ino \<Rightarrow> meta" where
  "delete_inode m i = m\<lparr>inodes := sql_delete (inodes m) (\<lambda>j. j = i)\<rparr>"

definition delete_dirent :: "meta \<Rightarrow> ino \<Rightarrow> string \<Rightarrow> meta" where
  "delete_dirent m p name = m\<lparr>dirents := sql_delete (dirents m) (\<lambda>k. k = (p, name))\<rparr>"

definition unlink_dirent :: "meta \<Rightarrow> ino \<Rightarrow> string \<Rightarrow> (ino \<times> int, meta) res" where
  "unlink_dirent m parent name =
     (case sql_select (dirents m) (parent, name) of
        None \<Rightarrow> (Inl (OSError None), m)
      | Some child \<Rightarrow>
          (case get_inode m child of
             None \<Rightarrow> (Inl TypeError, m)
           | Some c \<Rightarrow>
               (let m1 = delete_dirent m parent name;
                    m2 = m1\<lparr>inodes := sql_update (inodes m1) child
                               (\<lambda>n. n\<lparr>i_nlink := i_nlink n - 1, i_ctime := clock m\<rparr>)\<rparr>;
                    m3 = (if i_kind c = KDir then add_nlink m2 parent (- 1) else m2)
                in case get_inode m3 child of
                     None \<Rightarrow> (Inl TypeError, m3)
                   | Some r \<Rightarrow>
                       (Inr (child, i_nlink r),
                        if i_nlink r \<le> 0 then delete_inode m3 child else m3))))"

text \<open>
  The part of \<open>rename\<close> that removes an existing destination; the result is the state and
  the inode the caller must free, \<open>None\<close> if it is still linked.
\<close>

definition rename_replace :: "meta \<Rightarrow> ino \<Rightarrow> string \<Rightarrow> (ino option, meta) res" where
  "rename_replace m np nname =
     (case sql_select (dirents m) (np, nname) of
        None \<Rightarrow> (Inr None, m)
      | Some replaced \<Rightarrow>
          (case get_inode m replaced of
             None \<Rightarrow> (Inl TypeError, m)
           | Some rk \<Rightarrow>
               (let m1 = delete_dirent m np nname;
                    m2 = add_nlink m1 replaced (- 1);
                    m3 = (if i_kind rk = KDir then add_nlink m2 np (- 1) else m2)
                in case get_inode m3 replaced of
                     None \<Rightarrow> (Inl TypeError, m3)
                   | Some r \<Rightarrow>
                       if i_nlink r > 0 then (Inr None, m3)
                       else (Inr (Some replaced), delete_inode m3 replaced))))"

definition rename :: "meta \<Rightarrow> ino \<Rightarrow> string \<Rightarrow> ino \<Rightarrow> string \<Rightarrow> (ino option, meta) res" where
  "rename m op oname np nname =
     (case sql_select (dirents m) (op, oname) of
        None \<Rightarrow> (Inl (OSError None), m)
      | Some src \<Rightarrow>
          (case get_inode m src of
             None \<Rightarrow> (Inl TypeError, m)
           | Some sn \<Rightarrow>
               (case rename_replace m np nname of
                  (Inl e, m1) \<Rightarrow> (Inl e, m1)
                | (Inr replaced, m1) \<Rightarrow>
                    (let m2 = m1\<lparr>dirents := sql_rekey (dirents m1) (op, oname) (np, nname)\<rparr>;
                         m3 = (if i_kind sn = KDir \<and> op \<noteq> np
                               then add_nlink (add_nlink m2 op (- 1)) np 1 else m2)
                     in (Inr replaced, m3)))))"

subsection \<open>Attributes\<close>

definition opt_set :: "('a \<Rightarrow> inode \<Rightarrow> inode) \<Rightarrow> 'a option \<Rightarrow> inode \<Rightarrow> inode" where
  "opt_set upd v n = (case v of None \<Rightarrow> n | Some x \<Rightarrow> upd x n)"

definition setattr ::
    "meta \<Rightarrow> ino \<Rightarrow> int option \<Rightarrow> int option \<Rightarrow> int option \<Rightarrow> nat option \<Rightarrow> time option \<Rightarrow>
     time option \<Rightarrow> meta" where
  "setattr m i mode uid gid sz atime mtime =
     (if mode = None \<and> uid = None \<and> gid = None \<and> sz = None \<and> atime = None \<and> mtime = None
      then m
      else m\<lparr>inodes := sql_update (inodes m) i (\<lambda>n.
        (opt_set (\<lambda>v n. n\<lparr>i_mode := v\<rparr>) mode (opt_set (\<lambda>v n. n\<lparr>i_uid := v\<rparr>) uid
        (opt_set (\<lambda>v n. n\<lparr>i_gid := v\<rparr>) gid (opt_set (\<lambda>v n. n\<lparr>i_size := v\<rparr>) sz
        (opt_set (\<lambda>v n. n\<lparr>i_atime := v\<rparr>) atime (opt_set (\<lambda>v n. n\<lparr>i_mtime := v\<rparr>) mtime n))))))
        \<lparr>i_ctime := clock m\<rparr>)\<rparr>)"

definition set_size :: "meta \<Rightarrow> ino \<Rightarrow> nat \<Rightarrow> meta" where
  "set_size m i sz =
     m\<lparr>inodes := sql_update (inodes m) i
        (\<lambda>n. n\<lparr>i_size := sz, i_mtime := clock m, i_ctime := clock m\<rparr>)\<rparr>"

subsection \<open>Chunks\<close>

definition get_chunks :: "meta \<Rightarrow> ino \<Rightarrow> chunk list" where
  "get_chunks m i = map snd (sort_key fst [(idx, c). ((j, idx), c) \<leftarrow> chunks m, j = i])"

definition get_chunk_shas :: "meta \<Rightarrow> ino \<Rightarrow> sha list" where
  "get_chunk_shas m i = map c_sha (get_chunks m i)"

fun insert_chunks :: "(ino \<times> nat, chunk) table \<Rightarrow> ino \<Rightarrow> (nat \<times> chunk) list \<Rightarrow>
    (exn option) \<times> (ino \<times> nat, chunk) table" where
  "insert_chunks t i [] = (None, t)"
| "insert_chunks t i ((idx, c) # cs) =
     (case sql_insert t (i, idx) c of
        None \<Rightarrow> (Some IntegrityError, t)
      | Some t' \<Rightarrow> insert_chunks t' i cs)"

definition set_chunks :: "meta \<Rightarrow> ino \<Rightarrow> (nat \<times> chunk) list \<Rightarrow> (unit, meta) res" where
  "set_chunks m i cs =
     (let t = sql_delete (chunks m) (\<lambda>(j, idx). j = i)
      in case insert_chunks t i cs of
           (Some e, t') \<Rightarrow> (Inl e, m\<lparr>chunks := t'\<rparr>)
         | (None, t') \<Rightarrow> (Inr (), m\<lparr>chunks := t'\<rparr>))"

subsection \<open>Blobs: content-addressed and reference-counted\<close>

definition blob_get :: "meta \<Rightarrow> sha \<Rightarrow> blob option" where
  "blob_get m sh = sql_select (blobs m) sh"

definition blob_create :: "meta \<Rightarrow> sha \<Rightarrow> nat \<Rightarrow> nat \<Rightarrow> (unit, meta) res" where
  "blob_create m sh handle len =
     (case sql_insert (blobs m) sh \<lparr>b_handle = handle, b_len = len, b_refcount = 1\<rparr> of
        None \<Rightarrow> (Inl IntegrityError, m)
      | Some t \<Rightarrow> (Inr (), m\<lparr>blobs := t\<rparr>))"

definition blob_incref :: "meta \<Rightarrow> sha \<Rightarrow> meta" where
  "blob_incref m sh =
     m\<lparr>blobs := sql_update (blobs m) sh (\<lambda>b. b\<lparr>b_refcount := b_refcount b + 1\<rparr>)\<rparr>"

definition blob_decref :: "meta \<Rightarrow> sha \<Rightarrow> nat option \<times> meta" where
  "blob_decref m sh =
     (case sql_select (blobs m) sh of
        None \<Rightarrow> (None, m)
      | Some b \<Rightarrow>
          if b_refcount b \<le> 1
          then (Some (b_handle b), m\<lparr>blobs := sql_delete (blobs m) (\<lambda>k. k = sh)\<rparr>)
          else (None, m\<lparr>blobs := sql_update (blobs m) sh
                            (\<lambda>b. b\<lparr>b_refcount := b_refcount b - 1\<rparr>)\<rparr>))"

end
