(* ===== verification/MetaInv.thy ===== *)
theory MetaInv
  imports Meta
begin

section \<open>Link counts and the directory tree\<close>

text \<open>
  The well-formedness of the index and its preservation by every method. The central part
  is link accounting: an inode's \<open>nlink\<close> is the number of names that point at it, plus one
  for a directory's own \<open>.\<close>, plus one for the \<open>..\<close> of each subdirectory (and one for the
  root, which no name points at).
  The statements of a method break this balance one after the other and restore it at the
  end, so the proofs track the imbalance: \<open>owed m D\<close> says that each inode still owes \<open>D\<close>,
  and every primitive statement has one lemma that says how it moves \<open>D\<close>.
\<close>

subsection \<open>Counting names\<close>

definition ino_is_dir :: "meta \<Rightarrow> ino \<Rightarrow> bool" where
  "ino_is_dir m i = (case get_inode m i of None \<Rightarrow> False | Some n \<Rightarrow> i_kind n = KDir)"

definition links_to :: "meta \<Rightarrow> ino \<Rightarrow> nat" where
  "links_to m i = sql_count (dirents m) (\<lambda>_ c. c = i)"

definition subdirs :: "meta \<Rightarrow> ino \<Rightarrow> nat" where
  "subdirs m i = sql_count (dirents m) (\<lambda>(p, name) c. p = i \<and> ino_is_dir m c)"

definition want_nlink :: "meta \<Rightarrow> ino \<Rightarrow> kind \<Rightarrow> int" where
  "want_nlink m i k =
     (if i = ROOT_INO then 1 else 0) + (if k = KDir then 1 else 0) +
     int (links_to m i) + int (subdirs m i)"

definition nlink_balanced :: "meta \<Rightarrow> bool" where
  "nlink_balanced m \<longleftrightarrow>
     (\<forall>i n. get_inode m i = Some n \<longrightarrow> i_nlink n = want_nlink m i (i_kind n))"

definition tables_ok :: "meta \<Rightarrow> bool" where
  "tables_ok m \<longleftrightarrow>
     keyed (inodes m) \<and> keyed (dirents m) \<and> keyed (chunks m) \<and> keyed (blobs m) \<and>
     (\<forall>i n. get_inode m i = Some n \<longrightarrow> i_id n = i \<and> i \<le> seq m) \<and>
     (\<forall>p name c. sql_select (dirents m) (p, name) = Some c \<longrightarrow>
        get_inode m c \<noteq> None \<and> p \<le> seq m) \<and>
     ino_is_dir m ROOT_INO"

definition meta_wf :: "meta \<Rightarrow> bool" where
  "meta_wf m \<longleftrightarrow> tables_ok m \<and> nlink_balanced m"

definition owed :: "meta \<Rightarrow> (ino \<Rightarrow> int) \<Rightarrow> bool" where
  "owed m D \<longleftrightarrow>
     (\<forall>i n. get_inode m i = Some n \<longrightarrow> i_nlink n + D i = want_nlink m i (i_kind n))"

lemma owed_0: "owed m (\<lambda>_. 0) = nlink_balanced m"
  by (simp add: owed_def nlink_balanced_def)

lemma owed_cong: "owed m D \<Longrightarrow> (\<And>i. D i = D' i) \<Longrightarrow> owed m D'"
  by (simp add: owed_def)

definition indic :: "bool \<Rightarrow> int" where
  "indic b = (if b then 1 else 0)"

lemma indic_simps [simp]: "indic True = 1" "indic False = 0"
  by (simp_all add: indic_def)

lemma get_inode_congs [simp]:
  "get_inode (m\<lparr>dirents := ds\<rparr>) = get_inode m"
  "get_inode (m\<lparr>chunks := cs\<rparr>) = get_inode m"
  "get_inode (m\<lparr>blobs := bs\<rparr>) = get_inode m"
  "get_inode (m\<lparr>clock := tm\<rparr>) = get_inode m"
  by (simp_all add: get_inode_def fun_eq_iff)

lemma get_inode_update [simp]:
  "get_inode (m\<lparr>inodes := sql_update (inodes m) j f\<rparr>) i =
     (if i = j then map_option f (get_inode m i) else get_inode m i)"
  by (simp add: get_inode_def select_update)

lemma get_inode_delete [simp]:
  "get_inode (delete_inode m j) i = (if i = j then None else get_inode m i)"
  by (simp add: get_inode_def delete_inode_def select_delete)

lemma get_inode_add_nlink [simp]:
  "get_inode (add_nlink m j d) i =
     (if i = j then map_option (\<lambda>n. n\<lparr>i_nlink := i_nlink n + d\<rparr>) (get_inode m i)
      else get_inode m i)"
  by (simp add: add_nlink_def)

lemma get_inode_delete_dirent [simp]: "get_inode (delete_dirent m p name) = get_inode m"
  by (simp add: delete_dirent_def)

lemma ino_is_dir_cong:
  "(\<And>i. map_option i_kind (get_inode m i) = map_option i_kind (get_inode m' i)) \<Longrightarrow>
     ino_is_dir m = ino_is_dir m'"
proof
  fix i
  assume "\<And>i. map_option i_kind (get_inode m i) = map_option i_kind (get_inode m' i)"
  from this [of i] show "ino_is_dir m i = ino_is_dir m' i"
    by (auto simp: ino_is_dir_def split: option.splits)
qed

lemma want_cong:
  "dirents m = dirents m' \<Longrightarrow> ino_is_dir m = ino_is_dir m' \<Longrightarrow> want_nlink m = want_nlink m'"
  by (simp add: want_nlink_def links_to_def subdirs_def fun_eq_iff)

lemma owed_shift:
  assumes "owed m D" "get_inode m' = get_inode m"
    and "\<And>i. int (links_to m' i) + int (subdirs m' i) = int (links_to m i) + int (subdirs m i) + E i"
  shows "owed m' (\<lambda>i. D i + E i)"
  unfolding owed_def
proof (intro allI impI)
  fix i n
  assume "get_inode m' i = Some n"
  with assms(1,2) have "i_nlink n + D i = want_nlink m i (i_kind n)"
    by (simp add: owed_def)
  with assms(3) [of i] show "i_nlink n + (D i + E i) = want_nlink m' i (i_kind n)"
    by (simp add: want_nlink_def)
qed

subsection \<open>What each statement does to the balance\<close>

text \<open>An update of one inode that keeps its kind pays \<open>d\<close> of what the inode owes.\<close>

lemma owed_update:
  assumes "owed m D"
    and f: "\<And>n. i_kind (f n) = i_kind n" "\<And>n. i_nlink (f n) = i_nlink n + d"
  shows "owed (m\<lparr>inodes := sql_update (inodes m) j f\<rparr>) (D(j := D j - d))"
proof -
  let ?m = "m\<lparr>inodes := sql_update (inodes m) j f\<rparr>"
  have "ino_is_dir ?m = ino_is_dir m"
    by (rule ino_is_dir_cong) (simp add: option.map_comp comp_def f)
  then have "want_nlink ?m = want_nlink m"
    by (intro want_cong) simp_all
  with assms show ?thesis
    by (force simp: owed_def)
qed

lemma owed_add_nlink: "owed m D \<Longrightarrow> owed (add_nlink m j d) (D(j := D j - d))"
  unfolding add_nlink_def by (rule owed_update) simp_all

lemma owed_delete_dirent:
  assumes "owed m D" "keyed (dirents m)" "sql_select (dirents m) (p, name) = Some c"
  shows "owed (delete_dirent m p name)
           (\<lambda>i. D i + (- indic (c = i) - indic (p = i \<and> ino_is_dir m c)))"
proof (rule owed_shift [OF assms(1)])
  let ?m = "delete_dirent m p name"
  have dir: "ino_is_dir ?m = ino_is_dir m"
    by (simp add: ino_is_dir_def fun_eq_iff)
  have "links_to m i = links_to ?m i + (if c = i then 1 else 0)" for i
    unfolding links_to_def delete_dirent_def
    using count_delete_key [OF assms(2,3), of "\<lambda>_ c. c = i"] by simp
  moreover have "subdirs m i = subdirs ?m i + (if p = i \<and> ino_is_dir m c then 1 else 0)" for i
    unfolding subdirs_def dir
    using count_delete_key [OF assms(2,3), of "\<lambda>(p, name) c. p = i \<and> ino_is_dir m c"]
    by (simp add: delete_dirent_def)
  ultimately show "int (links_to ?m i) + int (subdirs ?m i) =
      int (links_to m i) + int (subdirs m i) + (- indic (c = i) - indic (p = i \<and> ino_is_dir m c))" for i
    by (simp add: indic_def)
qed (simp add: fun_eq_iff)

lemma owed_insert_dirent:
  assumes "owed m D" "sql_insert (dirents m) (p, name) c = Some ds"
  shows "owed (m\<lparr>dirents := ds\<rparr>)
           (\<lambda>i. D i + (indic (c = i) + indic (p = i \<and> ino_is_dir m c)))"
proof (rule owed_shift [OF assms(1)])
  let ?m = "m\<lparr>dirents := ds\<rparr>"
  have dir: "ino_is_dir ?m = ino_is_dir m"
    by (simp add: ino_is_dir_def fun_eq_iff)
  have ds: "ds = dirents m @ [((p, name), c)]"
    using assms(2) by (simp add: insert_Some)
  have "links_to ?m i = links_to m i + (if c = i then 1 else 0)" for i
    by (simp add: links_to_def ds count_Cons)
  moreover have "subdirs ?m i = subdirs m i + (if p = i \<and> ino_is_dir m c then 1 else 0)" for i
    unfolding subdirs_def dir by (simp add: ds count_Cons)
  ultimately show "int (links_to ?m i) + int (subdirs ?m i) =
      int (links_to m i) + int (subdirs m i) + (indic (c = i) + indic (p = i \<and> ino_is_dir m c))" for i
    by (simp add: indic_def)
qed (simp add: fun_eq_iff)

lemma owed_rekey_dirent:
  assumes "owed m D" "keyed (dirents m)" "sql_select (dirents m) (p, name) = Some c"
  shows "owed (m\<lparr>dirents := sql_rekey (dirents m) (p, name) (p', name')\<rparr>)
           (\<lambda>i. D i + (indic (p' = i \<and> ino_is_dir m c) - indic (p = i \<and> ino_is_dir m c)))"
proof (rule owed_shift [OF assms(1)])
  let ?m = "m\<lparr>dirents := sql_rekey (dirents m) (p, name) (p', name')\<rparr>"
  have dir: "ino_is_dir ?m = ino_is_dir m"
    by (simp add: ino_is_dir_def fun_eq_iff)
  have "links_to ?m i = links_to m i" for i
    using count_rekey [OF assms(2,3), of "(p', name')" "\<lambda>_ c. c = i"]
      count_delete_key [OF assms(2,3), of "\<lambda>_ c. c = i"]
    by (simp add: links_to_def)
  moreover have "int (subdirs ?m i) = int (subdirs m i) - indic (p = i \<and> ino_is_dir m c)
      + indic (p' = i \<and> ino_is_dir m c)" for i
    unfolding subdirs_def dir
    using count_rekey [OF assms(2,3), of "(p', name')" "\<lambda>(p, name) c. p = i \<and> ino_is_dir m c"]
      count_delete_key [OF assms(2,3), of "\<lambda>(p, name) c. p = i \<and> ino_is_dir m c"]
    by (simp add: indic_def)
  ultimately show "int (links_to ?m i) + int (subdirs ?m i) =
      int (links_to m i) + int (subdirs m i) +
      (indic (p' = i \<and> ino_is_dir m c) - indic (p = i \<and> ino_is_dir m c))" for i
    by simp
qed (simp add: fun_eq_iff)

text \<open>Removing an inode that no name points at changes no other inode's count.\<close>

lemma owed_delete_inode:
  assumes "owed m D" "links_to m j = 0"
  shows "owed (delete_inode m j) D"
proof -
  let ?m = "delete_inode m j"
  have ds: "dirents ?m = dirents m" by (simp add: delete_inode_def)
  have "c \<noteq> j" if "(k, c) \<in> set (dirents m)" for k c
    using assms(2) that by (auto simp: links_to_def count_zero_iff)
  then have "subdirs ?m i = subdirs m i" for i
    unfolding subdirs_def ds by (intro count_cong) (auto simp: ino_is_dir_def)
  then have "want_nlink ?m i k = want_nlink m i k" for i k
    by (simp add: want_nlink_def links_to_def ds)
  then show ?thesis
    using assms(1) by (simp add: owed_def)
qed

text \<open>A new inode row, not named by any entry yet, owes its own initial count.\<close>

lemma owed_new_inode:
  assumes "owed m D" "get_inode m i = None" "D i = 0" "i \<noteq> ROOT_INO"
    and free: "\<And>p name c. sql_select (dirents m) (p, name) = Some c \<Longrightarrow> c \<noteq> i \<and> p \<noteq> i"
    and "keyed (dirents m)"
  shows "owed (m\<lparr>inodes := inodes m @ [(i, row)], seq := sq\<rparr>)
           (D(i := indic (i_kind row = KDir) - i_nlink row))"
proof -
  let ?m = "m\<lparr>inodes := inodes m @ [(i, row)], seq := sq\<rparr>"
  have get: "get_inode ?m j = (if j = i then Some row else get_inode m j)" for j
    using assms(2) by (simp add: get_inode_def select_append_new)
  have free': "c \<noteq> i \<and> p \<noteq> i" if "((p, name), c) \<in> set (dirents m)" for p name c
    using that free select_Some_mem [OF assms(6)] by metis
  have subs: "subdirs ?m j = subdirs m j" for j
    unfolding subdirs_def
    by simp (rule count_cong, auto simp: ino_is_dir_def get dest: free')
  have links: "links_to ?m j = links_to m j" for j
    by (simp add: links_to_def)
  have "links_to m i = 0" "subdirs m i = 0"
    by (auto simp: links_to_def subdirs_def count_zero_iff dest: free')
  then show ?thesis
    using assms(1,4) by (auto simp: owed_def get want_nlink_def subs links indic_def)
qed

subsection \<open>Every method keeps the index well formed\<close>

lemma tables_okD:
  assumes "tables_ok m"
  shows "keyed (inodes m)" "keyed (dirents m)" "keyed (chunks m)" "keyed (blobs m)"
    and "get_inode m i = Some n \<Longrightarrow> i_id n = i"
    and "get_inode m i = Some n \<Longrightarrow> i \<le> seq m"
    and "sql_select (dirents m) (p, name) = Some c \<Longrightarrow> \<exists>n. get_inode m c = Some n"
    and "sql_select (dirents m) (p, name) = Some c \<Longrightarrow> p \<le> seq m"
    and "ino_is_dir m ROOT_INO"
  using assms unfolding tables_ok_def by (metis option.exhaust)+

lemma meta_wfD:
  assumes "meta_wf m"
  shows "tables_ok m" "owed m (\<lambda>_. 0)"
  using assms by (simp_all add: meta_wf_def owed_0)

lemma meta_wfI: "tables_ok m \<Longrightarrow> owed m D \<Longrightarrow> (\<And>i. D i = 0) \<Longrightarrow> meta_wf m"
  by (simp add: meta_wf_def nlink_balanced_def owed_def)

lemma root_le_seq: "tables_ok m \<Longrightarrow> 1 \<le> seq m"
  using tables_okD(6,9) [of m] by (force simp: ino_is_dir_def ROOT_INO_def split: option.splits)

lemma fresh_ino:
  assumes "tables_ok m"
  shows "get_inode m (Suc (seq m)) = None"
    and "sql_select (dirents m) (p, name) = Some c \<Longrightarrow> c \<noteq> Suc (seq m) \<and> p \<noteq> Suc (seq m)"
proof -
  show fresh: "get_inode m (Suc (seq m)) = None"
    using tables_okD(6) [OF assms] by (cases "get_inode m (Suc (seq m))") force+
  assume "sql_select (dirents m) (p, name) = Some c"
  from tables_okD(7,8) [OF assms this] fresh show "c \<noteq> Suc (seq m) \<and> p \<noteq> Suc (seq m)" by auto
qed

lemma tables_ok_update:
  assumes "tables_ok m" and f: "\<And>n. i_kind (f n) = i_kind n" "\<And>n. i_id (f n) = i_id n"
  shows "tables_ok (m\<lparr>inodes := sql_update (inodes m) j f\<rparr>)"
proof -
  let ?m = "m\<lparr>inodes := sql_update (inodes m) j f\<rparr>"
  have "ino_is_dir ?m = ino_is_dir m"
    by (rule ino_is_dir_cong) (simp add: option.map_comp comp_def f)
  then show ?thesis
    using assms(1) unfolding tables_ok_def by (auto simp: f)
qed

lemma tables_ok_add_nlink: "tables_ok m \<Longrightarrow> tables_ok (add_nlink m j d)"
  unfolding add_nlink_def by (rule tables_ok_update) simp_all

lemma tables_ok_delete_dirent: "tables_ok m \<Longrightarrow> tables_ok (delete_dirent m p name)"
  unfolding tables_ok_def ino_is_dir_def
  by (auto simp: delete_dirent_def select_delete split: if_splits)

lemma tables_ok_insert_dirent:
  assumes "tables_ok m" "sql_insert (dirents m) (p, name) c = Some ds"
    and "get_inode m c \<noteq> None" "p \<le> seq m"
  shows "tables_ok (m\<lparr>dirents := ds\<rparr>)"
  using assms keyed_insert [OF _ assms(2)] select_insert [OF assms(2)]
  unfolding tables_ok_def ino_is_dir_def by (auto split: if_splits)

lemma tables_ok_delete_inode:
  assumes "tables_ok m" "links_to m j = 0" "j \<noteq> ROOT_INO"
  shows "tables_ok (delete_inode m j)"
proof -
  have "c \<noteq> j" if "sql_select (dirents m) (p, name) = Some c" for p name c
    using that assms(2) select_Some_mem [OF tables_okD(2) [OF assms(1)]]
    by (force simp: links_to_def count_zero_iff)
  with assms(1,3) show ?thesis
    unfolding tables_ok_def ino_is_dir_def
    by (auto simp: delete_inode_def select_delete get_inode_def split: if_splits option.splits)
qed

lemma tables_ok_new_inode:
  assumes "tables_ok m" "i_id row = Suc (seq m)"
  shows "tables_ok (m\<lparr>inodes := inodes m @ [(Suc (seq m), row)], seq := Suc (seq m)\<rparr>)"
proof -
  let ?m = "m\<lparr>inodes := inodes m @ [(Suc (seq m), row)], seq := Suc (seq m)\<rparr>"
  have new: "sql_select (inodes m) (Suc (seq m)) = None"
    using fresh_ino(1) [OF assms(1)] by (simp add: get_inode_def)
  then have get: "get_inode ?m j = (if j = Suc (seq m) then Some row else get_inode m j)" for j
    by (simp add: get_inode_def select_append_new)
  have "ROOT_INO \<noteq> Suc (seq m)"
    using root_le_seq [OF assms(1)] by (simp add: ROOT_INO_def)
  then have "ino_is_dir ?m ROOT_INO"
    using tables_okD(9) [OF assms(1)] by (simp add: ino_is_dir_def get)
  moreover have "keyed (inodes ?m)"
    using keyed_append_new [OF tables_okD(1) [OF assms(1)] new] by simp
  ultimately show ?thesis
    using assms unfolding tables_ok_def by (auto simp: get le_Suc_eq)
qed

lemma tables_ok_rekey:
  assumes "tables_ok m" "sql_select (dirents m) (p', name') = None" "p' \<le> seq m"
  shows "tables_ok (m\<lparr>dirents := sql_rekey (dirents m) (p, name) (p', name')\<rparr>)"
proof (cases "(p, name) = (p', name')")
  case True
  with assms show ?thesis by (simp add: rekey_absent)
next
  case False
  have "sql_select (sql_rekey (dirents m) (p, name) (p', name')) k =
      (if k = (p', name') then sql_select (dirents m) (p, name)
       else if k = (p, name) then None else sql_select (dirents m) k)" for k
    by (rule select_rekey [OF assms(2) False])
  moreover have "keyed (sql_rekey (dirents m) (p, name) (p', name'))"
    using assms by (intro keyed_rekey tables_okD)
  ultimately show ?thesis
    using assms tables_okD(7,8) [OF assms(1), of p name]
    unfolding tables_ok_def ino_is_dir_def by (auto split: if_splits)
qed

lemma create_wf:
  assumes wf: "meta_wf m" and free: "sql_select (dirents m) (parent, name) = None"
    and parent: "get_inode m parent \<noteq> None"
    and res: "create m parent name mode knd uid gid target = (r, m')"
  shows "meta_wf m' \<and> (\<exists>n. r = Inr n \<and> get_inode m' (Suc (seq m)) = Some n \<and> i_kind n = knd
           \<and> sql_select (dirents m') (parent, name) = Some (Suc (seq m)) \<and> seq m' = Suc (seq m))"
proof -
  note t = meta_wfD(1) [OF wf]
  obtain row where row: "row = \<lparr>i_id = Suc (seq m), i_kind = knd, i_mode = mode, i_uid = uid,
      i_gid = gid, i_size = 0, i_atime = clock m, i_mtime = clock m, i_ctime = clock m,
      i_nlink = (if knd = KDir then 2 else 1), i_target = target\<rparr>" by simp
  define m1 where "m1 = m\<lparr>inodes := inodes m @ [(Suc (seq m), row)], seq := Suc (seq m)\<rparr>"
  have t1: "tables_ok m1" unfolding m1_def by (rule tables_ok_new_inode [OF t]) (simp add: row)
  have get1: "get_inode m1 j = (if j = Suc (seq m) then Some row else get_inode m j)" for j
    using fresh_ino(1) [OF t] by (simp add: get_inode_def m1_def select_append_new)
  have parent_le: "parent \<le> seq m" using parent tables_okD(6) [OF t] by auto
  obtain ds where ins: "sql_insert (dirents m1) (parent, name) (Suc (seq m)) = Some ds"
    using free by (auto simp: m1_def insert_Some)
  have o1: "owed m1 ((\<lambda>_. 0)(Suc (seq m) := indic (i_kind row = KDir) - i_nlink row))"
    unfolding m1_def
    by (rule owed_new_inode [OF meta_wfD(2) [OF wf] fresh_ino(1) [OF t] _ _ fresh_ino(2) [OF t]
          tables_okD(2) [OF t]]) (use root_le_seq [OF t] in \<open>auto simp: ROOT_INO_def\<close>)
  define m2 where "m2 = m1\<lparr>dirents := ds\<rparr>"
  have t2: "tables_ok m2" unfolding m2_def
    by (rule tables_ok_insert_dirent [OF t1 ins]) (use parent_le in \<open>simp_all add: get1\<close>,
        simp add: m1_def)
  note o2 = owed_insert_dirent [OF o1 ins, folded m2_def]
  define m3 where "m3 = (if knd = KDir then add_nlink m2 parent 1 else m2)"
  have t3: "tables_ok m3" using t2 by (simp add: m3_def tables_ok_add_nlink)
  have dir1: "ino_is_dir m1 (Suc (seq m)) = (knd = KDir)" by (simp add: ino_is_dir_def get1 row)
  have "meta_wf m3"
  proof (cases "knd = KDir")
    case True
    then have m3: "m3 = add_nlink m2 parent 1" by (simp add: m3_def)
    show ?thesis
      by (rule meta_wfI [OF t3 owed_add_nlink [OF o2, of parent 1, folded m3]])
        (use True dir1 parent_le in \<open>auto simp: row indic_def\<close>)
  next
    case False
    then have "m3 = m2" by (simp add: m3_def)
    show ?thesis unfolding \<open>m3 = m2\<close>
      by (rule meta_wfI [OF t2 o2]) (use False dir1 in \<open>auto simp: row indic_def\<close>)
  qed
  moreover have get3: "get_inode m3 (Suc (seq m)) = Some row"
    using parent_le by (simp add: m3_def m2_def get1)
  moreover have "r = Inr row" "m' = m3"
    using res ins get3 unfolding create_def Let_def row [symmetric] m1_def [symmetric] m3_def m2_def
    by simp_all
  moreover have "dirents m3 = ds" "seq m3 = Suc (seq m)"
    by (simp_all add: m3_def m2_def add_nlink_def) (simp_all add: m1_def)
  moreover have "i_kind row = knd" by (simp add: row)
  ultimately show ?thesis
    using select_insert [OF ins, of "(parent, name)"] by simp
qed

lemma link_wf:
  assumes wf: "meta_wf m" and res: "link m parent name i = (Inr (), m')"
    and target: "get_inode m i = Some n" "i_kind n \<noteq> KDir" and parent: "parent \<le> seq m"
  shows "meta_wf m'"
proof -
  note t = meta_wfD(1) [OF wf]
  from res obtain ds where ins: "sql_insert (dirents m) (parent, name) i = Some ds"
    and m': "m' = m\<lparr>dirents := ds, inodes := sql_update (inodes m) i
        (\<lambda>n. n\<lparr>i_nlink := i_nlink n + 1, i_ctime := clock m\<rparr>)\<rparr>"
    by (auto simp: link_def split: option.splits)
  define m1 where "m1 = m\<lparr>dirents := ds\<rparr>"
  have m': "m' = m1\<lparr>inodes := sql_update (inodes m1) i
      (\<lambda>n. n\<lparr>i_nlink := i_nlink n + 1, i_ctime := clock m\<rparr>)\<rparr>"
    by (simp add: m' m1_def)
  have t1: "tables_ok m1"
    unfolding m1_def by (rule tables_ok_insert_dirent [OF t ins]) (use target parent in simp_all)
  have dir: "\<not> ino_is_dir m i" using target by (simp add: ino_is_dir_def)
  note o1 = owed_insert_dirent [OF meta_wfD(2) [OF wf] ins, folded m1_def]
  show ?thesis unfolding m'
    by (rule meta_wfI [OF tables_ok_update [OF t1] owed_update [OF o1, where d = 1]])
      (use dir in \<open>auto simp: indic_def\<close>)
qed

text \<open>
  A name's removal, common to \<open>unlink_dirent\<close> and \<open>rename\<close>: the entry goes, the child loses
  a link, a directory's parent loses its \<open>..\<close>.
\<close>

lemma drop_entry_wf:
  assumes wf: "meta_wf m" and entry: "sql_select (dirents m) (p, name) = Some c"
    and child: "get_inode m c = Some n"
    and f: "\<And>n. i_kind (f n) = i_kind n" "\<And>n. i_id (f n) = i_id n"
      "\<And>n. i_nlink (f n) = i_nlink n - 1"
    and m2: "m2 = (delete_dirent m p name)\<lparr>inodes := sql_update (inodes (delete_dirent m p name)) c f\<rparr>"
    and m3: "m3 = (if i_kind n = KDir then add_nlink m2 p (- 1) else m2)"
  shows "meta_wf m3"
proof -
  note t = meta_wfD(1) [OF wf]
  let ?m1 = "delete_dirent m p name"
  note o1 = owed_delete_dirent [OF meta_wfD(2) [OF wf] tables_okD(2) [OF t] entry]
  note o2 = owed_update [OF o1, where d = "- 1" and f = f and j = c, folded m2]
  have o2': "owed m2 (\<lambda>i. 0 + (- indic (c = i) - indic (p = i \<and> ino_is_dir m c)) +
      (if i = c then 1 else 0))"
    by (rule owed_cong [OF o2]) (simp_all add: f)
  have t2: "tables_ok m2" unfolding m2
    by (rule tables_ok_update [OF tables_ok_delete_dirent [OF t]]) (simp_all add: f)
  have t3: "tables_ok m3" using t2 by (simp add: m3 tables_ok_add_nlink)
  have dir: "ino_is_dir m c = (i_kind n = KDir)" using child by (simp add: ino_is_dir_def)
  show ?thesis
  proof (cases "i_kind n = KDir")
    case True
    then have m3: "m3 = add_nlink m2 p (- 1)" by (simp add: m3)
    show ?thesis
      by (rule meta_wfI [OF t3 owed_add_nlink [OF o2', of p "- 1", folded m3]])
        (use True dir in \<open>auto simp: indic_def\<close>)
  next
    case False
    then have m3: "m3 = m2" by (simp add: m3)
    show ?thesis unfolding m3
      by (rule meta_wfI [OF t2 o2']) (use False dir in \<open>auto simp: indic_def\<close>)
  qed
qed

text \<open>An inode whose count has reached zero is named by no entry and can go.\<close>

lemma delete_unlinked_wf:
  assumes wf: "meta_wf m" and c: "get_inode m c = Some n" "i_nlink n \<le> 0"
  shows "meta_wf (delete_inode m c)"
proof -
  note t = meta_wfD(1) [OF wf]
  have bal: "i_nlink n = want_nlink m c (i_kind n)"
    using meta_wfD(2) [OF wf] c by (simp add: owed_def)
  then have links: "links_to m c = 0" and root: "c \<noteq> ROOT_INO"
    using c(2) by (auto simp: want_nlink_def split: if_splits)
  show ?thesis
    by (rule meta_wfI [OF tables_ok_delete_inode [OF t links root]
          owed_delete_inode [OF meta_wfD(2) [OF wf] links]]) simp
qed

lemma unlink_dirent_cases [consumes 1, case_names missing gone]:
  assumes "meta_wf m"
  obtains (missing) "sql_select (dirents m) (parent, name) = None"
      "unlink_dirent m parent name = (Inl (OSError None), m)"
  | (gone) c n m3 r where "sql_select (dirents m) (parent, name) = Some c"
      "get_inode m c = Some n" "meta_wf m3" "get_inode m3 c = Some r"
      "dirents m3 = sql_delete (dirents m) (\<lambda>k. k = (parent, name))"
      "\<And>i. map_option i_kind (get_inode m3 i) = map_option i_kind (get_inode m i)"
      "\<And>i. map_option i_size (get_inode m3 i) = map_option i_size (get_inode m i)"
      "chunks m3 = chunks m" "blobs m3 = blobs m" "seq m3 = seq m" "clock m3 = clock m"
      "unlink_dirent m parent name =
         (Inr (c, i_nlink r), if i_nlink r \<le> 0 then delete_inode m3 c else m3)"
proof (cases "sql_select (dirents m) (parent, name)")
  case None
  then show ?thesis by (intro missing) (simp_all add: unlink_dirent_def)
next
  case (Some c)
  then obtain n where n: "get_inode m c = Some n"
    using tables_okD(7) [OF meta_wfD(1) [OF assms]] by blast
  define m2 where "m2 = (delete_dirent m parent name)
      \<lparr>inodes := sql_update (inodes (delete_dirent m parent name)) c
         (\<lambda>n. n\<lparr>i_nlink := i_nlink n - 1, i_ctime := clock m\<rparr>)\<rparr>"
  define m3 where "m3 = (if i_kind n = KDir then add_nlink m2 parent (- 1) else m2)"
  have wf3: "meta_wf m3"
    by (rule drop_entry_wf [OF assms Some n _ _ _ m2_def m3_def]) simp_all
  have keep: "map_option i_kind (get_inode m3 i) = map_option i_kind (get_inode m i)"
    "map_option i_size (get_inode m3 i) = map_option i_size (get_inode m i)" for i
    by (auto simp: m3_def m2_def option.map_comp comp_def)
  from keep(1) [of c] n obtain r where r: "get_inode m3 c = Some r" by auto
  have "unlink_dirent m parent name =
      (Inr (c, i_nlink r), if i_nlink r \<le> 0 then delete_inode m3 c else m3)"
    unfolding unlink_dirent_def Some n option.case Let_def m2_def [symmetric] m3_def [symmetric] r
    by simp
  then show ?thesis
    by (intro gone [OF Some n wf3 r _ keep])
      (simp_all add: m3_def m2_def add_nlink_def delete_dirent_def)
qed

lemma unlink_dirent_wf:
  assumes "meta_wf m"
  shows "meta_wf (snd (unlink_dirent m parent name))"
  using assms
  by (cases rule: unlink_dirent_cases [OF assms, of parent name])
    (auto intro: delete_unlinked_wf)

lemma rename_replace_cases [consumes 1, case_names free taken]:
  assumes "meta_wf m"
  obtains (free) "sql_select (dirents m) (np, nname) = None"
      "rename_replace m np nname = (Inr None, m)"
  | (taken) c n m3 r where "sql_select (dirents m) (np, nname) = Some c"
      "get_inode m c = Some n" "meta_wf m3" "get_inode m3 c = Some r"
      "dirents m3 = sql_delete (dirents m) (\<lambda>k. k = (np, nname))"
      "\<And>i. map_option i_kind (get_inode m3 i) = map_option i_kind (get_inode m i)"
      "\<And>i. map_option i_size (get_inode m3 i) = map_option i_size (get_inode m i)"
      "chunks m3 = chunks m" "blobs m3 = blobs m" "seq m3 = seq m" "clock m3 = clock m"
      "rename_replace m np nname =
         (if i_nlink r > 0 then (Inr None, m3) else (Inr (Some c), delete_inode m3 c))"
proof (cases "sql_select (dirents m) (np, nname)")
  case None
  then show ?thesis by (intro free) (simp_all add: rename_replace_def)
next
  case (Some c)
  then obtain n where n: "get_inode m c = Some n"
    using tables_okD(7) [OF meta_wfD(1) [OF assms]] by blast
  define m2 where "m2 = (delete_dirent m np nname)
      \<lparr>inodes := sql_update (inodes (delete_dirent m np nname)) c
         (\<lambda>n. n\<lparr>i_nlink := i_nlink n + - 1\<rparr>)\<rparr>"
  define m3 where "m3 = (if i_kind n = KDir then add_nlink m2 np (- 1) else m2)"
  have wf3: "meta_wf m3"
    by (rule drop_entry_wf [OF assms Some n _ _ _ m2_def m3_def]) simp_all
  have keep: "map_option i_kind (get_inode m3 i) = map_option i_kind (get_inode m i)"
    "map_option i_size (get_inode m3 i) = map_option i_size (get_inode m i)" for i
    by (auto simp: m3_def m2_def option.map_comp comp_def)
  from keep(1) [of c] n obtain r where r: "get_inode m3 c = Some r" by auto
  have m2: "add_nlink (delete_dirent m np nname) c (- 1) = m2"
    by (simp add: m2_def add_nlink_def)
  have "rename_replace m np nname =
      (if i_nlink r > 0 then (Inr None, m3) else (Inr (Some c), delete_inode m3 c))"
    unfolding rename_replace_def Some n option.case Let_def m2 m3_def [symmetric] r by simp
  then show ?thesis
    by (intro taken [OF Some n wf3 r _ keep])
      (simp_all add: m3_def m2_def add_nlink_def delete_dirent_def)
qed

text \<open>The state after the destination of a rename is cleared, whichever branch was taken.\<close>

lemma rename_replace_ok:
  assumes "meta_wf m" "rename_replace m np nname = (r, m1)"
  shows "\<exists>rep. r = Inr rep" "meta_wf m1"
    and "dirents m1 = sql_delete (dirents m) (\<lambda>k. k = (np, nname))"
    and "chunks m1 = chunks m" "blobs m1 = blobs m" "seq m1 = seq m" "clock m1 = clock m"
    and "get_inode m1 i = Some n1 \<Longrightarrow>
      \<exists>n. get_inode m i = Some n \<and> i_kind n1 = i_kind n \<and> i_size n1 = i_size n"
proof -
  have "(\<exists>rep. r = Inr rep) \<and> meta_wf m1 \<and>
      dirents m1 = sql_delete (dirents m) (\<lambda>k. k = (np, nname)) \<and> chunks m1 = chunks m \<and>
      blobs m1 = blobs m \<and> seq m1 = seq m \<and> clock m1 = clock m \<and>
      (\<forall>n1. get_inode m1 i = Some n1 \<longrightarrow>
        (\<exists>n. get_inode m i = Some n \<and> i_kind n1 = i_kind n \<and> i_size n1 = i_size n))"
  using assms(1)
  proof (cases rule: rename_replace_cases [where np = np and nname = nname])
    case free
    with assms show ?thesis by (auto simp: delete_absent)
  next
    case (taken c n m3 r')
    have "\<exists>n. get_inode m i = Some n \<and> i_kind n1 = i_kind n \<and> i_size n1 = i_size n"
      if "get_inode m3 i = Some n1" for n1
      using taken(6,7) [of i] that by (cases "get_inode m i") auto
    moreover have "\<not> 0 < i_nlink r' \<Longrightarrow> meta_wf (delete_inode m3 c)"
      using delete_unlinked_wf [OF taken(3,4)] by simp
    ultimately show ?thesis
      using assms(2) taken(3,5,8-12) by (auto split: if_splits simp: delete_inode_def [of m3]
        get_inode_def select_delete)
  qed
  then show "\<exists>rep. r = Inr rep" "meta_wf m1"
    "dirents m1 = sql_delete (dirents m) (\<lambda>k. k = (np, nname))"
    "chunks m1 = chunks m" "blobs m1 = blobs m" "seq m1 = seq m" "clock m1 = clock m"
    "get_inode m1 i = Some n1 \<Longrightarrow>
      \<exists>n. get_inode m i = Some n \<and> i_kind n1 = i_kind n \<and> i_size n1 = i_size n"
    by blast+
qed

lemma rename_Inr:
  assumes wf: "meta_wf m" and src: "sql_select (dirents m) (op, oname) = Some src"
  obtains sn rep m1 where "get_inode m src = Some sn" "rename_replace m np nname = (Inr rep, m1)"
    "rename m op oname np nname =
       (Inr rep, let m2 = m1\<lparr>dirents := sql_rekey (dirents m1) (op, oname) (np, nname)\<rparr>
                 in if i_kind sn = KDir \<and> op \<noteq> np
                    then add_nlink (add_nlink m2 op (- 1)) np 1 else m2)"
proof -
  obtain sn where sn: "get_inode m src = Some sn"
    using tables_okD(7) [OF meta_wfD(1) [OF wf] src] by blast
  obtain r m1 where rr: "rename_replace m np nname = (r, m1)" by force
  with rename_replace_ok(1) [OF wf rr] obtain rep where "r = Inr rep" by blast
  with rr sn src show ?thesis
    by (intro that [OF sn]) (simp_all add: rename_def Let_def)
qed

lemma rename_wf:
  assumes wf: "meta_wf m" and np: "np \<le> seq m"
  shows "meta_wf (snd (rename m op oname np nname))"
proof (cases "sql_select (dirents m) (op, oname)")
  case None
  then show ?thesis using wf by (simp add: rename_def)
next
  case (Some src)
  obtain sn rep m1 where sn: "get_inode m src = Some sn"
    and rr: "rename_replace m np nname = (Inr rep, m1)"
    and res: "rename m op oname np nname =
      (Inr rep, let m2 = m1\<lparr>dirents := sql_rekey (dirents m1) (op, oname) (np, nname)\<rparr>
                in if i_kind sn = KDir \<and> op \<noteq> np
                   then add_nlink (add_nlink m2 op (- 1)) np 1 else m2)"
    by (rule rename_Inr [OF wf Some])
  note ok = rename_replace_ok [OF wf rr]
  note t1 = meta_wfD(1) [OF ok(2)]
  have free: "sql_select (dirents m1) (np, nname) = None" by (simp add: ok(3) select_delete)
  show ?thesis
  proof (cases "(op, oname) = (np, nname)")
    case True
    then have "m1\<lparr>dirents := sql_rekey (dirents m1) (op, oname) (np, nname)\<rparr> = m1"
      using free by (simp add: rekey_absent)
    then show ?thesis unfolding res using ok(2) True by (simp add: Let_def)
  next
    case False
    define m2 where "m2 = m1\<lparr>dirents := sql_rekey (dirents m1) (op, oname) (np, nname)\<rparr>"
    have entry: "sql_select (dirents m1) (op, oname) = Some src"
      using Some False by (auto simp: ok(3) select_delete)
    then obtain n1 where n1: "get_inode m1 src = Some n1" using tables_okD(7) [OF t1] by blast
    have dir: "ino_is_dir m1 src = (i_kind sn = KDir)"
      using n1 sn ok(8) [OF n1] by (simp add: ino_is_dir_def)
    have t2: "tables_ok m2" unfolding m2_def
      by (rule tables_ok_rekey [OF t1 free]) (simp add: ok(6) np)
    note o2 = owed_rekey_dirent [OF meta_wfD(2) [OF ok(2)] tables_okD(2) [OF t1] entry,
        of np nname, folded m2_def]
    show ?thesis
    proof (cases "i_kind sn = KDir \<and> op \<noteq> np")
      case True
      then have eq: "snd (rename m op oname np nname) = add_nlink (add_nlink m2 op (- 1)) np 1"
        by (simp add: res Let_def m2_def)
      show ?thesis unfolding eq
        by (rule meta_wfI [OF _ owed_add_nlink [OF owed_add_nlink [OF o2]]])
          (use True dir t2 in \<open>auto simp: indic_def tables_ok_add_nlink\<close>)
    next
      case no_dir: False
      then have eq: "snd (rename m op oname np nname) = m2"
        by (auto simp add: res Let_def m2_def)
      show ?thesis unfolding eq
        by (rule meta_wfI [OF t2 o2]) (use no_dir dir in \<open>auto simp: indic_def\<close>)
    qed
  qed
qed

subsection \<open>Methods that leave the tree alone\<close>

lemma meta_wf_update:
  assumes wf: "meta_wf m" and f: "\<And>n. i_kind (f n) = i_kind n" "\<And>n. i_id (f n) = i_id n"
    "\<And>n. i_nlink (f n) = i_nlink n"
  shows "meta_wf (m\<lparr>inodes := sql_update (inodes m) j f\<rparr>)"
  by (rule meta_wfI [OF tables_ok_update [OF meta_wfD(1) [OF wf]]
        owed_update [OF meta_wfD(2) [OF wf], where d = 0]]) (simp_all add: f)

lemma opt_set_keeps:
  assumes "\<And>v n. P (upd v n) = P n"
  shows "P (opt_set upd v n) = P n"
  using assms by (cases v) (simp_all add: opt_set_def)

lemma setattr_wf: "meta_wf m \<Longrightarrow> meta_wf (setattr m i mode uid gid sz atime mtime)"
  unfolding setattr_def by (auto intro!: meta_wf_update simp: opt_set_def split: option.splits)

lemma set_size_wf: "meta_wf m \<Longrightarrow> meta_wf (set_size m i sz)"
  unfolding set_size_def by (rule meta_wf_update) simp_all

lemma meta_wf_chunks_blobs:
  assumes "meta_wf m" "keyed cs" "keyed bs"
  shows "meta_wf (m\<lparr>chunks := cs, blobs := bs\<rparr>)"
  using assms
  by (simp add: meta_wf_def tables_ok_def nlink_balanced_def ino_is_dir_def want_nlink_def
      links_to_def subdirs_def)

lemma new_meta_wf: "meta_wf (new_meta now uid gid)"
  by (auto simp: new_meta_def ensure_root_def sql_select_def meta_wf_def tables_ok_def
      nlink_balanced_def ino_is_dir_def want_nlink_def links_to_def subdirs_def get_inode_def
      ROOT_INO_def keyed_def)

end
