(* ===== verification/ReadCache.thy ===== *)
theory ReadCache
  imports SqlTable
begin

section \<open>The read cache (tgfs/cache.py, class ReadCache)\<close>

text \<open>
  A bounded LRU cache of chunk contents on disk. \<open>rc_index\<close> is the \<open>OrderedDict\<close> from digest
  to size, least recently used first; \<open>rc_files\<close> is the cache directory; \<open>rc_inflight\<close> the
  digests another thread is downloading at the moment; \<open>rc_disk_ok\<close> says whether writing a
  file to the directory works (a full disk makes \<open>_store\<close> give up). Files can vanish from
  \<open>rc_files\<close> behind the index: opening one then fails and counts as a miss.
\<close>

record readcache =
  rc_cap :: int
  rc_index :: "(sha \<times> nat) list"
  rc_total :: int
  rc_files :: "(sha, bytes) table"
  rc_inflight :: "sha list"
  rc_disk_ok :: bool

text \<open>
  \<open>__init__\<close>: the files already in the directory, in the order of their modification times,
  enter the index.
\<close>

definition rc_open :: "int \<Rightarrow> (sha \<times> bytes) list \<Rightarrow> readcache" where
  "rc_open cap files =
     \<lparr>rc_cap = cap, rc_index = map (\<lambda>(s, d). (s, length d)) files,
      rc_total = (\<Sum>(s, d) \<leftarrow> files. int (length d)), rc_files = files, rc_inflight = [],
      rc_disk_ok = True\<rparr>"

definition move_to_end :: "'k \<Rightarrow> ('k \<times> 'v) list \<Rightarrow> ('k \<times> 'v) list" where
  "move_to_end k xs =
     (case map_of xs k of
        None \<Rightarrow> xs
      | Some v \<Rightarrow> filter (\<lambda>(j, _). j \<noteq> k) xs @ [(k, v)])"

text \<open>A byte range, \<open>None\<close> for the whole blob: \<open>data if lo is None else data[lo:hi]\<close>.\<close>

type_synonym range = "(nat \<times> nat) option"

definition range_of :: "bytes \<Rightarrow> range \<Rightarrow> bytes" where
  "range_of d rng = (case rng of None \<Rightarrow> d | Some (lo, hi) \<Rightarrow> slice d lo hi)"

definition read_cached :: "readcache \<Rightarrow> sha \<Rightarrow> range \<Rightarrow> bytes option \<times> readcache" where
  "read_cached c sh rng =
     (case map_of (rc_index c) sh of
        None \<Rightarrow> (None, c)
      | Some sz \<Rightarrow>
          (let c1 = c\<lparr>rc_index := move_to_end sh (rc_index c)\<rparr>
           in case sql_select (rc_files c) sh of
                Some d \<Rightarrow> (Some (range_of d rng), c1)
              | None \<Rightarrow>
                  (None, c1\<lparr>rc_index := filter (\<lambda>(j, _). j \<noteq> sh) (rc_index c1),
                            rc_total := rc_total c1 - int sz\<rparr>)))"

text \<open>\<open>_evict\<close>: drop the oldest entries while over the cap, but never the last one.\<close>

fun evict_loop :: "int \<Rightarrow> int \<Rightarrow> (sha \<times> nat) list \<Rightarrow> (sha, bytes) table \<Rightarrow>
    int \<times> (sha \<times> nat) list \<times> (sha, bytes) table" where
  "evict_loop cap tot ((old_sha, old_sz) # e # es) files =
     (if tot > cap
      then evict_loop cap (tot - int old_sz) (e # es) (sql_delete files (\<lambda>k. k = old_sha))
      else (tot, (old_sha, old_sz) # e # es, files))"
| "evict_loop cap tot es files = (tot, es, files)"

definition evict :: "readcache \<Rightarrow> readcache" where
  "evict c =
     (case evict_loop (rc_cap c) (rc_total c) (rc_index c) (rc_files c) of
        (t, ix, fs) \<Rightarrow> c\<lparr>rc_total := t, rc_index := ix, rc_files := fs\<rparr>)"

definition store_blob :: "readcache \<Rightarrow> sha \<Rightarrow> bytes \<Rightarrow> readcache" where
  "store_blob c sh d =
     (if map_of (rc_index c) sh = None
      then (if \<not> rc_disk_ok c then c
            else evict (c\<lparr>rc_files := sql_delete (rc_files c) (\<lambda>k. k = sh) @ [(sh, d)],
                          rc_index := rc_index c @ [(sh, length d)],
                          rc_total := rc_total c + int (length d)\<rparr>))
      else evict (c\<lparr>rc_index := move_to_end sh (rc_index c)\<rparr>))"

text \<open>
  \<open>_load_once\<close>: the first caller downloads (\<open>Some data\<close>); a caller that finds the digest in
  flight waits for the other and gets \<open>None\<close>. The entry leaves \<open>rc_inflight\<close> also when the
  loader raises.
\<close>

definition load_once :: "readcache \<Rightarrow> 's \<Rightarrow> sha \<Rightarrow> ('s \<Rightarrow> (bytes, 's) res) \<Rightarrow>
    (exn + bytes option) \<times> readcache \<times> 's" where
  "load_once c s sh loader =
     (if sh \<in> set (rc_inflight c) then (Inr None, c, s)
      else (let c1 = c\<lparr>rc_inflight := rc_inflight c @ [sh]\<rparr>
            in case loader s of
                 (Inl e, s') \<Rightarrow>
                   (Inl e, c1\<lparr>rc_inflight := removeAll sh (rc_inflight c1)\<rparr>, s')
               | (Inr d, s') \<Rightarrow>
                   (let c2 = store_blob c1 sh d
                    in (Inr (Some d), c2\<lparr>rc_inflight := removeAll sh (rc_inflight c2)\<rparr>, s'))))"

text \<open>\<open>for _ in range(3)\<close>, then a direct load.\<close>

fun range_tries :: "nat \<Rightarrow> readcache \<Rightarrow> 's \<Rightarrow> sha \<Rightarrow> range \<Rightarrow> ('s \<Rightarrow> (bytes, 's) res) \<Rightarrow>
    (exn + bytes) \<times> readcache \<times> 's" where
  "range_tries 0 c s sh rng loader =
     (case loader s of
        (Inl e, s') \<Rightarrow> (Inl e, c, s')
      | (Inr d, s') \<Rightarrow> (Inr (range_of d rng), c, s'))"
| "range_tries (Suc n) c s sh rng loader =
     (case read_cached c sh rng of
        (Some got, c1) \<Rightarrow> (Inr got, c1, s)
      | (None, c1) \<Rightarrow>
          (case load_once c1 s sh loader of
             (Inl e, c2, s') \<Rightarrow> (Inl e, c2, s')
           | (Inr (Some d), c2, s') \<Rightarrow> (Inr (range_of d rng), c2, s')
           | (Inr None, c2, s') \<Rightarrow> range_tries n c2 s' sh rng loader))"

definition get_range :: "readcache \<Rightarrow> 's \<Rightarrow> sha \<Rightarrow> range \<Rightarrow> ('s \<Rightarrow> (bytes, 's) res) \<Rightarrow>
    (exn + bytes) \<times> readcache \<times> 's" where
  "get_range c s sh rng loader = range_tries 3 c s sh rng loader"

definition rc_get :: "readcache \<Rightarrow> 's \<Rightarrow> sha \<Rightarrow> ('s \<Rightarrow> (bytes, 's) res) \<Rightarrow>
    (exn + bytes) \<times> readcache \<times> 's" where
  "rc_get c s sh loader = get_range c s sh None loader"

definition rc_has :: "readcache \<Rightarrow> sha \<Rightarrow> bool" where
  "rc_has c sh \<longleftrightarrow> map_of (rc_index c) sh \<noteq> None \<or> sh \<in> set (rc_inflight c)"

definition rc_prefetch :: "readcache \<Rightarrow> 's \<Rightarrow> sha \<Rightarrow> ('s \<Rightarrow> (bytes, 's) res) \<Rightarrow>
    (exn + unit) \<times> readcache \<times> 's" where
  "rc_prefetch c s sh loader =
     (if rc_has c sh then (Inr (), c, s)
      else (case load_once c s sh loader of
              (Inl e, c', s') \<Rightarrow> (Inl e, c', s')
            | (Inr _, c', s') \<Rightarrow> (Inr (), c', s')))"

subsection \<open>The accounting invariant\<close>

definition rc_wf :: "readcache \<Rightarrow> bool" where
  "rc_wf c \<longleftrightarrow> keyed (rc_index c) \<and> keyed (rc_files c) \<and>
     rc_total c = (\<Sum>(s, z) \<leftarrow> rc_index c. int z) \<and>
     (\<forall>s d. sql_select (rc_files c) s = Some d \<longrightarrow> map_of (rc_index c) s = Some (length d))"

definition rc_bounded :: "readcache \<Rightarrow> bool" where
  "rc_bounded c \<longleftrightarrow> rc_total c \<le> rc_cap c \<or> length (rc_index c) \<le> 1"

text \<open>Every cached file has the content its name promises.\<close>

definition rc_coherent :: "(bytes \<Rightarrow> sha) \<Rightarrow> readcache \<Rightarrow> bool" where
  "rc_coherent hash c \<longleftrightarrow> (\<forall>s d. sql_select (rc_files c) s = Some d \<longrightarrow> hash d = s)"

lemma map_of_filter_key:
  "map_of (filter (\<lambda>(j, _). j \<noteq> k) xs) i = (if i = k then None else map_of xs i)"
  by (induction xs) auto

lemma keyed_filter: "keyed xs \<Longrightarrow> keyed (filter P xs)"
  by (simp add: keyed_def distinct_map_filter)

lemma map_of_move_to_end [simp]: "map_of (move_to_end k xs) i = map_of xs i"
  by (auto simp: move_to_end_def map_of_filter_key map_add_def split: option.splits)

lemma keyed_move_to_end: "keyed xs \<Longrightarrow> keyed (move_to_end k xs)"
  by (auto simp: move_to_end_def keyed_filter [unfolded keyed_def] keyed_def split: option.splits
      dest: distinct_map_filter)

lemma filter_key_absent: "k \<notin> fst ` set xs \<Longrightarrow> filter (\<lambda>(j, _). j \<noteq> k) xs = xs"
  by (induction xs) auto

lemma sum_filter_key:
  "keyed xs \<Longrightarrow> map_of xs k = Some v \<Longrightarrow>
     (\<Sum>(s, z) \<leftarrow> filter (\<lambda>(j, _). j \<noteq> k) xs. int z) = (\<Sum>(s, z) \<leftarrow> xs. int z) - int v"
proof (induction xs)
  case Nil
  then show ?case by simp
next
  case (Cons x xs)
  obtain j z where x: "x = (j, z)" by force
  show ?case
    using Cons x filter_key_absent [of k xs] by (cases "j = k") (auto simp: keyed_def)
qed

lemma sum_move_to_end:
  "keyed xs \<Longrightarrow> (\<Sum>(s, z) \<leftarrow> move_to_end k xs. int z) = (\<Sum>(s, z) \<leftarrow> xs. int z)"
  by (auto simp: move_to_end_def sum_filter_key split: option.splits)

lemma rc_wf_touch: "rc_wf c \<Longrightarrow> rc_wf (c\<lparr>rc_index := move_to_end sh (rc_index c)\<rparr>)"
  by (simp add: rc_wf_def keyed_move_to_end sum_move_to_end)

lemma length_move_to_end [simp]: "keyed xs \<Longrightarrow> length (move_to_end k xs) = length xs"
proof -
  assume k: "keyed xs"
  have "length (filter (\<lambda>(j, _). j \<noteq> k) xs) + 1 = length xs" if "map_of xs k = Some v" for v
    using k that
  proof (induction xs)
    case (Cons x xs)
    obtain j z where x: "x = (j, z)" by force
    from Cons x filter_key_absent [of k xs] show ?case by (cases "j = k") (auto simp: keyed_def)
  qed simp
  then show ?thesis by (auto simp: move_to_end_def split: option.splits)
qed

subsection \<open>Eviction\<close>

definition sizes :: "(sha \<times> nat) list \<Rightarrow> int" where
  "sizes ix = (\<Sum>(s, z) \<leftarrow> ix. int z)"

lemma sizes_simps [simp]:
  "sizes [] = 0" "sizes ((s, z) # ix) = int z + sizes ix" "sizes (ix @ iy) = sizes ix + sizes iy"
  by (simp_all add: sizes_def)

text \<open>
  The loop removes a prefix of the index (the least recently used entries), no longer than
  needed, and the files of exactly that prefix.
\<close>

lemma evict_loop_spec:
  assumes "evict_loop cap tot ix files = (t, ix', files')"
  shows "\<exists>n. ix' = drop n ix \<and> t = tot - sizes (take n ix) \<and> (t \<le> cap \<or> length ix' \<le> 1) \<and>
      (\<forall>k < n. cap < tot - sizes (take k ix)) \<and> (ix \<noteq> [] \<longrightarrow> ix' \<noteq> []) \<and>
      (\<forall>s. sql_select files' s =
         (if s \<in> fst ` set (take n ix) then None else sql_select files s)) \<and>
      (keyed files \<longrightarrow> keyed files')"
  using assms
proof (induction cap tot ix files rule: evict_loop.induct)
  case (1 cap tot old_sha old_sz e es files)
  show ?case
  proof (cases "tot > cap")
    case False
    with 1 show ?thesis by (intro exI [of _ 0]) auto
  next
    case True
    with "1.prems" have
      "evict_loop cap (tot - int old_sz) (e # es) (sql_delete files (\<lambda>k. k = old_sha)) =
         (t, ix', files')" by simp
    from "1.IH" [OF True this] obtain n where n: "ix' = drop n (e # es)"
      "t = tot - int old_sz - sizes (take n (e # es))" "t \<le> cap \<or> length ix' \<le> 1"
      "\<forall>k < n. cap < tot - int old_sz - sizes (take k (e # es))" "ix' \<noteq> []"
      "\<forall>s. sql_select files' s = (if s \<in> fst ` set (take n (e # es)) then None
         else sql_select (sql_delete files (\<lambda>k. k = old_sha)) s)"
      "keyed (sql_delete files (\<lambda>k. k = old_sha)) \<longrightarrow> keyed files'" by auto
    have "\<forall>k < Suc n. cap < tot - sizes (take k ((old_sha, old_sz) # e # es))"
    proof (intro allI impI)
      fix k assume "k < Suc n"
      with True n(4) show "cap < tot - sizes (take k ((old_sha, old_sz) # e # es))"
        by (cases k) (auto simp: diff_diff_add)
    qed
    with n show ?thesis
      by (intro exI [of _ "Suc n"]) (auto simp: select_delete)
  qed
qed (rule exI [of _ 0], auto)+

lemma keyed_drop: "keyed ix \<Longrightarrow> keyed (drop n ix)"
  by (simp add: keyed_def drop_map [symmetric])

lemma map_of_drop_keyed:
  assumes "keyed ix" "map_of ix s = Some z" "s \<notin> fst ` set (take n ix)"
  shows "map_of (drop n ix) s = Some z"
proof -
  have "map_of (take n ix @ drop n ix) s = Some z" using assms(2) by simp
  moreover have "map_of (take n ix) s = None" using assms(3) by (simp add: map_of_eq_None_iff)
  ultimately show ?thesis
    by (simp only: map_of_append map_add_def) (auto split: option.splits)
qed

lemma evict_frame [simp, frame]:
  "rc_cap (evict c) = rc_cap c" "rc_inflight (evict c) = rc_inflight c"
  "rc_disk_ok (evict c) = rc_disk_ok c"
  by (simp_all add: evict_def split: prod.splits)

lemma evict_ok:
  assumes "rc_wf c"
  shows "rc_wf (evict c)" "rc_bounded (evict c)"
    and "\<exists>n. rc_index (evict c) = drop n (rc_index c) \<and>
      (\<forall>k < n. rc_cap c < sizes (drop k (rc_index c))) \<and> (rc_index c \<noteq> [] \<longrightarrow> rc_index (evict c) \<noteq> [])"
    and "sql_select (rc_files (evict c)) s = Some d \<Longrightarrow> sql_select (rc_files c) s = Some d"
proof -
  obtain t ix fs where e: "evict_loop (rc_cap c) (rc_total c) (rc_index c) (rc_files c) = (t, ix, fs)"
    by (metis prod_cases3)
  then have ev: "evict c = c\<lparr>rc_total := t, rc_index := ix, rc_files := fs\<rparr>"
    by (simp add: evict_def)
  from evict_loop_spec [OF e] obtain n where n: "ix = drop n (rc_index c)"
    "t = rc_total c - sizes (take n (rc_index c))" "t \<le> rc_cap c \<or> length ix \<le> 1"
    "\<forall>k < n. rc_cap c < rc_total c - sizes (take k (rc_index c))" "rc_index c \<noteq> [] \<longrightarrow> ix \<noteq> []"
    "\<forall>s. sql_select fs s = (if s \<in> fst ` set (take n (rc_index c)) then None
       else sql_select (rc_files c) s)"
    "keyed (rc_files c) \<longrightarrow> keyed fs" by blast
  have part: "rc_total c - sizes (take k (rc_index c)) = sizes (drop k (rc_index c))" for k
  proof -
    have "rc_total c = sizes (take k (rc_index c) @ drop k (rc_index c))"
      using assms by (simp only: append_take_drop_id) (simp add: rc_wf_def sizes_def)
    then show ?thesis by (simp del: append_take_drop_id)
  qed
  show "rc_wf (evict c)"
    using assms n keyed_drop [of "rc_index c" n] map_of_drop_keyed [of "rc_index c" _ _ n] part [of n]
    by (auto simp: rc_wf_def ev sizes_def split: if_splits)
  show "rc_bounded (evict c)" using n(3) by (simp add: rc_bounded_def ev)
  show "\<exists>n. rc_index (evict c) = drop n (rc_index c) \<and>
      (\<forall>k < n. rc_cap c < sizes (drop k (rc_index c))) \<and> (rc_index c \<noteq> [] \<longrightarrow> rc_index (evict c) \<noteq> [])"
    using n(1,4,5) part by (intro exI [of _ n]) (simp add: ev)
  show "sql_select (rc_files (evict c)) s = Some d \<Longrightarrow> sql_select (rc_files c) s = Some d"
    using n(6) by (simp add: ev split: if_splits)
qed

subsection \<open>Lookups and stores keep the accounting\<close>

lemma rc_wf_index_None:
  "rc_wf c \<Longrightarrow> map_of (rc_index c) s = None \<Longrightarrow> sql_select (rc_files c) s = None"
  by (cases "sql_select (rc_files c) s") (auto simp: rc_wf_def)

lemma store_blob_ok:
  assumes "rc_wf c" "rc_coherent hash c" "hash d = sh"
  shows "rc_wf (store_blob c sh d)" "rc_coherent hash (store_blob c sh d)"
    and "rc_bounded c \<Longrightarrow> rc_bounded (store_blob c sh d)"
proof -
  define c1 where "c1 = c\<lparr>rc_files := sql_delete (rc_files c) (\<lambda>k. k = sh) @ [(sh, d)],
    rc_index := rc_index c @ [(sh, length d)], rc_total := rc_total c + int (length d)\<rparr>"
  have new: "rc_wf c1 \<and> rc_coherent hash c1" if "map_of (rc_index c) sh = None"
  proof -
    have nf: "sql_select (rc_files c) sh = None" using assms(1) that by (rule rc_wf_index_None)
    have "keyed (rc_index c @ [(sh, length d)])"
      using assms(1) that keyed_append_new [of "rc_index c" sh] by (simp add: rc_wf_def sql_select_def)
    moreover have "keyed (rc_files c @ [(sh, d)])"
      using assms(1) nf by (simp add: rc_wf_def keyed_append_new)
    ultimately show ?thesis
      using assms that nf
      by (auto simp: rc_wf_def rc_coherent_def c1_def delete_absent select_append_new map_add_def
          split: option.splits if_splits)
  qed
  have touch: "rc_wf (c\<lparr>rc_index := move_to_end sh (rc_index c)\<rparr>)" using assms(1) by (rule rc_wf_touch)
  show "rc_wf (store_blob c sh d)"
    using assms(1) evict_ok(1) new touch by (auto simp: store_blob_def c1_def)
  show "rc_coherent hash (store_blob c sh d)"
    using assms(2) evict_ok(4) [of c1] evict_ok(4) [OF touch] new
    by (auto simp: store_blob_def c1_def rc_coherent_def)
  show "rc_bounded c \<Longrightarrow> rc_bounded (store_blob c sh d)"
    using evict_ok(2) [of c1] evict_ok(2) [OF touch] new by (auto simp: store_blob_def c1_def)
qed

lemma read_cached_ok:
  assumes "rc_wf c" "rc_coherent hash c" "read_cached c sh rng = (r, c')"
  shows "rc_wf c'" "rc_coherent hash c'" "rc_bounded c \<Longrightarrow> rc_bounded c'"
    and "r = Some x \<Longrightarrow> \<exists>d. hash d = sh \<and> x = range_of d rng"
    and "rc_inflight c' = rc_inflight c"
proof -
  note touch = rc_wf_touch [OF assms(1), of sh]
  have k: "keyed (rc_index c)" using assms(1) by (simp add: rc_wf_def)
  define c2 where "c2 sz = c\<lparr>rc_index := filter (\<lambda>(j, _). j \<noteq> sh) (move_to_end sh (rc_index c)),
      rc_total := rc_total c - int sz\<rparr>" for sz
  have len: "length (filter P (move_to_end sh (rc_index c))) \<le> length (rc_index c)" for P
    using length_filter_le [of P "move_to_end sh (rc_index c)"] k by simp
  have drop: "rc_wf (c2 sz)" if "map_of (rc_index c) sh = Some sz"
      "sql_select (rc_files c) sh = None" for sz
    using assms(1) that keyed_move_to_end [OF k, of sh] sum_filter_key [of "move_to_end sh (rc_index c)" sh sz]
    by (auto simp: rc_wf_def c2_def keyed_filter map_of_filter_key sum_move_to_end)
  show "rc_wf c'" "rc_coherent hash c'" "rc_inflight c' = rc_inflight c"
    "r = Some x \<Longrightarrow> \<exists>d. hash d = sh \<and> x = range_of d rng"
    using assms touch drop
    by (auto simp: read_cached_def c2_def rc_coherent_def Let_def split: option.splits)
  show "rc_bounded c \<Longrightarrow> rc_bounded c'"
    using assms(3) len [of "\<lambda>(j, _). j \<noteq> sh"] k
    by (fastforce simp: read_cached_def rc_bounded_def Let_def split: option.splits)
qed

lemma load_once_ok:
  assumes "rc_wf c" "rc_coherent hash c" "load_once c s sh loader = (r, c', s')"
    and honest: "\<And>d. fst (loader s) = Inr d \<Longrightarrow> hash d = sh"
  shows "rc_wf c'" "rc_coherent hash c'" "rc_bounded c \<Longrightarrow> rc_bounded c'"
    and "r = Inr (Some d) \<Longrightarrow> hash d = sh"
    and "s' = s \<or> s' = snd (loader s)"
proof -
  have frame: "rc_wf (c\<lparr>rc_inflight := l\<rparr>) = rc_wf c" "rc_coherent hash (c\<lparr>rc_inflight := l\<rparr>) = rc_coherent hash c"
    "rc_bounded (c\<lparr>rc_inflight := l\<rparr>) = rc_bounded c" for l c
    by (simp_all add: rc_wf_def rc_coherent_def rc_bounded_def)
  show "rc_wf c'" "rc_coherent hash c'" "rc_bounded c \<Longrightarrow> rc_bounded c'"
    "r = Inr (Some d) \<Longrightarrow> hash d = sh" "s' = s \<or> s' = snd (loader s)"
    using assms store_blob_ok [of "c\<lparr>rc_inflight := rc_inflight c @ [sh]\<rparr>" hash _ sh]
    by (auto simp: load_once_def Let_def frame split: if_splits prod.splits sum.splits)
qed

subsection \<open>The contract of a chunk source\<close>

text \<open>
  What the store needs of whatever stands between it and the backend: given a loader that
  only returns data of the right digest, \<open>get\<close> returns the requested range of a blob of that
  digest or raises, and touches the loader's state only through the loader.
\<close>

locale chunk_source =
  fixes get :: "'c \<Rightarrow> 's \<Rightarrow> sha \<Rightarrow> range \<Rightarrow> ('s \<Rightarrow> (bytes, 's) res) \<Rightarrow> (exn + bytes) \<times> 'c \<times> 's"
    and ok :: "(bytes \<Rightarrow> sha) \<Rightarrow> 'c \<Rightarrow> bool"
  assumes get_ok: "ok hash c \<Longrightarrow> P s \<Longrightarrow> (\<And>t d t'. P t \<Longrightarrow> loader t = (Inr d, t') \<Longrightarrow> hash d = sh) \<Longrightarrow>
      get c s sh rng loader = (r, c', s') \<Longrightarrow> ok hash c'"
    and get_value: "ok hash c \<Longrightarrow> P s \<Longrightarrow> (\<And>t d t'. P t \<Longrightarrow> loader t = (Inr d, t') \<Longrightarrow> hash d = sh) \<Longrightarrow>
      get c s sh rng loader = (Inr x, c', s') \<Longrightarrow> \<exists>d. hash d = sh \<and> x = range_of d rng"
    and get_state: "P s \<Longrightarrow> (\<And>t. P t \<Longrightarrow> P (snd (loader t))) \<Longrightarrow>
      get c s sh rng loader = (r, c', s') \<Longrightarrow> P s'"
    and get_returns: "P s \<Longrightarrow> (\<And>t. P t \<Longrightarrow> \<exists>d. fst (loader t) = Inr d) \<Longrightarrow>
      (\<And>t. P t \<Longrightarrow> P (snd (loader t))) \<Longrightarrow> \<exists>x. fst (get c s sh rng loader) = Inr x"
begin

text \<open>With a collision-free digest the range is that of the one blob with this digest.\<close>

lemma get_unique:
  assumes "inj hash" "hash d = sh" "ok hash c" "P s"
    and "\<And>t d t'. P t \<Longrightarrow> loader t = (Inr d, t') \<Longrightarrow> hash d = sh"
    and "get c s sh rng loader = (Inr x, c', s')"
  shows "x = range_of d rng"
proof -
  from get_value [of hash c P s loader sh rng x c' s'] assms
  obtain d' where "hash d' = sh" "x = range_of d' rng" by blast
  with assms(1,2) show ?thesis by (auto dest: injD)
qed

end

text \<open>The cache meets the contract, also while other threads hold digests in flight.\<close>

definition rc_ok :: "(bytes \<Rightarrow> sha) \<Rightarrow> readcache \<Rightarrow> bool" where
  "rc_ok hash c \<longleftrightarrow> rc_wf c \<and> rc_coherent hash c"

lemma range_tries_ok:
  assumes "rc_ok hash c" "P s"
    and honest: "\<And>t d t'. P t \<Longrightarrow> loader t = (Inr d, t') \<Longrightarrow> hash d = sh"
    and "range_tries n c s sh rng loader = (r, c', s')"
  shows "rc_ok hash c' \<and> (rc_bounded c \<longrightarrow> rc_bounded c') \<and>
    (\<forall>x. r = Inr x \<longrightarrow> (\<exists>d. hash d = sh \<and> x = range_of d rng))"
  using assms
proof (induction n c s sh rng loader rule: range_tries.induct)
  case (1 c s sh rng loader)
  then show ?case by (fastforce split: prod.splits sum.splits)
next
  case (2 n c s sh rng loader)
  obtain got c1 where rd: "read_cached c sh rng = (got, c1)" by force
  have wf: "rc_wf c" "rc_coherent hash c" using "2.prems"(1) by (simp_all add: rc_ok_def)
  note r1 = read_cached_ok [OF wf rd]
  show ?case
  proof (cases got)
    case (Some g)
    with "2.prems"(4) rd r1 show ?thesis by (auto simp: rc_ok_def)
  next
    case None
    obtain r2 c2 s2 where lo: "load_once c1 s sh loader = (r2, c2, s2)" by (metis prod_cases3)
    have "hash d = sh" if "fst (loader s) = Inr d" for d
    using "2.prems"(2,3) that by (metis prod.collapse)
  note l1 = load_once_ok [OF r1(1,2) lo this]
    have s2: "s2 = s" if "r2 = Inr None"
      using lo that by (auto simp: load_once_def Let_def split: if_splits prod.splits sum.splits)
    show ?thesis
    proof (cases "r2 = Inr None")
      case True
      have "range_tries n c2 s2 sh rng loader = (r, c', s')"
        using "2.prems"(4) rd None lo True by simp
      with "2.IH" [OF rd [symmetric] None lo [symmetric] True refl refl] l1 r1 s2 [OF True] "2.prems"(2,3)
      show ?thesis by (auto simp: rc_ok_def)
    next
      case False
      with "2.prems"(4) rd None lo l1 r1 show ?thesis
        by (auto simp: rc_ok_def split: sum.splits option.splits)
    qed
  qed
qed

lemma range_tries_state:
  assumes "P s" "\<And>t. P t \<Longrightarrow> P (snd (loader t))" "range_tries n c s sh rng loader = (r, c', s')"
  shows "P s'"
  using assms
proof (induction n c s sh rng loader rule: range_tries.induct)
  case (1 c s sh rng loader)
  then show ?case by (force split: prod.splits sum.splits)
next
  case (2 n c s sh rng loader)
  obtain got c1 where rd: "read_cached c sh rng = (got, c1)" by force
  obtain r2 c2 s2 where lo: "load_once c1 s sh loader = (r2, c2, s2)" by (metis prod_cases3)
  have s2: "P s2"
    using lo "2.prems"(1) "2.prems"(2) [of s]
    by (auto simp: load_once_def Let_def split: if_splits prod.splits sum.splits)
  show ?case
  proof (cases "got = None \<and> r2 = Inr None")
    case True
    then have "range_tries n c2 s2 sh rng loader = (r, c', s')" using "2.prems"(3) rd lo by simp
    with "2.IH" [OF rd [symmetric] _ lo [symmetric] _ refl refl s2] True "2.prems"(2)
    show ?thesis by blast
  next
    case False
    with "2.prems"(1,3) rd lo s2 show ?thesis
      by (auto split: sum.splits option.splits)
  qed
qed

lemma range_tries_returns:
  assumes "P s" "\<And>t. P t \<Longrightarrow> \<exists>d. fst (loader t) = Inr d" "\<And>t. P t \<Longrightarrow> P (snd (loader t))"
  shows "\<exists>x. fst (range_tries n c s sh rng loader) = Inr x"
  using assms
proof (induction n c s sh rng loader rule: range_tries.induct)
  case (1 c s sh rng loader)
  then show ?case by (force split: prod.splits sum.splits)
next
  case (2 n c s sh rng loader)
  obtain d t where l: "loader s = (Inr d, t)" using "2.prems"(1,2) by (metis prod.collapse)
  obtain got c1 where rd: "read_cached c sh rng = (got, c1)" by force
  obtain r2 c2 s2 where lo: "load_once c1 s sh loader = (r2, c2, s2)" by (metis prod_cases3)
  then have r2: "r2 = Inr (Some d) \<or> r2 = Inr None \<and> s2 = s"
    by (auto simp: load_once_def Let_def l split: if_splits)
  show ?case
  proof (cases "got = None \<and> r2 = Inr None")
    case True
    with r2 have "P s2" using "2.prems"(1) by simp
    with "2.IH" [OF rd [symmetric] _ lo [symmetric] _ refl refl this] True "2.prems"(2,3)
    show ?thesis using rd lo by simp
  next
    case False
    with rd lo r2 show ?thesis by (auto split: option.splits)
  qed
qed

interpretation cached: chunk_source get_range rc_ok
proof unfold_locales
  fix hash :: "bytes \<Rightarrow> sha" and c :: readcache and P :: "'a \<Rightarrow> bool" and s and loader :: "'a \<Rightarrow> (bytes, 'a) res" and sh rng r c' s'
  assume "rc_ok hash c" "P s" "\<And>t d t'. P t \<Longrightarrow> loader t = (Inr d, t') \<Longrightarrow> hash d = sh"
    "get_range c s sh rng loader = (r, c', s')"
  then show "rc_ok hash c'" unfolding get_range_def
    using range_tries_ok [of hash c P s loader sh] by blast
next
  fix hash :: "bytes \<Rightarrow> sha" and c :: readcache and P :: "'a \<Rightarrow> bool" and s and loader :: "'a \<Rightarrow> (bytes, 'a) res" and sh rng x c' s'
  assume "rc_ok hash c" "P s" "\<And>t d t'. P t \<Longrightarrow> loader t = (Inr d, t') \<Longrightarrow> hash d = sh"
    "get_range c s sh rng loader = (Inr x, c', s')"
  then show "\<exists>d. hash d = sh \<and> x = range_of d rng" unfolding get_range_def
    using range_tries_ok [of hash c P s loader sh] by blast
next
  fix c :: readcache and P :: "'a \<Rightarrow> bool" and s and loader :: "'a \<Rightarrow> (bytes, 'a) res" and sh rng r c' s'
  assume "P s" "\<And>t. P t \<Longrightarrow> P (snd (loader t))" "get_range c s sh rng loader = (r, c', s')"
  then show "P s'" unfolding get_range_def by (rule range_tries_state)
next
  fix c :: readcache and P :: "'a \<Rightarrow> bool" and s and loader :: "'a \<Rightarrow> (bytes, 'a) res" and sh rng
  assume "P s" "\<And>t. P t \<Longrightarrow> \<exists>d. fst (loader t) = Inr d" "\<And>t. P t \<Longrightarrow> P (snd (loader t))"
  then show "\<exists>x. fst (get_range c s sh rng loader) = Inr x" unfolding get_range_def
    by (rule range_tries_returns)
qed

end
