(* ===== verification/MetaProps.thy ===== *)
theory MetaProps
  imports MetaInv ReadCache
begin

section \<open>Properties of the metadata index and of the read cache\<close>

text \<open>
  The tree operations of \<open>Meta\<close> keep the index well formed and do what their names say; the
  read cache stays within its bound and never returns a wrong byte. \<open>demo_meta\<close> is a new
  database with a directory \<open>d\<close> holding a file \<open>f\<close>, for the witnesses.
\<close>

definition demo_dir :: meta where
  "demo_dir = snd (create (new_meta 0 1000 1000) 1 ''d'' 16877 KDir 1000 1000 None)"

definition demo_meta :: meta where
  "demo_meta = snd (create demo_dir 2 ''f'' 33188 KFile 1000 1000 None)"

lemma demo_meta_wf: "meta_wf demo_dir" "meta_wf demo_meta"
proof -
  have "sql_select (dirents (new_meta 0 1000 1000)) (1, ''d'') = None"
    "get_inode (new_meta 0 1000 1000) 1 \<noteq> None" by code_simp+
  from create_wf [OF new_meta_wf this] show dir: "meta_wf demo_dir"
    by (metis demo_dir_def prod.collapse)
  have "sql_select (dirents demo_dir) (2, ''f'') = None" "get_inode demo_dir 2 \<noteq> None"
    by code_simp+
  from create_wf [OF dir this] show "meta_wf demo_meta"
    by (metis demo_meta_def prod.collapse)
qed

subsection \<open>The tree\<close>

text \<open>C14: \<open>create\<close> of a free name in an existing directory returns the new inode: it has an
  unused number, the type and mode asked for, size 0 and the right link count; the name now
  leads to it, and the database is well formed again (in particular the parent's link count
  includes a new subdirectory).\<close>

theorem create_makes_entry:
  assumes "meta_wf m" "sql_select (dirents m) (parent, name) = None" "get_inode m parent \<noteq> None"
  shows "\<exists>n m'. create m parent name mode knd uid gid target = (Inr n, m') \<and> meta_wf m' \<and>
    get_inode m (i_id n) = None \<and> get_inode m' (i_id n) = Some n \<and> lookup m' parent name = Some n \<and>
    i_kind n = knd \<and> i_mode n = mode \<and> i_size n = 0 \<and> i_nlink n = (if knd = KDir then 2 else 1) \<and>
    i_target n = target"
proof -
  obtain r m' where res: "create m parent name mode knd uid gid target = (r, m')" by force
  from create_wf [OF assms res] obtain n where wf: "meta_wf m'" and r: "r = Inr n"
    and n: "get_inode m' (Suc (seq m)) = Some n" "i_kind n = knd"
    and d: "sql_select (dirents m') (parent, name) = Some (Suc (seq m))" by blast
  have old: "get_inode m (Suc (seq m)) = None" by (rule fresh_ino(1) [OF meta_wfD(1) [OF assms(1)]])
  have id: "i_id n = Suc (seq m)" using tables_okD(5) [OF meta_wfD(1) [OF wf] n(1)] .
  have ne: "parent \<noteq> Suc (seq m)" using assms(3) old by auto
  have "i_mode n = mode \<and> i_size n = 0 \<and> i_nlink n = (if knd = KDir then 2 else 1) \<and> i_target n = target"
    using res r old ne assms(2)
    by (auto simp: create_def Let_def sql_insert_def get_inode_def add_nlink_def select_append_new
        select_update split: if_splits)
  with res r wf n d old id show ?thesis by (simp add: lookup_def)
qed

theorem create_makes_entry_witness:
  "\<exists>n m'. create demo_meta 2 ''g'' 33188 KFile 0 0 None = (Inr n, m') \<and> lookup m' 2 ''g'' = Some n"
proof -
  have "sql_select (dirents demo_meta) (2, ''g'') = None" "get_inode demo_meta 2 \<noteq> None"
    by code_simp+
  from create_makes_entry [OF demo_meta_wf(2) this, of 33188 KFile 0 0 None] show ?thesis by blast
qed

text \<open>C15: \<open>unlink_dirent\<close> removes exactly the named entry and nothing else from the directory
  tables, returns the inode it named with the remaining link count, deletes the inode row if
  and only if that count is not positive, and keeps the database well formed; a missing name
  is an error that changes nothing.\<close>

theorem unlink_dirent_effect:
  assumes "meta_wf m"
  shows "meta_wf (snd (unlink_dirent m p name)) \<and>
    (case sql_select (dirents m) (p, name) of
       None \<Rightarrow> unlink_dirent m p name = (Inl (OSError None), m)
     | Some c \<Rightarrow> (\<exists>k m'. unlink_dirent m p name = (Inr (c, k), m') \<and>
         dirents m' = sql_delete (dirents m) (\<lambda>e. e = (p, name)) \<and>
         (if k \<le> 0 then get_inode m' c = None else map_option i_nlink (get_inode m' c) = Some k) \<and>
         chunks m' = chunks m \<and> blobs m' = blobs m))"
  using assms
proof (cases rule: unlink_dirent_cases [of m p name])
  case missing
  with assms show ?thesis by simp
next
  case (gone c n m3 r)
  then show ?thesis
    using unlink_dirent_wf [OF assms, of p name] by (auto simp: delete_inode_def get_inode_def select_delete)
qed

theorem unlink_dirent_effect_witness:
  "meta_wf (snd (unlink_dirent demo_meta 2 ''f''))"
  using unlink_dirent_effect [OF demo_meta_wf(2)] by blast

text \<open>A directory that \<open>unlink_dirent\<close> takes out of the tree keeps its inode row: its link
  count was at least 2 and drops by one only, so it is never freed. Every \<open>rmdir\<close> leaves one
  row behind that no name leads to any more.\<close>

theorem removed_directory_stays:
  assumes "meta_wf m" "sql_select (dirents m) (p, name) = Some c" "ino_is_dir m c"
  shows "\<exists>k m'. unlink_dirent m p name = (Inr (c, k), m') \<and> 1 \<le> k \<and>
    map_option i_nlink (get_inode m' c) = Some k"
  using assms(1)
proof (cases rule: unlink_dirent_cases [of m p name])
  case missing
  with assms(2) show ?thesis by simp
next
  case (gone c' n m3 r)
  have "c' = c" using gone(1) assms(2) by simp
  then have "i_kind r = KDir" using gone(2,4) gone(6) [of c] assms(3) by (auto simp: ino_is_dir_def)
  then have "1 \<le> i_nlink r"
    using gone(3,4) by (auto simp: meta_wf_def nlink_balanced_def want_nlink_def)
  then show ?thesis using gone \<open>c' = c\<close> by auto
qed

theorem removed_directory_stays_witness:
  "\<exists>k m'. unlink_dirent demo_meta 1 ''d'' = (Inr (2, k), m') \<and> 1 \<le> k"
proof -
  have "sql_select (dirents demo_meta) (1, ''d'') = Some 2" "ino_is_dir demo_meta 2" by code_simp+
  from removed_directory_stays [OF demo_meta_wf(2) this] show ?thesis by blast
qed

text \<open>C16: \<open>rename\<close> of an existing name to another one moves the entry: the new name leads to the
  inode the old one led to, the old name is free, every other name leads where it did, the
  inode handed back to be freed has lost its row, and the database is well formed again
  (link counts of both parents and of a replaced inode included).\<close>

theorem rename_moves_entry:
  assumes "meta_wf m" "sql_select (dirents m) (op, on) = Some src" "(op, on) \<noteq> (np, nn)" "np \<le> seq m"
  shows "\<exists>rep m'. rename m op on np nn = (Inr rep, m') \<and> meta_wf m' \<and>
    sql_select (dirents m') (np, nn) = Some src \<and> sql_select (dirents m') (op, on) = None \<and>
    (\<forall>k. k \<noteq> (op, on) \<and> k \<noteq> (np, nn) \<longrightarrow> sql_select (dirents m') k = sql_select (dirents m) k) \<and>
    (\<forall>c. rep = Some c \<longrightarrow> get_inode m' c = None \<and> sql_select (dirents m) (np, nn) = Some c) \<and>
    chunks m' = chunks m \<and> blobs m' = blobs m"
proof -
  obtain sn rep m1 where sn: "get_inode m src = Some sn"
    and rr: "rename_replace m np nn = (Inr rep, m1)"
    and res: "rename m op on np nn =
       (Inr rep, let m2 = m1\<lparr>dirents := sql_rekey (dirents m1) (op, on) (np, nn)\<rparr>
                 in if i_kind sn = KDir \<and> op \<noteq> np
                    then add_nlink (add_nlink m2 op (- 1)) np 1 else m2)"
    by (rule rename_Inr [OF assms(1,2)])
  obtain m' where m': "rename m op on np nn = (Inr rep, m')" using res by blast
  have wf: "meta_wf m'" using rename_wf [OF assms(1,4), of op on nn] m' by simp
  note R = rename_replace_ok [OF assms(1) rr]
  have free: "sql_select (dirents m1) (np, nn) = None" by (simp add: R(3) select_delete)
  have d': "dirents m' = sql_rekey (dirents m1) (op, on) (np, nn)" "chunks m' = chunks m" "blobs m' = blobs m"
    using m' res R(4,5) by (auto simp: Let_def add_nlink_def split: if_splits)
  have sel: "sql_select (dirents m') k =
      (if k = (np, nn) then Some src else if k = (op, on) then None else sql_select (dirents m) k)" for k
    using select_rekey [OF free assms(3), of k] assms(2,3) by (auto simp: d' R(3) select_delete)
  have gone: "get_inode m' c = None \<and> sql_select (dirents m) (np, nn) = Some c" if "rep = Some c" for c
  proof -
    have "get_inode m1 c = None \<and> sql_select (dirents m) (np, nn) = Some c"
      using assms(1)
    proof (cases rule: rename_replace_cases [of m np nn])
      case free
      with rr that show ?thesis by simp
    next
      case (taken c' n m3 r)
      with rr that show ?thesis by (auto split: if_splits)
    qed
    moreover have "get_inode m' c = None" if "get_inode m1 c = None"
      using m' res that by (auto simp: Let_def split: if_splits)
    ultimately show ?thesis by blast
  qed
  from m' wf sel gone d'(2,3) assms(3) show ?thesis by auto
qed

theorem rename_moves_entry_witness:
  "\<exists>rep m'. rename demo_meta 2 ''f'' 1 ''g'' = (Inr rep, m') \<and>
     sql_select (dirents m') (1, ''g'') = Some 3 \<and> sql_select (dirents m') (2, ''f'') = None"
proof -
  have "sql_select (dirents demo_meta) (2, ''f'') = Some 3" "1 \<le> seq demo_meta" by code_simp+
  with rename_moves_entry [OF demo_meta_wf(2), of 2 "''f''" 3 1 "''g''"] show ?thesis by auto
qed

text \<open>\<open>rename\<close> of a name onto itself is not the no-op POSIX asks for: when the inode has no
  other link, its entry and its row are deleted and it is returned as an inode to free, so
  the caller frees its blobs.\<close>

lemma rename_onto_itself_destroys:
  assumes "meta_wf m" "sql_select (dirents m) (p, name) = Some c" "get_inode m c = Some n"
    and "i_kind n \<noteq> KDir" "i_nlink n = 1"
  shows "\<exists>m'. rename m p name p name = (Inr (Some c), m') \<and> get_inode m' c = None \<and>
    sql_select (dirents m') (p, name) = None"
proof -
  let ?m3 = "add_nlink (delete_dirent m p name) c (- 1)"
  have rr: "rename_replace m p name = (Inr (Some c), delete_inode ?m3 c)"
    using assms(2-5) by (simp add: rename_replace_def Let_def)
  have gone: "sql_select (dirents (delete_inode ?m3 c)) (p, name) = None"
    by (simp add: delete_inode_def add_nlink_def delete_dirent_def select_delete)
  let ?m' = "(delete_inode ?m3 c)\<lparr>dirents := sql_rekey (dirents (delete_inode ?m3 c)) (p, name) (p, name)\<rparr>"
  have "rename m p name p name = (Inr (Some c), ?m')"
    using assms(2,3,4) rr by (simp add: rename_def Let_def)
  moreover have "get_inode ?m' c = None" by simp
  moreover have "sql_select (dirents ?m') (p, name) = None"
    using gone by (simp add: rekey_absent)
  ultimately show ?thesis by blast
qed

lemma rename_onto_itself_destroys_witness:
  "\<exists>m'. rename demo_meta 2 ''f'' 2 ''f'' = (Inr (Some 3), m') \<and> get_inode m' 3 = None"
proof -
  have pre: "sql_select (dirents demo_meta) (2, ''f'') = Some 3" by code_simp
  then obtain n where n: "get_inode demo_meta 3 = Some n"
    using tables_okD(7) [OF meta_wfD(1) [OF demo_meta_wf(2)]] by blast
  moreover have "map_option i_kind (get_inode demo_meta 3) = Some KFile"
    "map_option i_nlink (get_inode demo_meta 3) = Some 1" by code_simp+
  ultimately have "i_kind n \<noteq> KDir" "i_nlink n = 1" by auto
  from rename_onto_itself_destroys [OF demo_meta_wf(2) pre n this] show ?thesis by blast
qed

subsection \<open>The read cache\<close>

text \<open>C17: The read cache is transparent: with a loader that only returns blobs of the right
  digest, \<open>get_range\<close> returns the requested range of a blob with that digest, whatever the
  cache holds and whoever else is loading, or raises; the cache stays well formed (the
  recorded total is the sum of the entry sizes) and its files still match their names.\<close>

theorem get_range_transparent:
  assumes "rc_ok hash c" "\<And>t d t'. loader t = (Inr d, t') \<Longrightarrow> hash d = sh"
    and "get_range c s sh rng loader = (r, c', s')"
  shows "rc_ok hash c' \<and> (\<forall>x. r = Inr x \<longrightarrow> (\<exists>d. hash d = sh \<and> x = range_of d rng))"
proof (intro conjI allI impI)
  show "rc_ok hash c'"
    by (rule cached.get_ok [where P = "\<lambda>_. True", OF assms(1) TrueI assms(2) assms(3)])
  fix x assume "r = Inr x"
  with assms(3) have got: "get_range c s sh rng loader = (Inr x, c', s')" by simp
  show "\<exists>d. hash d = sh \<and> x = range_of d rng"
    by (rule cached.get_value [where P = "\<lambda>_. True", OF assms(1) TrueI assms(2) got])
qed

definition demo_cache :: readcache where
  "demo_cache = rc_open 3 [(''a'', [1, 2])]"

definition demo_loader :: "nat \<Rightarrow> (bytes, nat) res" where
  "demo_loader n = (if n = 0 then (Inl ConnectionError, 1) else (Inr [3, 4], n + 1))"

theorem get_range_transparent_witness:
  "\<exists>r c' s'. get_range demo_cache (1 :: nat) ''b'' (Some (1, 2)) demo_loader = (r, c', s') \<and>
     rc_ok (\<lambda>d. if d = [1, 2] then ''a'' else ''b'') c'"
proof -
  obtain r c' s' where get: "get_range demo_cache (1 :: nat) ''b'' (Some (1, 2)) demo_loader = (r, c', s')"
    by (metis prod_cases3)
  have "rc_ok (\<lambda>d. if d = [1, 2] then ''a'' else ''b'') demo_cache"
    by (auto simp: rc_ok_def demo_cache_def rc_open_def rc_wf_def rc_coherent_def sql_select_def keyed_def)
  moreover have "(if d = [1, 2] then ''a'' else ''b'') = ''b''" if "demo_loader t = (Inr d, t')" for t d t'
    using that by (auto simp: demo_loader_def split: if_splits)
  ultimately show ?thesis using get_range_transparent [OF _ _ get] get by blast
qed

text \<open>C18: Eviction is least recently used and minimal: after a blob was stored, the entries left
  are a suffix of the recency order, the recorded total is within the cap unless a single
  entry is left, and a shorter prefix evicted would have left the total above the cap.\<close>

theorem store_evicts_lru:
  assumes "rc_wf c" "map_of (rc_index c) sh = None" "rc_disk_ok c"
  shows "\<exists>n. rc_index (store_blob c sh d) = drop n (rc_index c @ [(sh, length d)]) \<and>
    rc_index (store_blob c sh d) \<noteq> [] \<and>
    (rc_total (store_blob c sh d) \<le> rc_cap c \<or> length (rc_index (store_blob c sh d)) = 1) \<and>
    (\<forall>k < n. rc_cap c < sizes (drop k (rc_index c @ [(sh, length d)])))"
proof -
  let ?c = "c\<lparr>rc_files := sql_delete (rc_files c) (\<lambda>k. k = sh) @ [(sh, d)],
      rc_index := rc_index c @ [(sh, length d)], rc_total := rc_total c + int (length d)\<rparr>"
  have st: "store_blob c sh d = evict ?c" using assms(2,3) by (simp add: store_blob_def)
  have nf: "sql_select (rc_files c) sh = None" using assms(1,2) by (rule rc_wf_index_None)
  have wf: "rc_wf ?c"
    using assms nf keyed_append_new [of "rc_index c" sh] keyed_append_new [of "rc_files c" sh]
    by (auto simp: rc_wf_def delete_absent select_append_new sql_select_def [of "rc_index c"] map_add_def
        split: option.splits if_splits)
  have "length (rc_index (evict ?c)) \<le> 1 \<Longrightarrow> rc_index (evict ?c) \<noteq> [] \<Longrightarrow> length (rc_index (evict ?c)) = 1"
    by (cases "rc_index (evict ?c)") auto
  with evict_ok(2,3) [OF wf] show ?thesis unfolding st by (auto simp: rc_bounded_def)
qed

theorem store_evicts_lru_witness:
  "\<exists>n. rc_index (store_blob demo_cache ''b'' [3, 4]) = drop n [(''a'', 2), (''b'', 2)] \<and>
    rc_index (store_blob demo_cache ''b'' [3, 4]) \<noteq> []"
proof -
  have "rc_wf demo_cache" "map_of (rc_index demo_cache) ''b'' = None" "rc_disk_ok demo_cache"
    by (auto simp: demo_cache_def rc_open_def rc_wf_def sql_select_def keyed_def)
  moreover have "rc_index demo_cache @ [(''b'', length [3, 4 :: byte])] = [(''a'', 2), (''b'', 2)]"
    by (simp add: demo_cache_def rc_open_def)
  ultimately show ?thesis
    using store_evicts_lru [of demo_cache "''b''" "[3, 4]"] by metis
qed

end
