(* ===== verification/Backend.thy ===== *)
theory Backend
  imports SqlTable
begin

section \<open>Blob storage (tgfs/backend.py)\<close>

text \<open>
  The \<open>Backend\<close> protocol is a record of three operations on a backend state of any type:
  the store calls whatever object it was given. \<open>sha256\<close> stands beside them: it is the
  digest function \<open>hashlib.sha256(data).hexdigest()\<close>, of which the code uses only that it
  is a function of the bytes and that different chunks have different digests.
\<close>

record 'b env =
  upload :: "'b \<Rightarrow> bytes \<Rightarrow> (nat, 'b) res"
  download :: "'b \<Rightarrow> nat \<Rightarrow> (bytes, 'b) res"
  delete :: "'b \<Rightarrow> nat \<Rightarrow> (unit, 'b) res"
  sha256 :: "bytes \<Rightarrow> sha"

subsection \<open>The contract\<close>

text \<open>
  What the store relies on. \<open>content b\<close> is the abstract value of a backend, the blobs it
  holds by handle. An upload that returns gives a handle that was free; one that raises
  stores nothing; a download returns the blob or raises; a delete removes the handle.
  \<open>reliable_backend\<close> adds that uploads and the downloads of held blobs do not raise.
\<close>

locale blob_backend =
  fixes E :: "'b env"
    and content :: "'b \<Rightarrow> nat \<Rightarrow> bytes option"
    and binv :: "'b \<Rightarrow> bool"
  assumes upload_Inr: "binv b \<Longrightarrow> upload E b d = (Inr h, b') \<Longrightarrow>
      binv b' \<and> content b h = None \<and> content b' = (content b)(h := Some d)"
    and upload_Inl: "binv b \<Longrightarrow> upload E b d = (Inl e, b') \<Longrightarrow> binv b' \<and> content b' = content b"
    and download_Inr: "binv b \<Longrightarrow> download E b h = (Inr d, b') \<Longrightarrow> content b h = Some d"
    and download_keeps: "binv b \<Longrightarrow> download E b h = (r, b') \<Longrightarrow> binv b' \<and> content b' = content b"
    and delete_spec: "binv b \<Longrightarrow>
      \<exists>b'. delete E b h = (Inr (), b') \<and> binv b' \<and> content b' = (content b)(h := None)"
begin

lemma upload_cases:
  assumes "binv b"
  obtains (ok) h b' where "upload E b d = (Inr h, b')" "binv b'" "content b h = None"
      "content b' = (content b)(h := Some d)"
  | (fail) e b' where "upload E b d = (Inl e, b')" "binv b'" "content b' = content b"
proof -
  obtain r b' where u: "upload E b d = (r, b')" by force
  show ?thesis
  proof (cases r)
    case (Inl e)
    with upload_Inl [OF assms] u fail show ?thesis by blast
  next
    case (Inr h)
    with upload_Inr [OF assms] u ok show ?thesis by blast
  qed
qed

lemma download_missing:
  assumes "binv b" "content b h = None"
  shows "\<exists>e b'. download E b h = (Inl e, b')"
proof -
  obtain r b' where "download E b h = (r, b')" by force
  with download_Inr [OF assms(1)] assms(2) show ?thesis by (cases r) auto
qed

end

locale reliable_backend = blob_backend E content binv
  for E :: "'b env" and content :: "'b \<Rightarrow> nat \<Rightarrow> bytes option" and binv :: "'b \<Rightarrow> bool" +
  assumes upload_returns: "binv b \<Longrightarrow> \<exists>h b'. upload E b d = (Inr h, b')"
    and download_returns: "binv b \<Longrightarrow> content b h = Some d \<Longrightarrow> \<exists>b'. download E b h = (Inr d, b')"
begin

lemma upload_download:
  assumes "binv b" "upload E b d = (Inr h, b')"
  shows "fst (download E b' h) = Inr d"
  using upload_Inr [OF assms] download_returns [of b' h d] by auto

end

text \<open>
  The contract of a backend behind a network: an upload or a delete that raises may have had
  its effect. An upload then leaves a message nobody knows of, but no call ever touches the
  blob of another handle. This is all that the safety of stored files needs.
\<close>

locale faulty_backend =
  fixes E :: "'b env"
    and content :: "'b \<Rightarrow> nat \<Rightarrow> bytes option"
    and binv :: "'b \<Rightarrow> bool"
  assumes upload_new: "binv b \<Longrightarrow> upload E b d = (Inr h, b') \<Longrightarrow>
      binv b' \<and> content b h = None \<and> content b' h = Some d \<and> content b \<subseteq>\<^sub>m content b'"
    and upload_raises: "binv b \<Longrightarrow> upload E b d = (Inl e, b') \<Longrightarrow> binv b' \<and> content b \<subseteq>\<^sub>m content b'"
    and download_blob: "binv b \<Longrightarrow> download E b h = (Inr d, b') \<Longrightarrow> content b h = Some d"
    and download_any: "binv b \<Longrightarrow> download E b h = (r, b') \<Longrightarrow> binv b' \<and> content b \<subseteq>\<^sub>m content b'"
    and delete_any: "binv b \<Longrightarrow> delete E b h = (r', b') \<Longrightarrow>
      binv b' \<and> (content b)(h := None) \<subseteq>\<^sub>m content b'"

sublocale blob_backend \<subseteq> faulty: faulty_backend E content binv
proof unfold_locales
  fix b d h b'
  assume "binv b" "upload E b d = (Inr h, b')"
  from upload_Inr [OF this]
  show "binv b' \<and> content b h = None \<and> content b' h = Some d \<and> content b \<subseteq>\<^sub>m content b'"
    by (auto simp: map_le_def)
next
  fix b d e b'
  assume "binv b" "upload E b d = (Inl e, b')"
  from upload_Inl [OF this] show "binv b' \<and> content b \<subseteq>\<^sub>m content b'" by simp
next
  fix b h d b'
  assume "binv b" "download E b h = (Inr d, b')"
  then show "content b h = Some d" by (rule download_Inr)
next
  fix b h r b'
  assume "binv b" "download E b h = (r, b')"
  from download_keeps [OF this] show "binv b' \<and> content b \<subseteq>\<^sub>m content b'" by simp
next
  fix b h r' b'
  assume "binv b" "delete E b h = (r', b')"
  with delete_spec [of b h] show "binv b' \<and> (content b)(h := None) \<subseteq>\<^sub>m content b'" by auto
qed

subsection \<open>The in-memory backend\<close>

record membackend =
  mb_blobs :: "(nat, bytes) table"
  mb_next :: nat
  mb_uploads :: nat
  mb_downloads :: nat
  mb_deletes :: nat

definition mem_new :: membackend where
  "mem_new = \<lparr>mb_blobs = [], mb_next = 1, mb_uploads = 0, mb_downloads = 0, mb_deletes = 0\<rparr>"

text \<open>\<open>self._blobs[h] = bytes(data)\<close>: a dict assignment replaces a present key.\<close>

definition mem_upload :: "membackend \<Rightarrow> bytes \<Rightarrow> (nat, membackend) res" where
  "mem_upload b data =
     (let h = mb_next b
      in (Inr h, b\<lparr>mb_next := mb_next b + 1,
                    mb_blobs := sql_delete (mb_blobs b) (\<lambda>k. k = h) @ [(h, data)],
                    mb_uploads := mb_uploads b + 1\<rparr>))"

definition mem_download :: "membackend \<Rightarrow> nat \<Rightarrow> (bytes, membackend) res" where
  "mem_download b h =
     (let b' = b\<lparr>mb_downloads := mb_downloads b + 1\<rparr>
      in case sql_select (mb_blobs b) h of
           Some d \<Rightarrow> (Inr d, b')
         | None \<Rightarrow> (Inl (OSError None), b'))"

definition mem_delete :: "membackend \<Rightarrow> nat \<Rightarrow> (unit, membackend) res" where
  "mem_delete b h =
     (Inr (), b\<lparr>mb_deletes := mb_deletes b + 1,
                mb_blobs := sql_delete (mb_blobs b) (\<lambda>k. k = h)\<rparr>)"

definition mem_env :: "(bytes \<Rightarrow> sha) \<Rightarrow> membackend env" where
  "mem_env hash = \<lparr>upload = mem_upload, download = mem_download, delete = mem_delete,
                   sha256 = hash\<rparr>"

lemma mem_env_simps [simp]:
  "upload (mem_env hash) = mem_upload" "download (mem_env hash) = mem_download"
  "delete (mem_env hash) = mem_delete" "sha256 (mem_env hash) = hash"
  by (simp_all add: mem_env_def)

definition mem_content :: "membackend \<Rightarrow> nat \<Rightarrow> bytes option" where
  "mem_content b = sql_select (mb_blobs b)"

definition mem_inv :: "membackend \<Rightarrow> bool" where
  "mem_inv b \<longleftrightarrow> keyed (mb_blobs b) \<and> (\<forall>h \<in> fst ` set (mb_blobs b). h < mb_next b)"

lemma mem_inv_new: "mem_inv mem_new"
  by (simp add: mem_inv_def mem_new_def)

lemma mem_inv_downloads [simp]: "mem_inv (b\<lparr>mb_downloads := n\<rparr>) = mem_inv b"
  by (simp add: mem_inv_def)

lemma mem_next_free: "mem_inv b \<Longrightarrow> sql_select (mb_blobs b) (mb_next b) = None"
  by (auto simp: mem_inv_def select_None_iff)

lemma mem_upload_spec:
  assumes "mem_inv b" "mem_upload b d = (r, b')"
  shows "r = Inr (mb_next b) \<and> mem_inv b' \<and> mem_content b (mb_next b) = None \<and>
    mem_content b' = (mem_content b)(mb_next b := Some d)"
proof -
  have b': "r = Inr (mb_next b)" "mb_blobs b' = mb_blobs b @ [(mb_next b, d)]"
    "mb_next b' = mb_next b + 1"
    using assms mem_next_free [OF assms(1)]
    by (auto simp: mem_upload_def Let_def delete_absent)
  have "mem_inv b'"
    using assms(1) keyed_append_new [OF _ mem_next_free [OF assms(1)]]
    by (auto simp: mem_inv_def b')
  then show ?thesis
    using mem_next_free [OF assms(1)]
    by (auto simp: b' mem_content_def fun_eq_iff select_append_new)
qed

lemma mem_delete_spec:
  "mem_inv b \<Longrightarrow> \<exists>b'. mem_delete b h = (Inr (), b') \<and> mem_inv b' \<and>
     mem_content b' = (mem_content b)(h := None)"
  by (auto simp: mem_delete_def mem_inv_def mem_content_def fun_eq_iff select_delete)
    (auto simp: sql_delete_def)

lemma mem_download_spec:
  "mem_download b h = (r, b') \<Longrightarrow>
     r = (case mem_content b h of Some d \<Rightarrow> Inr d | None \<Rightarrow> Inl (OSError None)) \<and>
     mem_content b' = mem_content b \<and> mem_inv b' = mem_inv b"
  by (auto simp: mem_download_def mem_content_def Let_def split: option.splits)

interpretation mem: reliable_backend "mem_env hash" mem_content mem_inv
proof unfold_locales
  fix b d h b'
  assume "mem_inv b" "upload (mem_env hash) b d = (Inr h, b')"
  then show "mem_inv b' \<and> mem_content b h = None \<and> mem_content b' = (mem_content b)(h := Some d)"
    using mem_upload_spec [of b d "Inr h" b'] by simp
next
  fix b d e b'
  assume "mem_inv b" "upload (mem_env hash) b d = (Inl e, b')"
  then show "mem_inv b' \<and> mem_content b' = mem_content b"
    using mem_upload_spec [of b d "Inl e" b'] by simp
next
  fix b h d b'
  assume "download (mem_env hash) b h = (Inr d, b')"
  then show "mem_content b h = Some d"
    using mem_download_spec [of b h "Inr d" b'] by (simp split: option.splits)
next
  fix b h r b'
  assume "mem_inv b" "download (mem_env hash) b h = (r, b')"
  then show "mem_inv b' \<and> mem_content b' = mem_content b"
    using mem_download_spec [of b h r b'] by simp
next
  fix b h
  assume "mem_inv b"
  then show "\<exists>b'. delete (mem_env hash) b h = (Inr (), b') \<and> mem_inv b' \<and>
      mem_content b' = (mem_content b)(h := None)"
    using mem_delete_spec by simp
next
  fix b d
  show "\<exists>h b'. upload (mem_env hash) b d = (Inr h, b')"
    by (simp add: mem_upload_def Let_def)
next
  fix b h d
  assume "mem_content b h = Some d"
  then show "\<exists>b'. download (mem_env hash) b h = (Inr d, b')"
    by (simp add: mem_download_def mem_content_def Let_def)
qed

subsection \<open>A backend that refuses some uploads\<close>

text \<open>
  The test suite's failing backend (\<open>tests/test_parallel.py\<close>, class \<open>Boom\<close>) raises on the
  upload of some chunks and is the in-memory backend otherwise. \<open>refuse\<close> says which chunks;
  the test's is \<open>data.startswith(b"C")\<close>. \<open>lost\<close> says which handles cannot be downloaded at
  the moment, as when the network fails.
\<close>

definition boom_upload :: "(bytes \<Rightarrow> bool) \<Rightarrow> membackend \<Rightarrow> bytes \<Rightarrow> (nat, membackend) res" where
  "boom_upload refuse b data = (if refuse data then (Inl RuntimeError, b) else mem_upload b data)"

definition lossy_download :: "(nat \<Rightarrow> bool) \<Rightarrow> membackend \<Rightarrow> nat \<Rightarrow> (bytes, membackend) res" where
  "lossy_download lost b h = (if lost h then (Inl ConnectionError, b) else mem_download b h)"

definition boom_env ::
    "(bytes \<Rightarrow> bool) \<Rightarrow> (nat \<Rightarrow> bool) \<Rightarrow> (bytes \<Rightarrow> sha) \<Rightarrow> membackend env" where
  "boom_env refuse lost hash =
     \<lparr>upload = boom_upload refuse, download = lossy_download lost, delete = mem_delete,
      sha256 = hash\<rparr>"

lemma boom_env_simps [simp]:
  "upload (boom_env refuse lost hash) = boom_upload refuse"
  "download (boom_env refuse lost hash) = lossy_download lost"
  "delete (boom_env refuse lost hash) = mem_delete" "sha256 (boom_env refuse lost hash) = hash"
  by (simp_all add: boom_env_def)

interpretation boom: blob_backend "boom_env refuse lost hash" mem_content mem_inv
proof unfold_locales
  fix b d h b'
  assume "mem_inv b" "upload (boom_env refuse lost hash) b d = (Inr h, b')"
  then show "mem_inv b' \<and> mem_content b h = None \<and> mem_content b' = (mem_content b)(h := Some d)"
    using mem_upload_spec [of b d "Inr h" b'] by (simp add: boom_upload_def split: if_splits)
next
  fix b d e b'
  assume "mem_inv b" "upload (boom_env refuse lost hash) b d = (Inl e, b')"
  then show "mem_inv b' \<and> mem_content b' = mem_content b"
    using mem_upload_spec [of b d "Inl e" b'] by (auto simp: boom_upload_def split: if_splits)
next
  fix b h d b'
  assume "download (boom_env refuse lost hash) b h = (Inr d, b')"
  then show "mem_content b h = Some d"
    using mem_download_spec [of b h "Inr d" b']
    by (simp add: lossy_download_def split: option.splits if_splits)
next
  fix b h r b'
  assume "mem_inv b" "download (boom_env refuse lost hash) b h = (r, b')"
  then show "mem_inv b' \<and> mem_content b' = mem_content b"
    using mem_download_spec [of b h r b'] by (auto simp: lossy_download_def split: if_splits)
next
  fix b h
  assume "mem_inv b"
  then show "\<exists>b'. delete (boom_env refuse lost hash) b h = (Inr (), b') \<and> mem_inv b' \<and>
      mem_content b' = (mem_content b)(h := None)"
    using mem_delete_spec by simp
qed

text \<open>A digest without collisions, for concrete runs: the bytes themselves as characters.\<close>

definition byte_digest :: "bytes \<Rightarrow> sha" where
  "byte_digest d = map (\<lambda>b. char_of (unat b)) d"

lemma byte_digest_inj: "inj byte_digest"
proof -
  have "inj (\<lambda>b :: byte. char_of (unat b) :: char)"
  proof (rule injI)
    fix x y :: byte
    assume "char_of (unat x) = (char_of (unat y) :: char)"
    then have "(of_char (char_of (unat x) :: char) :: nat) = of_char (char_of (unat y) :: char)"
      by simp
    moreover have "unat x < 256" "unat y < 256"
      using unsigned_less [of x, where ?'a = nat] unsigned_less [of y, where ?'a = nat] by simp_all
    ultimately show "x = y"
      by (simp only: of_char_of mod_less word_unat_eq_iff)
  qed
  then show ?thesis unfolding byte_digest_def by (rule inj_mapI)
qed

end
