(* ===== verification/PyFile.thy ===== *)
theory PyFile
  imports Prelude
begin

section \<open>Unbuffered binary files\<close>

text \<open>
  What the code uses of Python's file objects (\<open>open(path, "w+b", buffering=0)\<close> and the
  \<open>BinaryIO\<close> given to \<open>put_file\<close>): the content and a position. A read past the end is
  short; a write past the end fills the gap with zeros, and a write of no bytes changes
  nothing; \<open>truncate(n)\<close> cuts or extends with zeros and leaves the position. One call
  transfers all the bytes asked for, as Linux does for regular files below 2 GiB per call.
\<close>

record pyfile =
  f_data :: bytes
  f_pos :: nat

definition f_open :: pyfile where
  "f_open = \<lparr>f_data = [], f_pos = 0\<rparr>"

definition f_seek :: "pyfile \<Rightarrow> nat \<Rightarrow> pyfile" where
  "f_seek f p = f\<lparr>f_pos := p\<rparr>"

definition f_read :: "pyfile \<Rightarrow> nat \<Rightarrow> bytes \<times> pyfile" where
  "f_read f n =
     (let d = slice (f_data f) (f_pos f) (f_pos f + n) in (d, f\<lparr>f_pos := f_pos f + length d\<rparr>))"

definition f_write :: "pyfile \<Rightarrow> bytes \<Rightarrow> pyfile" where
  "f_write f d =
     (if d = [] then f
      else f\<lparr>f_data := splice (f_data f) (f_pos f) d, f_pos := f_pos f + length d\<rparr>)"

definition f_truncate :: "pyfile \<Rightarrow> nat \<Rightarrow> pyfile" where
  "f_truncate f n = f\<lparr>f_data := resize n (f_data f)\<rparr>"

lemma f_seek_simps [simp]: "f_data (f_seek f p) = f_data f" "f_pos (f_seek f p) = p"
  by (simp_all add: f_seek_def)

lemma f_truncate_simps [simp]: "f_data (f_truncate f n) = resize n (f_data f)" "f_pos (f_truncate f n) = f_pos f"
  by (simp_all add: f_truncate_def)

lemma f_read_seek [simp]: "fst (f_read (f_seek f p) n) = slice (f_data f) p (p + n)"
  by (simp add: f_read_def Let_def)

lemma f_read_data [simp]: "f_data (snd (f_read f n)) = f_data f"
  by (simp add: f_read_def Let_def)

lemma f_write_seek_data: "f_data (f_write (f_seek f p) d) = (if d = [] then f_data f else splice (f_data f) p d)"
  by (simp add: f_write_def)

end
