(* ===== verification/Store.thy ===== *)
theory Store
  imports Meta Backend ReadCache PyFile
begin

section \<open>Chunking and deduplication (tgfs/store.py)\<close>

text \<open>
  The state of a \<open>Store\<close>: the metadata index, the backend, the optional read cache and the
  end offset of the last read of each inode. Work given to the thread pools runs at once:
  an upload is done when \<open>submit\<close> returns its future, and the parts of a read run in order.
  That is a schedule the pools can produce, in particular with one worker each. The
  set \<open>_ra_queued\<close> is empty between operations in it and is left out.
\<close>

record 'b store =
  s_meta :: meta
  s_back :: 'b
  s_cs :: nat
  s_cache :: "readcache option"
  s_workers :: nat
  s_readahead :: nat
  s_last_end :: "(ino \<times> nat) list"

definition new_store :: "meta \<Rightarrow> 'b \<Rightarrow> nat \<Rightarrow> readcache option \<Rightarrow> nat \<Rightarrow> nat \<Rightarrow> 'b store" where
  "new_store m b cs cache workers readahead =
     \<lparr>s_meta = m, s_back = b, s_cs = cs, s_cache = cache, s_workers = max 1 workers,
      s_readahead = (if cache = None then 0 else readahead), s_last_end = []\<rparr>"

subsection \<open>References to blobs\<close>

text \<open>
  \<open>_upload_blob\<close>: upload, then register, or count a reference to the blob a concurrent
  writer registered first and drop our copy.
\<close>

definition upload_blob :: "'b env \<Rightarrow> 'b store \<Rightarrow> sha \<Rightarrow> bytes \<Rightarrow> (unit, 'b store) res" where
  "upload_blob E s sh d =
     (case upload E (s_back s) d of
        (Inl e, b) \<Rightarrow> (Inl e, s\<lparr>s_back := b\<rparr>)
      | (Inr handle, b) \<Rightarrow>
          if blob_get (s_meta s) sh = None
          then (case blob_create (s_meta s) sh handle (length d) of
                  (r, m) \<Rightarrow> (r, s\<lparr>s_back := b, s_meta := m\<rparr>))
          else (case delete E b handle of
                  (r, b') \<Rightarrow> (r, s\<lparr>s_back := b', s_meta := blob_incref (s_meta s) sh\<rparr>)))"

definition release_blob :: "'b env \<Rightarrow> 'b store \<Rightarrow> sha \<Rightarrow> (unit, 'b store) res" where
  "release_blob E s sh =
     (case blob_decref (s_meta s) sh of
        (None, m) \<Rightarrow> (Inr (), s\<lparr>s_meta := m\<rparr>)
      | (Some handle, m) \<Rightarrow>
          (case delete E (s_back s) handle of
             (r, b) \<Rightarrow> (r, s\<lparr>s_meta := m, s_back := b\<rparr>)))"

fun release_all :: "'b env \<Rightarrow> 'b store \<Rightarrow> sha list \<Rightarrow> (unit, 'b store) res" where
  "release_all E s [] = (Inr (), s)"
| "release_all E s (sh # shs) =
     (case release_blob E s sh of
        (Inl e, s') \<Rightarrow> (Inl e, s')
      | (Inr _, s') \<Rightarrow> release_all E s' shs)"

subsection \<open>Writing: put_file\<close>

text \<open>
  The local variables of \<open>put_file\<close>. \<open>p_pending\<close> is the dict of uploads of this call with
  the outcome of each; \<open>p_running\<close> the outcomes not looked at yet.
\<close>

record 'b putst =
  p_idx :: nat
  p_off :: nat
  p_src :: pyfile
  p_new :: "(nat \<times> chunk) list"
  p_acquired :: "sha list"
  p_pending :: "(sha \<times> (exn + unit)) list"
  p_dups :: "sha list"
  p_running :: "(exn + unit) list"
  p_store :: "'b store"

fun first_error :: "(exn + unit) list \<Rightarrow> exn option" where
  "first_error [] = None"
| "first_error (Inl e # rs) = Some e"
| "first_error (Inr _ # rs) = first_error rs"

text \<open>
  \<open>while len(running) >= upload_workers\<close>: wait and raise what a finished upload raised.
\<close>

definition reap_running :: "'b putst \<Rightarrow> (unit, 'b putst) res" where
  "reap_running L =
     (if length (p_running L) \<ge> s_workers (p_store L)
      then (case first_error (p_running L) of
              Some e \<Rightarrow> (Inl e, L\<lparr>p_running := []\<rparr>)
            | None \<Rightarrow> (Inr (), L\<lparr>p_running := []\<rparr>))
      else (Inr (), L))"

definition incref_store :: "'b store \<Rightarrow> sha \<Rightarrow> 'b store" where
  "incref_store s sh = s\<lparr>s_meta := blob_incref (s_meta s) sh\<rparr>"

text \<open>Take a reference to the blob of a chunk that was read: the inner \<open>if\<close> of the loop.\<close>

definition put_ref :: "'b env \<Rightarrow> 'b putst \<Rightarrow> sha \<Rightarrow> bytes \<Rightarrow> (unit, 'b putst) res" where
  "put_ref E L sh d =
     (if map_of (p_pending L) sh \<noteq> None then (Inr (), L\<lparr>p_dups := p_dups L @ [sh]\<rparr>)
      else if blob_get (s_meta (p_store L)) sh \<noteq> None
      then (Inr (), L\<lparr>p_store := incref_store (p_store L) sh, p_acquired := p_acquired L @ [sh]\<rparr>)
      else (case reap_running L of
              (Inl e, L1) \<Rightarrow> (Inl e, L1)
            | (Inr _, L1) \<Rightarrow>
                (case upload_blob E (p_store L1) sh d of
                   (r, s) \<Rightarrow>
                     (Inr (), L1\<lparr>p_store := s, p_pending := p_pending L1 @ [(sh, r)],
                                p_running := p_running L1 @ [r],
                                p_acquired := p_acquired L1 @ [sh]\<rparr>))))"

definition put_dirty :: "'b env \<Rightarrow> nat \<Rightarrow> 'b putst \<Rightarrow> (bool, 'b putst) res" where
  "put_dirty E want L =
     (case f_read (p_src L) want of
        (d, src) \<Rightarrow>
          if d = [] then (Inr False, L\<lparr>p_src := src\<rparr>)
          else (case put_ref E (L\<lparr>p_src := src\<rparr>) (sha256 E d) d of
                  (Inl e, L1) \<Rightarrow> (Inl e, L1)
                | (Inr _, L1) \<Rightarrow>
                    (Inr True,
                     L1\<lparr>p_new := p_new L1 @
                          [(p_idx L, \<lparr>c_off = p_off L, c_len = length d, c_sha = sha256 E d\<rparr>)],
                        p_idx := p_idx L + 1, p_off := p_off L + length d\<rparr>)))"

definition put_clean :: "nat \<Rightarrow> sha \<Rightarrow> 'b putst \<Rightarrow> (bool, 'b putst) res" where
  "put_clean want sh L =
     (if blob_get (s_meta (p_store L)) sh = None then (Inl (OSError None), L)
      else (Inr True,
            L\<lparr>p_store := incref_store (p_store L) sh, p_acquired := p_acquired L @ [sh],
              p_new := p_new L @ [(p_idx L, \<lparr>c_off = p_off L, c_len = want, c_sha = sh\<rparr>)],
              p_idx := p_idx L + 1, p_off := p_off L + want,
              p_src := f_seek (p_src L) (p_off L + want)\<rparr>))"

text \<open>The condition under which a stored chunk is kept without reading the source.\<close>

definition is_clean :: "nat set option \<Rightarrow> chunk list \<Rightarrow> nat \<Rightarrow> nat \<Rightarrow> nat \<Rightarrow> bool" where
  "is_clean dirty rows idx off want =
     (case dirty of
        None \<Rightarrow> False
      | Some ds \<Rightarrow> idx \<notin> ds \<and> idx < length rows \<and> c_off (rows ! idx) = off \<and>
                   c_len (rows ! idx) = want)"

text \<open>One round of \<open>while off < size\<close>; \<open>False\<close> is the loop's \<open>break\<close>.\<close>

definition put_step ::
    "'b env \<Rightarrow> nat set option \<Rightarrow> chunk list \<Rightarrow> nat \<Rightarrow> 'b putst \<Rightarrow> (bool, 'b putst) res" where
  "put_step E dirty rows sz L =
     (let want = min (s_cs (p_store L)) (sz - p_off L)
      in if is_clean dirty rows (p_idx L) (p_off L) want
         then put_clean want (c_sha (rows ! p_idx L)) L
         else put_dirty E want L)"

lemma put_ref_frame:
  "put_ref E L sh d = (r, L') \<Longrightarrow> p_idx L' = p_idx L \<and> p_off L' = p_off L \<and> p_src L' = p_src L \<and>
     p_new L' = p_new L"
  by (auto simp: put_ref_def reap_running_def split: if_splits prod.splits sum.splits option.splits)

lemma put_step_progress:
  assumes "put_step E dirty rows sz L = (Inr True, L')" "p_off L < sz"
  shows "sz - p_off L' + (length rows - p_idx L') < sz - p_off L + (length rows - p_idx L)"
proof (cases "is_clean dirty rows (p_idx L) (p_off L) (min (s_cs (p_store L)) (sz - p_off L))")
  case True
  then have "p_idx L < length rows" by (auto simp: is_clean_def split: option.splits)
  with assms True show ?thesis
    by (auto simp: put_step_def put_clean_def Let_def split: if_splits)
next
  case False
  then obtain d src L1 where "f_read (p_src L) (min (s_cs (p_store L)) (sz - p_off L)) = (d, src)"
    "d \<noteq> []" "put_ref E (L\<lparr>p_src := src\<rparr>) (sha256 E d) d = (Inr (), L1)"
    "p_off L' = p_off L + length d" "p_idx L' = p_idx L + 1"
    using assms(1)
    by (auto simp: put_step_def put_dirty_def Let_def split: if_splits prod.splits sum.splits)
  with assms(2) show ?thesis by (cases d) auto
qed

function (sequential) put_loop ::
    "'b env \<Rightarrow> nat set option \<Rightarrow> chunk list \<Rightarrow> nat \<Rightarrow> 'b putst \<Rightarrow> (unit, 'b putst) res" where
  "put_loop E dirty rows sz L =
     (if p_off L < sz
      then (case put_step E dirty rows sz L of
              (Inl e, L') \<Rightarrow> (Inl e, L')
            | (Inr False, L') \<Rightarrow> (Inr (), L')
            | (Inr True, L') \<Rightarrow> put_loop E dirty rows sz L')
      else (Inr (), L))"
  by pat_completeness auto
termination
proof (relation "measure (\<lambda>(E, dirty, rows, sz, L). sz - p_off L + (length rows - p_idx L))")
  fix E :: "'a env" and dirty rows sz L x y b
  assume "p_off L < sz" "(x, y) = put_step E dirty rows sz L" "x = Inr b" "b = True"
  then show "((E, dirty, rows, sz, y), E, dirty, rows, sz, L)
      \<in> measure (\<lambda>(E, dirty, rows, sz, L). sz - p_off L + (length rows - p_idx L))"
    using put_step_progress [of E dirty rows sz L y] by simp
qed simp

declare put_loop.simps [simp del]

text \<open>
  The handler of \<open>except BaseException\<close>: give back every reference taken, but for the chunks
  whose upload failed and which were never registered.
\<close>

definition rollback :: "'b env \<Rightarrow> exn \<Rightarrow> 'b putst \<Rightarrow> (unit, 'b store) res" where
  "rollback E e L =
     (case release_all E (p_store L)
             (filter (\<lambda>sh. case map_of (p_pending L) sh of Some (Inl _) \<Rightarrow> False | _ \<Rightarrow> True)
                (p_acquired L)) of
        (Inl e', s) \<Rightarrow> (Inl e', s)
      | (Inr _, s) \<Rightarrow> (Inl e, s))"

definition put_file :: "'b env \<Rightarrow> 'b store \<Rightarrow> ino \<Rightarrow> pyfile \<Rightarrow> nat \<Rightarrow> nat set option \<Rightarrow>
    (exn + unit) \<times> pyfile \<times> 'b store" where
  "put_file E s i src sz dirty =
     (let rows = get_chunks (s_meta s) i;
          old_shas = map c_sha rows;
          L0 = \<lparr>p_idx = 0, p_off = 0, p_src = src, p_new = [], p_acquired = [], p_pending = [],
                p_dups = [], p_running = [], p_store = s\<rparr>
      in case put_loop E dirty rows sz L0 of
           (Inl e, L) \<Rightarrow> (case rollback E e L of (r, s') \<Rightarrow> (r, p_src L, s'))
         | (Inr _, L) \<Rightarrow>
             (case first_error (map snd (p_pending L)) of
                Some e \<Rightarrow> (case rollback E e L of (r, s') \<Rightarrow> (r, p_src L, s'))
              | None \<Rightarrow>
                  (let s1 = foldl incref_store (p_store L) (p_dups L)
                   in case set_chunks (s_meta s1) i (p_new L) of
                        (Inl e, m) \<Rightarrow> (Inl e, p_src L, s1\<lparr>s_meta := m\<rparr>)
                      | (Inr _, m) \<Rightarrow>
                          (case release_all E (s1\<lparr>s_meta := set_size m i (p_off L)\<rparr>) old_shas of
                             (r, s2) \<Rightarrow> (r, p_src L, s2)))))"

definition free_file :: "'b env \<Rightarrow> 'b store \<Rightarrow> ino \<Rightarrow> (unit, 'b store) res" where
  "free_file E s i =
     (case release_all E s (get_chunk_shas (s_meta s) i) of
        (Inl e, s') \<Rightarrow> (Inl e, s')
      | (Inr _, s') \<Rightarrow>
          (case set_chunks (s_meta s') i [] of (r, m) \<Rightarrow> (r, s'\<lparr>s_meta := m\<rparr>)))"

subsection \<open>Reading\<close>

text \<open>\<open>_fetcher\<close> returns this loader: download, then compare the digest.\<close>

definition fetch_load :: "'b env \<Rightarrow> nat \<Rightarrow> sha \<Rightarrow> 'b \<Rightarrow> (bytes, 'b) res" where
  "fetch_load E handle sh b =
     (case download E b handle of
        (Inl e, b') \<Rightarrow> (Inl e, b')
      | (Inr d, b') \<Rightarrow> if sha256 E d \<noteq> sh then (Inl (OSError None), b') else (Inr d, b'))"

text \<open>The cache when there is one, else the loader itself.\<close>

definition source_get :: "readcache option \<Rightarrow> 's \<Rightarrow> sha \<Rightarrow> range \<Rightarrow> ('s \<Rightarrow> (bytes, 's) res) \<Rightarrow>
    (exn + bytes) \<times> readcache option \<times> 's" where
  "source_get cache s sh rng loader =
     (case cache of
        Some c \<Rightarrow> (case get_range c s sh rng loader of (r, c', s') \<Rightarrow> (r, Some c', s'))
      | None \<Rightarrow>
          (case loader s of
             (Inl e, s') \<Rightarrow> (Inl e, None, s')
           | (Inr d, s') \<Rightarrow> (Inr (range_of d rng), None, s')))"

definition read_chunk :: "'b env \<Rightarrow> 'b store \<Rightarrow> sha \<Rightarrow> range \<Rightarrow> (bytes, 'b store) res" where
  "read_chunk E s sh rng =
     (case blob_get (s_meta s) sh of
        None \<Rightarrow> (Inl (OSError None), s)
      | Some row \<Rightarrow>
          (case source_get (s_cache s) (s_back s) sh rng (fetch_load E (b_handle row) sh) of
             (r, c, b) \<Rightarrow> (r, s\<lparr>s_cache := c, s_back := b\<rparr>)))"

text \<open>\<open>part(ch)\<close> for every chunk hit, all of them run, and the join that raises the first error.\<close>

definition read_part :: "'b env \<Rightarrow> 'b store \<Rightarrow> nat \<Rightarrow> nat \<Rightarrow> chunk \<Rightarrow> (bytes, 'b store) res" where
  "read_part E s offset en ch =
     (let lo = max offset (c_off ch) - c_off ch;
          hi = min en (c_off ch + c_len ch) - c_off ch
      in read_chunk E s (c_sha ch) (Some (lo, hi)))"

fun read_parts :: "'b env \<Rightarrow> 'b store \<Rightarrow> nat \<Rightarrow> nat \<Rightarrow> chunk list \<Rightarrow>
    (exn + bytes) list \<times> 'b store" where
  "read_parts E s offset en [] = ([], s)"
| "read_parts E s offset en (ch # chs) =
     (case read_part E s offset en ch of
        (r, s1) \<Rightarrow> (case read_parts E s1 offset en chs of (rs, s2) \<Rightarrow> (r # rs, s2)))"

fun join_results :: "(exn + bytes) list \<Rightarrow> exn + bytes" where
  "join_results [] = Inr []"
| "join_results (Inl e # rs) = Inl e"
| "join_results (Inr d # rs) =
     (case join_results rs of Inl e \<Rightarrow> Inl e | Inr ds \<Rightarrow> Inr (d @ ds))"

text \<open>\<open>_prefetch\<close>: best effort, errors are dropped.\<close>

fun prefetch :: "'b env \<Rightarrow> 'b store \<Rightarrow> sha list \<Rightarrow> 'b store" where
  "prefetch E s [] = s"
| "prefetch E s (sh # shs) =
     (case s_cache s of
        None \<Rightarrow> s
      | Some c \<Rightarrow>
          if rc_has c sh then prefetch E s shs
          else (case blob_get (s_meta s) sh of
                  None \<Rightarrow> prefetch E s shs
                | Some row \<Rightarrow>
                    (case rc_prefetch c (s_back s) sh (fetch_load E (b_handle row) sh) of
                       (_, c', b') \<Rightarrow> prefetch E (s\<lparr>s_cache := Some c', s_back := b'\<rparr>) shs)))"

definition note_last_end :: "(ino \<times> nat) list \<Rightarrow> ino \<Rightarrow> nat \<Rightarrow> (ino \<times> nat) list" where
  "note_last_end le i en =
     (let le' = (if length le > 4096 then [] else le)
      in filter (\<lambda>(j, _). j \<noteq> i) le' @ [(i, en)])"

definition read_range :: "'b env \<Rightarrow> 'b store \<Rightarrow> ino \<Rightarrow> nat \<Rightarrow> nat \<Rightarrow> (bytes, 'b store) res" where
  "read_range E s i offset len =
     (if len \<le> 0 then (Inr [], s)
      else
        (let en = offset + len;
             cks = get_chunks (s_meta s) i;
             hit = filter (\<lambda>(k, ch). c_off ch + c_len ch > offset \<and> c_off ch < en) (enumerate 0 cks)
         in if hit = [] then (Inr [], s)
            else (case read_parts E s offset en (map snd hit) of
                    (rs, s1) \<Rightarrow>
                      (case join_results rs of
                         Inl e \<Rightarrow> (Inl e, s1)
                       | Inr out \<Rightarrow>
                           (let sequential = (map_of (s_last_end s1) i = Some offset);
                                s2 = s1\<lparr>s_last_end := note_last_end (s_last_end s1) i en\<rparr>;
                                nxt = fst (last hit) + 1
                            in (Inr out,
                                if s_readahead s2 \<noteq> 0 \<and> sequential
                                then prefetch E s2
                                       (map c_sha (slice cks nxt (nxt + s_readahead s2)))
                                else s2))))))"

end
