(* ===== verification/Writeback.thy ===== *)
theory Writeback
  imports Store
begin

section \<open>The writeback manager (tgfs/cache.py, WritebackManager)\<close>

text \<open>
  One file being written: its temporary file, the chunks as stored (\<open>fs_base\<close>), which of
  them have been copied into the temporary file and which were modified. The operations on
  one file run under its lock; they are functions over the file state and the store. An
  operation that raises keeps what it has done so far. \<open>iter_chunks\<close> downloads some chunks
  ahead of the consumer; the model fetches each when it is consumed, as with one download
  worker.
\<close>

record filestate =
  fs_ino :: ino
  fs_file :: pyfile
  fs_closed :: bool
  fs_refcount :: int
  fs_dirty :: bool
  fs_mat :: bool
  fs_size :: nat
  fs_base :: "(nat \<times> nat \<times> sha) list"
  fs_loaded :: "nat set"
  fs_dirty_idx :: "nat set"
  fs_idle :: time

type_synonym ('a, 'b) fres = "(exn + 'a) \<times> filestate \<times> 'b store"

definition new_filestate :: "ino \<Rightarrow> filestate" where
  "new_filestate i =
     \<lparr>fs_ino = i, fs_file = f_open, fs_closed = False, fs_refcount = 0, fs_dirty = False,
      fs_mat = False, fs_size = 0, fs_base = [], fs_loaded = {}, fs_dirty_idx = {}, fs_idle = 0\<rparr>"

definition base_of :: "chunk \<Rightarrow> nat \<times> nat \<times> sha" where
  "base_of c = (c_off c, c_len c, c_sha c)"

subsection \<open>Loading stored chunks into the temporary file\<close>

text \<open>
  \<open>for i, data in zip(need, self.store.iter_chunks(shas))\<close>. Seeking a closed file raises
  \<open>ValueError\<close>.
\<close>

fun load_loop :: "'b env \<Rightarrow> filestate \<Rightarrow> 'b store \<Rightarrow> nat list \<Rightarrow> (unit, 'b) fres" where
  "load_loop E st s [] = (Inr (), st, s)"
| "load_loop E st s (i # need) =
     (case fs_base st ! i of
        (off, len, sh) \<Rightarrow>
          (case read_chunk E s sh None of
             (Inl e, s1) \<Rightarrow> (Inl e, st, s1)
           | (Inr d, s1) \<Rightarrow>
               if fs_closed st then (Inl ValueError, st, s1)
               else load_loop E
                      (st\<lparr>fs_file := f_write (f_seek (fs_file st) off) d,
                          fs_loaded := insert i (fs_loaded st)\<rparr>) s1 need))"

definition load :: "'b env \<Rightarrow> filestate \<Rightarrow> 'b store \<Rightarrow> nat \<Rightarrow> nat \<Rightarrow> nat set \<Rightarrow> (unit, 'b) fres" where
  "load E st s lo hi skip =
     (let need = filter (\<lambda>i. i \<notin> fs_loaded st \<and> i \<notin> skip) [lo..<min hi (length (fs_base st))]
      in if need = [] then (Inr (), st, s) else load_loop E st s need)"

text \<open>The condition \<open>aligned\<close> of \<open>_materialize\<close>.\<close>

definition aligned :: "nat \<Rightarrow> (nat \<times> nat \<times> sha) list \<Rightarrow> bool" where
  "aligned cs base =
     list_all (\<lambda>(i, off, len, _). off = i * cs \<and> (len = cs \<or> i + 1 = length base)) (enumerate 0 base)"

definition materialize :: "'b env \<Rightarrow> filestate \<Rightarrow> 'b store \<Rightarrow> (unit, 'b) fres" where
  "materialize E st s =
     (if fs_mat st then (Inr (), st, s)
      else
        (let rows = get_chunks (s_meta s) (fs_ino st)
         in case get_inode (s_meta s) (fs_ino st) of
              None \<Rightarrow> (Inl AttributeError, st, s)
            | Some n \<Rightarrow>
                (let st1 = st\<lparr>fs_size := i_size n, fs_base := map base_of rows, fs_loaded := {},
                              fs_dirty_idx := {}\<rparr>
                 in if aligned (s_cs s) (fs_base st1) then (Inr (), st1\<lparr>fs_mat := True\<rparr>, s)
                    else (case load E st1 s 0 (length (fs_base st1)) {} of
                            (Inl e, st2, s2) \<Rightarrow> (Inl e, st2, s2)
                          | (Inr _, st2, s2) \<Rightarrow>
                              (Inr (), st2\<lparr>fs_dirty_idx := {0..<length (fs_base st2)}, fs_base := [],
                                           fs_loaded := {}, fs_mat := True\<rparr>, s2)))))"

definition prepare :: "'b env \<Rightarrow> filestate \<Rightarrow> 'b store \<Rightarrow> nat \<Rightarrow> nat \<Rightarrow> bool \<Rightarrow> (unit, 'b) fres" where
  "prepare E st s start en0 overwrite =
     (let en = min en0 (fs_size st)
      in if en \<le> start \<or> fs_base st = [] then (Inr (), st, s)
         else
           (let cs = s_cs s;
                lo = start div cs;
                hi = (en - 1) div cs + 1;
                skip = (if overwrite
                        then set (filter (\<lambda>i. case fs_base st ! i of (off, len, _) \<Rightarrow>
                                              start \<le> off \<and> off + len \<le> en)
                                    [lo..<min hi (length (fs_base st))])
                        else {})
            in load E (st\<lparr>fs_loaded := fs_loaded st \<union> skip\<rparr>) s lo hi skip))"

definition grow :: "'b env \<Rightarrow> filestate \<Rightarrow> 'b store \<Rightarrow> nat \<Rightarrow> (unit, 'b) fres" where
  "grow E st s new_size =
     (if new_size \<le> fs_size st then (Inr (), st, s)
      else
        (let cs = s_cs s; b = length (fs_base st) - 1
         in if fs_base st \<noteq> [] \<and> fs_size st mod cs \<noteq> 0 \<and>
               length (fs_base st) = fs_size st div cs + 1
            then (case load E st s b (b + 1) {} of
                    (Inl e, st1, s1) \<Rightarrow> (Inl e, st1, s1)
                  | (Inr _, st1, s1) \<Rightarrow>
                      (Inr (), st1\<lparr>fs_dirty_idx := insert b (fs_dirty_idx st1), fs_size := new_size\<rparr>, s1))
            else (Inr (), st\<lparr>fs_size := new_size\<rparr>, s)))"

subsection \<open>Reading, writing, truncating\<close>

definition wb_read :: "'b env \<Rightarrow> filestate \<Rightarrow> 'b store \<Rightarrow> nat \<Rightarrow> nat \<Rightarrow> (bytes, 'b) fres" where
  "wb_read E st s n offset =
     (if fs_mat st
      then (let en = min (offset + n) (fs_size st)
            in if en \<le> offset then (Inr [], st, s)
               else (case prepare E st s offset en False of
                       (Inl e, st1, s1) \<Rightarrow> (Inl e, st1, s1)
                     | (Inr _, st1, s1) \<Rightarrow>
                         if fs_closed st1 then (Inl ValueError, st1, s1)
                         else (case f_read (f_seek (fs_file st1) offset) (en - offset) of
                                 (d, f) \<Rightarrow> (Inr d, st1\<lparr>fs_file := f\<rparr>, s1))))
      else (case read_range E s (fs_ino st) offset n of (r, s1) \<Rightarrow> (r, st, s1)))"

definition wb_write :: "'b env \<Rightarrow> filestate \<Rightarrow> 'b store \<Rightarrow> bytes \<Rightarrow> nat \<Rightarrow> (nat, 'b) fres" where
  "wb_write E st s d offset =
     (case materialize E st s of
        (Inl e, st1, s1) \<Rightarrow> (Inl e, st1, s1)
      | (Inr _, st1, s1) \<Rightarrow>
          (let en = offset + length d
           in case prepare E st1 s1 offset en True of
                (Inl e, st2, s2) \<Rightarrow> (Inl e, st2, s2)
              | (Inr _, st2, s2) \<Rightarrow>
                  (case grow E st2 s2 en of
                     (Inl e, st3, s3) \<Rightarrow> (Inl e, st3, s3)
                   | (Inr _, st3, s3) \<Rightarrow>
                       if fs_closed st3 then (Inl ValueError, st3, s3)
                       else
                         (let cs = s_cs s3
                          in (Inr (length d),
                              st3\<lparr>fs_file := f_write (f_seek (fs_file st3) offset) d,
                                  fs_dirty_idx := fs_dirty_idx st3 \<union>
                                    (if d = [] then {} else {offset div cs..<(en - 1) div cs + 1}),
                                  fs_dirty := True\<rparr>,
                              s3)))))"

definition wb_truncate :: "'b env \<Rightarrow> filestate \<Rightarrow> 'b store \<Rightarrow> nat \<Rightarrow> (unit, 'b) fres" where
  "wb_truncate E st s len =
     (case materialize E st s of
        (Inl e, st1, s1) \<Rightarrow> (Inl e, st1, s1)
      | (Inr _, st1, s1) \<Rightarrow>
          (let cs = s_cs s1;
               b = len div cs;
               keep = (len + cs - 1) div cs;
               resized =
                 (if len < fs_size st1
                  then (case (if len mod cs \<noteq> 0 \<and> b < length (fs_base st1)
                              then (case load E st1 s1 b (b + 1) {} of
                                      (Inl e, st2, s2) \<Rightarrow> (Inl e, st2, s2)
                                    | (Inr _, st2, s2) \<Rightarrow>
                                        (Inr (), st2\<lparr>fs_dirty_idx := insert b (fs_dirty_idx st2)\<rparr>, s2))
                              else (Inr (), st1, s1)) of
                          (Inl e, st2, s2) \<Rightarrow> (Inl e, st2, s2)
                        | (Inr _, st2, s2) \<Rightarrow>
                            (Inr (), st2\<lparr>fs_base := take keep (fs_base st2),
                                         fs_loaded := Set.filter (\<lambda>i. i < keep) (fs_loaded st2),
                                         fs_dirty_idx := Set.filter (\<lambda>i. i < keep) (fs_dirty_idx st2),
                                         fs_size := len\<rparr>, s2))
                  else grow E st1 s1 len)
           in case resized of
                (Inl e, st3, s3) \<Rightarrow> (Inl e, st3, s3)
              | (Inr _, st3, s3) \<Rightarrow>
                  if fs_closed st3 then (Inl ValueError, st3, s3)
                  else (Inr (), st3\<lparr>fs_file := f_truncate (fs_file st3) len, fs_dirty := True\<rparr>, s3)))"

definition flush_locked :: "'b env \<Rightarrow> filestate \<Rightarrow> 'b store \<Rightarrow> (unit, 'b) fres" where
  "flush_locked E st s =
     (if \<not> fs_dirty st then (Inr (), st, s)
      else if fs_closed st then (Inl ValueError, st, s)
      else
        (let f = f_seek (f_truncate (fs_file st) (fs_size st)) 0;
             old_n = length (fs_base st)
         in case put_file E s (fs_ino st) f (fs_size st) (Some (fs_dirty_idx st)) of
              (Inl e, f', s') \<Rightarrow> (Inl e, st\<lparr>fs_file := f'\<rparr>, s')
            | (Inr _, f', s') \<Rightarrow>
                (let base = map base_of (get_chunks (s_meta s') (fs_ino st))
                 in (Inr (), st\<lparr>fs_file := f', fs_base := base,
                                fs_loaded := fs_loaded st \<union> {old_n..<length base},
                                fs_dirty_idx := {}, fs_dirty := False\<rparr>, s'))))"

subsection \<open>The manager\<close>

text \<open>
  \<open>w_states\<close> is the dict from inode numbers to file states, by address: a handle keeps the
  object it was given also after the dict lost it. \<open>w_heap\<close> holds the objects, \<open>w_now\<close> is
  what \<open>time.monotonic()\<close> reads.
\<close>

record 'b wb =
  w_store :: "'b store"
  w_states :: "(ino \<times> nat) list"
  w_heap :: "nat \<Rightarrow> filestate option"
  w_next :: nat
  w_delay :: time
  w_now :: time

definition new_wb :: "'b store \<Rightarrow> time \<Rightarrow> 'b wb" where
  "new_wb s delay =
     \<lparr>w_store = s, w_states = [], w_heap = (\<lambda>_. None), w_next = 0, w_delay = delay, w_now = 0\<rparr>"

definition set_state :: "'b wb \<Rightarrow> nat \<Rightarrow> filestate \<Rightarrow> 'b store \<Rightarrow> 'b wb" where
  "set_state w a st s = w\<lparr>w_heap := (w_heap w)(a := Some st), w_store := s\<rparr>"

text \<open>Run an operation on the object at an address.\<close>

definition on_state :: "'b wb \<Rightarrow> nat \<Rightarrow> (filestate \<Rightarrow> 'b store \<Rightarrow> ('a, 'b) fres) \<Rightarrow> ('a, 'b wb) res" where
  "on_state w a f =
     (case w_heap w a of
        None \<Rightarrow> (Inl AttributeError, w)
      | Some st \<Rightarrow> (case f st (w_store w) of (r, st', s') \<Rightarrow> (r, set_state w a st' s')))"

definition dict_pop :: "(ino \<times> nat) list \<Rightarrow> ino \<Rightarrow> (ino \<times> nat) list" where
  "dict_pop d i = filter (\<lambda>(j, _). j \<noteq> i) d"

definition wb_open :: "'b env \<Rightarrow> 'b wb \<Rightarrow> ino \<Rightarrow> bool \<Rightarrow> (nat, 'b wb) res" where
  "wb_open E w i for_write =
     (let (a, w1) =
        (case map_of (w_states w) i of
           Some a \<Rightarrow> (a, w)
         | None \<Rightarrow>
             (w_next w,
              w\<lparr>w_heap := (w_heap w)(w_next w := Some (new_filestate i)),
                w_states := w_states w @ [(i, w_next w)], w_next := w_next w + 1\<rparr>));
        w2 = w1\<lparr>w_heap := (w_heap w1)(a :=
               map_option (\<lambda>st. st\<lparr>fs_refcount := fs_refcount st + 1\<rparr>) (w_heap w1 a))\<rparr>
      in if for_write
         then (case on_state w2 a (materialize E) of
                 (Inl e, w3) \<Rightarrow> (Inl e, w3)
               | (Inr _, w3) \<Rightarrow> (Inr a, w3))
         else (Inr a, w2))"

definition live_size :: "'b wb \<Rightarrow> ino \<Rightarrow> nat option" where
  "live_size w i =
     (case map_of (w_states w) i of
        None \<Rightarrow> None
      | Some a \<Rightarrow> (case w_heap w a of
            Some st \<Rightarrow> if fs_mat st then Some (fs_size st) else None
          | None \<Rightarrow> None))"

definition wb_flush :: "'b env \<Rightarrow> 'b wb \<Rightarrow> nat \<Rightarrow> (unit, 'b wb) res" where
  "wb_flush E w a = (if w_delay w > 0 then (Inr (), w) else on_state w a (flush_locked E))"

definition wb_sync :: "'b env \<Rightarrow> 'b wb \<Rightarrow> nat \<Rightarrow> (unit, 'b wb) res" where
  "wb_sync E w a = on_state w a (flush_locked E)"

text \<open>\<open>_close_state\<close>: the temporary file is closed and unlinked.\<close>

definition close_state :: "'b wb \<Rightarrow> nat \<Rightarrow> 'b wb" where
  "close_state w a =
     w\<lparr>w_heap := (w_heap w)(a := map_option (\<lambda>st. st\<lparr>fs_closed := True\<rparr>) (w_heap w a))\<rparr>"

definition wb_release :: "'b env \<Rightarrow> 'b wb \<Rightarrow> nat \<Rightarrow> (unit, 'b wb) res" where
  "wb_release E w a =
     (case w_heap w a of
        None \<Rightarrow> (Inl AttributeError, w)
      | Some st0 \<Rightarrow>
          (let st = st0\<lparr>fs_refcount := fs_refcount st0 - 1\<rparr>;
               w1 = w\<lparr>w_heap := (w_heap w)(a := Some st)\<rparr>
           in if fs_refcount st > 0 then (Inr (), w1)
              else if w_delay w > 0 \<and> fs_dirty st
              then (Inr (), w1\<lparr>w_heap := (w_heap w1)(a := Some (st\<lparr>fs_idle := w_now w\<rparr>))\<rparr>)
              else (case on_state (w1\<lparr>w_states := dict_pop (w_states w1) (fs_ino st)\<rparr>) a
                           (flush_locked E) of
                      (Inl e, w2) \<Rightarrow> (Inl e, w2)
                    | (Inr _, w2) \<Rightarrow> (Inr (), close_state w2 a))))"

definition discard :: "'b wb \<Rightarrow> ino \<Rightarrow> 'b wb" where
  "discard w i =
     (case map_of (w_states w) i of
        None \<Rightarrow> w
      | Some a \<Rightarrow>
          close_state (w\<lparr>w_states := dict_pop (w_states w) i,
                         w_heap := (w_heap w)(a :=
                           map_option (\<lambda>st. st\<lparr>fs_dirty := False\<rparr>) (w_heap w a))\<rparr>) a)"

subsection \<open>Delayed flush\<close>

definition reap_candidates :: "'b wb \<Rightarrow> bool \<Rightarrow> nat list" where
  "reap_candidates w force =
     filter (\<lambda>a. case w_heap w a of
                   None \<Rightarrow> False
                 | Some st \<Rightarrow> fs_refcount st = 0 \<and> (force \<or> w_now w - fs_idle st \<ge> w_delay w))
       (map snd (w_states w))"

text \<open>
  The loop body in its two critical sections: the flush, and the removal that follows it.
\<close>

definition reap_flush :: "'b env \<Rightarrow> 'b wb \<Rightarrow> nat \<Rightarrow> (unit, 'b wb) res" where
  "reap_flush E w a =
     (case on_state w a (flush_locked E) of
        (Inl e, w1) \<Rightarrow>
          (Inl e, w1\<lparr>w_heap := (w_heap w1)(a :=
             map_option (\<lambda>st. st\<lparr>fs_idle := w_now w1\<rparr>) (w_heap w1 a))\<rparr>)
      | (Inr _, w1) \<Rightarrow> (Inr (), w1))"

definition reap_remove :: "'b wb \<Rightarrow> nat \<Rightarrow> 'b wb" where
  "reap_remove w a =
     (case w_heap w a of
        None \<Rightarrow> w
      | Some st \<Rightarrow>
          if fs_refcount st = 0 \<and> map_of (w_states w) (fs_ino st) = Some a
          then close_state (w\<lparr>w_states := dict_pop (w_states w) (fs_ino st)\<rparr>) a
          else w)"

fun reap_loop :: "'b env \<Rightarrow> 'b wb \<Rightarrow> bool \<Rightarrow> nat list \<Rightarrow> (unit, 'b wb) res" where
  "reap_loop E w force [] = (Inr (), w)"
| "reap_loop E w force (a # cands) =
     (case reap_flush E w a of
        (Inl e, w1) \<Rightarrow> if force then (Inl e, w1) else reap_loop E w1 force cands
      | (Inr _, w1) \<Rightarrow> reap_loop E (reap_remove w1 a) force cands)"

definition reap_once :: "'b env \<Rightarrow> 'b wb \<Rightarrow> bool \<Rightarrow> (unit, 'b wb) res" where
  "reap_once E w force = reap_loop E w force (reap_candidates w force)"

definition shutdown :: "'b env \<Rightarrow> 'b wb \<Rightarrow> (unit, 'b wb) res" where
  "shutdown E w =
     reap_once E
       (w\<lparr>w_heap := (\<lambda>a. if a \<in> snd ` set (w_states w)
                         then map_option (\<lambda>st. st\<lparr>fs_refcount := 0\<rparr>) (w_heap w a)
                         else w_heap w a)\<rparr>) True"

text \<open>
  \<open>truncate_path\<close>: the \<open>finally\<close> clause releases also when the truncation raised; an
  exception of the release then wins.
\<close>

definition truncate_path :: "'b env \<Rightarrow> 'b wb \<Rightarrow> ino \<Rightarrow> nat \<Rightarrow> (unit, 'b wb) res" where
  "truncate_path E w i len =
     (case wb_open E w i True of
        (Inl e, w1) \<Rightarrow> (Inl e, w1)
      | (Inr a, w1) \<Rightarrow>
          (case (case on_state w1 a (\<lambda>st s. wb_truncate E st s len) of
                   (Inl e, w2) \<Rightarrow> (Inl e, w2)
                 | (Inr _, w2) \<Rightarrow> wb_flush E w2 a) of
             (r, w3) \<Rightarrow>
               (case wb_release E w3 a of
                  (Inl e, w4) \<Rightarrow> (Inl e, w4)
                | (Inr _, w4) \<Rightarrow> (r, w4))))"

end
