(* ===== verification/FsCore.thy ===== *)
theory FsCore
  imports Writeback
begin

section \<open>The filesystem core (tgfs/fuse_ops.py)\<close>

text \<open>
  \<open>FsCore\<close> joins the index, the store and the writeback manager: it checks arguments, keeps
  the table of file handles and delays the freeing of files that are unlinked while open.
  The index is the one of the store (\<open>build_core\<close> hands the same object to all three), so the
  state is the manager with the handle table, the next handle number and the set of pending
  unlinks. \<open>fc_fh\<close> maps a handle to the address of its file state. The methods of this file
  carry the prefix \<open>core\<close>, since \<open>Meta\<close> has methods of the same names.
\<close>

record 'b fs =
  fc_wb :: "'b wb"
  fc_fh :: "(nat \<times> nat) list"
  fc_seq :: nat
  fc_pending :: "ino set"

definition new_core :: "'b wb \<Rightarrow> 'b fs" where
  "new_core w = \<lparr>fc_wb = w, fc_fh = [], fc_seq = 1, fc_pending = {}\<rparr>"

abbreviation fail :: "errno \<Rightarrow> exn + 'a" where
  "fail c \<equiv> Inl (OSError (Some c))"

abbreviation fc_store :: "'b fs \<Rightarrow> 'b store" where
  "fc_store f \<equiv> w_store (fc_wb f)"

abbreviation fc_meta :: "'b fs \<Rightarrow> meta" where
  "fc_meta f \<equiv> s_meta (fc_store f)"

text \<open>Run a method of the manager, of the store or of the index.\<close>

definition on_wb :: "'b fs \<Rightarrow> ('b wb \<Rightarrow> ('a, 'b wb) res) \<Rightarrow> ('a, 'b fs) res" where
  "on_wb f op = (case op (fc_wb f) of (r, w) \<Rightarrow> (r, f\<lparr>fc_wb := w\<rparr>))"

definition on_store :: "'b fs \<Rightarrow> ('b store \<Rightarrow> ('a, 'b store) res) \<Rightarrow> ('a, 'b fs) res" where
  "on_store f op = on_wb f (\<lambda>w. case op (w_store w) of (r, s) \<Rightarrow> (r, w\<lparr>w_store := s\<rparr>))"

definition on_meta :: "'b fs \<Rightarrow> (meta \<Rightarrow> ('a, meta) res) \<Rightarrow> ('a, 'b fs) res" where
  "on_meta f op = on_store f (\<lambda>s. case op (s_meta s) of (r, m) \<Rightarrow> (r, s\<lparr>s_meta := m\<rparr>))"

subsection \<open>Attributes\<close>

definition core_live :: "'b fs \<Rightarrow> inode \<Rightarrow> inode" where
  "core_live f n =
     (if i_kind n = KFile
      then (case live_size (fc_wb f) (i_id n) of Some sz \<Rightarrow> n\<lparr>i_size := sz\<rparr> | None \<Rightarrow> n)
      else n)"

definition core_getattr :: "'b fs \<Rightarrow> ino \<Rightarrow> exn + inode" where
  "core_getattr f i =
     (case get_inode (fc_meta f) i of
        None \<Rightarrow> fail ENOENT
      | Some n \<Rightarrow> Inr (core_live f n))"

definition core_lookup :: "'b fs \<Rightarrow> ino \<Rightarrow> string \<Rightarrow> exn + inode" where
  "core_lookup f parent name =
     (case lookup (fc_meta f) parent name of
        None \<Rightarrow> fail ENOENT
      | Some n \<Rightarrow> Inr (core_live f n))"

definition core_readdir :: "'b fs \<Rightarrow> ino \<Rightarrow> exn + (string \<times> ino) list" where
  "core_readdir f i =
     (case get_inode (fc_meta f) i of
        None \<Rightarrow> fail ENOENT
      | Some n \<Rightarrow> if \<not> is_dir n then fail ENOTDIR else Inr (readdir (fc_meta f) i))"

text \<open>The size is compared with the stored one, not with that of unflushed writes.\<close>

definition core_setattr ::
    "'b env \<Rightarrow> 'b fs \<Rightarrow> ino \<Rightarrow> int option \<Rightarrow> int option \<Rightarrow> int option \<Rightarrow> nat option \<Rightarrow>
     time option \<Rightarrow> time option \<Rightarrow> (inode, 'b fs) res" where
  "core_setattr E f i mode uid gid sz atime mtime =
     (case get_inode (fc_meta f) i of
        None \<Rightarrow> (fail ENOENT, f)
      | Some n \<Rightarrow>
          (case (case sz of
                   None \<Rightarrow> (Inr (), f)
                 | Some k \<Rightarrow> if \<not> is_dir n \<and> k \<noteq> i_size n
                             then on_wb f (\<lambda>w. truncate_path E w i k) else (Inr (), f)) of
             (Inl e, f1) \<Rightarrow> (Inl e, f1)
           | (Inr _, f1) \<Rightarrow>
               (case on_meta f1 (\<lambda>m. (Inr (), setattr m i mode uid gid None atime mtime)) of
                  (Inl e, f2) \<Rightarrow> (Inl e, f2)
                | (Inr _, f2) \<Rightarrow> (core_getattr f2 i, f2))))"

subsection \<open>Directory mutations\<close>

definition ensure_absent :: "'b fs \<Rightarrow> ino \<Rightarrow> string \<Rightarrow> exn + unit" where
  "ensure_absent f parent name =
     (if lookup (fc_meta f) parent name \<noteq> None then fail EEXIST else Inr ())"

definition core_mkdir :: "'b fs \<Rightarrow> ino \<Rightarrow> string \<Rightarrow> int \<Rightarrow> int \<Rightarrow> int \<Rightarrow> (inode, 'b fs) res" where
  "core_mkdir f parent name mode uid gid =
     (case ensure_absent f parent name of
        Inl e \<Rightarrow> (Inl e, f)
      | Inr _ \<Rightarrow> on_meta f (\<lambda>m. create m parent name (S_IFDIR OR (mode AND 4095)) KDir uid gid None))"

definition core_rmdir :: "'b fs \<Rightarrow> ino \<Rightarrow> string \<Rightarrow> (unit, 'b fs) res" where
  "core_rmdir f parent name =
     (case lookup (fc_meta f) parent name of
        None \<Rightarrow> (fail ENOENT, f)
      | Some n \<Rightarrow>
          if \<not> is_dir n then (fail ENOTDIR, f)
          else if child_count (fc_meta f) (i_id n) > 0 then (fail ENOTEMPTY, f)
          else (case on_meta f (\<lambda>m. unlink_dirent m parent name) of
                  (Inl e, f1) \<Rightarrow> (Inl e, f1)
                | (Inr _, f1) \<Rightarrow> (Inr (), f1)))"

definition core_create_node :: "'b fs \<Rightarrow> ino \<Rightarrow> string \<Rightarrow> int \<Rightarrow> int \<Rightarrow> int \<Rightarrow> (inode, 'b fs) res" where
  "core_create_node f parent name mode uid gid =
     (case ensure_absent f parent name of
        Inl e \<Rightarrow> (Inl e, f)
      | Inr _ \<Rightarrow> on_meta f (\<lambda>m. create m parent name (S_IFREG OR (mode AND 4095)) KFile uid gid None))"

definition core_symlink :: "'b fs \<Rightarrow> ino \<Rightarrow> string \<Rightarrow> string \<Rightarrow> int \<Rightarrow> int \<Rightarrow> (inode, 'b fs) res" where
  "core_symlink f parent name target uid gid =
     (case ensure_absent f parent name of
        Inl e \<Rightarrow> (Inl e, f)
      | Inr _ \<Rightarrow> on_meta f (\<lambda>m. create m parent name (S_IFLNK OR 511) KLink uid gid (Some target)))"

definition core_readlink :: "'b fs \<Rightarrow> ino \<Rightarrow> exn + string" where
  "core_readlink f i =
     (case get_inode (fc_meta f) i of
        None \<Rightarrow> fail EINVAL
      | Some n \<Rightarrow>
          if \<not> is_link n then fail EINVAL
          else (case i_target n of None \<Rightarrow> fail EINVAL | Some t \<Rightarrow> Inr t))"

definition core_link :: "'b fs \<Rightarrow> ino \<Rightarrow> ino \<Rightarrow> string \<Rightarrow> (inode, 'b fs) res" where
  "core_link f i new_parent new_name =
     (case get_inode (fc_meta f) i of
        None \<Rightarrow> (fail ENOENT, f)
      | Some n \<Rightarrow>
          if is_dir n then (fail EPERM, f)
          else (case ensure_absent f new_parent new_name of
                  Inl e \<Rightarrow> (Inl e, f)
                | Inr _ \<Rightarrow>
                    (case on_meta f (\<lambda>m. link m new_parent new_name i) of
                       (Inl e, f1) \<Rightarrow> (Inl e, f1)
                     | (Inr _, f1) \<Rightarrow> (core_getattr f1 i, f1))))"

subsection \<open>File handles\<close>

definition is_open :: "'b fs \<Rightarrow> ino \<Rightarrow> bool" where
  "is_open f i =
     list_ex (\<lambda>(fh, a). map_option fs_ino (w_heap (fc_wb f) a) = Some i) (fc_fh f)"

definition new_fh :: "'b fs \<Rightarrow> nat \<Rightarrow> nat \<times> 'b fs" where
  "new_fh f a =
     (fc_seq f, f\<lparr>fc_fh := dict_pop (fc_fh f) (fc_seq f) @ [(fc_seq f, a)], fc_seq := fc_seq f + 1\<rparr>)"

definition get_state :: "'b fs \<Rightarrow> nat \<Rightarrow> exn + nat" where
  "get_state f fh = (case map_of (fc_fh f) fh of None \<Rightarrow> fail EBADF | Some a \<Rightarrow> Inr a)"

text \<open>The flag values of Linux.\<close>

definition O_ACCMODE :: int where "O_ACCMODE = 3"
definition O_WRONLY :: int where "O_WRONLY = 1"
definition O_RDWR :: int where "O_RDWR = 2"
definition O_EXCL :: int where "O_EXCL = 128"
definition O_TRUNC :: int where "O_TRUNC = 512"
definition O_APPEND :: int where "O_APPEND = 1024"

definition wants_write :: "int \<Rightarrow> bool" where
  "wants_write flags =
     (let acc = flags AND O_ACCMODE
      in acc = O_WRONLY \<or> acc = O_RDWR \<or> flags AND O_APPEND \<noteq> 0)"

definition core_open :: "'b env \<Rightarrow> 'b fs \<Rightarrow> ino \<Rightarrow> int \<Rightarrow> (nat, 'b fs) res" where
  "core_open E f i flags =
     (case get_inode (fc_meta f) i of
        None \<Rightarrow> (fail ENOENT, f)
      | Some n \<Rightarrow>
          if is_dir n then (fail EISDIR, f)
          else
            (case (if flags AND O_TRUNC \<noteq> 0 then on_wb f (\<lambda>w. truncate_path E w i 0)
                   else (Inr (), f)) of
               (Inl e, f1) \<Rightarrow> (Inl e, f1)
             | (Inr _, f1) \<Rightarrow>
                 (case on_wb f1 (\<lambda>w. wb_open E w i (wants_write flags)) of
                    (Inl e, f2) \<Rightarrow> (Inl e, f2)
                  | (Inr a, f2) \<Rightarrow> (case new_fh f2 a of (fh, f3) \<Rightarrow> (Inr fh, f3)))))"

definition core_create ::
    "'b env \<Rightarrow> 'b fs \<Rightarrow> ino \<Rightarrow> string \<Rightarrow> int \<Rightarrow> int \<Rightarrow> int \<Rightarrow> int \<Rightarrow> (nat \<times> inode, 'b fs) res" where
  "core_create E f parent name mode flags uid gid =
     (case (case lookup (fc_meta f) parent name of
              Some existing \<Rightarrow>
                if flags AND O_EXCL \<noteq> 0 then (fail EEXIST, f) else (Inr existing, f)
            | None \<Rightarrow>
                on_meta f (\<lambda>m. create m parent name (S_IFREG OR (mode AND 4095)) KFile uid gid None)) of
        (Inl e, f1) \<Rightarrow> (Inl e, f1)
      | (Inr node, f1) \<Rightarrow>
          (case on_wb f1 (\<lambda>w. wb_open E w (i_id node) True) of
             (Inl e, f2) \<Rightarrow> (Inl e, f2)
           | (Inr a, f2) \<Rightarrow> (case new_fh f2 a of (fh, f3) \<Rightarrow> (Inr (fh, node), f3))))"

text \<open>A call on the file state of a handle.\<close>

definition on_handle :: "'b fs \<Rightarrow> nat \<Rightarrow> (nat \<Rightarrow> 'b wb \<Rightarrow> ('a, 'b wb) res) \<Rightarrow> ('a, 'b fs) res" where
  "on_handle f fh op =
     (case get_state f fh of Inl e \<Rightarrow> (Inl e, f) | Inr a \<Rightarrow> on_wb f (op a))"

definition core_read :: "'b env \<Rightarrow> 'b fs \<Rightarrow> nat \<Rightarrow> nat \<Rightarrow> nat \<Rightarrow> (bytes, 'b fs) res" where
  "core_read E f fh off n = on_handle f fh (\<lambda>a w. on_state w a (\<lambda>st s. wb_read E st s n off))"

definition core_write :: "'b env \<Rightarrow> 'b fs \<Rightarrow> nat \<Rightarrow> nat \<Rightarrow> bytes \<Rightarrow> (nat, 'b fs) res" where
  "core_write E f fh off d = on_handle f fh (\<lambda>a w. on_state w a (\<lambda>st s. wb_write E st s d off))"

definition core_flush :: "'b env \<Rightarrow> 'b fs \<Rightarrow> nat \<Rightarrow> (unit, 'b fs) res" where
  "core_flush E f fh = on_handle f fh (\<lambda>a w. wb_flush E w a)"

definition core_fsync :: "'b env \<Rightarrow> 'b fs \<Rightarrow> nat \<Rightarrow> (unit, 'b fs) res" where
  "core_fsync E f fh = on_handle f fh (\<lambda>a w. wb_sync E w a)"

subsection \<open>Removing names and files\<close>

text \<open>\<open>wb.discard(ino); store.free_file(ino)\<close>.\<close>

definition drop_file :: "'b env \<Rightarrow> 'b fs \<Rightarrow> ino \<Rightarrow> (unit, 'b fs) res" where
  "drop_file E f i = on_store (f\<lparr>fc_wb := discard (fc_wb f) i\<rparr>) (\<lambda>s. free_file E s i)"

definition free_or_defer :: "'b env \<Rightarrow> 'b fs \<Rightarrow> ino \<Rightarrow> (unit, 'b fs) res" where
  "free_or_defer E f i =
     (if is_open f i then (Inr (), f\<lparr>fc_pending := insert i (fc_pending f)\<rparr>) else drop_file E f i)"

definition core_unlink :: "'b env \<Rightarrow> 'b fs \<Rightarrow> ino \<Rightarrow> string \<Rightarrow> (unit, 'b fs) res" where
  "core_unlink E f parent name =
     (case lookup (fc_meta f) parent name of
        None \<Rightarrow> (fail ENOENT, f)
      | Some n \<Rightarrow>
          if is_dir n then (fail EISDIR, f)
          else
            (case on_meta f (\<lambda>m. unlink_dirent m parent name) of
               (Inl e, f1) \<Rightarrow> (Inl e, f1)
             | (Inr (_, nlink), f1) \<Rightarrow>
                 if nlink \<le> 0 then free_or_defer E f1 (i_id n) else (Inr (), f1)))"

definition core_rename ::
    "'b env \<Rightarrow> 'b fs \<Rightarrow> ino \<Rightarrow> string \<Rightarrow> ino \<Rightarrow> string \<Rightarrow> (unit, 'b fs) res" where
  "core_rename E f oldp oldname newp newname =
     (if lookup (fc_meta f) oldp oldname = None then (fail ENOENT, f)
      else
        (if (case lookup (fc_meta f) newp newname of
               None \<Rightarrow> False
             | Some dst \<Rightarrow> is_dir dst \<and> child_count (fc_meta f) (i_id dst) > 0)
         then (fail ENOTEMPTY, f)
         else (case on_meta f (\<lambda>m. rename m oldp oldname newp newname) of
                 (Inl e, f1) \<Rightarrow> (Inl e, f1)
               | (Inr None, f1) \<Rightarrow> (Inr (), f1)
               | (Inr (Some replaced), f1) \<Rightarrow> free_or_defer E f1 replaced)))"

definition core_release :: "'b env \<Rightarrow> 'b fs \<Rightarrow> nat \<Rightarrow> (unit, 'b fs) res" where
  "core_release E f fh =
     (case map_of (fc_fh f) fh of
        None \<Rightarrow> (Inr (), f)
      | Some a \<Rightarrow>
          (case on_wb (f\<lparr>fc_fh := dict_pop (fc_fh f) fh\<rparr>) (\<lambda>w. wb_release E w a) of
             (Inl e, f1) \<Rightarrow> (Inl e, f1)
           | (Inr _, f1) \<Rightarrow>
               (case w_heap (fc_wb f1) a of
                  None \<Rightarrow> (Inl AttributeError, f1)
                | Some st \<Rightarrow>
                    if fs_ino st \<in> fc_pending f1 \<and> \<not> is_open f1 (fs_ino st)
                    then drop_file E (f1\<lparr>fc_pending := fc_pending f1 - {fs_ino st}\<rparr>) (fs_ino st)
                    else (Inr (), f1))))"

subsection \<open>statfs\<close>

record statfs =
  f_bsize :: int
  f_frsize :: int
  f_blocks :: int
  f_bfree :: int
  f_bavail :: int
  f_files :: int
  f_ffree :: int
  f_favail :: int
  f_namemax :: int

definition core_statfs :: statfs where
  "core_statfs =
     (let bsize = 4096
      in \<lparr>f_bsize = bsize, f_frsize = bsize, f_blocks = push_bit 50 1 div bsize,
          f_bfree = push_bit 49 1 div bsize, f_bavail = push_bit 49 1 div bsize,
          f_files = push_bit 30 1, f_ffree = push_bit 29 1, f_favail = push_bit 29 1,
          f_namemax = 255\<rparr>)"

end
