(* ===== verification/BlobRefs.thy ===== *)
theory BlobRefs
  imports Store
begin

section \<open>Reference counting of blobs\<close>

text \<open>
  The bookkeeping under \<open>put_file\<close> and \<open>free_file\<close>: the reference counts of the index and
  the blobs the backend holds. \<open>R\<close> is the number of references each digest should have;
  \<open>blobs_ok\<close> says that the index counts exactly these, that every registered blob is in the
  backend with the digest and length of its row, that no two rows share a message, and that
  the backend holds nothing else (no message leaks).
\<close>

definition rc :: "meta \<Rightarrow> sha \<Rightarrow> nat" where
  "rc m sh = (case blob_get m sh of None \<Rightarrow> 0 | Some b \<Rightarrow> b_refcount b)"

definition refs :: "meta \<Rightarrow> sha \<Rightarrow> nat" where
  "refs m sh = sql_count (chunks m) (\<lambda>_ c. c_sha c = sh)"

definition counts_ok :: "meta \<Rightarrow> bool" where
  "counts_ok m \<longleftrightarrow> keyed (blobs m) \<and> (\<forall>sh b. blob_get m sh = Some b \<longrightarrow> 0 < b_refcount b)"

lemma blob_get_incref:
  "blob_get (blob_incref m sh) j =
     (if j = sh then map_option (\<lambda>b. b\<lparr>b_refcount := b_refcount b + 1\<rparr>) (blob_get m j)
      else blob_get m j)"
  by (simp add: blob_get_def blob_incref_def select_update)

lemma blob_get_decref:
  "blob_get (snd (blob_decref m sh)) j =
     (if j = sh then (case blob_get m j of None \<Rightarrow> None | Some b \<Rightarrow>
         if b_refcount b \<le> 1 then None else Some (b\<lparr>b_refcount := b_refcount b - 1\<rparr>))
      else blob_get m j)"
  by (simp add: blob_get_def blob_decref_def select_update select_delete split: option.splits)

lemma blob_decref_fst:
  "fst (blob_decref m sh) =
     (case blob_get m sh of None \<Rightarrow> None | Some b \<Rightarrow>
        if b_refcount b \<le> 1 then Some (b_handle b) else None)"
  by (simp add: blob_get_def blob_decref_def split: option.splits)

lemma counts_ok_incref: "counts_ok m \<Longrightarrow> counts_ok (blob_incref m sh)"
  by (auto simp: counts_ok_def blob_get_incref split: if_splits)
    (simp_all add: blob_incref_def)

lemma counts_ok_decref: "counts_ok m \<Longrightarrow> counts_ok (snd (blob_decref m sh))"
  by (auto simp: counts_ok_def blob_get_decref split: if_splits option.splits)
    (auto simp: blob_decref_def split: option.splits)

lemma rc_pos_iff: "counts_ok m \<Longrightarrow> 0 < rc m sh \<longleftrightarrow> blob_get m sh \<noteq> None"
  by (auto simp: rc_def counts_ok_def split: option.splits)

text \<open>The interface of a counted index, and what lists of increments and decrements do.\<close>

locale counted_index =
  fixes cnt :: "'m \<Rightarrow> 'k \<Rightarrow> nat" and inc :: "'m \<Rightarrow> 'k \<Rightarrow> 'm" and dec :: "'m \<Rightarrow> 'k \<Rightarrow> 'm"
    and ok :: "'m \<Rightarrow> bool"
  assumes cnt_inc: "ok m \<Longrightarrow> 0 < cnt m k \<Longrightarrow> cnt (inc m k) j = cnt m j + (if j = k then 1 else 0)"
    and cnt_dec: "ok m \<Longrightarrow> cnt (dec m k) j = cnt m j - (if j = k then 1 else 0)"
    and ok_inc: "ok m \<Longrightarrow> ok (inc m k)"
    and ok_dec: "ok m \<Longrightarrow> ok (dec m k)"
begin

lemma cnt_foldl_inc:
  "ok m \<Longrightarrow> (\<And>k. k \<in> set ks \<Longrightarrow> 0 < cnt m k) \<Longrightarrow>
     ok (foldl inc m ks) \<and> cnt (foldl inc m ks) j = cnt m j + count_list ks j"
  by (induction ks arbitrary: m) (auto simp: cnt_inc ok_inc)

lemma cnt_foldl_dec:
  "ok m \<Longrightarrow> ok (foldl dec m ks) \<and> cnt (foldl dec m ks) j = cnt m j - count_list ks j"
  by (induction ks arbitrary: m) (auto simp: cnt_dec ok_dec)

lemma inc_dec: "ok m \<Longrightarrow> 0 < cnt m k \<Longrightarrow> cnt (dec (inc m k) k) = cnt m"
  by (rule ext) (simp add: cnt_dec cnt_inc ok_inc)

end

interpretation ref_index: counted_index rc blob_incref "\<lambda>m sh. snd (blob_decref m sh)" counts_ok
proof unfold_locales
  fix m k j
  assume "counts_ok m" "0 < rc m k"
  then show "rc (blob_incref m k) j = rc m j + (if j = k then 1 else 0)"
    by (auto simp: rc_def blob_get_incref split: option.splits)
next
  fix m k j
  assume "counts_ok m"
  then show "rc (snd (blob_decref m k)) j = rc m j - (if j = k then 1 else 0)"
    by (auto simp: rc_def blob_get_decref counts_ok_def split: option.splits if_splits)
qed (simp_all add: counts_ok_incref counts_ok_decref)

subsection \<open>The index and the backend together\<close>

text \<open>Where the index says a blob is: its message and its length.\<close>

definition loc :: "meta \<Rightarrow> sha \<Rightarrow> (nat \<times> nat) option" where
  "loc m sh = map_option (\<lambda>b. (b_handle b, b_len b)) (blob_get m sh)"

definition blobs_ok ::
    "(bytes \<Rightarrow> sha) \<Rightarrow> (nat \<Rightarrow> bytes option) \<Rightarrow> meta \<Rightarrow> (sha \<Rightarrow> nat) \<Rightarrow> bool" where
  "blobs_ok hash cont m R \<longleftrightarrow>
     counts_ok m \<and> rc m = R \<and>
     (\<forall>sh h n. loc m sh = Some (h, n) \<longrightarrow> (\<exists>d. cont h = Some d \<and> hash d = sh \<and> length d = n)) \<and>
     (\<forall>sh sh' h n n'. loc m sh = Some (h, n) \<longrightarrow> loc m sh' = Some (h, n') \<longrightarrow> sh = sh') \<and>
     (\<forall>h d. cont h = Some d \<longrightarrow> (\<exists>sh n. loc m sh = Some (h, n)))"

lemma blobs_okD:
  assumes "blobs_ok hash cont m R"
  shows "counts_ok m" "rc m = R"
    and "loc m sh = Some (h, n) \<Longrightarrow> \<exists>d. cont h = Some d \<and> hash d = sh \<and> length d = n"
    and "loc m sh = Some (h, n) \<Longrightarrow> loc m sh' = Some (h, n') \<Longrightarrow> sh = sh'"
    and "cont h = Some d \<Longrightarrow> \<exists>sh n. loc m sh = Some (h, n)"
  using assms unfolding blobs_ok_def by blast+

lemma blobs_ok_known: "blobs_ok hash cont m R \<Longrightarrow> blob_get m sh \<noteq> None \<longleftrightarrow> 0 < R sh"
  using blobs_okD(1,2) [of hash cont m R] rc_pos_iff [of m sh] by simp

lemma loc_None_iff: "loc m sh = None \<longleftrightarrow> blob_get m sh = None"
  by (simp add: loc_def)

lemma blob_get_loc:
  "blob_get m sh = map_option (\<lambda>(h, n). \<lparr>b_handle = h, b_len = n, b_refcount = rc m sh\<rparr>) (loc m sh)"
  by (cases "blob_get m sh") (simp_all add: loc_def rc_def)

lemma loc_incref [simp]: "loc (blob_incref m sh) = loc m"
  by (rule ext) (auto simp: loc_def blob_get_incref option.map_comp comp_def)

lemma loc_decref:
  "counts_ok m \<Longrightarrow> loc (snd (blob_decref m sh)) j = (if j = sh \<and> rc m sh \<le> 1 then None else loc m j)"
  by (auto simp: loc_def blob_get_decref rc_def split: option.splits)

lemma decref_handle:
  "fst (blob_decref m sh) = Some h \<longleftrightarrow> rc m sh \<le> 1 \<and> (\<exists>n. loc m sh = Some (h, n))"
  "fst (blob_decref m sh) = None \<longleftrightarrow> blob_get m sh = None \<or> 1 < rc m sh"
  by (auto simp: blob_decref_fst loc_def rc_def split: option.splits)

text \<open>
  \<open>kept m c m' c'\<close>: every blob of the earlier state is still registered under the same
  message with the same bytes. \<open>only_blobs\<close>: the rest of the index is untouched.
\<close>

definition kept :: "meta \<Rightarrow> (nat \<Rightarrow> bytes option) \<Rightarrow> meta \<Rightarrow> (nat \<Rightarrow> bytes option) \<Rightarrow> bool" where
  "kept m c m' c' \<longleftrightarrow>
     (\<forall>sh h n. loc m sh = Some (h, n) \<longrightarrow> loc m' sh = Some (h, n) \<and> c' h = c h)"

definition only_blobs :: "'b store \<Rightarrow> 'b store \<Rightarrow> bool" where
  "only_blobs s s' \<longleftrightarrow>
     s' = s\<lparr>s_meta := (s_meta s)\<lparr>blobs := blobs (s_meta s')\<rparr>, s_back := s_back s'\<rparr>"

lemma kept_refl [simp]: "kept m c m c"
  by (simp add: kept_def)

lemma kept_trans: "kept m c m' c' \<Longrightarrow> kept m' c' m'' c'' \<Longrightarrow> kept m c m'' c''"
  unfolding kept_def by metis

text \<open>What releases keep: the blobs that still have a reference afterwards, by \<open>R\<close>.\<close>

definition kept_live ::
    "(sha \<Rightarrow> nat) \<Rightarrow> meta \<Rightarrow> (nat \<Rightarrow> bytes option) \<Rightarrow> meta \<Rightarrow> (nat \<Rightarrow> bytes option) \<Rightarrow> bool" where
  "kept_live R m c m' c' \<longleftrightarrow>
     (\<forall>sh h n. 0 < R sh \<longrightarrow> loc m sh = Some (h, n) \<longrightarrow> loc m' sh = Some (h, n) \<and> c' h = c h)"

lemma kept_live_trans:
  "kept_live R m c m' c' \<Longrightarrow> kept_live R' m' c' m'' c'' \<Longrightarrow> (\<And>sh. 0 < R' sh \<Longrightarrow> 0 < R sh) \<Longrightarrow>
     kept_live R' m c m'' c''"
  unfolding kept_live_def by metis

lemma kept_kept_live:
  "kept m c m' c' \<Longrightarrow> kept_live R m' c' m'' c'' \<Longrightarrow> kept_live R m c m'' c''"
  unfolding kept_def kept_live_def by metis

lemma kept_live_kept:
  "kept_live R m c m' c' \<Longrightarrow> (\<And>sh. loc m sh \<noteq> None \<Longrightarrow> 0 < R sh) \<Longrightarrow> kept m c m' c'"
  unfolding kept_def kept_live_def by (metis option.distinct(1))

lemma only_blobs_refl [simp]: "only_blobs s s"
  by (simp add: only_blobs_def)

lemma only_blobs_iff:
  "only_blobs s s' \<longleftrightarrow> inodes (s_meta s') = inodes (s_meta s) \<and>
     dirents (s_meta s') = dirents (s_meta s) \<and> chunks (s_meta s') = chunks (s_meta s) \<and>
     seq (s_meta s') = seq (s_meta s) \<and> clock (s_meta s') = clock (s_meta s) \<and>
     s_cs s' = s_cs s \<and> s_cache s' = s_cache s \<and> s_workers s' = s_workers s \<and>
     s_readahead s' = s_readahead s \<and> s_last_end s' = s_last_end s"
  by (cases s; cases s'; cases "s_meta s"; cases "s_meta s'") (auto simp: only_blobs_def)

lemma only_blobs_trans: "only_blobs s s' \<Longrightarrow> only_blobs s' s'' \<Longrightarrow> only_blobs s s''"
  by (simp add: only_blobs_iff)

lemma only_blobs_refs: "only_blobs s s' \<Longrightarrow> refs (s_meta s') = refs (s_meta s)"
  by (simp add: only_blobs_iff refs_def fun_eq_iff)

lemma blobs_ok_same_blobs:
  assumes "blobs m' = blobs m"
  shows "blobs_ok hash cont m' R = blobs_ok hash cont m R"
proof -
  have "blob_get m' = blob_get m" using assms by (simp add: blob_get_def fun_eq_iff)
  then show ?thesis using assms by (simp add: blobs_ok_def counts_ok_def rc_def loc_def fun_eq_iff)
qed

text \<open>If every blob is kept and the counts are back, the backend is as it was.\<close>

lemma kept_restored:
  assumes "blobs_ok hash c m R" "blobs_ok hash c' m' R" "kept m c m' c'"
  shows "loc m' = loc m" "c' = c" "blob_get m' = blob_get m"
proof -
  have known: "blob_get m sh = None \<longleftrightarrow> blob_get m' sh = None" for sh
    using blobs_ok_known [OF assms(1)] blobs_ok_known [OF assms(2)] by metis
  show l: "loc m' = loc m"
  proof
    fix sh
    show "loc m' sh = loc m sh"
    proof (cases "loc m sh")
      case None
      then show ?thesis
        using known [of sh] loc_None_iff [of m sh] loc_None_iff [of m' sh] by simp
    next
      case (Some hn)
      then show ?thesis using assms(3) by (cases hn) (simp add: kept_def)
    qed
  qed
  show "c' = c"
  proof
    fix h
    have "c' h = c h" if "loc m sh = Some (h, n)" for sh n
      using assms(3) that by (simp add: kept_def)
    moreover have "c h = None" "c' h = None" if "\<nexists>sh n. loc m sh = Some (h, n)"
      using blobs_okD(5) [OF assms(1), of h] blobs_okD(5) [OF assms(2), of h] that l
      by (cases "c h"; cases "c' h"; auto)+
    ultimately show "c' h = c h" by metis
  qed
  show "blob_get m' = blob_get m"
    using l blobs_okD(2) [OF assms(1)] blobs_okD(2) [OF assms(2)]
    by (simp add: fun_eq_iff blob_get_loc)
qed

subsection \<open>Each reference operation\<close>

context blob_backend
begin

lemma incref_ok:
  assumes "blobs_ok hash cont (s_meta s) R" "0 < R sh"
  shows "blobs_ok hash cont (s_meta (incref_store s sh)) (R(sh := R sh + 1))"
    "kept (s_meta s) cont (s_meta (incref_store s sh)) cont"
    "only_blobs s (incref_store s sh)" "s_back (incref_store s sh) = s_back s"
proof -
  note ok = blobs_okD [OF assms(1)]
  have "rc (blob_incref (s_meta s) sh) = R(sh := R sh + 1)"
    using ref_index.cnt_inc [OF ok(1), of sh] ok(2) assms(2) by (simp add: fun_eq_iff)
  then show "blobs_ok hash cont (s_meta (incref_store s sh)) (R(sh := R sh + 1))"
    using assms(1) counts_ok_incref [OF ok(1)]
    by (simp add: blobs_ok_def incref_store_def)
  show "kept (s_meta s) cont (s_meta (incref_store s sh)) cont"
    by (simp add: kept_def incref_store_def)
  show "only_blobs s (incref_store s sh)" "s_back (incref_store s sh) = s_back s"
    by (simp_all add: incref_store_def only_blobs_iff blob_incref_def)
qed

lemma upload_blob_ok:
  assumes inv: "binv (s_back s)"
    and ok: "blobs_ok (sha256 E) (content (s_back s)) (s_meta s) R" "sha256 E d = sh"
    and res: "upload_blob E s sh d = (r, s')"
  shows "binv (s_back s')" "only_blobs s s'"
    and "kept (s_meta s) (content (s_back s)) (s_meta s') (content (s_back s'))"
    and "blobs_ok (sha256 E) (content (s_back s')) (s_meta s')
           (case r of Inl _ \<Rightarrow> R | Inr _ \<Rightarrow> R(sh := R sh + 1))"
    and "R sh = 0 \<Longrightarrow> r = Inr () \<Longrightarrow> loc (s_meta s') sh \<noteq> None"
proof -
  note okD = blobs_okD [OF ok(1)]
  have "binv (s_back s') \<and> only_blobs s s' \<and>
      kept (s_meta s) (content (s_back s)) (s_meta s') (content (s_back s')) \<and>
      blobs_ok (sha256 E) (content (s_back s')) (s_meta s')
        (case r of Inl _ \<Rightarrow> R | Inr _ \<Rightarrow> R(sh := R sh + 1)) \<and>
      (R sh = 0 \<longrightarrow> r = Inr () \<longrightarrow> loc (s_meta s') sh \<noteq> None)"
    using inv
  proof (cases rule: upload_cases [where d = d])
    case (fail e b')
    with res have "r = Inl e" "s' = s\<lparr>s_back := b'\<rparr>" by (auto simp: upload_blob_def)
    with fail ok(1) show ?thesis by (simp add: only_blobs_iff kept_def)
  next
    case up: (ok h b')
    show ?thesis
    proof (cases "blob_get (s_meta s) sh")
      case None
      define m' where "m' = (s_meta s)\<lparr>blobs := blobs (s_meta s) @
          [(sh, \<lparr>b_handle = h, b_len = length d, b_refcount = 1\<rparr>)]\<rparr>"
      have s': "r = Inr ()" "s' = s\<lparr>s_back := b', s_meta := m'\<rparr>"
        using res up(1) None
        by (auto simp: upload_blob_def blob_create_def sql_insert_def blob_get_def m'_def)
      have get: "blob_get m' j = (if j = sh then Some \<lparr>b_handle = h, b_len = length d, b_refcount = 1\<rparr>
          else blob_get (s_meta s) j)" for j
        using None by (simp add: blob_get_def m'_def select_append_new)
      have R: "R sh = 0" using None blobs_ok_known [OF ok(1), of sh] by simp
      have "keyed (blobs m')"
        using okD(1) None by (simp add: m'_def counts_ok_def keyed_append_new blob_get_def)
      then have c: "counts_ok m'" using okD(1) by (auto simp: counts_ok_def get)
      have rc: "rc m' = R(sh := R sh + 1)"
        using okD(2) R by (auto simp: rc_def get fun_eq_iff split: option.splits)
      have loc: "loc m' j = (if j = sh then Some (h, length d) else loc (s_meta s) j)" for j
        by (simp add: loc_def get)
      have fresh: "h' \<noteq> h" if "loc (s_meta s) j = Some (h', n)" for j h' n
        using okD(3) [OF that] up(3) by auto
      have "blobs_ok (sha256 E) (content b') m' (R(sh := R sh + 1))"
        unfolding blobs_ok_def
      proof (intro conjI allI impI c rc)
        fix j h' n
        assume "loc m' j = Some (h', n)"
        then show "\<exists>d. content b' h' = Some d \<and> sha256 E d = j \<and> length d = n"
          using okD(3) [of j h' n] fresh [of j h' n] ok(2) by (auto simp: loc up(4) split: if_splits)
      next
        fix j j' h' n n'
        assume "loc m' j = Some (h', n)" "loc m' j' = Some (h', n')"
        then show "j = j'"
          using okD(4) [of j h' n j' n'] fresh [of j h' n] fresh [of j' h' n']
          by (auto simp: loc split: if_splits)
      next
        fix h' d'
        assume "content b' h' = Some d'"
        show "\<exists>j n. loc m' j = Some (h', n)"
        proof (cases "h' = h")
          case True
          then show ?thesis using loc [of sh] by auto
        next
          case False
          with \<open>content b' h' = Some d'\<close> obtain j n where j: "loc (s_meta s) j = Some (h', n)"
            using okD(5) [of h' d'] by (auto simp: up(4))
          with None have "j \<noteq> sh" by (auto simp: loc_def)
          with j show ?thesis using loc [of j] by auto
        qed
      qed
      moreover have "loc (s_meta s) sh = None" using None by (simp add: loc_def)
      then have "kept (s_meta s) (content (s_back s)) m' (content b')"
        using fresh by (auto simp: kept_def loc up(4))
      ultimately show ?thesis
        using up(2) by (simp add: s' only_blobs_iff m'_def [symmetric] loc) (simp add: m'_def)
    next
      case (Some bl)
      obtain b2 where d: "delete E b' h = (Inr (), b2)" "binv b2" "content b2 = (content b')(h := None)"
        using delete_spec [OF up(2)] by blast
      have same: "content b2 = content (s_back s)" using d(3) up(3,4) by (auto simp: fun_eq_iff)
      have s': "r = Inr ()" "s' = (incref_store s sh)\<lparr>s_back := b2\<rparr>"
        using res up(1) d(1) Some by (auto simp: upload_blob_def incref_store_def)
      have R: "0 < R sh" using Some blobs_ok_known [OF ok(1), of sh] by simp
      note inc = incref_ok [OF ok(1) R]
      show ?thesis
        using d(2) inc R by (simp add: s' same) (simp add: only_blobs_iff)
    qed
  qed
  then show "binv (s_back s')" "only_blobs s s'"
    "kept (s_meta s) (content (s_back s)) (s_meta s') (content (s_back s'))"
    "blobs_ok (sha256 E) (content (s_back s')) (s_meta s')
           (case r of Inl _ \<Rightarrow> R | Inr _ \<Rightarrow> R(sh := R sh + 1))"
    "R sh = 0 \<Longrightarrow> r = Inr () \<Longrightarrow> loc (s_meta s') sh \<noteq> None" by blast+
qed

lemma release_blob_ok:
  assumes inv: "binv (s_back s)"
    and ok: "blobs_ok hash (content (s_back s)) (s_meta s) R"
    and res: "release_blob E s sh = (r, s')"
  shows "r = Inr ()" "binv (s_back s')" "only_blobs s s'"
    and "blobs_ok hash (content (s_back s')) (s_meta s') (R(sh := R sh - 1))"
    and "kept_live (R(sh := R sh - 1)) (s_meta s) (content (s_back s)) (s_meta s') (content (s_back s'))"
proof -
  note okD = blobs_okD [OF ok]
  obtain hd m' where dec: "blob_decref (s_meta s) sh = (hd, m')" by force
  have m': "m' = snd (blob_decref (s_meta s) sh)" and hd: "hd = fst (blob_decref (s_meta s) sh)"
    using dec by simp_all
  have counts: "counts_ok m'" "rc m' = R(sh := R sh - 1)"
    using okD(1,2) ref_index.cnt_dec [OF okD(1), of sh]
    by (auto simp: m' counts_ok_decref fun_eq_iff)
  have loc': "loc m' j = (if j = sh \<and> R sh \<le> 1 then None else loc (s_meta s) j)" for j
    using loc_decref [OF okD(1), of sh j] okD(2) by (simp add: m')
  have only: "m' = (s_meta s)\<lparr>blobs := blobs m'\<rparr>"
    by (auto simp: m' blob_decref_def split: option.splits)
  have "r = Inr () \<and> binv (s_back s') \<and> only_blobs s s' \<and>
      blobs_ok hash (content (s_back s')) (s_meta s') (R(sh := R sh - 1)) \<and>
      kept_live (R(sh := R sh - 1)) (s_meta s) (content (s_back s)) (s_meta s') (content (s_back s'))"
  proof (cases hd)
    case None
    with dec res have s': "r = Inr ()" "s' = s\<lparr>s_meta := m'\<rparr>" by (auto simp: release_blob_def)
    have same: "loc m' = loc (s_meta s)"
    proof (rule ext)
      fix j
      show "loc m' j = loc (s_meta s) j"
        using decref_handle(2) [of "s_meta s" sh] hd None okD(2) loc_None_iff [of "s_meta s" j]
        by (auto simp: loc')
    qed
    then have "blobs_ok hash (content (s_back s)) m' (R(sh := R sh - 1))"
      using ok counts unfolding blobs_ok_def by simp
    moreover have "only_blobs s (s\<lparr>s_meta := m'\<rparr>)" using only by (simp add: only_blobs_def)
    ultimately show ?thesis using inv same by (simp add: s' kept_live_def)
  next
    case (Some h)
    then obtain n where last: "R sh \<le> 1" "loc (s_meta s) sh = Some (h, n)"
      using decref_handle(1) [of "s_meta s" sh h] hd okD(2) by auto
    obtain b2 where d: "delete E (s_back s) h = (Inr (), b2)" "binv b2"
        "content b2 = (content (s_back s))(h := None)"
      using delete_spec [OF inv] by blast
    have s': "r = Inr ()" "s' = s\<lparr>s_meta := m', s_back := b2\<rparr>"
      using res dec Some d(1) by (auto simp: release_blob_def)
    have other: "h' \<noteq> h" if "loc (s_meta s) j = Some (h', n')" "j \<noteq> sh" for j h' n'
      using okD(4) [OF last(2), of j n'] that by auto
    have "blobs_ok hash (content b2) m' (R(sh := R sh - 1))"
      unfolding blobs_ok_def
    proof (intro conjI allI impI counts)
      fix j h' n'
      assume "loc m' j = Some (h', n')"
      then have "loc (s_meta s) j = Some (h', n')" "j \<noteq> sh"
        using last(1) by (auto simp: loc' split: if_splits)
      then show "\<exists>d. content b2 h' = Some d \<and> hash d = j \<and> length d = n'"
        using okD(3) other by (auto simp: d(3))
    next
      fix j j' h' n' n''
      assume "loc m' j = Some (h', n')" "loc m' j' = Some (h', n'')"
      then show "j = j'" using okD(4) by (auto simp: loc' split: if_splits)
    next
      fix h' d'
      assume "content b2 h' = Some d'"
      then obtain j n' where "loc (s_meta s) j = Some (h', n')" "h' \<noteq> h"
        using okD(5) [of h' d'] by (auto simp: d(3) split: if_splits)
      moreover from this last(2) have "j \<noteq> sh" by auto
      ultimately show "\<exists>j n. loc m' j = Some (h', n)" using loc' [of j] by auto
    qed
    moreover have "kept_live (R(sh := R sh - 1)) (s_meta s) (content (s_back s)) m' (content b2)"
      using other last(1) by (auto simp: kept_live_def loc' d(3) split: if_splits)
    moreover have "only_blobs s (s\<lparr>s_meta := m', s_back := b2\<rparr>)"
      using only by (simp add: only_blobs_def)
    ultimately show ?thesis using d(2) by (simp add: s')
  qed
  then show "r = Inr ()" "binv (s_back s')" "only_blobs s s'"
    "blobs_ok hash (content (s_back s')) (s_meta s') (R(sh := R sh - 1))"
    "kept_live (R(sh := R sh - 1)) (s_meta s) (content (s_back s)) (s_meta s') (content (s_back s'))"
    by blast+
qed

lemma release_all_ok:
  assumes "binv (s_back s)" "blobs_ok hash (content (s_back s)) (s_meta s) R"
    and "release_all E s shs = (r, s')"
  shows "r = Inr ()" "binv (s_back s')" "only_blobs s s'"
    and "blobs_ok hash (content (s_back s')) (s_meta s') (\<lambda>j. R j - count_list shs j)"
    and "kept_live (\<lambda>j. R j - count_list shs j)
           (s_meta s) (content (s_back s)) (s_meta s') (content (s_back s'))"
proof -
  have "r = Inr () \<and> binv (s_back s') \<and> only_blobs s s' \<and>
      blobs_ok hash (content (s_back s')) (s_meta s') (\<lambda>j. R j - count_list shs j) \<and>
      kept_live (\<lambda>j. R j - count_list shs j)
        (s_meta s) (content (s_back s)) (s_meta s') (content (s_back s'))"
    using assms
  proof (induction shs arbitrary: s R)
    case Nil
    then show ?case by (simp add: kept_live_def)
  next
    case (Cons sh shs)
    obtain r1 s1 where rel: "release_blob E s sh = (r1, s1)" by force
    note one = release_blob_ok [OF Cons.prems(1,2) rel]
    have all: "release_all E s1 shs = (r, s')" using Cons.prems(3) rel one(1) by simp
    have fn: "(\<lambda>j. (R(sh := R sh - 1)) j - count_list shs j) = (\<lambda>j. R j - count_list (sh # shs) j)"
      by (auto simp: fun_eq_iff)
    note IH = Cons.IH [OF one(2,4) all, unfolded fn]
    have "kept_live (\<lambda>j. R j - count_list (sh # shs) j)
        (s_meta s) (content (s_back s)) (s_meta s') (content (s_back s'))"
      using IH by (intro kept_live_trans [OF one(5)]) (auto split: if_splits)
    with IH only_blobs_trans [OF one(3)] show ?case by simp
  qed
  then show "r = Inr ()" "binv (s_back s')" "only_blobs s s'"
    "blobs_ok hash (content (s_back s')) (s_meta s') (\<lambda>j. R j - count_list shs j)"
    "kept_live (\<lambda>j. R j - count_list shs j)
       (s_meta s) (content (s_back s)) (s_meta s') (content (s_back s'))" by blast+
qed

lemma incref_all_ok:
  assumes "blobs_ok hash cont (s_meta s) R" "\<And>sh. sh \<in> set shs \<Longrightarrow> 0 < R sh"
  shows "blobs_ok hash cont (s_meta (foldl incref_store s shs)) (\<lambda>j. R j + count_list shs j) \<and>
    kept (s_meta s) cont (s_meta (foldl incref_store s shs)) cont \<and>
    only_blobs s (foldl incref_store s shs) \<and> s_back (foldl incref_store s shs) = s_back s"
  using assms
proof (induction shs arbitrary: s R)
  case (Cons sh shs)
  have "0 < R sh" using Cons.prems(2) by simp
  note one = incref_ok [OF Cons.prems(1) this]
  have fn: "(\<lambda>j. (R(sh := R sh + 1)) j + count_list shs j) = (\<lambda>j. R j + count_list (sh # shs) j)"
    by (auto simp: fun_eq_iff)
  have "0 < (R(sh := R sh + 1)) j" if "j \<in> set shs" for j
    using Cons.prems(2) [of j] that by simp
  from Cons.IH [OF one(1) this, unfolded fn] one(2,3,4) kept_trans only_blobs_trans
  show ?case by (metis foldl_Cons)
qed simp

end

end
