(* ===== verification/ChunkMap.thy ===== *)
theory ChunkMap
  imports BlobRefs
begin

section \<open>Chunk rows and the bytes they stand for\<close>

text \<open>
  The rows of an inode describe a byte string: \<open>rows_hold hash o rows D\<close> says that they
  cut \<open>D\<close>, from offset \<open>o\<close> on, into adjacent non-empty pieces and carry the digest of each.
  \<open>file_bytes\<close> is the abstraction function of the store: the concatenation of the blobs
  the rows of an inode name.
\<close>

fun rows_hold :: "(bytes \<Rightarrow> sha) \<Rightarrow> nat \<Rightarrow> chunk list \<Rightarrow> bytes \<Rightarrow> bool" where
  "rows_hold hash o1 [] D \<longleftrightarrow> D = []"
| "rows_hold hash o1 (c # cs) D \<longleftrightarrow>
     c_off c = o1 \<and> 0 < c_len c \<and> c_len c \<le> length D \<and> hash (take (c_len c) D) = c_sha c \<and>
     rows_hold hash (o1 + c_len c) cs (drop (c_len c) D)"

definition blob_bytes :: "(nat \<Rightarrow> bytes option) \<Rightarrow> meta \<Rightarrow> sha \<Rightarrow> bytes" where
  "blob_bytes cont m sh =
     (case loc m sh of None \<Rightarrow> [] | Some (h, n) \<Rightarrow> (case cont h of None \<Rightarrow> [] | Some d \<Rightarrow> d))"

definition file_bytes :: "(nat \<Rightarrow> bytes option) \<Rightarrow> meta \<Rightarrow> ino \<Rightarrow> bytes" where
  "file_bytes cont m i = concat (map (\<lambda>c. blob_bytes cont m (c_sha c)) (get_chunks m i))"

lemma rows_hold_append:
  assumes "rows_hold hash o1 rows D" "d \<noteq> []" "hash d = sh"
  shows "rows_hold hash o1 (rows @ [\<lparr>c_off = o1 + length D, c_len = length d, c_sha = sh\<rparr>]) (D @ d)"
  using assms by (induction hash o1 rows D rule: rows_hold.induct) (auto simp: add.assoc)

lemma rows_hold_nth:
  assumes "rows_hold hash o1 rows D" "k < length rows"
  shows "o1 \<le> c_off (rows ! k)" "c_off (rows ! k) + c_len (rows ! k) \<le> o1 + length D"
    "0 < c_len (rows ! k)"
    "hash (slice D (c_off (rows ! k) - o1) (c_off (rows ! k) - o1 + c_len (rows ! k))) = c_sha (rows ! k)"
proof -
  have "o1 \<le> c_off (rows ! k) \<and> c_off (rows ! k) + c_len (rows ! k) \<le> o1 + length D \<and>
      0 < c_len (rows ! k) \<and>
      hash (slice D (c_off (rows ! k) - o1) (c_off (rows ! k) - o1 + c_len (rows ! k))) = c_sha (rows ! k)"
    using assms
  proof (induction hash o1 rows D arbitrary: k rule: rows_hold.induct)
    case (2 hash o1 c cs D)
    show ?case
    proof (cases k)
      case 0
      with 2(2) show ?thesis by (auto simp: slice_def)
    next
      case (Suc j)
      let ?r = "cs ! j"
      have IH: "o1 + c_len c \<le> c_off ?r"
        "c_off ?r + c_len ?r \<le> o1 + c_len c + length (drop (c_len c) D)" "0 < c_len ?r"
        "hash (slice (drop (c_len c) D) (c_off ?r - (o1 + c_len c))
           (c_off ?r - (o1 + c_len c) + c_len ?r)) = c_sha ?r"
        using 2(1) [of j] 2(2,3) Suc by auto
      have "slice (drop (c_len c) D) (c_off ?r - (o1 + c_len c)) (c_off ?r - (o1 + c_len c) + c_len ?r)
          = slice D (c_off ?r - o1) (c_off ?r - o1 + c_len ?r)"
        using IH(1) by (simp add: slice_def)
      with IH 2(2) Suc show ?thesis by auto
    qed
  qed simp
  then show "o1 \<le> c_off (rows ! k)" "c_off (rows ! k) + c_len (rows ! k) \<le> o1 + length D"
    "0 < c_len (rows ! k)"
    "hash (slice D (c_off (rows ! k) - o1) (c_off (rows ! k) - o1 + c_len (rows ! k))) = c_sha (rows ! k)"
    by blast+
qed

text \<open>If the digest has no collisions, the rows determine the bytes.\<close>

lemma rows_hold_blob_bytes:
  assumes "rows_hold hash o1 rows D" "inj hash" "\<And>c. c \<in> set rows \<Longrightarrow> hash (g (c_sha c)) = c_sha c"
  shows "concat (map (\<lambda>c. g (c_sha c)) rows) = D"
  using assms
proof (induction hash o1 rows D rule: rows_hold.induct)
  case (2 hash o1 c cs D)
  have "hash (g (c_sha c)) = hash (take (c_len c) D)" using 2(2,4) by simp
  then have "g (c_sha c) = take (c_len c) D" using 2(3) by (auto dest: injD)
  with 2 show ?case by simp
qed simp

lemma rows_hold_unique:
  assumes "rows_hold hash o1 rows D" "rows_hold hash o1 rows D'" "inj hash"
  shows "D = D'"
  using assms
proof (induction hash o1 rows D arbitrary: D' rule: rows_hold.induct)
  case (2 hash o1 c cs D)
  have "hash (take (c_len c) D) = hash (take (c_len c) D')" using 2(2,3) by simp
  then have "take (c_len c) D = take (c_len c) D'" using 2(4) by (auto dest: injD)
  moreover have "drop (c_len c) D = drop (c_len c) D'" using 2 by simp
  ultimately show ?case by (metis append_take_drop_id)
qed simp

subsection \<open>The chunk table\<close>

definition chunk_rows :: "meta \<Rightarrow> ino \<Rightarrow> (nat \<times> chunk) list" where
  "chunk_rows m i = [(idx, c). ((j, idx), c) \<leftarrow> chunks m, j = i]"

lemma get_chunks_rows: "get_chunks m i = map snd (sort_key fst (chunk_rows m i))"
  by (simp add: get_chunks_def chunk_rows_def)

lemma insert_chunks_fresh:
  "distinct (map fst cs) \<Longrightarrow> (\<And>k. k \<in> fst ` set cs \<Longrightarrow> sql_select t (i, k) = None) \<Longrightarrow>
     insert_chunks t i cs = (None, t @ map (\<lambda>(k, c). ((i, k), c)) cs)"
proof (induction cs arbitrary: t)
  case (Cons r cs)
  obtain k c where r: "r = (k, c)" by force
  have free: "sql_select t (i, k) = None" using Cons.prems(2) [of k] r by simp
  have "k \<notin> fst ` set cs" using Cons.prems(1) by (simp add: r)
  then have "sql_select (t @ [((i, k), c)]) (i, j) = None" if "j \<in> fst ` set cs" for j
    using Cons.prems(2) [of j] that select_append_new [OF free, of c "(i, j)"] by auto
  with Cons.IH [of "t @ [((i, k), c)]"] Cons.prems(1) r show ?case
    by (simp add: sql_insert_def free)
qed simp

definition rows_without :: "meta \<Rightarrow> ino \<Rightarrow> (ino \<times> nat, chunk) table" where
  "rows_without m i = sql_delete (chunks m) (\<lambda>(j, idx). j = i)"

lemma set_chunks_ok:
  assumes "distinct (map fst cs)"
  shows "set_chunks m i cs =
    (Inr (), m\<lparr>chunks := rows_without m i @ map (\<lambda>(k, c). ((i, k), c)) cs\<rparr>)"
proof -
  have "sql_select (rows_without m i) (i, k) = None" for k
    by (simp add: rows_without_def select_delete)
  with insert_chunks_fresh [OF assms, of "rows_without m i" i]
  show ?thesis by (simp add: set_chunks_def Let_def rows_without_def)
qed

lemma rows_split:
  fixes i :: nat
  shows "[(idx, c). ((j, idx), c) \<leftarrow> sql_delete t (\<lambda>(j, idx). j = i'), j = i] =
     (if i = i' then [] else [(idx, c). ((j, idx), c) \<leftarrow> t, j = i])"
  by (induction t) (auto simp: sql_delete_def)

lemma rows_of_new:
  fixes i :: nat
  shows "[(idx, c). ((j, idx), c) \<leftarrow> map (\<lambda>(k, c). ((i', k), c)) cs, j = i] =
     (if i = i' then cs else [])"
  by (induction cs) auto

lemma get_chunks_set:
  assumes "sorted (map fst cs)"
  shows "get_chunks (m\<lparr>chunks := rows_without m i @ map (\<lambda>(k, c). ((i, k), c)) cs\<rparr>) j =
    (if j = i then map snd cs else get_chunks m j)"
proof -
  have "sort_key fst cs = cs" using assms by (rule sort_key_id_if_sorted)
  then show ?thesis
    by (simp add: get_chunks_def rows_without_def rows_split rows_of_new del: map_map)
qed

lemma keyed_set_chunks:
  assumes "keyed (chunks m)" "distinct (map fst cs)"
  shows "keyed (rows_without m i @ map (\<lambda>(k, c). ((i, k), c)) cs)"
proof -
  have "map fst (map (\<lambda>(k, c). ((i, k), c)) cs) = map (\<lambda>k. (i, k)) (map fst cs)"
    by (simp add: case_prod_unfold)
  then have "distinct (map fst (map (\<lambda>(k, c). ((i, k), c)) cs))"
    using assms(2) by (simp add: distinct_map inj_on_def)
  moreover have "keyed (rows_without m i)" using assms(1) by (simp add: rows_without_def)
  moreover have "fst r \<noteq> (i, k)" if "r \<in> set (rows_without m i)" for r k
    using that by (auto simp: rows_without_def sql_delete_def)
  ultimately show ?thesis by (fastforce simp: keyed_def simp del: map_map)
qed

subsection \<open>Counting references by inode\<close>

lemma count_rows_induct:
  fixes i :: nat
  shows "length (filter (\<lambda>r. c_sha (snd r) = sh) [(idx, c). ((j, idx), c) \<leftarrow> t, j = i]) =
     sql_count t (\<lambda>(j, k) c. j = i \<and> c_sha c = sh)"
proof (induction t)
  case (Cons r t)
  obtain j k c where "r = ((j, k), c)" by (metis prod.exhaust)
  with Cons show ?case by (cases "j = i") (simp_all add: sql_count_def)
qed (simp add: sql_count_def)

lemma count_shas_rows: "count_list (map c_sha (get_chunks m i)) sh =
    sql_count (chunks m) (\<lambda>(j, k) c. j = i \<and> c_sha c = sh)"
  unfolding get_chunks_rows count_list_map_filter filter_map comp_def length_map filter_sort
    length_sort chunk_rows_def
  by (rule count_rows_induct)

lemma refs_split: "refs m sh = count_list (map c_sha (get_chunks m i)) sh +
    sql_count (rows_without m i) (\<lambda>_ c. c_sha c = sh)"
proof -
  have "sql_count t (\<lambda>_ c. c_sha c = sh) = sql_count t (\<lambda>(j, k) c. j = i \<and> c_sha c = sh) +
      sql_count (sql_delete t (\<lambda>(j, idx). j = i)) (\<lambda>_ c. c_sha c = sh)" for t
    by (induction t) (auto simp: sql_count_def sql_delete_def)
  then show ?thesis unfolding count_shas_rows refs_def rows_without_def by blast
qed

lemma count_new_rows: "sql_count (map (\<lambda>(k, c). ((i, k), c)) cs) (\<lambda>_ c. c_sha c = sh) =
    count_list (map (c_sha \<circ> snd) cs) sh"
  by (induction cs) (auto simp: sql_count_def)

lemma refs_set_chunks:
  "refs (m\<lparr>chunks := rows_without m i @ map (\<lambda>(k, c). ((i, k), c)) cs\<rparr>) sh =
     refs m sh - count_list (map c_sha (get_chunks m i)) sh + count_list (map (c_sha \<circ> snd) cs) sh"
  using refs_split [of m sh i] by (simp add: refs_def count_new_rows del: map_map)

lemma refs_pos: "c \<in> set (get_chunks m i) \<Longrightarrow> 0 < refs m (c_sha c)"
proof -
  assume "c \<in> set (get_chunks m i)"
  then have "c_sha c \<in> set (map c_sha (get_chunks m i))" by simp
  then have "count_list (map c_sha (get_chunks m i)) (c_sha c) \<noteq> 0" by (metis count_list_0_iff)
  with refs_split [of m "c_sha c" i] show ?thesis by simp
qed

end
