(* ===== verification/StoreWrite.thy ===== *)
theory StoreWrite
  imports ChunkMap
begin

section \<open>What put_file and free_file do\<close>

text \<open>
  The invariant of a store between operations (\<open>store_ok\<close>) and the invariant of the loop
  of \<open>put_file\<close>. The loop keeps \<open>put_held\<close> also when it raises: every reference counted
  beyond the rows of the index is one of \<open>held\<close>, which is what \<open>rollback\<close> gives back.
\<close>

definition cache_ok :: "(bytes \<Rightarrow> sha) \<Rightarrow> readcache option \<Rightarrow> bool" where
  "cache_ok hash cache = (case cache of None \<Rightarrow> True | Some c \<Rightarrow> rc_ok hash c)"

definition store_ok ::
    "(bytes \<Rightarrow> sha) \<Rightarrow> ('b \<Rightarrow> nat \<Rightarrow> bytes option) \<Rightarrow> ('b \<Rightarrow> bool) \<Rightarrow> 'b store \<Rightarrow> bool" where
  "store_ok hash content binv s \<longleftrightarrow>
     binv (s_back s) \<and> keyed (chunks (s_meta s)) \<and> 0 < s_cs s \<and>
     blobs_ok hash (content (s_back s)) (s_meta s) (refs (s_meta s)) \<and>
     (\<forall>i. rows_hold hash 0 (get_chunks (s_meta s) i) (file_bytes (content (s_back s)) (s_meta s) i)) \<and>
     cache_ok hash (s_cache s)"

text \<open>The abstract value of inode \<open>i\<close> in a store.\<close>

definition sbytes :: "('b \<Rightarrow> nat \<Rightarrow> bytes option) \<Rightarrow> 'b store \<Rightarrow> ino \<Rightarrow> bytes" where
  "sbytes content s i = file_bytes (content (s_back s)) (s_meta s) i"

text \<open>
  The content \<open>put_file\<close> should store: chunk by chunk the old bytes \<open>D\<close> where the chunk is
  clean, the bytes of the source \<open>S\<close> elsewhere.
\<close>

definition put_target ::
    "nat \<Rightarrow> nat set option \<Rightarrow> chunk list \<Rightarrow> bytes \<Rightarrow> bytes \<Rightarrow> nat \<Rightarrow> bytes \<Rightarrow> bool" where
  "put_target cs dirty rows D S sz X \<longleftrightarrow>
     length X = sz \<and>
     (\<forall>k < sz. k * cs < sz \<longrightarrow>
        slice X (k * cs) (k * cs + min cs (sz - k * cs)) =
        slice (if is_clean dirty rows k (k * cs) (min cs (sz - k * cs)) then D else S)
          (k * cs) (k * cs + min cs (sz - k * cs)))"

text \<open>The rows of a file of \<open>sz\<close> bytes cut into chunks of \<open>cs\<close> bytes.\<close>

definition rows_shape :: "nat \<Rightarrow> nat \<Rightarrow> chunk list \<Rightarrow> bool" where
  "rows_shape cs sz rows \<longleftrightarrow>
     (\<forall>k < length rows. c_off (rows ! k) = k * cs \<and> c_len (rows ! k) = min cs (sz - k * cs) \<and> k * cs < sz)"

lemma rows_shape_snoc:
  assumes "rows_shape cs sz rows" "k = length rows" "k * cs < sz" "c_off c = k * cs"
    "c_len c = min cs (sz - k * cs)"
  shows "rows_shape cs sz (rows @ [c])"
  using assms by (auto simp: rows_shape_def nth_append less_Suc_eq)

definition held :: "'b putst \<Rightarrow> sha list" where
  "held L = filter (\<lambda>sh. case map_of (p_pending L) sh of Some (Inl _) \<Rightarrow> False | _ \<Rightarrow> True)
     (p_acquired L)"

definition put_held :: "(bytes \<Rightarrow> sha) \<Rightarrow> ('b \<Rightarrow> nat \<Rightarrow> bytes option) \<Rightarrow> ('b \<Rightarrow> bool) \<Rightarrow> 'b store \<Rightarrow>
    'b putst \<Rightarrow> bool" where
  "put_held hash content binv s0 L \<longleftrightarrow>
     only_blobs s0 (p_store L) \<and> binv (s_back (p_store L)) \<and>
     kept (s_meta s0) (content (s_back s0)) (s_meta (p_store L)) (content (s_back (p_store L))) \<and>
     blobs_ok hash (content (s_back (p_store L))) (s_meta (p_store L))
       (\<lambda>j. refs (s_meta s0) j + count_list (held L) j) \<and>
     (\<forall>sh \<in> fst ` set (p_pending L). refs (s_meta s0) sh = 0)"

definition put_inv :: "(bytes \<Rightarrow> sha) \<Rightarrow> ('b \<Rightarrow> nat \<Rightarrow> bytes option) \<Rightarrow> ('b \<Rightarrow> bool) \<Rightarrow> 'b store \<Rightarrow>
    bytes \<Rightarrow> bytes \<Rightarrow> 'b putst \<Rightarrow> bool" where
  "put_inv hash content binv s0 S X L \<longleftrightarrow>
     put_held hash content binv s0 L \<and>
     set (p_dups L) \<subseteq> fst ` set (p_pending L) \<and> fst ` set (p_pending L) \<subseteq> set (p_acquired L) \<and>
     (\<forall>j. count_list (map (c_sha \<circ> snd) (p_new L)) j =
            count_list (p_acquired L) j + count_list (p_dups L) j) \<and>
     map fst (p_new L) = [0..<p_idx L] \<and>
     rows_hold hash 0 (map snd (p_new L)) (take (p_off L) X) \<and>
     p_off L = min (p_idx L * s_cs s0) (length X) \<and>
     f_data (p_src L) = S \<and> f_pos (p_src L) = p_off L \<and>
     rows_shape (s_cs s0) (length X) (map snd (p_new L))"

lemma put_heldD:
  assumes "put_held hash content binv s0 L"
  shows "only_blobs s0 (p_store L)" "binv (s_back (p_store L))"
    "kept (s_meta s0) (content (s_back s0)) (s_meta (p_store L)) (content (s_back (p_store L)))"
    "blobs_ok hash (content (s_back (p_store L))) (s_meta (p_store L))
       (\<lambda>j. refs (s_meta s0) j + count_list (held L) j)"
    "sh \<in> fst ` set (p_pending L) \<Longrightarrow> refs (s_meta s0) sh = 0"
proof -
  note a = assms [unfolded put_held_def]
  from a show "only_blobs s0 (p_store L)" by (rule conjunct1)
  from a show "binv (s_back (p_store L))" by simp
  from a show "kept (s_meta s0) (content (s_back s0)) (s_meta (p_store L)) (content (s_back (p_store L)))"
    by simp
  from a show "blobs_ok hash (content (s_back (p_store L))) (s_meta (p_store L))
      (\<lambda>j. refs (s_meta s0) j + count_list (held L) j)" by simp
  assume "sh \<in> fst ` set (p_pending L)"
  with a show "refs (s_meta s0) sh = 0" by auto
qed

lemma held_simps [simp]:
  "held (L\<lparr>p_store := s\<rparr>) = held L" "held (L\<lparr>p_src := f\<rparr>) = held L"
  "held (L\<lparr>p_running := rs\<rparr>) = held L" "held (L\<lparr>p_dups := ds\<rparr>) = held L"
  "held (L\<lparr>p_new := n\<rparr>) = held L" "held (L\<lparr>p_idx := k\<rparr>) = held L" "held (L\<lparr>p_off := k\<rparr>) = held L"
  by (simp_all add: held_def)

lemma put_held_cong:
  "p_store L' = p_store L \<Longrightarrow> p_pending L' = p_pending L \<Longrightarrow> p_acquired L' = p_acquired L \<Longrightarrow>
     put_held hash content binv s0 L' = put_held hash content binv s0 L"
  by (simp add: put_held_def held_def)

lemma held_acquire: "map_of (p_pending L) sh = None \<Longrightarrow>
    held (L\<lparr>p_store := s, p_acquired := p_acquired L @ [sh]\<rparr>) = held L @ [sh]"
  by (simp add: held_def)

lemma mem_held: "sh \<in> set (p_acquired L) \<Longrightarrow> map_of (p_pending L) sh = None \<Longrightarrow> sh \<in> set (held L)"
  by (simp add: held_def)

text \<open>An upload that was started is held unless it failed.\<close>

lemma held_upload:
  assumes "map_of (p_pending L) sh = None" "sh \<notin> set (p_acquired L)"
    and "p_pending L' = p_pending L @ [(sh, r)]" "p_acquired L' = p_acquired L @ [sh]"
  shows "held L' = held L @ (case r of Inl _ \<Rightarrow> [] | Inr _ \<Rightarrow> [sh])"
  using assms
  by (auto simp: held_def map_add_def split: sum.splits option.splits intro!: filter_cong)

lemma reap_running_frame:
  assumes "reap_running L = (q, L1)"
  shows "p_store L1 = p_store L" "p_pending L1 = p_pending L" "p_acquired L1 = p_acquired L"
    "p_dups L1 = p_dups L"
  using assms by (auto simp: reap_running_def split: if_splits option.splits)

context blob_backend
begin

lemma put_held_incref:
  assumes "put_held (sha256 E) content binv s0 L"
    and "0 < refs (s_meta s0) sh + count_list (held L) sh"
    and "held L' = held L @ [sh]" "p_store L' = incref_store (p_store L) sh"
    and "p_pending L' = p_pending L"
  shows "put_held (sha256 E) content binv s0 L'"
proof -
  note h = put_heldD [OF assms(1)]
  note inc = incref_ok [OF h(4) assms(2)]
  have "(\<lambda>j. refs (s_meta s0) j + count_list (held L') j) =
      (\<lambda>j. refs (s_meta s0) j + count_list (held L) j)(sh := refs (s_meta s0) sh + count_list (held L) sh + 1)"
    by (auto simp: assms(3) fun_eq_iff)
  then show ?thesis
    using inc(1) h(2) kept_trans [OF h(3)] inc(2) only_blobs_trans [OF h(1) inc(3)] inc(4)
    by (simp add: put_held_def assms(4,5) put_heldD(5) [OF assms(1)] image_iff)
qed

lemma put_ref_ok:
  assumes "put_held (sha256 E) content binv s0 L" "sha256 E d = sh"
    and "put_ref E L sh d = (r, L')"
  shows "put_held (sha256 E) content binv s0 L'"
proof -
  note h = put_heldD [OF assms(1)]
  consider (dup) "map_of (p_pending L) sh \<noteq> None"
    | (known) "map_of (p_pending L) sh = None" "blob_get (s_meta (p_store L)) sh \<noteq> None"
    | (new) "map_of (p_pending L) sh = None" "blob_get (s_meta (p_store L)) sh = None" by blast
  then show ?thesis
  proof cases
    case dup
    with assms show ?thesis by (auto simp: put_ref_def put_held_def)
  next
    case known
    let ?L = "L\<lparr>p_store := incref_store (p_store L) sh, p_acquired := p_acquired L @ [sh]\<rparr>"
    have "0 < refs (s_meta s0) sh + count_list (held L) sh"
      using blobs_ok_known [OF h(4)] known(2) by simp
    then have "put_held (sha256 E) content binv s0 ?L"
      by (rule put_held_incref [OF assms(1)]) (simp_all add: held_acquire known(1))
    with known assms(3) show ?thesis by (auto simp: put_ref_def)
  next
    case new
    have zero: "refs (s_meta s0) sh + count_list (held L) sh = 0"
      using blobs_ok_known [OF h(4), of sh] new(2) by simp
    then have out: "sh \<notin> set (p_acquired L)"
      using mem_held [OF _ new(1)] by (auto simp: count_list_0_iff)
    show ?thesis
    proof (cases "reap_running L")
      case (Pair q L1)
      note L1 = reap_running_frame [OF this]
      then have held1: "held L1 = held L" by (simp add: held_def)
      show ?thesis
      proof (cases q)
        case (Inl e)
        with new Pair assms(1,3) L1 held1 show ?thesis by (auto simp: put_ref_def put_held_def)
      next
        case (Inr u)
        obtain r1 s1 where up: "upload_blob E (p_store L) sh d = (r1, s1)" by force
        have L': "r = Inr ()" "L' = L1\<lparr>p_store := s1, p_pending := p_pending L @ [(sh, r1)],
            p_running := p_running L1 @ [r1], p_acquired := p_acquired L @ [sh]\<rparr>"
          using assms(3) new Pair Inr up L1 by (auto simp: put_ref_def)
        note ok = upload_blob_ok [OF h(2,4) assms(2) up]
        have "held L' = held L @ (case r1 of Inl _ \<Rightarrow> [] | Inr _ \<Rightarrow> [sh])"
          by (rule held_upload [OF new(1) out]) (simp_all add: L')
        then have R: "(\<lambda>j. refs (s_meta s0) j + count_list (held L') j) =
            (case r1 of Inl _ \<Rightarrow> (\<lambda>j. refs (s_meta s0) j + count_list (held L) j)
             | Inr _ \<Rightarrow> (\<lambda>j. refs (s_meta s0) j + count_list (held L) j)
                 (sh := refs (s_meta s0) sh + count_list (held L) sh + 1))"
          by (auto simp: fun_eq_iff split: sum.splits)
        show ?thesis
          using ok(1) only_blobs_trans [OF h(1) ok(2)] kept_trans [OF h(3) ok(3)] ok(4)
            h(5) zero
          unfolding put_held_def R by (auto simp: L')
      qed
    qed
  qed
qed

end

lemma store_okD:
  assumes "store_ok hash content binv s"
  shows "binv (s_back s)" "keyed (chunks (s_meta s))" "0 < s_cs s"
    "blobs_ok hash (content (s_back s)) (s_meta s) (refs (s_meta s))"
    "rows_hold hash 0 (get_chunks (s_meta s) i) (sbytes content s i)"
    "cache_ok hash (s_cache s)"
  using assms by (auto simp: store_ok_def sbytes_def)

text \<open>
  The rows and the counts are enough: with a collision-free digest they determine the bytes.
\<close>

lemma blob_bytes_hash:
  assumes "blobs_ok hash cont m R" "0 < R sh"
  shows "hash (blob_bytes cont m sh) = sh"
proof -
  have "blob_get m sh \<noteq> None" using blobs_ok_known [OF assms(1)] assms(2) by blast
  then obtain h n where "loc m sh = Some (h, n)"
    using loc_None_iff by (metis not_None_eq surj_pair)
  with blobs_okD(3) [OF assms(1) this] show ?thesis by (auto simp: blob_bytes_def)
qed

lemma store_okI:
  assumes "binv (s_back s)" "keyed (chunks (s_meta s))" "0 < s_cs s"
    and ok: "blobs_ok hash (content (s_back s)) (s_meta s) (refs (s_meta s))"
    and "cache_ok hash (s_cache s)" "inj hash"
    and rows: "\<And>i. rows_hold hash 0 (get_chunks (s_meta s) i) (D i)"
  shows "store_ok hash content binv s \<and> sbytes content s = D"
proof -
  have "sbytes content s i = D i" for i
    unfolding sbytes_def file_bytes_def
    by (rule rows_hold_blob_bytes [OF rows assms(6)]) (use blob_bytes_hash [OF ok] refs_pos in blast)
  with assms show ?thesis by (auto simp: store_ok_def sbytes_def)
qed

lemma put_targetD:
  assumes "put_target cs dirty rows D S sz X" "k * cs < sz" "0 < cs"
  shows "slice X (k * cs) (k * cs + min cs (sz - k * cs)) =
        slice (if is_clean dirty rows k (k * cs) (min cs (sz - k * cs)) then D else S)
          (k * cs) (k * cs + min cs (sz - k * cs))"
proof -
  have "k \<le> k * cs" using assms(3) by simp
  then have "k < sz" using assms(2) by linarith
  with assms(1,2) show ?thesis by (simp add: put_target_def)
qed

subsection \<open>The local variables of the loop\<close>

text \<open>
  The part of the loop invariant that speaks of the local variables only: it holds whatever
  the backend does. \<open>cs\<close> is the chunk size.
\<close>

definition put_local :: "(bytes \<Rightarrow> sha) \<Rightarrow> nat \<Rightarrow> bytes \<Rightarrow> bytes \<Rightarrow> 'b putst \<Rightarrow> bool" where
  "put_local hash cs S X L \<longleftrightarrow>
     set (p_dups L) \<subseteq> fst ` set (p_pending L) \<and> fst ` set (p_pending L) \<subseteq> set (p_acquired L) \<and>
     (\<forall>j. count_list (map (c_sha \<circ> snd) (p_new L)) j =
            count_list (p_acquired L) j + count_list (p_dups L) j) \<and>
     map fst (p_new L) = [0..<p_idx L] \<and>
     rows_hold hash 0 (map snd (p_new L)) (take (p_off L) X) \<and>
     p_off L = min (p_idx L * cs) (length X) \<and>
     f_data (p_src L) = S \<and> f_pos (p_src L) = p_off L \<and>
     rows_shape cs (length X) (map snd (p_new L))"

lemma put_inv_local:
  "put_inv hash content binv s0 S X L \<longleftrightarrow>
     put_held hash content binv s0 L \<and> put_local hash (s_cs s0) S X L"
  by (simp add: put_inv_def put_local_def)

lemma put_localD:
  assumes "put_local hash cs S X L"
  shows "set (p_dups L) \<subseteq> fst ` set (p_pending L)" "fst ` set (p_pending L) \<subseteq> set (p_acquired L)"
    "count_list (map (c_sha \<circ> snd) (p_new L)) j = count_list (p_acquired L) j + count_list (p_dups L) j"
    "map fst (p_new L) = [0..<p_idx L]"
    "rows_hold hash 0 (map snd (p_new L)) (take (p_off L) X)"
    "p_off L = min (p_idx L * cs) (length X)"
    "f_data (p_src L) = S" "f_pos (p_src L) = p_off L"
    "rows_shape cs (length X) (map snd (p_new L))"
  using assms unfolding put_local_def by (elim conjE; blast)+

lemma put_local_offset: "put_local hash cs S X L \<Longrightarrow> p_off L < length X \<Longrightarrow> p_off L = p_idx L * cs"
  by (auto simp: put_local_def min_def split: if_splits)

text \<open>One row more: what a clean and a read chunk have in common.\<close>

lemma put_local_extend:
  assumes inv: "put_local hash cs S X L" and off: "p_off L < length X"
    and w: "w = min cs (length X - p_off L)" and cs: "0 < cs"
    and "set (p_dups L') \<subseteq> fst ` set (p_pending L')" "fst ` set (p_pending L') \<subseteq> set (p_acquired L')"
    and counts: "\<And>j. count_list (p_acquired L') j + count_list (p_dups L') j =
           count_list (p_acquired L) j + count_list (p_dups L) j + (if j = sh then 1 else 0)"
    and sh: "hash (slice X (p_off L) (p_off L + w)) = sh"
    and L': "p_new L' = p_new L @ [(p_idx L, \<lparr>c_off = p_off L, c_len = w, c_sha = sh\<rparr>)]"
      "p_idx L' = p_idx L + 1" "p_off L' = p_off L + w"
      "f_data (p_src L') = S" "f_pos (p_src L') = p_off L + w"
  shows "put_local hash cs S X L'"
proof -
  note I = put_localD [OF inv]
  have wpos: "0 < w" using cs off by (simp add: w)
  note at = put_local_offset [OF inv off]
  then have off': "p_off L' = min (p_idx L' * cs) (length X)"
    using off by (auto simp: L'(2,3) w)
  have len: "length (slice X (p_off L) (p_off L + w)) = w" using off by (auto simp: w)
  then have ne: "slice X (p_off L) (p_off L + w) \<noteq> []"
    using wpos by (metis list.size(3) less_numeral_extra(3))
  have split: "take (p_off L) X @ slice X (p_off L) (p_off L + w) = take (p_off L + w) X"
    by (simp add: slice_def take_add)
  have rows: "rows_hold hash 0 (map snd (p_new L')) (take (p_off L') X)"
    using rows_hold_append [OF I(5) ne sh] len off split by (simp add: L'(1,3))
  have sum: "count_list (map (c_sha \<circ> snd) (p_new L')) j =
      count_list (p_acquired L') j + count_list (p_dups L') j" for j
    using I(3) [of j] counts [of j] by (simp add: L'(1))
  have n: "p_idx L = length (map snd (p_new L))"
    using arg_cong [OF I(4), of length] by simp
  from rows_shape_snoc [OF I(9) n] off w at
  have shape: "rows_shape cs (length X) (map snd (p_new L'))" by (simp add: L'(1))
  show ?thesis
    unfolding put_local_def
  proof (intro conjI allI)
    show "map fst (p_new L') = [0..<p_idx L']" using I(4) by (simp add: L'(1,2))
    show "rows_shape cs (length X) (map snd (p_new L'))" by (rule shape)
  qed (use assms(5,6) sum rows off' L' in simp_all)
qed

text \<open>A clean chunk is taken over with the bytes its row stands for.\<close>

lemma put_clean_local:
  assumes inv: "put_local hash cs S X L" and off: "p_off L < length X" and cs: "0 < cs"
    and rh: "rows_hold hash 0 rows D"
    and tgt: "put_target cs dirty rows D S (length X) X"
    and clean: "is_clean dirty rows (p_idx L) (p_off L) w"
    and w: "w = min cs (length X - p_off L)"
    and step: "put_clean w (c_sha (rows ! p_idx L)) L = (Inr b, L')"
  shows "put_local hash cs S X L'"
proof -
  let ?c = "rows ! p_idx L"
  have c: "p_idx L < length rows" "c_off ?c = p_off L" "c_len ?c = w"
    using clean by (auto simp: is_clean_def split: option.splits)
  note at = put_local_offset [OF inv off]
  have sh: "hash (slice X (p_off L) (p_off L + w)) = c_sha ?c"
    using rows_hold_nth(4) [OF rh c(1)] put_targetD [OF tgt, of "p_idx L"] cs clean off
    by (simp add: c w at [symmetric])
  have sub: "p_pending L' = p_pending L" "p_acquired L' = p_acquired L @ [c_sha ?c]" "p_dups L' = p_dups L"
    using step by (auto simp: put_clean_def split: if_splits)
  show ?thesis
    by (rule put_local_extend [OF inv off w cs _ _ _ sh])
      (use step put_localD(1,2,7) [OF inv] sub in \<open>auto simp: put_clean_def split: if_splits\<close>)
qed

text \<open>Taking a reference to a chunk that was read: which lists grow.\<close>

lemma put_ref_lists:
  assumes "put_ref E L sh d = (Inr (), L')"
  shows "p_acquired L' = p_acquired L \<and> p_pending L' = p_pending L \<and> p_dups L' = p_dups L @ [sh] \<and>
        sh \<in> fst ` set (p_pending L) \<or>
      p_acquired L' = p_acquired L @ [sh] \<and> p_dups L' = p_dups L \<and>
        fst ` set (p_pending L') \<subseteq> insert sh (fst ` set (p_pending L)) \<and>
        fst ` set (p_pending L) \<subseteq> fst ` set (p_pending L')"
proof (cases "map_of (p_pending L) sh = None")
  case False
  then have "sh \<in> fst ` set (p_pending L)" by (metis map_of_eq_None_iff)
  with False assms show ?thesis by (auto simp: put_ref_def)
next
  case True
  obtain q L1 where reap: "reap_running L = (q, L1)" by force
  with True reap_running_frame [OF reap] assms show ?thesis
    by (auto simp: put_ref_def split: if_splits prod.splits sum.splits)
qed

lemma put_dirty_local:
  assumes inv: "put_local (sha256 E) cs S X L" and off: "p_off L < length X"
    and cs: "0 < cs" and S: "length X \<le> length S"
    and tgt: "put_target cs dirty rows D S (length X) X"
    and w: "w = min cs (length X - p_off L)"
    and dirt: "\<not> is_clean dirty rows (p_idx L) (p_off L) w"
    and step: "put_dirty E w L = (r, L')"
  obtains d src where "f_read (p_src L) w = (d, src)" "d \<noteq> []"
    "d = slice X (p_off L) (p_off L + w)" "r \<noteq> Inr False"
    "r = Inr True \<Longrightarrow> put_local (sha256 E) cs S X L'"
proof -
  note I = put_localD [OF inv] and at = put_local_offset [OF inv off]
  define d where "d = slice S (p_off L) (p_off L + w)"
  define sh where "sh = sha256 E d"
  have d: "d = slice X (p_off L) (p_off L + w)"
    using put_targetD [OF tgt, of "p_idx L"] cs off dirt by (simp add: d_def at w)
  have len: "length d = w" using off S by (simp add: d_def w)
  then have ne: "d \<noteq> []" using cs off by (auto simp: w)
  define src where "src = (p_src L)\<lparr>f_pos := p_off L + w\<rparr>"
  have rd: "f_read (p_src L) w = (d, src)"
    using I(7,8) len by (simp add: f_read_def Let_def d_def src_def)
  obtain q L1 where ref: "put_ref E (L\<lparr>p_src := src\<rparr>) sh d = (q, L1)" by force
  have fr: "p_idx L1 = p_idx L" "p_off L1 = p_off L" "p_src L1 = src" "p_new L1 = p_new L"
    using put_ref_frame [OF ref] by simp_all
  have "r \<noteq> Inr False"
    using step rd ne ref by (auto simp: put_dirty_def sh_def split: sum.splits)
  moreover have "put_local (sha256 E) cs S X L'" if True: "r = Inr True"
  proof -
    have q: "q = Inr ()" and L': "L' = L1\<lparr>p_new := p_new L1 @
          [(p_idx L, \<lparr>c_off = p_off L, c_len = length d, c_sha = sh\<rparr>)],
          p_idx := p_idx L + 1, p_off := p_off L + length d\<rparr>"
      using True step rd ne ref by (auto simp: put_dirty_def sh_def split: sum.splits)
    note R = put_ref_lists [OF ref [unfolded q], simplified]
    define P' where "P' = fst ` set (p_pending L1)"
    have sub: "A \<subseteq> P \<Longrightarrow> P \<subseteq> B \<Longrightarrow> Q \<subseteq> insert sh P \<Longrightarrow> P \<subseteq> Q \<Longrightarrow> A \<subseteq> Q \<and> Q \<subseteq> insert sh B"
      for A B P Q :: "sha set" by blast
    have "set (p_dups L1) \<subseteq> P' \<and> P' \<subseteq> set (p_acquired L1)"
      using R sub [OF I(1,2), of P'] I(1,2) unfolding P'_def by (elim disjE conjE) simp_all
    then have dups: "set (p_dups L') \<subseteq> fst ` set (p_pending L')"
      and pend: "fst ` set (p_pending L') \<subseteq> set (p_acquired L')"
      by (simp_all add: L' P'_def)
    have counts: "count_list (p_acquired L') j + count_list (p_dups L') j =
        count_list (p_acquired L) j + count_list (p_dups L) j + (if j = sh then 1 else 0)" for j
      using R by (auto simp: L')
    show ?thesis
      by (rule put_local_extend [OF inv off w cs dups pend counts])
        (simp_all add: L' len fr d [symmetric] sh_def src_def I(7))
  qed
  ultimately show thesis using that [OF rd ne d] by blast
qed

context blob_backend
begin

lemma put_clean_ok:
  assumes inv: "put_inv (sha256 E) content binv s0 S X L" and off: "p_off L < length X"
    and ok: "store_ok (sha256 E) content binv s0"
    and rows: "rows = get_chunks (s_meta s0) i"
    and tgt: "put_target (s_cs s0) dirty rows (sbytes content s0 i) S (length X) X"
    and clean: "is_clean dirty rows (p_idx L) (p_off L) w"
    and w: "w = min (s_cs s0) (length X - p_off L)"
    and step: "put_clean w (c_sha (rows ! p_idx L)) L = (r, L')"
  shows "r = Inr True" "put_inv (sha256 E) content binv s0 S X L'"
proof -
  let ?c = "rows ! p_idx L" and ?D = "sbytes content s0 i"
  note okD = store_okD [OF ok]
  have held: "put_held (sha256 E) content binv s0 L" using inv by (simp add: put_inv_def)
  have c: "p_idx L < length rows" "c_off ?c = p_off L" "c_len ?c = w"
    using clean by (auto simp: is_clean_def split: option.splits)
  have rh: "rows_hold (sha256 E) 0 rows ?D" using okD(5) by (simp add: rows)
  have "?c \<in> set (get_chunks (s_meta s0) i)" using c(1) by (simp add: rows)
  then have pos: "0 < refs (s_meta s0) (c_sha ?c) + count_list (held L) (c_sha ?c)"
    using refs_pos by simp
  then have known: "blob_get (s_meta (p_store L)) (c_sha ?c) \<noteq> None"
    using blobs_ok_known [OF put_heldD(4) [OF held]] by simp
  let ?L = "L\<lparr>p_store := incref_store (p_store L) (c_sha ?c), p_acquired := p_acquired L @ [c_sha ?c]\<rparr>"
  have L': "r = Inr True" "L' = ?L\<lparr>p_new := p_new L @ [(p_idx L, \<lparr>c_off = p_off L, c_len = w, c_sha = c_sha ?c\<rparr>)],
              p_idx := p_idx L + 1, p_off := p_off L + w,
              p_src := f_seek (p_src L) (p_off L + w)\<rparr>"
    using step known by (auto simp: put_clean_def)
  show "r = Inr True" by (fact L'(1))
  have "map_of (p_pending L) (c_sha ?c) = None"
    using put_heldD(5) [OF held, of "c_sha ?c"] refs_pos [of ?c "s_meta s0" i] c(1)
    by (auto simp: map_of_eq_None_iff rows)
  then have "held L' = held L @ [c_sha ?c]" by (simp add: L' held_def)
  then have h: "put_held (sha256 E) content binv s0 L'"
    by (rule put_held_incref [OF held pos]) (simp_all add: L')
  have "put_local (sha256 E) (s_cs s0) S X L'"
    by (rule put_clean_local [OF _ off okD(3) rh tgt clean w step [unfolded L'(1)]])
      (use inv in \<open>simp add: put_inv_local\<close>)
  with h show "put_inv (sha256 E) content binv s0 S X L'" by (simp add: put_inv_local)
qed

lemma put_invD:
  assumes "put_inv hash content binv s0 S X L"
  shows "put_held hash content binv s0 L"
    "set (p_dups L) \<subseteq> fst ` set (p_pending L)" "fst ` set (p_pending L) \<subseteq> set (p_acquired L)"
    "count_list (map (c_sha \<circ> snd) (p_new L)) j = count_list (p_acquired L) j + count_list (p_dups L) j"
    "map fst (p_new L) = [0..<p_idx L]"
    "rows_hold hash 0 (map snd (p_new L)) (take (p_off L) X)"
    "p_off L = min (p_idx L * s_cs s0) (length X)"
    "f_data (p_src L) = S" "f_pos (p_src L) = p_off L"
    "rows_shape (s_cs s0) (length X) (map snd (p_new L))"
  using assms unfolding put_inv_def by (elim conjE; blast)+

lemma put_dirty_ok:
  assumes inv: "put_inv (sha256 E) content binv s0 S X L" and off: "p_off L < length X"
    and cs: "0 < s_cs s0" and S: "length X \<le> length S"
    and tgt: "put_target (s_cs s0) dirty rows D S (length X) X"
    and w: "w = min (s_cs s0) (length X - p_off L)"
    and dirt: "\<not> is_clean dirty rows (p_idx L) (p_off L) w"
    and step: "put_dirty E w L = (r, L')"
  shows "put_held (sha256 E) content binv s0 L'"
    and "r \<noteq> Inr False" "r = Inr True \<Longrightarrow> put_inv (sha256 E) content binv s0 S X L'"
proof -
  note I = put_invD [OF inv]
  have loc: "put_local (sha256 E) (s_cs s0) S X L" using inv by (simp add: put_inv_local)
  obtain d src where rd: "f_read (p_src L) w = (d, src)" and ne: "d \<noteq> []" and false: "r \<noteq> Inr False"
    and loc': "r = Inr True \<Longrightarrow> put_local (sha256 E) (s_cs s0) S X L'"
    by (rule put_dirty_local [OF loc off cs S tgt w dirt step]) blast
  obtain q L1 where ref: "put_ref E (L\<lparr>p_src := src\<rparr>) (sha256 E d) d = (q, L1)" by force
  have "put_held (sha256 E) content binv s0 (L\<lparr>p_src := src\<rparr>)"
    using I(1) put_held_cong [of "L\<lparr>p_src := src\<rparr>" L] by simp
  note R = put_ref_ok [OF this refl ref]
  show h: "put_held (sha256 E) content binv s0 L'"
  proof (cases q)
    case (Inl e)
    with step rd ne ref R(1) show ?thesis by (auto simp: put_dirty_def)
  next
    case (Inr u)
    with step rd ne ref R(1) show ?thesis
      using put_held_cong [of L' L1] by (auto simp: put_dirty_def)
  qed
  show "r \<noteq> Inr False" by (fact false)
  show "r = Inr True \<Longrightarrow> put_inv (sha256 E) content binv s0 S X L'"
    using h loc' by (simp add: put_inv_local)
qed

lemma put_step_ok:
  assumes inv: "put_inv (sha256 E) content binv s0 S X L" and off: "p_off L < length X"
    and ok: "store_ok (sha256 E) content binv s0" and S: "length X \<le> length S"
    and rows: "rows = get_chunks (s_meta s0) i"
    and tgt: "put_target (s_cs s0) dirty rows (sbytes content s0 i) S (length X) X"
    and step: "put_step E dirty rows (length X) L = (r, L')"
  shows "put_held (sha256 E) content binv s0 L'"
    and "r \<noteq> Inr False" "r = Inr True \<Longrightarrow> put_inv (sha256 E) content binv s0 S X L'"
proof -
  define w where "w = min (s_cs s0) (length X - p_off L)"
  have cs: "s_cs (p_store L) = s_cs s0"
    using put_heldD(1) [OF put_invD(1) [OF inv]] by (simp add: only_blobs_iff)
  have "put_held (sha256 E) content binv s0 L' \<and> r \<noteq> Inr False \<and>
      (r = Inr True \<longrightarrow> put_inv (sha256 E) content binv s0 S X L')"
  proof (cases "is_clean dirty rows (p_idx L) (p_off L) w")
    case True
    then have "put_clean w (c_sha (rows ! p_idx L)) L = (r, L')"
      using step by (simp add: put_step_def Let_def cs w_def)
    from put_clean_ok [OF inv off ok rows tgt True w_def this] put_invD(1) show ?thesis by blast
  next
    case False
    then have "put_dirty E w L = (r, L')"
      using step by (simp add: put_step_def Let_def cs w_def)
    from put_dirty_ok [OF inv off store_okD(3) [OF ok] S tgt w_def False this] show ?thesis by blast
  qed
  then show "put_held (sha256 E) content binv s0 L'" "r \<noteq> Inr False"
    "r = Inr True \<Longrightarrow> put_inv (sha256 E) content binv s0 S X L'" by blast+
qed

lemma put_loop_ok:
  assumes ok: "store_ok (sha256 E) content binv s0" and S: "length X \<le> length S"
    and rows: "rows = get_chunks (s_meta s0) i"
    and tgt: "put_target (s_cs s0) dirty rows (sbytes content s0 i) S (length X) X"
    and inv: "put_inv (sha256 E) content binv s0 S X L"
    and loop: "put_loop E dirty rows (length X) L = (r, L')"
  shows "put_held (sha256 E) content binv s0 L'"
    and "r = Inr () \<Longrightarrow> put_inv (sha256 E) content binv s0 S X L' \<and> p_off L' = length X"
proof -
  have "put_held (sha256 E) content binv s0 L' \<and>
      (r = Inr () \<longrightarrow> put_inv (sha256 E) content binv s0 S X L' \<and> p_off L' = length X)"
    using inv loop
  proof (induction "length X - p_off L + (length rows - p_idx L)" arbitrary: L rule: less_induct)
    case less
    note I = put_invD [OF less.prems(1)]
    show ?case
    proof (cases "p_off L < length X")
      case False
      then have "p_off L = length X" using I(7) by simp
      with less.prems I(1) show ?thesis by (simp add: put_loop.simps)
    next
      case True
      obtain q L1 where st: "put_step E dirty rows (length X) L = (q, L1)" by force
      note one = put_step_ok [OF less.prems(1) True ok S rows tgt st]
      consider (err) e where "q = Inl e" | (go) "q = Inr True" using one(2) by (cases q) auto
      then show ?thesis
      proof cases
        case err
        with less.prems(2) True st one(1) show ?thesis by (auto simp: put_loop.simps)
      next
        case go
        then have "put_loop E dirty rows (length X) L1 = (r, L')"
          using less.prems(2) True st by (simp add: put_loop.simps)
        from less.hyps [OF put_step_progress one(3) [OF go] this] go st True show ?thesis by simp
      qed
    qed
  qed
  then show "put_held (sha256 E) content binv s0 L'"
    "r = Inr () \<Longrightarrow> put_inv (sha256 E) content binv s0 S X L' \<and> p_off L' = length X" by blast+
qed

lemma rollback_ok:
  assumes "store_ok (sha256 E) content binv s0" "put_held (sha256 E) content binv s0 L"
    and "rollback E e L = (r, s')"
  shows "r = Inl e" "only_blobs s0 s'" "binv (s_back s')"
    "content (s_back s') = content (s_back s0)" "blob_get (s_meta s') = blob_get (s_meta s0)"
    "keyed (blobs (s_meta s'))"
proof -
  note ok = store_okD [OF assms(1)] and h = put_heldD [OF assms(2)]
  obtain q s1 where rel: "release_all E (p_store L) (held L) = (q, s1)" by force
  note R = release_all_ok [OF h(2,4) rel]
  have s1: "r = Inl e" "s' = s1" using assms(3) rel R(1) by (simp_all add: rollback_def held_def)
  have counts: "(\<lambda>j. refs (s_meta s0) j + count_list (held L) j - count_list (held L) j) = refs (s_meta s0)"
    by simp
  have "kept_live (refs (s_meta s0)) (s_meta s0) (content (s_back s0)) (s_meta s1) (content (s_back s1))"
    using kept_kept_live [OF h(3) R(5)] by (simp add: counts)
  moreover have "0 < refs (s_meta s0) sh" if "loc (s_meta s0) sh \<noteq> None" for sh
    using that blobs_ok_known [OF ok(4), of sh] loc_None_iff [of "s_meta s0" sh] by simp
  ultimately have "kept (s_meta s0) (content (s_back s0)) (s_meta s1) (content (s_back s1))"
    by (rule kept_live_kept)
  note same = kept_restored [OF ok(4) R(4) [unfolded counts] this]
  show "r = Inl e" "only_blobs s0 s'" "binv (s_back s')"
    "content (s_back s') = content (s_back s0)" "blob_get (s_meta s') = blob_get (s_meta s0)"
    "keyed (blobs (s_meta s'))"
    using only_blobs_trans [OF h(1) R(3)] R(2) same blobs_okD(1) [OF R(4)]
    by (simp_all add: s1 counts_ok_def)
qed

text \<open>
  After the loop: the references of the duplicates, the new rows, and the release of the
  old ones.
\<close>

lemma put_commit_ok:
  assumes ok: "store_ok (sha256 E) content binv s0" and inj: "inj (sha256 E)"
    and inv: "put_inv (sha256 E) content binv s0 S X L" and off: "p_off L = length X"
    and good: "first_error (map snd (p_pending L)) = None"
    and s1: "s1 = foldl incref_store (p_store L) (p_dups L)"
    and m: "set_chunks (s_meta s1) i (p_new L) = (r1, m)"
    and rel: "release_all E (s1\<lparr>s_meta := set_size m i (p_off L)\<rparr>)
        (map c_sha (get_chunks (s_meta s0) i)) = (r, s')"
  shows "r1 = Inr ()" "r = Inr ()" "store_ok (sha256 E) content binv s'"
    "sbytes content s' j = (if j = i then X else sbytes content s0 j)"
    "get_chunks (s_meta s') j = (if j = i then map snd (p_new L) else get_chunks (s_meta s0) j)"
    "rows_shape (s_cs s0) (length X) (map snd (p_new L)) \<and>
       (\<forall>k. k * s_cs s0 < length X \<longrightarrow> k < length (p_new L))"
    "only_blobs (s0\<lparr>s_meta := set_size ((s_meta s0)\<lparr>chunks := chunks (s_meta s')\<rparr>) i (length X)\<rparr>) s'"
proof -
  note okD = store_okD [OF ok] and I = put_invD [OF inv]
  note h = put_heldD [OF I(1)]
  have fails: "first_error rs = None \<longleftrightarrow> (\<forall>e. Inl e \<notin> set rs)" for rs
    by (induction rs rule: first_error.induct) auto
  have "map_of (p_pending L) sh \<noteq> Some (Inl e)" for sh e
    using good fails [of "map snd (p_pending L)"] by (metis map_of_SomeD set_map image_eqI snd_conv)
  then have held: "held L = p_acquired L"
    unfolding held_def by (auto intro!: filter_True split: option.splits sum.splits)
  have pos: "0 < refs (s_meta s0) sh + count_list (held L) sh" if "sh \<in> set (p_dups L)" for sh
    using that I(2,3) held by (auto simp: count_list_0_iff neq0_conv [symmetric] simp del: neq0_conv)
  let ?new = "\<lambda>j. refs (s_meta s0) j + count_list (map (c_sha \<circ> snd) (p_new L)) j"
  have new: "(\<lambda>j. refs (s_meta s0) j + count_list (held L) j + count_list (p_dups L) j) = ?new"
    using I(4) held by (simp add: fun_eq_iff)
  note all = incref_all_ok [OF h(4) pos, of "p_dups L", unfolded new, folded s1]
  then have inc: "blobs_ok (sha256 E) (content (s_back (p_store L))) (s_meta s1) ?new"
    "kept (s_meta (p_store L)) (content (s_back (p_store L))) (s_meta s1) (content (s_back (p_store L)))"
    "only_blobs (p_store L) s1" "s_back s1 = s_back (p_store L)"
    by blast+
  have only1: "only_blobs s0 s1" using only_blobs_trans [OF h(1) inc(3)] .
  have idx: "distinct (map fst (p_new L))" "sorted (map fst (p_new L))" by (simp_all add: I(5))
  let ?ch = "rows_without (s_meta s1) i @ map (\<lambda>(k, c). ((i, k), c)) (p_new L)"
  have m': "r1 = Inr ()" "m = (s_meta s1)\<lparr>chunks := ?ch\<rparr>"
    using m set_chunks_ok [OF idx(1), of "s_meta s1" i] by simp_all
  define s2 where "s2 = s1\<lparr>s_meta := set_size m i (p_off L)\<rparr>"
  have blobs2: "blobs (s_meta s2) = blobs (s_meta s1)" by (simp add: s2_def m' set_size_def)
  have back2: "s_back s2 = s_back (p_store L)" by (simp add: s2_def inc(4))
  have bok: "blobs_ok (sha256 E) (content (s_back s2)) (s_meta s2) ?new"
    using inc(1) blobs_ok_same_blobs [OF blobs2] by (simp add: back2)
  have "binv (s_back s2)" using h(2) by (simp add: back2)
  note R = release_all_ok [OF this bok rel [folded s2_def]]
  show "r1 = Inr ()" "r = Inr ()" by (fact m'(1), fact R(1))
  have chunks': "chunks (s_meta s') = ?ch"
    using R(3) by (simp add: only_blobs_iff s2_def m' set_size_def)
  have same0: "chunks (s_meta s1) = chunks (s_meta s0)" using only1 by (simp add: only_blobs_iff)
  have gc: "get_chunks (s_meta s') j = (if j = i then map snd (p_new L) else get_chunks (s_meta s0) j)" for j
    using get_chunks_set [OF idx(2), of "s_meta s1" i j] same0 chunks'
    by (simp add: get_chunks_def)
  have refs': "refs (s_meta s') = (\<lambda>j. ?new j - count_list (map c_sha (get_chunks (s_meta s0) i)) j)"
  proof
    fix sh
    have "refs (s_meta s') sh = refs ((s_meta s0)\<lparr>chunks :=
        rows_without (s_meta s0) i @ map (\<lambda>(k, c). ((i, k), c)) (p_new L)\<rparr>) sh"
      using chunks' same0 by (simp add: refs_def rows_without_def)
    also have "\<dots> = refs (s_meta s0) sh - count_list (map c_sha (get_chunks (s_meta s0) i)) sh +
        count_list (map (c_sha \<circ> snd) (p_new L)) sh" by (rule refs_set_chunks)
    finally show "refs (s_meta s') sh = ?new sh - count_list (map c_sha (get_chunks (s_meta s0) i)) sh"
      using refs_split [of "s_meta s0" sh i] by simp
  qed
  have bok': "blobs_ok (sha256 E) (content (s_back s')) (s_meta s') (refs (s_meta s'))"
    using R(4) by (simp add: refs')
  have rows_i: "rows_hold (sha256 E) 0 (get_chunks (s_meta s') i) X"
    using I(6) by (simp add: gc off)
  have rows: "rows_hold (sha256 E) 0 (get_chunks (s_meta s') j) (if j = i then X else sbytes content s0 j)"
    for j
    using rows_i okD(5) [of j] gc [of j] by (cases "j = i") simp_all
  have "keyed (chunks (s_meta s'))"
    using keyed_set_chunks [OF _ idx(1), of "s_meta s1" i] okD(2) by (simp add: chunks' same0)
  moreover have "s_cs s' = s_cs s0" "s_cache s' = s_cache s0"
    using R(3) only1 by (simp_all add: only_blobs_iff s2_def)
  ultimately have "store_ok (sha256 E) content binv s' \<and>
      sbytes content s' = (\<lambda>j. if j = i then X else sbytes content s0 j)"
    by (intro store_okI rows) (use bok' inj R(2) okD(3,6) in simp_all)
  then show "store_ok (sha256 E) content binv s'"
    "sbytes content s' j = (if j = i then X else sbytes content s0 j)" by simp_all
  show "get_chunks (s_meta s') j = (if j = i then map snd (p_new L) else get_chunks (s_meta s0) j)"
    by (rule gc)
  have "length (p_new L) = p_idx L" using arg_cong [OF I(5), of length] by simp
  moreover have "length X \<le> p_idx L * s_cs s0" using I(7) off by simp
  ultimately show "rows_shape (s_cs s0) (length X) (map snd (p_new L)) \<and>
       (\<forall>k. k * s_cs s0 < length X \<longrightarrow> k < length (p_new L))"
    using I(10) by (auto intro: mult_less_cancel2 [THEN iffD1, THEN conjunct2] dest: less_le_trans)
  show "only_blobs (s0\<lparr>s_meta := set_size ((s_meta s0)\<lparr>chunks := chunks (s_meta s')\<rparr>) i (length X)\<rparr>) s'"
    using R(3) only1 off by (simp add: only_blobs_iff s2_def m' set_size_def)
qed

end

end
