(* ===== verification/StoreSpec.thy ===== *)
theory StoreSpec
  imports StoreWrite
begin

section \<open>The contract of put_file and free_file\<close>

lemma put_dirty_src: "put_dirty E w L = (r, L') \<Longrightarrow> f_data (p_src L') = f_data (p_src L)"
proof -
  assume dirty: "put_dirty E w L = (r, L')"
  obtain d src where rd: "f_read (p_src L) w = (d, src)" by force
  then have "f_data src = f_data (p_src L)" by (metis f_read_data snd_conv)
  moreover obtain q L1 where ref: "put_ref E (L\<lparr>p_src := src\<rparr>) (sha256 E d) d = (q, L1)" by force
  moreover have "p_src L1 = src" using put_ref_frame [OF ref] by simp
  ultimately show ?thesis
    using dirty rd by (auto simp: put_dirty_def split: if_splits sum.splits)
qed

lemma put_step_src: "put_step E dirty rows sz L = (r, L') \<Longrightarrow> f_data (p_src L') = f_data (p_src L)"
  by (auto simp: put_step_def put_clean_def Let_def dest: put_dirty_src split: if_splits)

lemma put_loop_src: "put_loop E dirty rows sz L = (r, L') \<Longrightarrow> f_data (p_src L') = f_data (p_src L)"
proof (induction E dirty rows sz L rule: put_loop.induct)
  case (1 E dirty rows sz L)
  show ?case
  proof (cases "p_off L < sz")
    case True
    obtain q L1 where st: "put_step E dirty rows sz L = (q, L1)" by force
    note src = put_step_src [OF st]
    consider e where "q = Inl e" | "q = Inr False" | "q = Inr True" by (cases q) auto
    then show ?thesis
      by cases (use 1 True st src in \<open>simp_all add: put_loop.simps\<close>)
  qed (use 1 in \<open>simp add: put_loop.simps\<close>)
qed

lemma blobs_ok_restored:
  assumes "blobs_ok hash c m R" "blob_get m' = blob_get m" "c' = c" "keyed (blobs m')"
  shows "blobs_ok hash c' m' R"
proof -
  have "loc m' = loc m" "rc m' = rc m" using assms(2) by (simp_all add: loc_def rc_def fun_eq_iff)
  then show ?thesis using assms by (simp add: blobs_ok_def counts_ok_def)
qed

text \<open>
  Nothing the user sees has changed: the index but for the order of its blob rows, and what
  the backend holds.
\<close>

definition unchanged :: "('b \<Rightarrow> nat \<Rightarrow> bytes option) \<Rightarrow> 'b store \<Rightarrow> 'b store \<Rightarrow> bool" where
  "unchanged content s s' \<longleftrightarrow>
     only_blobs s s' \<and> blob_get (s_meta s') = blob_get (s_meta s) \<and>
     content (s_back s') = content (s_back s)"

lemma unchanged_bytes: "unchanged content s s' \<Longrightarrow> sbytes content s' = sbytes content s"
proof -
  assume u: "unchanged content s s'"
  then have "get_chunks (s_meta s') = get_chunks (s_meta s)" "loc (s_meta s') = loc (s_meta s)"
    by (simp_all add: unchanged_def only_blobs_iff get_chunks_def loc_def fun_eq_iff)
  with u show ?thesis
    by (intro ext) (simp add: unchanged_def sbytes_def file_bytes_def blob_bytes_def)
qed

lemma unchanged_ok:
  assumes "store_ok hash content binv s" "unchanged content s s'" "binv (s_back s')"
    "keyed (blobs (s_meta s'))"
  shows "store_ok hash content binv s'"
proof -
  note okD = store_okD [OF assms(1)]
  have u: "only_blobs s s'" using assms(2) by (simp add: unchanged_def)
  have "blobs_ok hash (content (s_back s')) (s_meta s') (refs (s_meta s'))"
    using blobs_ok_restored [OF okD(4)] assms(2,4) only_blobs_refs [OF u]
    by (simp add: unchanged_def)
  moreover have "get_chunks (s_meta s') = get_chunks (s_meta s)"
    using u by (simp add: only_blobs_iff get_chunks_def fun_eq_iff)
  ultimately show ?thesis
    using assms u unchanged_bytes [OF assms(2)]
    by (simp add: store_ok_def only_blobs_iff sbytes_def fun_eq_iff)
qed

context blob_backend
begin

lemma put_start:
  assumes "store_ok (sha256 E) content binv s" "f_pos src = 0"
  shows "put_inv (sha256 E) content binv s (f_data src) X
    \<lparr>p_idx = 0, p_off = 0, p_src = src, p_new = [], p_acquired = [], p_pending = [],
     p_dups = [], p_running = [], p_store = s\<rparr>"
  using store_okD(1,4) [OF assms(1)] assms(2) by (simp add: put_inv_def put_held_def held_def rows_shape_def)

text \<open>
  \<open>put_file\<close> on a source long enough: it returns with the new content in place, or it
  raises and nothing has changed.
\<close>

lemma put_file_ok:
  assumes ok: "store_ok (sha256 E) content binv s" and inj: "inj (sha256 E)"
    and src: "f_pos src = 0" "length X \<le> length (f_data src)"
    and tgt: "put_target (s_cs s) dirty (get_chunks (s_meta s) i) (sbytes content s i) (f_data src)
        (length X) X"
    and put: "put_file E s i src (length X) dirty = (r, src', s')"
  shows "f_data src' = f_data src" "store_ok (sha256 E) content binv s'"
    and "r = Inr () \<Longrightarrow> sbytes content s' = (sbytes content s)(i := X) \<and>
      only_blobs (s\<lparr>s_meta := set_size ((s_meta s)\<lparr>chunks := chunks (s_meta s')\<rparr>) i (length X)\<rparr>) s' \<and>
      (\<forall>j. j \<noteq> i \<longrightarrow> get_chunks (s_meta s') j = get_chunks (s_meta s) j) \<and>
      rows_shape (s_cs s) (length X) (get_chunks (s_meta s') i) \<and>
      (\<forall>k. k * s_cs s < length X \<longrightarrow> k < length (get_chunks (s_meta s') i))"
    and "r = Inl e \<Longrightarrow> unchanged content s s'"
proof -
  let ?rows = "get_chunks (s_meta s) i"
  define L0 where "L0 = \<lparr>p_idx = 0, p_off = 0, p_src = src, p_new = [], p_acquired = [],
      p_pending = [], p_dups = [], p_running = [], p_store = s\<rparr>"
  have inv0: "put_inv (sha256 E) content binv s (f_data src) X L0"
    using put_start [OF ok src(1)] by (simp add: L0_def)
  obtain q L where loop: "put_loop E dirty ?rows (length X) L0 = (q, L)" by force
  note P = put_loop_ok [OF ok src(2) refl tgt inv0 loop]
  have data: "f_data (p_src L) = f_data src" using put_loop_src [OF loop] by (simp add: L0_def)
  have undo: "f_data src' = f_data src \<and> store_ok (sha256 E) content binv s' \<and> r = Inl e' \<and>
      unchanged content s s'"
    if "(case rollback E e' L of (r, s') \<Rightarrow> (r, p_src L, s')) = (r, src', s')" for e'
  proof -
    have rb: "rollback E e' L = (r, s')" and "src' = p_src L"
      using that by (auto split: prod.splits)
    note R = rollback_ok [OF ok P(1) rb]
    have "unchanged content s s'" using R(2,4,5) by (simp add: unchanged_def)
    with unchanged_ok [OF ok this R(3,6)] R(1) data \<open>src' = p_src L\<close> show ?thesis by simp
  qed
  have "f_data src' = f_data src \<and> store_ok (sha256 E) content binv s' \<and>
    (case r of Inl _ \<Rightarrow> unchanged content s s'
     | Inr _ \<Rightarrow> sbytes content s' = (sbytes content s)(i := X) \<and>
        only_blobs (s\<lparr>s_meta := set_size ((s_meta s)\<lparr>chunks := chunks (s_meta s')\<rparr>) i (length X)\<rparr>) s' \<and>
        (\<forall>j. j \<noteq> i \<longrightarrow> get_chunks (s_meta s') j = get_chunks (s_meta s) j) \<and>
        rows_shape (s_cs s) (length X) (get_chunks (s_meta s') i) \<and>
        (\<forall>k. k * s_cs s < length X \<longrightarrow> k < length (get_chunks (s_meta s') i)))"
  proof (cases "\<exists>e'. q = Inl e' \<or> q = Inr () \<and> first_error (map snd (p_pending L)) = Some e'")
    case True
    then obtain e' where "q = Inl e' \<or> q = Inr () \<and> first_error (map snd (p_pending L)) = Some e'"
      by blast
    then have "(case rollback E e' L of (r, s') \<Rightarrow> (r, p_src L, s')) = (r, src', s')"
      using put loop by (auto simp: put_file_def Let_def L0_def [symmetric])
    from undo [OF this] show ?thesis by simp
  next
    case False
    then have q: "q = Inr ()" and good: "first_error (map snd (p_pending L)) = None"
      by (cases q; auto)+
    define s1 where "s1 = foldl incref_store (p_store L) (p_dups L)"
    obtain r1 m where m: "set_chunks (s_meta s1) i (p_new L) = (r1, m)" by force
    obtain r2 s2 where rel: "release_all E (s1\<lparr>s_meta := set_size m i (p_off L)\<rparr>)
        (map c_sha ?rows) = (r2, s2)" by force
    have inv: "put_inv (sha256 E) content binv s (f_data src) X L" "p_off L = length X"
      using P(2) q by blast+
    note C = put_commit_ok [OF ok inj inv good s1_def m rel]
    have "r = Inr ()" "src' = p_src L" "s' = s2"
      using put loop q good m rel C(1,2)
      by (auto simp: put_file_def Let_def L0_def [symmetric] s1_def [symmetric])
    with C data show ?thesis by (simp add: fun_eq_iff)
  qed
  then show "f_data src' = f_data src" "store_ok (sha256 E) content binv s'"
    "r = Inr () \<Longrightarrow> sbytes content s' = (sbytes content s)(i := X) \<and>
      only_blobs (s\<lparr>s_meta := set_size ((s_meta s)\<lparr>chunks := chunks (s_meta s')\<rparr>) i (length X)\<rparr>) s' \<and>
      (\<forall>j. j \<noteq> i \<longrightarrow> get_chunks (s_meta s') j = get_chunks (s_meta s) j) \<and>
      rows_shape (s_cs s) (length X) (get_chunks (s_meta s') i) \<and>
      (\<forall>k. k * s_cs s < length X \<longrightarrow> k < length (get_chunks (s_meta s') i))"
    "r = Inl e \<Longrightarrow> unchanged content s s'" by auto
qed

lemma free_file_ok:
  assumes ok: "store_ok (sha256 E) content binv s" and inj: "inj (sha256 E)"
    and free: "free_file E s i = (r, s')"
  shows "r = Inr ()" "store_ok (sha256 E) content binv s'"
    "sbytes content s' = (sbytes content s)(i := [])" "get_chunks (s_meta s') i = []"
    "only_blobs (s\<lparr>s_meta := (s_meta s)\<lparr>chunks := chunks (s_meta s')\<rparr>\<rparr>) s'"
    "j \<noteq> i \<Longrightarrow> get_chunks (s_meta s') j = get_chunks (s_meta s) j"
proof -
  note okD = store_okD [OF ok]
  obtain q s1 where rel: "release_all E s (get_chunk_shas (s_meta s) i) = (q, s1)" by force
  note R = release_all_ok [OF okD(1,4) rel]
  have set: "set_chunks (s_meta s1) i [] = (Inr (), (s_meta s1)\<lparr>chunks := rows_without (s_meta s1) i\<rparr>)"
    by (simp add: set_chunks_ok)
  have s': "r = Inr ()" "s' = s1\<lparr>s_meta := (s_meta s1)\<lparr>chunks := rows_without (s_meta s1) i\<rparr>\<rparr>"
    using free rel R(1) set by (simp_all add: free_file_def)
  have same: "chunks (s_meta s1) = chunks (s_meta s)" "s_cs s1 = s_cs s" "s_cache s1 = s_cache s"
    using R(3) by (simp_all add: only_blobs_iff)
  have gc: "get_chunks (s_meta s') j = (if j = i then [] else get_chunks (s_meta s) j)" for j
    using get_chunks_set [of "[]" "s_meta s1" i j] same(1) by (simp add: s' get_chunks_def)
  have "refs (s_meta s') = (\<lambda>j. refs (s_meta s) j - count_list (get_chunk_shas (s_meta s) i) j)"
  proof
    fix sh
    show "refs (s_meta s') sh = refs (s_meta s) sh - count_list (get_chunk_shas (s_meta s) i) sh"
      using refs_split [of "s_meta s" sh i] same(1)
      by (simp add: s' refs_def get_chunk_shas_def rows_without_def)
  qed
  moreover have "blobs_ok (sha256 E) (content (s_back s1)) (s_meta s') R = blobs_ok (sha256 E) (content (s_back s1)) (s_meta s1) R" for R
    by (rule blobs_ok_same_blobs) (simp add: s')
  ultimately have bok: "blobs_ok (sha256 E) (content (s_back s')) (s_meta s') (refs (s_meta s'))"
    using R(4) by (simp add: s')
  have rows: "rows_hold (sha256 E) 0 (get_chunks (s_meta s') j) (((sbytes content s)(i := [])) j)" for j
    using okD(5) [of j] gc [of j] by (cases "j = i") simp_all
  have "keyed (chunks (s_meta s'))" using okD(2) same(1) by (simp add: s' rows_without_def)
  then have "store_ok (sha256 E) content binv s' \<and> sbytes content s' = (sbytes content s)(i := [])"
    by (intro store_okI rows) (use bok inj R(2) okD(3,6) in \<open>simp_all add: s' same\<close>)
  then show "store_ok (sha256 E) content binv s'" "sbytes content s' = (sbytes content s)(i := [])"
    by simp_all
  show "r = Inr ()" "get_chunks (s_meta s') i = []" by (fact s'(1)) (simp add: gc)
  show "j \<noteq> i \<Longrightarrow> get_chunks (s_meta s') j = get_chunks (s_meta s) j" by (simp add: gc)
  show "only_blobs (s\<lparr>s_meta := (s_meta s)\<lparr>chunks := chunks (s_meta s')\<rparr>\<rparr>) s'"
    using R(3) by (simp add: only_blobs_iff s')
qed

end

text \<open>With a backend whose uploads do not fail, \<open>put_file\<close> returns.\<close>

definition all_sent :: "'b putst \<Rightarrow> bool" where
  "all_sent L \<longleftrightarrow> list_all (\<lambda>r. r = Inr ()) (p_running L) \<and>
     list_all (\<lambda>r. r = Inr ()) (map snd (p_pending L))"

lemma first_error_None: "list_all (\<lambda>r. r = Inr ()) rs \<Longrightarrow> first_error rs = None"
  by (induction rs rule: first_error.induct) auto

lemma reap_all_sent:
  "all_sent L \<Longrightarrow> \<exists>L1. reap_running L = (Inr (), L1) \<and> all_sent L1 \<and> p_store L1 = p_store L"
  by (auto simp: reap_running_def all_sent_def first_error_None)

context reliable_backend
begin

lemma upload_blob_returns:
  assumes "binv (s_back s)"
  shows "fst (upload_blob E s sh d) = Inr ()"
proof -
  obtain h b where up: "upload E (s_back s) d = (Inr h, b)" using upload_returns [OF assms] by blast
  then have "binv b" using upload_Inr [OF assms] by blast
  then obtain b' where "delete E b h = (Inr (), b')" using delete_spec by blast
  with up show ?thesis
    by (auto simp: upload_blob_def blob_create_def blob_get_def insert_Some insert_None split: option.splits)
qed

lemma put_ref_returns:
  assumes "binv (s_back (p_store L))" "all_sent L"
  shows "\<exists>L'. put_ref E L sh d = (Inr (), L') \<and> all_sent L'"
proof -
  obtain L1 where "reap_running L = (Inr (), L1)" "all_sent L1" "p_store L1 = p_store L"
    using reap_all_sent [OF assms(2)] by blast
  with assms upload_blob_returns [OF assms(1), of sh d] show ?thesis
    by (auto simp: put_ref_def all_sent_def split: prod.splits)
qed

lemma put_step_returns:
  assumes inv: "put_inv (sha256 E) content binv s0 S X L" and off: "p_off L < length X"
    and ok: "store_ok (sha256 E) content binv s0"
    and rows: "rows = get_chunks (s_meta s0) i"
    and tgt: "put_target (s_cs s0) dirty rows (sbytes content s0 i) S (length X) X"
    and sent: "all_sent L" and step: "put_step E dirty rows (length X) L = (r, L')"
  shows "\<exists>b. r = Inr b" "all_sent L'"
proof -
  define w where "w = min (s_cs s0) (length X - p_off L)"
  have cs: "s_cs (p_store L) = s_cs s0"
    using put_heldD(1) [OF put_invD(1) [OF inv]] by (simp add: only_blobs_iff)
  have "(\<exists>b. r = Inr b) \<and> all_sent L'"
  proof (cases "is_clean dirty rows (p_idx L) (p_off L) w")
    case True
    then have st: "put_clean w (c_sha (rows ! p_idx L)) L = (r, L')"
      using step by (simp add: put_step_def Let_def cs w_def)
    from put_clean_ok [OF inv off ok rows tgt True w_def st] st sent show ?thesis
      by (auto simp: put_clean_def all_sent_def split: if_splits)
  next
    case False
    obtain d src where rd: "f_read (p_src L) w = (d, src)" by force
    have "all_sent (L\<lparr>p_src := src\<rparr>)" using sent by (simp add: all_sent_def)
    then obtain L1 where "put_ref E (L\<lparr>p_src := src\<rparr>) (sha256 E d) d = (Inr (), L1)" "all_sent L1"
      using put_ref_returns [of "L\<lparr>p_src := src\<rparr>"] put_heldD(2) [OF put_invD(1) [OF inv]] by auto
    with step False rd sent show ?thesis
      by (auto simp: put_step_def Let_def cs w_def put_dirty_def all_sent_def split: if_splits)
  qed
  then show "\<exists>b. r = Inr b" "all_sent L'" by blast+
qed

lemma put_loop_returns:
  assumes ok: "store_ok (sha256 E) content binv s0" and S: "length X \<le> length S"
    and rows: "rows = get_chunks (s_meta s0) i"
    and tgt: "put_target (s_cs s0) dirty rows (sbytes content s0 i) S (length X) X"
    and inv: "put_inv (sha256 E) content binv s0 S X L" "all_sent L"
    and loop: "put_loop E dirty rows (length X) L = (r, L')"
  shows "r = Inr () \<and> all_sent L'"
  using inv loop
proof (induction "length X - p_off L + (length rows - p_idx L)" arbitrary: L rule: less_induct)
  case less
  show ?case
  proof (cases "p_off L < length X")
    case False
    with less.prems show ?thesis by (simp add: put_loop.simps)
  next
    case True
    obtain q L1 where st: "put_step E dirty rows (length X) L = (q, L1)" by force
    note one = put_step_ok [OF less.prems(1) True ok S rows tgt st]
    note ret = put_step_returns [OF less.prems(1) True ok rows tgt less.prems(2) st]
    have q: "q = Inr True" using one(2) ret(1) by auto
    then have "put_loop E dirty rows (length X) L1 = (r, L')"
      using less.prems(3) True st by (simp add: put_loop.simps)
    from less.hyps [OF put_step_progress one(3) [OF q] ret(2) this] q st True show ?thesis by simp
  qed
qed

lemma put_file_returns:
  assumes ok: "store_ok (sha256 E) content binv s" and inj: "inj (sha256 E)"
    and src: "f_pos src = 0" "length X \<le> length (f_data src)"
    and tgt: "put_target (s_cs s) dirty (get_chunks (s_meta s) i) (sbytes content s i) (f_data src)
        (length X) X"
  shows "fst (put_file E s i src (length X) dirty) = Inr ()"
proof -
  let ?rows = "get_chunks (s_meta s) i"
  define L0 where "L0 = \<lparr>p_idx = 0, p_off = 0, p_src = src, p_new = [], p_acquired = [],
      p_pending = [], p_dups = [], p_running = [], p_store = s\<rparr>"
  have inv0: "put_inv (sha256 E) content binv s (f_data src) X L0" "all_sent L0"
    using put_start [OF ok src(1)] by (simp_all add: L0_def all_sent_def)
  obtain q L where loop: "put_loop E dirty ?rows (length X) L0 = (q, L)" by force
  note P = put_loop_ok [OF ok src(2) refl tgt inv0(1) loop]
  have q: "q = Inr ()" "all_sent L"
    using put_loop_returns [OF ok src(2) refl tgt inv0 loop] by simp_all
  then have good: "first_error (map snd (p_pending L)) = None"
    by (intro first_error_None) (simp add: all_sent_def)
  define s1 where "s1 = foldl incref_store (p_store L) (p_dups L)"
  obtain r1 m where m: "set_chunks (s_meta s1) i (p_new L) = (r1, m)" by force
  obtain r2 s2 where rel: "release_all E (s1\<lparr>s_meta := set_size m i (p_off L)\<rparr>)
      (map c_sha ?rows) = (r2, s2)" by force
  have inv: "put_inv (sha256 E) content binv s (f_data src) X L" "p_off L = length X"
    using P(2) q by blast+
  note C = put_commit_ok [OF ok inj inv good s1_def m rel]
  show ?thesis
    using loop q good m rel C(1,2)
    by (simp add: put_file_def Let_def L0_def [symmetric] s1_def [symmetric])
qed

end

end
