(* ===== verification/StoreRead.thy ===== *)
theory StoreRead
  imports StoreSpec
begin

section \<open>What read_range returns\<close>

interpretation source: chunk_source source_get cache_ok
proof unfold_locales
  fix hash c P s loader sh rng r c' s'
  assume a: "cache_ok hash c" "P s" "\<And>t d t'. P t \<Longrightarrow> loader t = (Inr d, t') \<Longrightarrow> hash d = sh"
    "source_get c s sh rng loader = (r, c', s')"
  show "cache_ok hash c'"
  proof (cases c)
    case (Some c0)
    then show ?thesis
      using a cached.get_ok [of hash c0 P s loader sh rng]
      by (auto simp: source_get_def cache_ok_def split: prod.splits)
  qed (use a in \<open>auto simp: source_get_def cache_ok_def split: prod.splits sum.splits\<close>)
next
  fix hash c P s loader sh rng x c' s'
  assume a: "cache_ok hash c" "P s" "\<And>t d t'. P t \<Longrightarrow> loader t = (Inr d, t') \<Longrightarrow> hash d = sh"
    "source_get c s sh rng loader = (Inr x, c', s')"
  show "\<exists>d. hash d = sh \<and> x = range_of d rng"
  proof (cases c)
    case (Some c0)
    then show ?thesis
      using a cached.get_value [of hash c0 P s loader sh rng]
      by (auto simp: source_get_def cache_ok_def split: prod.splits)
  qed (use a in \<open>auto simp: source_get_def split: prod.splits sum.splits\<close>)
next
  fix P s loader c sh rng r c' s'
  assume a: "P s" "\<And>t. P t \<Longrightarrow> P (snd (loader t))" "source_get c s sh rng loader = (r, c', s')"
  show "P s'"
  proof (cases c)
    case (Some c0)
    then show ?thesis
      using a cached.get_state [of P s loader c0 sh rng]
      by (auto simp: source_get_def split: prod.splits)
  next
    case None
    then have "s' = snd (loader s)"
      using a(3) by (auto simp: source_get_def split: prod.splits sum.splits)
    with a(2) [OF a(1)] show ?thesis by simp
  qed
next
  fix P s c sh rng and loader :: "'b \<Rightarrow> (bytes, 'b) res"
  assume a: "P s" "\<And>t. P t \<Longrightarrow> \<exists>d. fst (loader t) = Inr d" "\<And>t. P t \<Longrightarrow> P (snd (loader t))"
  show "\<exists>x. fst (source_get c s sh rng loader) = Inr x"
  proof (cases c)
    case (Some c0)
    then show ?thesis
      using cached.get_returns [where P = P and loader = loader, OF a, where c = c0 and sh = sh and rng = rng]
      by (auto simp: source_get_def split: prod.splits)
  next
    case None
    with a(2) [OF a(1)] show ?thesis by (auto simp: source_get_def split: prod.splits sum.splits)
  qed
qed

text \<open>What a read may change: the cache, the backend's own state and the read-ahead hint.\<close>

definition same_data :: "('b \<Rightarrow> nat \<Rightarrow> bytes option) \<Rightarrow> 'b store \<Rightarrow> 'b store \<Rightarrow> bool" where
  "same_data content s s' \<longleftrightarrow>
     s_meta s' = s_meta s \<and> content (s_back s') = content (s_back s) \<and> s_cs s' = s_cs s \<and>
     s_workers s' = s_workers s \<and> s_readahead s' = s_readahead s"

lemma same_data_refl [simp]: "same_data content s s"
  by (simp add: same_data_def)

lemma same_data_trans:
  "same_data content s s' \<Longrightarrow> same_data content s' s'' \<Longrightarrow> same_data content s s''"
  by (simp add: same_data_def)

lemma same_data_bytes: "same_data content s s' \<Longrightarrow> sbytes content s' = sbytes content s"
  by (intro ext) (simp add: same_data_def sbytes_def)

lemma same_data_ok:
  assumes "store_ok hash content binv s" "same_data content s s'" "binv (s_back s')"
    "cache_ok hash (s_cache s')"
  shows "store_ok hash content binv s'"
  using assms by (simp add: store_ok_def same_data_def)

text \<open>Cutting the range out of the rows it hits.\<close>

definition hits :: "nat \<Rightarrow> nat \<Rightarrow> chunk \<Rightarrow> bool" where
  "hits a b c \<longleftrightarrow> c_off c + c_len c > a \<and> c_off c < b"

definition piece :: "(sha \<Rightarrow> bytes) \<Rightarrow> nat \<Rightarrow> nat \<Rightarrow> chunk \<Rightarrow> bytes" where
  "piece g a b c = slice (g (c_sha c)) (max a (c_off c) - c_off c) (min b (c_off c + c_len c) - c_off c)"

lemma slice_shift: "slice (drop n xs) lo hi = slice xs (n + lo) (n + hi)"
  by (simp add: slice_def add.commute)

lemma pieces_slice:
  assumes "rows_hold hash o1 rows D" "inj hash" "\<And>c. c \<in> set rows \<Longrightarrow> hash (g (c_sha c)) = c_sha c"
    and "a < b"
  shows "concat (map (piece g a b) (filter (hits a b) rows)) = slice D (a - o1) (b - o1)"
  using assms
proof (induction hash o1 rows D rule: rows_hold.induct)
  case (2 hash o1 c cs D)
  let ?n = "c_len c"
  have off: "c_off c = o1" "0 < ?n" "?n \<le> length D" using 2(2) by auto
  have "hash (g (c_sha c)) = hash (take ?n D)" using 2(2,4) by simp
  then have g: "g (c_sha c) = take ?n D" using 2(3) by (auto dest: injD)
  have IH: "concat (map (piece g a b) (filter (hits a b) cs)) = slice (drop ?n D) (a - (o1 + ?n)) (b - (o1 + ?n))"
    using 2 by simp
  have split: "concat (map (piece g a b) (filter (hits a b) (c # cs))) =
      (if hits a b c then piece g a b c else []) @ concat (map (piece g a b) (filter (hits a b) cs))"
    by simp
  have first: "(if hits a b c then piece g a b c else []) = slice D (a - o1) (min (b - o1) ?n)"
    using off 2(5) by (auto simp: hits_def piece_def g slice_def min_def max_def drop_take add.commute)
  have "slice (drop ?n D) (a - (o1 + ?n)) (b - (o1 + ?n)) = slice D (max (a - o1) ?n) (max (b - o1) ?n)"
    by (simp add: slice_shift max_def)
  moreover have "slice D (a - o1) (min (b - o1) ?n) @ slice D (max (a - o1) ?n) (max (b - o1) ?n) =
      slice D (a - o1) (b - o1)"
  proof -
    consider "b - o1 \<le> ?n" | "?n < b - o1" "a - o1 \<le> ?n" | "?n < a - o1" using 2(5) by linarith
    then show ?thesis
      by cases (use 2(5) in \<open>auto simp: max_def min_def intro: slice_append_split\<close>)
  qed
  ultimately show ?case unfolding split first IH by simp
qed simp

context blob_backend
begin

definition reads :: "'b store \<Rightarrow> 'b store \<Rightarrow> bool" where
  "reads s s' \<longleftrightarrow> store_ok (sha256 E) content binv s' \<and> same_data content s s'"

lemma reads_trans: "reads s s' \<Longrightarrow> reads s' s'' \<Longrightarrow> reads s s''"
  using same_data_trans by (auto simp: reads_def)

lemma fetch_load_honest: "fetch_load E h sh b = (Inr d, b') \<Longrightarrow> sha256 E d = sh"
  by (auto simp: fetch_load_def split: prod.splits sum.splits if_splits)

lemma fetch_load_keeps:
  "binv b \<Longrightarrow> binv (snd (fetch_load E h sh b)) \<and> content (snd (fetch_load E h sh b)) = content b"
  using download_keeps [of b h] by (auto simp: fetch_load_def split: prod.splits sum.splits)

lemma read_chunk_ok:
  assumes ok: "store_ok (sha256 E) content binv s" and inj: "inj (sha256 E)"
    and read: "read_chunk E s sh rng = (r, s')"
  shows "reads s s'" "r = Inr x \<Longrightarrow> 0 < refs (s_meta s) sh \<and>
    x = range_of (blob_bytes (content (s_back s)) (s_meta s) sh) rng"
proof -
  note okD = store_okD [OF ok]
  have "reads s s' \<and> (r = Inr x \<longrightarrow> 0 < refs (s_meta s) sh \<and>
    x = range_of (blob_bytes (content (s_back s)) (s_meta s) sh) rng)"
  proof (cases "blob_get (s_meta s) sh")
    case None
    with read ok show ?thesis by (auto simp: read_chunk_def reads_def)
  next
    case (Some row)
    let ?load = "fetch_load E (b_handle row) sh" and ?P = "\<lambda>b. binv b \<and> content b = content (s_back s)"
    have P: "?P (s_back s)" using okD(1) by simp
    have honest: "sha256 E d = sh" if "?load t = (Inr d, t')" for t d t'
      using fetch_load_honest that .
    have keeps: "?P (snd (?load t))" if "?P t" for t using fetch_load_keeps that by simp
    obtain c b where get: "source_get (s_cache s) (s_back s) sh rng ?load = (r, c, b)"
        and s': "s' = s\<lparr>s_cache := c, s_back := b\<rparr>"
      using read Some by (auto simp: read_chunk_def split: prod.splits)
    have "cache_ok (sha256 E) c"
      by (rule source.get_ok [where P = ?P, OF okD(6) P honest get])
    moreover have "?P b" by (rule source.get_state [where P = ?P, OF P keeps get])
    ultimately have "reads s s'"
      using same_data_ok [OF ok, of s'] by (simp add: reads_def s' same_data_def)
    moreover have "0 < refs (s_meta s) sh" using blobs_ok_known [OF okD(4), of sh] Some by simp
    moreover have "x = range_of (blob_bytes (content (s_back s)) (s_meta s) sh) rng" if "r = Inr x"
      by (rule source.get_unique [where P = ?P, OF inj blob_bytes_hash [OF okD(4)] okD(6) P honest])
        (use get that \<open>0 < refs (s_meta s) sh\<close> in simp_all)
    ultimately show ?thesis by blast
  qed
  then show "reads s s'" "r = Inr x \<Longrightarrow> 0 < refs (s_meta s) sh \<and>
    x = range_of (blob_bytes (content (s_back s)) (s_meta s) sh) rng" by blast+
qed

abbreviation blob_of :: "'b store \<Rightarrow> sha \<Rightarrow> bytes" where
  "blob_of s \<equiv> blob_bytes (content (s_back s)) (s_meta s)"

lemma reads_blob_of: "reads s s' \<Longrightarrow> blob_of s' = blob_of s"
  by (simp add: reads_def same_data_def)

lemma read_parts_ok:
  assumes "store_ok (sha256 E) content binv s" "inj (sha256 E)" "read_parts E s a b cks = (rs, s')"
  shows "(cks = [] \<or> reads s s') \<and> (cks = [] \<longrightarrow> s' = s) \<and>
    (join_results rs = Inr out \<longrightarrow> out = concat (map (piece (blob_of s) a b) cks))"
  using assms
proof (induction cks arbitrary: s rs out)
  case (Cons ck cks)
  obtain r s1 where part: "read_part E s a b ck = (r, s1)" by force
  obtain rs1 where rest: "read_parts E s1 a b cks = (rs1, s')" and rs: "rs = r # rs1"
    using Cons.prems(3) part by (auto split: prod.splits)
  note one = read_chunk_ok [OF Cons.prems(1,2) part [unfolded read_part_def Let_def]]
  have "store_ok (sha256 E) content binv s1" using one(1) by (simp add: reads_def)
  note IH = Cons.IH [OF this Cons.prems(2) rest]
  have "out = concat (map (piece (blob_of s) a b) (ck # cks))" if j: "join_results rs = Inr out"
  proof -
    obtain x ds where "r = Inr x" "join_results rs1 = Inr ds" "out = x @ ds"
      using j rs by (auto split: sum.splits elim: join_results.elims)
    with one(2) [of x] IH [of ds] reads_blob_of [OF one(1)] show ?thesis
      by (simp add: piece_def [of _ _ _ ck] range_of_def)
  qed
  with IH one(1) reads_trans show ?case by auto
qed (simp add: reads_def)

lemma prefetch_ok:
  "store_ok (sha256 E) content binv s \<Longrightarrow> reads s (prefetch E s shs)"
proof (induction shs arbitrary: s)
  case Nil
  then show ?case by (simp add: reads_def)
next
  case (Cons sh shs)
  note okD = store_okD [OF Cons.prems]
  show ?case
  proof (cases "\<exists>c row. s_cache s = Some c \<and> \<not> rc_has c sh \<and> blob_get (s_meta s) sh = Some row")
    case True
    then obtain c row where c: "s_cache s = Some c" "\<not> rc_has c sh" "blob_get (s_meta s) sh = Some row"
      by blast
    obtain r c' b' where pf: "rc_prefetch c (s_back s) sh (fetch_load E (b_handle row) sh) = (r, c', b')"
      by (metis prod.exhaust)
    then obtain q where lo: "load_once c (s_back s) sh (fetch_load E (b_handle row) sh) = (q, c', b')"
      using c(2) by (auto simp: rc_prefetch_def split: prod.splits sum.splits)
    have cok: "rc_wf c" "rc_coherent (sha256 E) c" using okD(6) c(1) by (simp_all add: cache_ok_def rc_ok_def)
    have "sha256 E d = sh" if "fst (fetch_load E (b_handle row) sh (s_back s)) = Inr d" for d
      using fetch_load_honest [of _ sh _ d] that by (metis prod.collapse)
    note L = load_once_ok [OF cok lo this]
    have "rc_ok (sha256 E) c'" using L(1,2) by (simp add: rc_ok_def)
    moreover have "binv b' \<and> content b' = content (s_back s)"
      using L(5) fetch_load_keeps [OF okD(1)] okD(1) by auto
    ultimately have "reads s (s\<lparr>s_cache := Some c', s_back := b'\<rparr>)"
      using same_data_ok [OF Cons.prems] by (simp add: reads_def same_data_def cache_ok_def)
    with Cons.IH reads_trans c pf show ?thesis by (auto simp: reads_def)
  next
    case False
    with Cons show ?thesis by (auto simp: reads_def split: option.splits)
  qed
qed

lemma hits_rows: "map snd (filter (\<lambda>(k, ch). c_off ch + c_len ch > a \<and> c_off ch < b) (enumerate n cks)) =
    filter (hits a b) cks"
  by (induction cks arbitrary: n) (auto simp: hits_def)

lemma read_range_ok:
  assumes ok: "store_ok (sha256 E) content binv s" and inj: "inj (sha256 E)"
    and read: "read_range E s i a n = (r, s')"
  shows "reads s s'" "r = Inr out \<Longrightarrow> out = slice (sbytes content s i) a (a + n)"
proof -
  let ?cks = "get_chunks (s_meta s) i" and ?b = "a + n"
  let ?hit = "filter (\<lambda>(k, ch). c_off ch + c_len ch > a \<and> c_off ch < ?b) (enumerate 0 ?cks)"
  note okD = store_okD [OF ok]
  have hit: "map snd ?hit = filter (hits a ?b) ?cks" by (rule hits_rows)
  have hashed: "sha256 E (blob_of s (c_sha c)) = c_sha c" if "c \<in> set ?cks" for c
    using blob_bytes_hash [OF okD(4) refs_pos [OF that]] .
  have whole: "concat (map (piece (blob_of s) a ?b) (filter (hits a ?b) ?cks)) =
      slice (sbytes content s i) a ?b" if "0 < n"
    using pieces_slice [OF okD(5) inj hashed, of i a ?b] that by simp
  have refl: "reads s s" using ok by (simp add: reads_def)
  have "reads s s' \<and> (r = Inr out \<longrightarrow> out = slice (sbytes content s i) a ?b)"
  proof (cases "n = 0 \<or> ?hit = []")
    case True
    then have "n = 0 \<or> filter (hits a ?b) ?cks = []" using hit by auto
    then have "slice (sbytes content s i) a ?b = []" using whole by (cases "n = 0") auto
    then show ?thesis using read True refl by (cases "n = 0") (auto simp: read_range_def Let_def)
  next
    case False
    obtain rs s1 where parts: "read_parts E s a ?b (map snd ?hit) = (rs, s1)" by force
    note P = read_parts_ok [OF ok inj parts]
    have s1: "reads s s1" using P False by auto
    show ?thesis
    proof (cases "join_results rs")
      case (Inl e)
      with read parts False s1 show ?thesis by (auto simp: read_range_def Let_def)
    next
      case (Inr data)
      have out: "data = slice (sbytes content s i) a ?b"
        using P Inr whole False by (simp add: hit)
      define s2 where "s2 = s1\<lparr>s_last_end := note_last_end (s_last_end s1) i ?b\<rparr>"
      have "same_data content s s2" using s1 by (simp add: s2_def reads_def same_data_def)
      moreover have "store_ok (sha256 E) content binv s1" using s1 by (simp add: reads_def)
      ultimately have s2: "reads s s2" by (simp add: reads_def) (simp add: s2_def store_ok_def)
      then have "reads s (prefetch E s2 shs)" for shs
        using prefetch_ok [of s2 shs] reads_trans [OF s2] by (auto simp: reads_def)
      with read parts False Inr out s2 show ?thesis
        by (auto simp: read_range_def Let_def s2_def [symmetric])
    qed
  qed
  then show "reads s s'" "r = Inr out \<Longrightarrow> out = slice (sbytes content s i) a (a + n)" by blast+
qed

end

context reliable_backend
begin

lemma fetch_load_returns:
  "binv b \<Longrightarrow> content b h = Some d \<Longrightarrow> sha256 E d = sh \<Longrightarrow> fst (fetch_load E h sh b) = Inr d"
  using download_returns [of b h d] by (auto simp: fetch_load_def)

lemma read_chunk_returns:
  assumes ok: "store_ok (sha256 E) content binv s" and "0 < refs (s_meta s) sh"
  shows "\<exists>x. fst (read_chunk E s sh rng) = Inr x"
proof -
  note okD = store_okD [OF ok]
  obtain row where row: "blob_get (s_meta s) sh = Some row"
    using blobs_ok_known [OF okD(4), of sh] assms(2) by auto
  then have "loc (s_meta s) sh = Some (b_handle row, b_len row)" by (simp add: loc_def)
  with blobs_okD(3) [OF okD(4)] obtain d where d: "content (s_back s) (b_handle row) = Some d" "sha256 E d = sh"
    by blast
  let ?load = "fetch_load E (b_handle row) sh" and ?P = "\<lambda>b. binv b \<and> content b = content (s_back s)"
  have "\<exists>x. fst (source_get (s_cache s) (s_back s) sh rng ?load) = Inr x"
  proof (rule source.get_returns [where P = ?P])
    show "?P (s_back s)" using okD(1) by simp
    show "\<exists>d. fst (?load t) = Inr d" if "?P t" for t
      using fetch_load_returns [of t "b_handle row" d sh] that d by auto
    show "?P (snd (?load t))" if "?P t" for t using fetch_load_keeps [of t] that by simp
  qed
  with row show ?thesis by (auto simp: read_chunk_def split: prod.splits)
qed

lemma read_parts_returns:
  assumes "store_ok (sha256 E) content binv s" "inj (sha256 E)"
    "\<And>c. c \<in> set cks \<Longrightarrow> 0 < refs (s_meta s) (c_sha c)"
  shows "\<exists>out. join_results (fst (read_parts E s a b cks)) = Inr out"
  using assms
proof (induction cks arbitrary: s)
  case (Cons ck cks)
  obtain r s1 where part: "read_part E s a b ck = (r, s1)" by force
  note rc = part [unfolded read_part_def Let_def]
  note one = read_chunk_ok(1) [OF Cons.prems(1,2) rc]
  obtain x where x: "r = Inr x"
    using read_chunk_returns [OF Cons.prems(1), of "c_sha ck"] Cons.prems(3) [of ck] rc
    by (metis fst_conv list.set_intros(1))
  have "store_ok (sha256 E) content binv s1" "s_meta s1 = s_meta s"
    using one by (simp_all add: reads_def same_data_def)
  with Cons.IH [of s1] Cons.prems obtain out where "join_results (fst (read_parts E s1 a b cks)) = Inr out"
    by auto
  with part x show ?case by (auto split: prod.splits)
qed simp

lemma read_range_returns:
  assumes ok: "store_ok (sha256 E) content binv s" and inj: "inj (sha256 E)"
  shows "\<exists>out. fst (read_range E s i a n) = Inr out"
proof -
  let ?hit = "filter (\<lambda>(k, ch). c_off ch + c_len ch > a \<and> c_off ch < a + n) (enumerate 0 (get_chunks (s_meta s) i))"
  obtain rs s1 where parts: "read_parts E s a (a + n) (map snd ?hit) = (rs, s1)" by force
  have "\<exists>out. join_results (fst (read_parts E s a (a + n) (map snd ?hit))) = Inr out"
    by (rule read_parts_returns [OF ok inj])
      (use refs_pos [where m = "s_meta s" and i = i] in \<open>auto simp: hits_rows\<close>)
  with parts show ?thesis by (auto simp: read_range_def Let_def)
qed

end

end
