(* ===== verification/FileView.thy ===== *)
theory FileView
  imports Writeback StoreRead
begin

section \<open>The content of a file being written\<close>

text \<open>
  The abstract value of a file state is a byte string (\<open>file_view\<close>): a position in a stored
  chunk that is not in the temporary file yet reads as the stored byte, any other position
  as the byte of the temporary file. \<open>fs_inv\<close> is the invariant behind it. Its parameter
  \<open>K\<close> is the set of chunks that are marked as loaded although their bytes are still to
  come, which happens inside a write; it is empty between operations.
\<close>

definition in_chunk :: "(nat \<times> nat \<times> sha) list \<Rightarrow> nat \<Rightarrow> nat \<Rightarrow> bool" where
  "in_chunk base i p = (case base ! i of (off, len, _) \<Rightarrow> off \<le> p \<and> p < off + len)"

definition chunk_end :: "(nat \<times> nat \<times> sha) list \<Rightarrow> nat \<Rightarrow> nat" where
  "chunk_end base i = (case base ! i of (off, len, _) \<Rightarrow> off + len)"

abbreviation temp :: "filestate \<Rightarrow> bytes" where
  "temp st \<equiv> f_data (fs_file st)"

text \<open>What loading the chunks \<open>ks\<close> does to a file state.\<close>

definition loads :: "bytes \<Rightarrow> nat set \<Rightarrow> filestate \<Rightarrow> filestate \<Rightarrow> bool" where
  "loads D ks st st' \<longleftrightarrow>
     st' = st\<lparr>fs_file := fs_file st', fs_loaded := fs_loaded st \<union> ks\<rparr> \<and>
     (\<forall>p. byte_at (temp st') p =
            (if \<exists>i \<in> ks. in_chunk (fs_base st) i p then byte_at D p else byte_at (temp st) p)) \<and>
     length (temp st) \<le> length (temp st') \<and>
     (\<forall>i \<in> ks. chunk_end (fs_base st) i \<le> length (temp st')) \<and>
     (\<forall>B. length (temp st) \<le> B \<longrightarrow> (\<forall>i \<in> ks. chunk_end (fs_base st) i \<le> B) \<longrightarrow>
            length (temp st') \<le> B)"

lemma loads_refl [simp]: "loads D {} st st"
  by (simp add: loads_def)

lemma loadsD:
  assumes "loads D ks st st'"
  shows "fs_base st' = fs_base st" "fs_ino st' = fs_ino st" "fs_closed st' = fs_closed st"
    "fs_mat st' = fs_mat st" "fs_size st' = fs_size st" "fs_dirty st' = fs_dirty st"
    "fs_dirty_idx st' = fs_dirty_idx st" "fs_loaded st' = fs_loaded st \<union> ks"
    "fs_refcount st' = fs_refcount st" "fs_idle st' = fs_idle st"
    "byte_at (temp st') p =
       (if \<exists>i \<in> ks. in_chunk (fs_base st) i p then byte_at D p else byte_at (temp st) p)"
    "length (temp st) \<le> length (temp st')"
    "i \<in> ks \<Longrightarrow> chunk_end (fs_base st) i \<le> length (temp st')"
    "length (temp st) \<le> B \<Longrightarrow> (\<And>i. i \<in> ks \<Longrightarrow> chunk_end (fs_base st) i \<le> B) \<Longrightarrow> length (temp st') \<le> B"
proof -
  note a = assms [unfolded loads_def]
  have st': "st' = st\<lparr>fs_file := fs_file st', fs_loaded := fs_loaded st \<union> ks\<rparr>" using a by blast
  show "fs_base st' = fs_base st" by (subst st') simp
  show "fs_ino st' = fs_ino st" by (subst st') simp
  show "fs_closed st' = fs_closed st" by (subst st') simp
  show "fs_mat st' = fs_mat st" by (subst st') simp
  show "fs_size st' = fs_size st" by (subst st') simp
  show "fs_dirty st' = fs_dirty st" by (subst st') simp
  show "fs_dirty_idx st' = fs_dirty_idx st" by (subst st') simp
  show "fs_loaded st' = fs_loaded st \<union> ks" by (subst st') simp
  show "fs_refcount st' = fs_refcount st" by (subst st') simp
  show "fs_idle st' = fs_idle st" by (subst st') simp
qed (use assms in \<open>auto simp: loads_def\<close>)

lemma loads_step:
  assumes d: "d = slice D off (off + len)" "0 < len" "off + len \<le> length D"
    and base: "fs_base st ! i = (off, len, sh)"
    and rest: "loads D ks (st\<lparr>fs_file := f_write (f_seek (fs_file st) off) d,
        fs_loaded := insert i (fs_loaded st)\<rparr>) st'"
  shows "loads D (insert i ks) st st'"
proof -
  let ?st = "st\<lparr>fs_file := f_write (f_seek (fs_file st) off) d, fs_loaded := insert i (fs_loaded st)\<rparr>"
  note R = rest [unfolded loads_def]
  have len: "length d = len" using d by simp
  then have ne: "d \<noteq> []" using d(2) by auto
  have tmp: "temp ?st = splice (temp st) off d" using ne by (simp add: f_write_seek_data)
  have one: "byte_at (temp ?st) p = (if in_chunk (fs_base st) i p then byte_at D p else byte_at (temp st) p)" for p
  proof -
    have "d ! (p - off) = byte_at D p" if "off \<le> p" "p < off + len"
      using that d len by (simp add: slice_nth byte_at_def)
    then show ?thesis unfolding tmp byte_at_splice len by (simp add: in_chunk_def base)
  qed
  have l: "length (temp ?st) = max (length (temp st)) (chunk_end (fs_base st) i)"
    unfolding tmp length_splice len by (simp add: chunk_end_def base)
  have st': "st' = st\<lparr>fs_file := fs_file st', fs_loaded := fs_loaded st \<union> insert i ks\<rparr>"
    using R by (auto elim!: ssubst [where s = "?st\<lparr>fs_file := fs_file st', fs_loaded := fs_loaded ?st \<union> ks\<rparr>"])
  show ?thesis
    unfolding loads_def
  proof (intro conjI st' allI impI ballI)
    fix p
    show "byte_at (temp st') p =
        (if \<exists>j \<in> insert i ks. in_chunk (fs_base st) j p then byte_at D p else byte_at (temp st) p)"
      using R one by auto
  next
    show "length (temp st) \<le> length (temp st')" using R l by auto
  next
    fix j assume "j \<in> insert i ks"
    then show "chunk_end (fs_base st) j \<le> length (temp st')" using R l by auto
  next
    fix B assume "length (temp st) \<le> B" "\<forall>j \<in> insert i ks. chunk_end (fs_base st) j \<le> B"
    then show "length (temp st') \<le> B" using R l by auto
  qed
qed

context blob_backend
begin

lemma blob_slice:
  assumes ok: "store_ok (sha256 E) content binv s" and inj: "inj (sha256 E)"
    and c: "k < length (get_chunks (s_meta s) i)" "c = get_chunks (s_meta s) i ! k"
  shows "blob_of s (c_sha c) = slice (sbytes content s i) (c_off c) (c_off c + c_len c)"
    "c_off c + c_len c \<le> length (sbytes content s i)" "0 < c_len c"
proof -
  note okD = store_okD [OF ok]
  note N = rows_hold_nth [OF okD(5) c(1), folded c(2)]
  have "c \<in> set (get_chunks (s_meta s) i)" using c by simp
  then have "sha256 E (blob_of s (c_sha c)) = c_sha c"
    using blob_bytes_hash [OF okD(4)] refs_pos by blast
  with N(4) have "sha256 E (blob_of s (c_sha c)) =
      sha256 E (slice (sbytes content s i) (c_off c) (c_off c + c_len c))" by simp
  then show "blob_of s (c_sha c) = slice (sbytes content s i) (c_off c) (c_off c + c_len c)"
    using inj by (auto dest: injD)
  show "c_off c + c_len c \<le> length (sbytes content s i)" "0 < c_len c" using N(2,3) by simp_all
qed

lemma load_loop_ok:
  assumes "store_ok (sha256 E) content binv s" "inj (sha256 E)"
    and "rows = get_chunks (s_meta s) i" "D = sbytes content s i"
    and "\<And>k. k \<in> set need \<Longrightarrow> k < length rows \<and> fs_base st ! k = base_of (rows ! k)"
    and "load_loop E st s need = (r, st', s')"
  shows "reads s s' \<and> (\<exists>ks. ks \<subseteq> set need \<and> loads D ks st st' \<and> (r = Inr () \<longrightarrow> ks = set need))"
  using assms
proof (induction need arbitrary: st s)
  case Nil
  then show ?case by (auto simp: reads_def)
next
  case (Cons k need)
  let ?c = "rows ! k"
  have k: "k < length rows" "fs_base st ! k = (c_off ?c, c_len ?c, c_sha ?c)"
    using Cons.prems(5) [of k] by (simp_all add: base_of_def)
  note B = blob_slice [OF Cons.prems(1,2) k(1) [unfolded Cons.prems(3)] refl, folded Cons.prems(3,4)]
  obtain q s1 where rd: "read_chunk E s (c_sha ?c) None = (q, s1)" by force
  note one = read_chunk_ok [OF Cons.prems(1,2) rd]
  show ?case
  proof (cases q)
    case (Inl e)
    with Cons.prems(6) k rd one(1) show ?thesis by (auto intro!: exI [of _ "{}"])
  next
    case (Inr d)
    have d: "d = slice D (c_off ?c) (c_off ?c + c_len ?c)"
      using one(2) [OF Inr] B(1) by (simp add: range_of_def)
    show ?thesis
    proof (cases "fs_closed st")
      case True
      with Cons.prems(6) k rd one(1) Inr show ?thesis by (auto intro!: exI [of _ "{}"])
    next
      case False
      let ?st = "st\<lparr>fs_file := f_write (f_seek (fs_file st) (c_off ?c)) d, fs_loaded := insert k (fs_loaded st)\<rparr>"
      have rest: "load_loop E ?st s1 need = (r, st', s')" using Cons.prems(6) k rd Inr False by simp
      have s1: "store_ok (sha256 E) content binv s1" "s_meta s1 = s_meta s" "sbytes content s1 = sbytes content s"
        using one(1) same_data_bytes by (auto simp: reads_def same_data_def)
      have "reads s1 s' \<and> (\<exists>ks. ks \<subseteq> set need \<and> loads D ks ?st st' \<and> (r = Inr () \<longrightarrow> ks = set need))"
        by (rule Cons.IH [OF s1(1) Cons.prems(2) _ _ _ rest])
          (use Cons.prems(3,4,5) s1 in auto)
      then obtain ks where ks: "reads s1 s'" "ks \<subseteq> set need" "loads D ks ?st st'" "r = Inr () \<longrightarrow> ks = set need"
        by blast
      have "loads D (insert k ks) st st'"
        by (rule loads_step [OF d B(3,2) k(2) ks(3)])
      with ks reads_trans [OF one(1) ks(1)] show ?thesis by (intro conjI exI [of _ "insert k ks"]) auto
    qed
  qed
qed

lemma load_ok:
  assumes "store_ok (sha256 E) content binv s" "inj (sha256 E)"
    and "rows = get_chunks (s_meta s) i" "D = sbytes content s i"
    and "\<And>k. k < length (fs_base st) \<Longrightarrow> k < length rows \<and> fs_base st ! k = base_of (rows ! k)"
    and "load E st s lo hi skip = (r, st', s')"
  shows "reads s s'"
    "\<exists>ks. ks \<subseteq> {k. lo \<le> k \<and> k < hi \<and> k < length (fs_base st) \<and> k \<notin> fs_loaded st \<and> k \<notin> skip} \<and>
       loads D ks st st' \<and>
       (r = Inr () \<longrightarrow> ks = {k. lo \<le> k \<and> k < hi \<and> k < length (fs_base st) \<and> k \<notin> fs_loaded st \<and> k \<notin> skip})"
proof -
  let ?need = "filter (\<lambda>i. i \<notin> fs_loaded st \<and> i \<notin> skip) [lo..<min hi (length (fs_base st))]"
  let ?N = "{k. lo \<le> k \<and> k < hi \<and> k < length (fs_base st) \<and> k \<notin> fs_loaded st \<and> k \<notin> skip}"
  have loop: "load_loop E st s ?need = (r, st', s')"
    using assms(6) by (cases "?need = []") (auto simp: load_def Let_def)
  have need: "set ?need = ?N" by auto
  have "reads s s' \<and> (\<exists>ks. ks \<subseteq> set ?need \<and> loads D ks st st' \<and> (r = Inr () \<longrightarrow> ks = set ?need))"
    by (rule load_loop_ok [OF assms(1-4) _ loop]) (use assms(5) in auto)
  then show "reads s s'" "\<exists>ks. ks \<subseteq> ?N \<and> loads D ks st st' \<and> (r = Inr () \<longrightarrow> ks = ?N)"
    unfolding need by blast+
qed

end

subsection \<open>The view and the invariant\<close>

definition pending_at :: "nat \<Rightarrow> filestate \<Rightarrow> nat \<Rightarrow> bool" where
  "pending_at cs st p \<longleftrightarrow> p div cs < length (fs_base st) \<and> p div cs \<notin> fs_loaded st"

definition view_at :: "nat \<Rightarrow> bytes \<Rightarrow> filestate \<Rightarrow> nat \<Rightarrow> byte" where
  "view_at cs D st p = (if pending_at cs st p then byte_at D p else byte_at (temp st) p)"

definition file_view :: "nat \<Rightarrow> bytes \<Rightarrow> filestate \<Rightarrow> bytes" where
  "file_view cs D st = (if fs_mat st then map (view_at cs D st) [0..<fs_size st] else D)"

definition fs_inv :: "nat \<Rightarrow> chunk list \<Rightarrow> bytes \<Rightarrow> nat set \<Rightarrow> filestate \<Rightarrow> bool" where
  "fs_inv cs rows D K st \<longleftrightarrow>
     (if fs_mat st
      then
        (\<forall>k < length (fs_base st). k < length rows \<and> fs_base st ! k = base_of (rows ! k) \<and>
           c_off (rows ! k) = k * cs \<and> k * cs < fs_size st) \<and>
        (\<forall>k < length (fs_base st). k \<notin> fs_loaded st \<longrightarrow>
           k * cs + c_len (rows ! k) = min ((k + 1) * cs) (fs_size st)) \<and>
        (\<forall>k < length (fs_base st). k \<notin> fs_dirty_idx st \<longrightarrow>
           k * cs + c_len (rows ! k) \<le> min ((k + 1) * cs) (fs_size st)) \<and>
        (\<forall>k < length (fs_base st). k \<in> fs_dirty_idx st \<longrightarrow> k \<in> fs_loaded st) \<and>
        (\<forall>k < length (fs_base st). k \<in> fs_loaded st \<longrightarrow> k \<notin> fs_dirty_idx st \<longrightarrow> k \<notin> K \<longrightarrow>
           (\<forall>p. k * cs \<le> p \<longrightarrow> p < k * cs + c_len (rows ! k) \<longrightarrow>
                byte_at (temp st) p = byte_at D p)) \<and>
        length (temp st) \<le> fs_size st \<and>
        (\<forall>p < fs_size st. length (temp st) \<le> p \<longrightarrow> pending_at cs st p \<or> p div cs \<in> K) \<and>
        (\<not> fs_dirty st \<longrightarrow> K = {} \<longrightarrow> file_view cs D st = D)
      else length (temp st) \<le> length D \<and> \<not> fs_dirty st)"

lemma fs_invD:
  assumes "fs_inv cs rows D K st" "fs_mat st"
  shows "k < length (fs_base st) \<Longrightarrow> k < length rows \<and> fs_base st ! k = base_of (rows ! k)"
    "k < length (fs_base st) \<Longrightarrow> c_off (rows ! k) = k * cs"
    "k < length (fs_base st) \<Longrightarrow> k * cs < fs_size st"
    "k < length (fs_base st) \<Longrightarrow> k \<notin> fs_loaded st \<Longrightarrow>
       k * cs + c_len (rows ! k) = min ((k + 1) * cs) (fs_size st)"
    "k < length (fs_base st) \<Longrightarrow> k \<in> fs_dirty_idx st \<Longrightarrow> k \<in> fs_loaded st"
    "k < length (fs_base st) \<Longrightarrow> k \<in> fs_loaded st \<Longrightarrow> k \<notin> fs_dirty_idx st \<Longrightarrow> k \<notin> K \<Longrightarrow>
       k * cs \<le> p \<Longrightarrow> p < k * cs + c_len (rows ! k) \<Longrightarrow>
       byte_at (temp st) p = byte_at D p"
    "length (temp st) \<le> fs_size st"
    "p < fs_size st \<Longrightarrow> length (temp st) \<le> p \<Longrightarrow> pending_at cs st p \<or> p div cs \<in> K"
    "\<not> fs_dirty st \<Longrightarrow> K = {} \<Longrightarrow> file_view cs D st = D"
    "k < length (fs_base st) \<Longrightarrow> k \<notin> fs_dirty_idx st \<Longrightarrow>
       k * cs + c_len (rows ! k) \<le> min ((k + 1) * cs) (fs_size st)"
  using assms unfolding fs_inv_def by simp_all

lemma fs_invI:
  assumes "fs_mat st"
    "\<And>k. k < length (fs_base st) \<Longrightarrow> k < length rows \<and> fs_base st ! k = base_of (rows ! k)"
    "\<And>k. k < length (fs_base st) \<Longrightarrow> c_off (rows ! k) = k * cs \<and> k * cs < fs_size st"
    "\<And>k. k < length (fs_base st) \<Longrightarrow> k \<notin> fs_loaded st \<Longrightarrow>
       k * cs + c_len (rows ! k) = min ((k + 1) * cs) (fs_size st)"
    "\<And>k. k < length (fs_base st) \<Longrightarrow> k \<notin> fs_dirty_idx st \<Longrightarrow>
       k * cs + c_len (rows ! k) \<le> min ((k + 1) * cs) (fs_size st)"
    "\<And>k. k < length (fs_base st) \<Longrightarrow> k \<in> fs_dirty_idx st \<Longrightarrow> k \<in> fs_loaded st"
    "\<And>k p. k < length (fs_base st) \<Longrightarrow> k \<in> fs_loaded st \<Longrightarrow> k \<notin> fs_dirty_idx st \<Longrightarrow> k \<notin> K \<Longrightarrow>
       k * cs \<le> p \<Longrightarrow> p < k * cs + c_len (rows ! k) \<Longrightarrow>
       byte_at (temp st) p = byte_at D p"
    "length (temp st) \<le> fs_size st"
    "\<And>p. p < fs_size st \<Longrightarrow> length (temp st) \<le> p \<Longrightarrow> pending_at cs st p \<or> p div cs \<in> K"
    "\<not> fs_dirty st \<Longrightarrow> K = {} \<Longrightarrow> file_view cs D st = D"
  shows "fs_inv cs rows D K st"
  using assms unfolding fs_inv_def by simp

lemma length_file_view: "fs_mat st \<Longrightarrow> length (file_view cs D st) = fs_size st"
  by (simp add: file_view_def)

lemma byte_at_view: "fs_mat st \<Longrightarrow> byte_at (file_view cs D st) p = (if p < fs_size st then view_at cs D st p else 0)"
  by (simp add: file_view_def byte_at_def)

lemma div_unique: "0 < (cs :: nat) \<Longrightarrow> k * cs \<le> p \<Longrightarrow> p < (k + 1) * cs \<Longrightarrow> p div cs = k"
  by (metis Suc_eq_plus1 div_nat_eqI mult.commute)

lemma div_bounds: "0 < (cs :: nat) \<Longrightarrow> p div cs * cs \<le> p \<and> p < (p div cs + 1) * cs"
  by (metis Suc_eq_plus1 div_times_less_eq_dividend dividend_less_div_times mult_Suc add.commute)

text \<open>A chunk that is still to be loaded covers exactly the positions with its index.\<close>

lemma in_pending_chunk:
  assumes "fs_inv cs rows D K st" "fs_mat st" "0 < cs" "k < length (fs_base st)" "k \<notin> fs_loaded st"
  shows "in_chunk (fs_base st) k p \<longleftrightarrow> p div cs = k \<and> p < fs_size st"
    "chunk_end (fs_base st) k \<le> fs_size st" "p div cs = k \<Longrightarrow> p < fs_size st \<Longrightarrow> p < chunk_end (fs_base st) k"
proof -
  note I = fs_invD [OF assms(1,2)]
  have b: "fs_base st ! k = (k * cs, c_len (rows ! k), c_sha (rows ! k))"
    using I(1,2) assms(4) by (simp add: base_of_def)
  have e: "k * cs + c_len (rows ! k) = min ((k + 1) * cs) (fs_size st)" using I(4) assms(4,5) by blast
  show "in_chunk (fs_base st) k p \<longleftrightarrow> p div cs = k \<and> p < fs_size st"
    using div_unique [OF assms(3), of k p] div_bounds [OF assms(3), of p] e
    by (auto simp: in_chunk_def b)
  show "chunk_end (fs_base st) k \<le> fs_size st" using e by (simp add: chunk_end_def b)
  show "p div cs = k \<Longrightarrow> p < fs_size st \<Longrightarrow> p < chunk_end (fs_base st) k"
    using div_bounds [OF assms(3), of p] e by (auto simp: chunk_end_def b)
qed

lemma loads_inv:
  assumes inv: "fs_inv cs rows D K st" "fs_mat st" "0 < cs" and ld: "loads D ks st st'"
    and ks: "ks \<subseteq> {k. k < length (fs_base st) \<and> k \<notin> fs_loaded st}"
  shows "fs_inv cs rows D K st' \<and> file_view cs D st' = file_view cs D st"
proof -
  note I = fs_invD [OF inv(1,2)] and L = loadsD [OF ld]
  have chunk: "in_chunk (fs_base st) k p \<longleftrightarrow> p div cs = k \<and> p < fs_size st"
    "chunk_end (fs_base st) k \<le> fs_size st" "p div cs = k \<Longrightarrow> p < fs_size st \<Longrightarrow> p < chunk_end (fs_base st) k"
    if "k \<in> ks" for k p
    using in_pending_chunk [OF inv, of k] ks that by blast+
  have byte: "byte_at (temp st') p =
      (if p div cs \<in> ks \<and> p < fs_size st then byte_at D p else byte_at (temp st) p)" for p
    using L(11) [of p] chunk(1) by auto
  have pend: "pending_at cs st' p \<longleftrightarrow> pending_at cs st p \<and> p div cs \<notin> ks" for p
    by (auto simp: pending_at_def L)
  have sub: "pending_at cs st p" if "p div cs \<in> ks" for p
    using ks that by (auto simp: pending_at_def)
  have at: "view_at cs D st' p = view_at cs D st p" if "p < fs_size st" for p
    using byte sub that by (auto simp: view_at_def pend)
  then have view: "file_view cs D st' = file_view cs D st" by (simp add: file_view_def L)
  have "fs_inv cs rows D K st'"
  proof (rule fs_invI)
    show "fs_mat st'" by (simp add: L inv(2))
    show "length (temp st') \<le> fs_size st'"
      using L(14) [of "fs_size st"] I(7) chunk(2) by (simp add: L)
  next
    fix p assume p: "p < fs_size st'" "length (temp st') \<le> p"
    have "p div cs \<notin> ks"
    proof
      assume "p div cs \<in> ks"
      with p L(13) [OF this] chunk(3) [OF this, of p] show False by (simp add: L(5))
    qed
    with p L(12) I(8) [of p] show "pending_at cs st' p \<or> p div cs \<in> K" by (auto simp: pend L(5))
  next
    fix k p
    assume k: "k < length (fs_base st')" "k \<in> fs_loaded st'" "k \<notin> fs_dirty_idx st'" "k \<notin> K"
      "k * cs \<le> p" "p < k * cs + c_len (rows ! k)"
    then have e: "k * cs + c_len (rows ! k) \<le> min ((k + 1) * cs) (fs_size st)"
      using I(10) [of k] by (simp add: L)
    then have "p div cs = k" "p < fs_size st" using div_unique [OF inv(3), of k p] k(5,6) by linarith+
    show "byte_at (temp st') p = byte_at D p"
    proof (cases "k \<in> ks")
      case True
      with \<open>p div cs = k\<close> \<open>p < fs_size st\<close> show ?thesis by (simp add: byte)
    next
      case False
      with k I(6) [of k p] show ?thesis by (auto simp: byte L)
    qed
  qed (use I view ks in \<open>auto simp: L\<close>)
  with view show ?thesis by blast
qed

subsection \<open>The steps between the loads\<close>

text \<open>Marking chunks as loaded before their bytes are there (\<open>_prepare\<close> with \<open>overwrite\<close>).\<close>

lemma mark_inv:
  assumes inv: "fs_inv cs rows D {} st" "fs_mat st" and K: "K \<subseteq> {k. k < length (fs_base st)}"
  defines "st' \<equiv> st\<lparr>fs_loaded := fs_loaded st \<union> K\<rparr>"
  shows "fs_inv cs rows D K st'"
    "p div cs \<notin> K \<Longrightarrow> view_at cs D st' p = view_at cs D st p"
proof -
  note I = fs_invD [OF inv]
  show "fs_inv cs rows D K st'"
  proof (rule fs_invI)
    fix p assume "p < fs_size st'" "length (temp st') \<le> p"
    then show "pending_at cs st' p \<or> p div cs \<in> K" using I(8) [of p] by (auto simp: st'_def pending_at_def)
  next
    assume "\<not> fs_dirty st'" "K = {}"
    then show "file_view cs D st' = D" using I(9) by (simp add: st'_def)
  qed (use I inv(2) in \<open>auto simp: st'_def\<close>)
  show "p div cs \<notin> K \<Longrightarrow> view_at cs D st' p = view_at cs D st p"
    by (simp add: view_at_def pending_at_def st'_def)
qed

text \<open>Growing is possible when every chunk still to be loaded ends before the old size.\<close>

definition full_below :: "nat \<Rightarrow> filestate \<Rightarrow> bool" where
  "full_below cs st \<longleftrightarrow>
     (\<forall>k < length (fs_base st). k \<notin> fs_loaded st \<longrightarrow> (k + 1) * cs \<le> fs_size st)"

lemma full_below_pending:
  "full_below cs st \<Longrightarrow> 0 < cs \<Longrightarrow> fs_size st \<le> p \<Longrightarrow> \<not> pending_at cs st p"
  using div_bounds [of cs p] by (fastforce simp: full_below_def pending_at_def)

lemma full_below_cover:
  assumes "fs_inv cs rows D K st" "fs_mat st" "full_below cs st" "fs_size st \<le> n"
    "k < length (fs_base st)" "k \<notin> fs_loaded st"
  shows "k * cs + c_len (rows ! k) = min ((k + 1) * cs) n"
proof -
  have "(k + 1) * cs \<le> fs_size st" using assms(3,5,6) by (simp add: full_below_def)
  then show ?thesis using fs_invD(4) [OF assms(1,2,5,6)] assms(4) by simp
qed

lemma write_inv:
  assumes inv: "fs_inv cs rows D K st" "fs_mat st" "0 < cs" and d: "d \<noteq> []"
    and e: "e = offset + length d" and grown: "fs_size st < e \<longrightarrow> full_below cs st"
    and prep: "\<And>p. offset \<le> p \<Longrightarrow> p < e \<Longrightarrow> p < fs_size st \<Longrightarrow> \<not> pending_at cs st p"
    and K: "\<And>p. p div cs \<in> K \<Longrightarrow> p < fs_size st \<Longrightarrow> offset \<le> p \<and> p < e"
  defines "st' \<equiv> st\<lparr>fs_size := max (fs_size st) e,
      fs_file := f_write (f_seek (fs_file st) offset) d,
      fs_dirty_idx := fs_dirty_idx st \<union> {offset div cs..<(e - 1) div cs + 1}, fs_dirty := True\<rparr>"
  shows "fs_inv cs rows D {} st'"
    "p < fs_size st' \<Longrightarrow> view_at cs D st' p =
       (if offset \<le> p \<and> p < e then d ! (p - offset) else if p < fs_size st then view_at cs D st p else 0)"
proof -
  note I = fs_invD [OF inv(1,2)]
  have tmp: "temp st' = splice (temp st) offset d" using d by (simp add: st'_def f_write_seek_data)
  have byte: "byte_at (temp st') p = (if offset \<le> p \<and> p < e then d ! (p - offset) else byte_at (temp st) p)" for p
    unfolding tmp byte_at_splice e by simp
  have len: "length (temp st') = max (length (temp st)) e" unfolding tmp length_splice e by simp
  have pend: "pending_at cs st' p = pending_at cs st p" for p by (simp add: pending_at_def st'_def)
  have out: "\<not> pending_at cs st p" if "offset \<le> p" "p < e" for p
    using prep [OF that] full_below_pending [OF _ inv(3), of st p] grown that by (cases "p < fs_size st") auto
  have far: "\<not> pending_at cs st p" if "fs_size st \<le> p" "p < fs_size st'" for p
    using full_below_pending [OF _ inv(3), of st p] grown that by (auto simp: st'_def)
  have zero: "byte_at (temp st) p = 0" if "fs_size st \<le> p" for p
    using I(7) that by (simp add: byte_at_def)
  show at: "view_at cs D st' p =
      (if offset \<le> p \<and> p < e then d ! (p - offset) else if p < fs_size st then view_at cs D st p else 0)"
    if "p < fs_size st'" for p
    using out [of p] far [of p] zero [of p] that by (auto simp: view_at_def pend byte)
  have touched: "k \<in> fs_loaded st"
    if k: "k < length (fs_base st)" "k \<in> {offset div cs..<(e - 1) div cs + 1}" for k
  proof (rule ccontr)
    assume "k \<notin> fs_loaded st"
    define p where "p = max offset (k * cs)"
    have "k \<le> (e - 1) div cs" using k(2) by auto
    then have "k * cs \<le> (e - 1) div cs * cs" by (rule mult_le_mono1)
    also have "\<dots> \<le> e - 1" by simp
    finally have "k * cs \<le> e - 1" .
    moreover have "offset < e" using d e by simp
    ultimately have p: "offset \<le> p" "p < e" by (auto simp: p_def)
    have "offset < (offset div cs + 1) * cs" using div_bounds [OF inv(3)] by blast
    also have "\<dots> \<le> (k + 1) * cs" using k(2) by (intro mult_le_mono1) simp
    finally have "offset < (k + 1) * cs" .
    then have "p div cs = k" by (intro div_unique inv(3)) (simp_all add: p_def inv(3))
    with k(1) \<open>k \<notin> fs_loaded st\<close> have "pending_at cs st p" by (simp add: pending_at_def)
    with out [OF p] show False by blast
  qed
  show "fs_inv cs rows D {} st'"
  proof (rule fs_invI)
    fix k assume "k < length (fs_base st')" "k \<notin> fs_loaded st'"
    then show "k * cs + c_len (rows ! k) = min ((k + 1) * cs) (fs_size st')"
      using I(4) [of k] full_below_cover [OF inv(1,2), of e k] grown
      by (cases "fs_size st < e") (auto simp: st'_def max_def)
  next
    fix k assume "k < length (fs_base st')" "k \<in> fs_dirty_idx st'"
    then show "k \<in> fs_loaded st'" using I(5) [of k] touched [of k] by (auto simp: st'_def)
  next
    fix k p
    assume k: "k < length (fs_base st')" "k \<in> fs_loaded st'" "k \<notin> fs_dirty_idx st'"
      "k * cs \<le> p" "p < k * cs + c_len (rows ! k)"
    then have e: "k * cs + c_len (rows ! k) \<le> min ((k + 1) * cs) (fs_size st)"
      using I(10) [of k] by (simp add: st'_def)
    then have p: "p div cs = k" "p < fs_size st" using div_unique [OF inv(3), of k p] k(4,5) by linarith+
    have rng: "j div cs \<in> {offset div cs..<(e - 1) div cs + 1}" if "offset \<le> j" "j < e" for j
    proof -
      have "j \<le> e - 1" using that by simp
      then have "j div cs \<le> (e - 1) div cs" by (rule div_le_mono)
      with div_le_mono [OF that(1), of cs] show ?thesis by auto
    qed
    have "\<not> (offset \<le> p \<and> p < e)" using rng [of p] p(1) k(3) by (auto simp: st'_def)
    moreover have "k \<notin> K" using rng [of p] K [of p] p k(3) by (auto simp: st'_def)
    moreover have "k < length (fs_base st)" "k \<in> fs_loaded st" "k \<notin> fs_dirty_idx st"
      using k by (auto simp: st'_def)
    ultimately show "byte_at (temp st') p = byte_at D p"
      using I(6) [of k p] k(4,5) by (auto simp: byte)
  next
    have "fs_size st' = max (fs_size st) e" by (simp add: st'_def)
    with I(7) show "length (temp st') \<le> fs_size st'" unfolding len by linarith
  next
    fix p assume p: "p < fs_size st'" "length (temp st') \<le> p"
    moreover have "fs_size st' = max (fs_size st) e" by (simp add: st'_def)
    ultimately have "p < fs_size st" "length (temp st) \<le> p" "e \<le> p" unfolding len by linarith+
    with I(8) [of p] K [of p] show "pending_at cs st' p \<or> p div cs \<in> {}" by (auto simp: pend)
  next
    fix k assume "k < length (fs_base st')" "k \<notin> fs_dirty_idx st'"
    then show "k * cs + c_len (rows ! k) \<le> min ((k + 1) * cs) (fs_size st')"
      using I(10) [of k] by (simp add: st'_def le_max_iff_disj)
  next
    fix k assume k: "k < length (fs_base st')"
    show "c_off (rows ! k) = k * cs \<and> k * cs < fs_size st'"
      using I(2,3) [of k] k by (simp add: st'_def less_max_iff_disj)
  qed (use I(1) inv(2) in \<open>auto simp: st'_def\<close>)
qed

lemma trunc_grow_inv:
  assumes inv: "fs_inv cs rows D {} st" "fs_mat st" "0 < cs" and n: "fs_size st \<le> n"
    and grown: "fs_size st < n \<longrightarrow> full_below cs st"
  defines "st' \<equiv> st\<lparr>fs_size := n, fs_file := f_truncate (fs_file st) n, fs_dirty := True\<rparr>"
  shows "fs_inv cs rows D {} st'" "file_view cs D st' = resize n (file_view cs D st)"
proof -
  note I = fs_invD [OF inv(1,2)]
  have tmp: "temp st' = resize n (temp st)" by (simp add: st'_def)
  have zero: "byte_at (temp st) p = 0" if "fs_size st \<le> p" for p
    using I(7) that by (simp add: byte_at_def)
  have pend: "pending_at cs st' p = pending_at cs st p" for p by (simp add: pending_at_def st'_def)
  have far: "\<not> pending_at cs st p" if "fs_size st \<le> p" "p < n" for p
    using full_below_pending [OF _ inv(3), of st p] grown that by auto
  show "fs_inv cs rows D {} st'"
  proof (rule fs_invI)
    fix k assume "k < length (fs_base st')" "k \<notin> fs_loaded st'"
    then show "k * cs + c_len (rows ! k) = min ((k + 1) * cs) (fs_size st')"
      using I(4) [of k] full_below_cover [OF inv(1,2), of n k] grown n
      by (cases "fs_size st < n") (auto simp: st'_def)
  next
    fix k p
    assume k: "k < length (fs_base st')" "k \<in> fs_loaded st'" "k \<notin> fs_dirty_idx st'"
      "k * cs \<le> p" "p < k * cs + c_len (rows ! k)"
    then have "p < n" using I(10) [of k] n by (simp add: st'_def)
    moreover have "k < length (fs_base st)" "k \<in> fs_loaded st" "k \<notin> fs_dirty_idx st"
      using k by (simp_all add: st'_def)
    ultimately show "byte_at (temp st') p = byte_at D p"
      using I(6) [of k p] k(4,5) by (simp add: tmp byte_at_resize)
  next
    fix k assume "k < length (fs_base st')" "k \<notin> fs_dirty_idx st'"
    then show "k * cs + c_len (rows ! k) \<le> min ((k + 1) * cs) (fs_size st')"
      using I(10) [of k] n by (simp add: st'_def)
  qed (use I inv(2) n in \<open>auto simp: st'_def intro: less_le_trans\<close>)
  have m: "fs_mat st'" "fs_size st' = n" by (simp_all add: st'_def inv(2))
  show "file_view cs D st' = resize n (file_view cs D st)"
  proof (rule bytes_eqI)
    fix p assume "p < length (file_view cs D st')"
    then have "p < n" by (simp add: file_view_def st'_def inv(2))
    then show "byte_at (file_view cs D st') p = byte_at (resize n (file_view cs D st)) p"
      using far [of p] zero [of p] inv(2)
      by (simp add: byte_at_resize byte_at_view view_at_def pend tmp m)
  qed (simp add: file_view_def st'_def inv(2))
qed

definition ceil_div :: "nat \<Rightarrow> nat \<Rightarrow> nat" where
  "ceil_div n cs = (n + cs - 1) div cs"

lemma ceil_div_iff: "0 < cs \<Longrightarrow> k < ceil_div n cs \<longleftrightarrow> k * cs < n"
proof -
  assume cs: "0 < cs"
  have "k < ceil_div n cs \<longleftrightarrow> (k + 1) * cs \<le> n + cs - 1"
    unfolding ceil_div_def using less_eq_div_iff_mult_less_eq [OF cs, of "k + 1" "n + cs - 1"] by auto
  also have "\<dots> \<longleftrightarrow> k * cs < n" using cs by auto
  finally show ?thesis .
qed

lemma trunc_shrink_inv:
  assumes inv: "fs_inv cs rows D {} st" "fs_mat st" "0 < cs" and n: "n < fs_size st"
    and cut: "n mod cs \<noteq> 0 \<Longrightarrow> n div cs < length (fs_base st) \<Longrightarrow> n div cs \<in> fs_dirty_idx st"
  defines "keep \<equiv> ceil_div n cs"
  defines "st' \<equiv> st\<lparr>fs_base := take keep (fs_base st), fs_loaded := Set.filter (\<lambda>i. i < keep) (fs_loaded st),
      fs_dirty_idx := Set.filter (\<lambda>i. i < keep) (fs_dirty_idx st), fs_size := n,
      fs_file := f_truncate (fs_file st) n, fs_dirty := True\<rparr>"
  shows "fs_inv cs rows D {} st'" "file_view cs D st' = take n (file_view cs D st)"
proof -
  note I = fs_invD [OF inv(1,2)]
  have tmp: "temp st' = resize n (temp st)" by (simp add: st'_def)
  have keep: "k < keep \<longleftrightarrow> k * cs < n" for k using ceil_div_iff [OF inv(3)] by (simp add: keep_def)
  have kdiv: "p div cs < keep" if "p < n" for p
    using keep [of "p div cs"] div_bounds [OF inv(3), of p] that by linarith
  have pend: "pending_at cs st' p = pending_at cs st p" if "p < n" for p
    using kdiv [OF that] by (auto simp: pending_at_def st'_def)
  have full: "(k + 1) * cs \<le> n" if "k < keep" "k < length (fs_base st)" "k \<notin> fs_dirty_idx st" for k
  proof (rule ccontr)
    assume "\<not> (k + 1) * cs \<le> n"
    with that(1) keep have k: "n div cs = k" by (intro div_unique inv(3)) auto
    moreover have "n mod cs \<noteq> 0" using that(1) keep k by (metis add.right_neutral div_mult_mod_eq less_irrefl)
    ultimately show False using cut that(2,3) by simp
  qed
  show "fs_inv cs rows D {} st'"
  proof (rule fs_invI)
    fix k assume k: "k < length (fs_base st')" "k \<notin> fs_loaded st'"
    then have k': "k < keep" "k < length (fs_base st)" "k \<notin> fs_loaded st" by (auto simp: st'_def)
    then have "k \<notin> fs_dirty_idx st" using I(5) by blast
    with full [OF k'(1,2)] I(4) [OF k'(2,3)] n
    show "k * cs + c_len (rows ! k) = min ((k + 1) * cs) (fs_size st')"
      by (simp add: st'_def)
  next
    fix k assume k: "k < length (fs_base st')" "k \<notin> fs_dirty_idx st'"
    then have k': "k < keep" "k < length (fs_base st)" "k \<notin> fs_dirty_idx st" by (auto simp: st'_def)
    with full [OF k'] I(10) [OF k'(2,3)]
    show "k * cs + c_len (rows ! k) \<le> min ((k + 1) * cs) (fs_size st')"
      by (simp add: st'_def)
  next
    fix k p
    assume k: "k < length (fs_base st')" "k \<in> fs_loaded st'" "k \<notin> fs_dirty_idx st'"
      "k * cs \<le> p" "p < k * cs + c_len (rows ! k)"
    then have k': "k < keep" "k < length (fs_base st)" "k \<notin> fs_dirty_idx st" "k \<in> fs_loaded st"
      by (auto simp: st'_def)
    have "p < n" using full [OF k'(1,2,3)] I(10) [OF k'(2,3)] k(5) by simp
    with I(6) [OF k'(2,4,3) _ k(4,5)] show "byte_at (temp st') p = byte_at D p"
      by (simp add: tmp byte_at_resize)
  next
    fix k assume "k < length (fs_base st')"
    then have k: "k < length (fs_base st)" "k < keep" by (auto simp: st'_def)
    show "k < length rows \<and> fs_base st' ! k = base_of (rows ! k)" using I(1) [OF k(1)] k(2) by (simp add: st'_def)
    show "c_off (rows ! k) = k * cs \<and> k * cs < fs_size st'"
      using I(2) [OF k(1)] k(2) keep by (simp add: st'_def)
  qed (use I(5) inv(2) in \<open>auto simp: st'_def\<close>)
  have m: "fs_mat st'" "fs_size st' = n" by (simp_all add: st'_def inv(2))
  show "file_view cs D st' = take n (file_view cs D st)"
  proof (rule bytes_eqI)
    fix p assume "p < length (file_view cs D st')"
    then have p: "p < n" by (simp add: file_view_def st'_def inv(2))
    have "byte_at (take n (file_view cs D st)) p = byte_at (file_view cs D st) p"
      using p by (simp add: byte_at_def)
    then show "byte_at (file_view cs D st') p = byte_at (take n (file_view cs D st)) p"
      using p n inv(2)
      by (simp add: byte_at_view view_at_def pend tmp byte_at_resize m)
  qed (use n in \<open>simp add: file_view_def st'_def inv(2)\<close>)
qed

end
