(* ===== verification/WritebackSpec.thy ===== *)
theory WritebackSpec
  imports FileView
begin

section \<open>The operations on a file being written refine byte string operations\<close>

text \<open>
  A file state over a store is a byte string (\<open>wb_view\<close>). While \<open>file_ok\<close> holds, reading is a
  slice of it, writing a splice, truncating a resize, and flushing stores it.
\<close>

definition wb_view :: "('b \<Rightarrow> nat \<Rightarrow> bytes option) \<Rightarrow> 'b store \<Rightarrow> filestate \<Rightarrow> bytes" where
  "wb_view content s st = file_view (s_cs s) (sbytes content s (fs_ino st)) st"

definition rows_of :: "'b store \<Rightarrow> filestate \<Rightarrow> chunk list" where
  "rows_of s st = get_chunks (s_meta s) (fs_ino st)"

definition file_ok ::
    "(bytes \<Rightarrow> sha) \<Rightarrow> ('b \<Rightarrow> nat \<Rightarrow> bytes option) \<Rightarrow> ('b \<Rightarrow> bool) \<Rightarrow> 'b store \<Rightarrow> filestate \<Rightarrow> bool" where
  "file_ok hash content binv s st \<longleftrightarrow>
     store_ok hash content binv s \<and>
     fs_inv (s_cs s) (rows_of s st) (sbytes content s (fs_ino st)) {} st \<and>
     list_all (\<lambda>c. c_len c \<le> s_cs s) (rows_of s st) \<and>
     (\<forall>n. get_inode (s_meta s) (fs_ino st) = Some n \<longrightarrow> i_size n = length (sbytes content s (fs_ino st)))"

lemma rows_hold_end:
  "rows_hold hash o1 rows D \<Longrightarrow> rows \<noteq> [] \<Longrightarrow> c_off (last rows) + c_len (last rows) = o1 + length D"
proof (induction hash o1 rows D rule: rows_hold.induct)
  case (2 hash o1 c cs D)
  then show ?case by (cases cs) auto
qed simp

lemma rows_hold_cover:
  "rows_hold hash o1 rows D \<Longrightarrow> o1 \<le> p \<Longrightarrow> p < o1 + length D \<Longrightarrow>
     \<exists>k < length rows. c_off (rows ! k) \<le> p \<and> p < c_off (rows ! k) + c_len (rows ! k)"
proof (induction hash o1 rows D rule: rows_hold.induct)
  case (2 hash o1 c cs D)
  show ?case
  proof (cases "p < o1 + c_len c")
    case True
    with 2 show ?thesis by (intro exI [of _ 0]) auto
  next
    case False
    with 2 have "\<exists>k < length cs. c_off (cs ! k) \<le> p \<and> p < c_off (cs ! k) + c_len (cs ! k)" by auto
    then obtain k where "k < length cs" "c_off (cs ! k) \<le> p" "p < c_off (cs ! k) + c_len (cs ! k)" by blast
    then show ?thesis by (intro exI [of _ "Suc k"]) auto
  qed
qed simp

lemma aligned_iff: "aligned cs base \<longleftrightarrow>
    (\<forall>k < length base. fst (base ! k) = k * cs \<and> (fst (snd (base ! k)) = cs \<or> k + 1 = length base))"
  by (auto simp: aligned_def list_all_length nth_enumerate_eq split: prod.splits)
    (metis fst_conv snd_conv prod.collapse)+

text \<open>The invariant just after \<open>_materialize\<close> of an aligned file.\<close>

lemma aligned_inv:
  assumes rh: "rows_hold hash 0 rows D" and al: "aligned cs (map base_of rows)" and "0 < cs"
    and fit: "list_all (\<lambda>c. c_len c \<le> cs) rows"
    and st: "fs_base st = map base_of rows" "fs_loaded st = {}" "fs_dirty_idx st = {}" "fs_mat st"
      "fs_size st = length D" "length (temp st) \<le> length D"
  shows "fs_inv cs rows D {} st" "file_view cs D st = D"
proof -
  have off: "c_off (rows ! k) = k * cs" "k + 1 < length rows \<Longrightarrow> c_len (rows ! k) = cs" if "k < length rows" for k
    using al [unfolded aligned_iff, rule_format, of k] that by (auto simp: base_of_def)
  have len: "k * cs + c_len (rows ! k) = min ((k + 1) * cs) (length D)" if k: "k < length rows" for k
  proof (cases "k + 1 < length rows")
    case True
    with rows_hold_nth(2) [OF rh k] off [OF k] show ?thesis by simp
  next
    case False
    then have "k = length rows - 1" using k by simp
    moreover have "rows \<noteq> []" using k by auto
    ultimately have last: "rows ! k = last rows" "rows \<noteq> []" by (simp_all add: last_conv_nth)
    have "c_len (rows ! k) \<le> cs" using fit k by (simp add: list_all_length)
    with rows_hold_end [OF rh last(2)] off(1) [OF k] last(1) show ?thesis by simp
  qed
  have pend: "pending_at cs st p" if p: "p < length D" for p
  proof -
    obtain k where k: "k < length rows" "c_off (rows ! k) \<le> p" "p < c_off (rows ! k) + c_len (rows ! k)"
      using rows_hold_cover [OF rh, of p] p by auto
    then have "p div cs = k" using div_unique [OF assms(3), of k p] off(1) len by auto
    with k(1) show ?thesis by (simp add: pending_at_def st)
  qed
  show view: "file_view cs D st = D"
    by (rule bytes_eqI) (simp_all add: file_view_def st byte_at_def view_at_def pend)
  show "fs_inv cs rows D {} st"
  proof (rule fs_invI)
    fix k assume "k < length (fs_base st)"
    then have k: "k < length rows" by (simp add: st)
    show "c_off (rows ! k) = k * cs \<and> k * cs < fs_size st"
      using off(1) [OF k] rows_hold_nth(2,3) [OF rh k] by (simp add: st)
  qed (use view len pend in \<open>auto simp: st\<close>)
qed

text \<open>The invariant just after \<open>_materialize\<close> of a file in other chunks: all of it was copied.\<close>

lemma unaligned_inv:
  assumes rh: "rows_hold hash 0 rows D" "rows \<noteq> []" and ld: "loads D {k. k < length rows} st1 st2"
    and st1: "fs_base st1 = map base_of rows" "length (temp st1) \<le> length D" "fs_size st1 = length D"
    and st: "st = st2\<lparr>fs_dirty_idx := I, fs_base := [], fs_loaded := {}, fs_mat := True\<rparr>"
  shows "fs_inv cs rows D {} st" "file_view cs D st = D"
proof -
  note L = loadsD [OF ld]
  have chunk: "in_chunk (fs_base st1) k p \<longleftrightarrow> c_off (rows ! k) \<le> p \<and> p < c_off (rows ! k) + c_len (rows ! k)"
    "chunk_end (fs_base st1) k = c_off (rows ! k) + c_len (rows ! k)" if "k < length rows" for k p
    using that by (simp_all add: in_chunk_def chunk_end_def st1 base_of_def)
  have byte: "byte_at (temp st2) p = byte_at D p" if "p < length D" for p
    using L(11) [of p] rows_hold_cover [OF rh(1), of p] that chunk(1) by auto
  have le: "length (temp st2) \<le> length D"
    using L(14) [of "length D"] st1(2) chunk(2) rows_hold_nth(2) [OF rh(1)] by simp
  have "c_off (last rows) + c_len (last rows) \<le> length (temp st2)"
    using L(13) [of "length rows - 1"] chunk(2) [of "length rows - 1"] rh(2) by (simp add: last_conv_nth)
  then have ge: "length D \<le> length (temp st2)" using rows_hold_end [OF rh] by simp
  show view: "file_view cs D st = D"
  proof (rule bytes_eqI)
    have mat: "fs_mat st" "fs_size st = length D" "temp st = temp st2" by (simp_all add: st L st1)
    show "length (file_view cs D st) = length D" using mat by (simp add: file_view_def)
    fix p assume "p < length (file_view cs D st)"
    with mat byte [of p] show "byte_at (file_view cs D st) p = byte_at D p"
      by (simp add: length_file_view byte_at_view view_at_def pending_at_def st)
  qed
  show "fs_inv cs rows D {} st"
    by (rule fs_invI) (use le ge view in \<open>auto simp: st L st1\<close>)
qed

text \<open>The fields no load or materialisation touches.\<close>

definition same_file :: "filestate \<Rightarrow> filestate \<Rightarrow> bool" where
  "same_file st st' \<longleftrightarrow>
     fs_ino st' = fs_ino st \<and> fs_closed st' = fs_closed st \<and> fs_refcount st' = fs_refcount st \<and>
     fs_idle st' = fs_idle st"

context blob_backend
begin

abbreviation fok :: "'b store \<Rightarrow> filestate \<Rightarrow> bool" where
  "fok \<equiv> file_ok (sha256 E) content binv"

abbreviation vw :: "'b store \<Rightarrow> filestate \<Rightarrow> bytes" where
  "vw \<equiv> wb_view content"

abbreviation finv :: "nat set \<Rightarrow> 'b store \<Rightarrow> filestate \<Rightarrow> bool" where
  "finv K s st \<equiv> fs_inv (s_cs s) (rows_of s st) (sbytes content s (fs_ino st)) K st"

lemma fokD:
  assumes "fok s st"
  shows "store_ok (sha256 E) content binv s" "finv {} s st"
    "list_all (\<lambda>c. c_len c \<le> s_cs s) (rows_of s st)"
    "get_inode (s_meta s) (fs_ino st) = Some n \<Longrightarrow> i_size n = length (sbytes content s (fs_ino st))"
    "0 < s_cs s"
  using assms store_okD(3) by (auto simp: file_ok_def)

lemma reads_data:
  assumes "reads s s'"
  shows "s_meta s' = s_meta s" "s_cs s' = s_cs s" "sbytes content s' = sbytes content s"
    "store_ok (sha256 E) content binv s'"
  using assms same_data_bytes [of content s s'] by (auto simp: reads_def same_data_def)

lemma fok_reads: "reads s s' \<Longrightarrow> fok s st \<Longrightarrow> fok s' st"
  using reads_data [of s s'] by (simp add: file_ok_def rows_of_def)

lemma vw_reads: "reads s s' \<Longrightarrow> vw s' st = vw s st"
  using reads_data [of s s'] by (simp add: wb_view_def)

lemma reads_refl: "store_ok (sha256 E) content binv s \<Longrightarrow> reads s s"
  by (simp add: reads_def)

text \<open>A load in write mode changes nothing but where the bytes are.\<close>

lemma load_inv_ok:
  assumes ok: "store_ok (sha256 E) content binv s" and inj: "inj (sha256 E)"
    and inv: "finv K s st" "fs_mat st"
    and ld: "load E st s lo hi skip = (r, st', s')"
  shows "reads s s'" "finv K s' st'"
    "file_view (s_cs s) (sbytes content s (fs_ino st)) st' = file_view (s_cs s) (sbytes content s (fs_ino st)) st"
    "\<exists>ks. loads (sbytes content s (fs_ino st)) ks st st' \<and>
       (r = Inr () \<longrightarrow> ks = {k. lo \<le> k \<and> k < hi \<and> k < length (fs_base st) \<and> k \<notin> fs_loaded st \<and> k \<notin> skip})"
proof -
  have base: "k < length (fs_base st) \<Longrightarrow> k < length (rows_of s st) \<and> fs_base st ! k = base_of (rows_of s st ! k)" for k
    using fs_invD(1) [OF inv] by blast
  note L = load_ok [OF ok inj rows_of_def refl base ld]
  then obtain ks where ks: "ks \<subseteq> {k. lo \<le> k \<and> k < hi \<and> k < length (fs_base st) \<and> k \<notin> fs_loaded st \<and> k \<notin> skip}"
      "loads (sbytes content s (fs_ino st)) ks st st'"
      "r = Inr () \<longrightarrow> ks = {k. lo \<le> k \<and> k < hi \<and> k < length (fs_base st) \<and> k \<notin> fs_loaded st \<and> k \<notin> skip}"
    by blast
  have "fs_inv (s_cs s) (rows_of s st) (sbytes content s (fs_ino st)) K st' \<and>
      file_view (s_cs s) (sbytes content s (fs_ino st)) st' = file_view (s_cs s) (sbytes content s (fs_ino st)) st"
    by (rule loads_inv [OF inv store_okD(3) [OF ok] ks(2)]) (use ks(1) in auto)
  with L(1) ks loadsD(2) [OF ks(2)] reads_data [OF L(1)]
  show "reads s s'" "finv K s' st'"
    "file_view (s_cs s) (sbytes content s (fs_ino st)) st' = file_view (s_cs s) (sbytes content s (fs_ino st)) st"
    "\<exists>ks. loads (sbytes content s (fs_ino st)) ks st st' \<and>
       (r = Inr () \<longrightarrow> ks = {k. lo \<le> k \<and> k < hi \<and> k < length (fs_base st) \<and> k \<notin> fs_loaded st \<and> k \<notin> skip})"
    by (auto simp: rows_of_def)
qed

lemma materialize_ok:
  assumes fok: "fok s st" and inj: "inj (sha256 E)" and mt: "materialize E st s = (r, st', s')"
  shows "reads s s'" "fok s' st'" "vw s' st' = vw s st" "r = Inr () \<Longrightarrow> fs_mat st'" "same_file st st'"
    "fs_dirty st' = fs_dirty st"
proof -
  note F = fokD [OF fok]
  have "reads s s' \<and> fok s' st' \<and> vw s' st' = vw s st \<and> (r = Inr () \<longrightarrow> fs_mat st') \<and> same_file st st' \<and>
      fs_dirty st' = fs_dirty st"
  proof (cases "fs_mat st \<or> get_inode (s_meta s) (fs_ino st) = None")
    case True
    with mt fok F(1) show ?thesis
      by (auto simp: materialize_def reads_refl same_file_def Let_def split: if_splits)
  next
    case False
    then obtain n where nm: "\<not> fs_mat st" and n: "get_inode (s_meta s) (fs_ino st) = Some n" by blast
    let ?rows = "rows_of s st" and ?D = "sbytes content s (fs_ino st)"
    have sz: "i_size n = length ?D" using F(4) n by blast
    have tmp: "length (temp st) \<le> length ?D" "\<not> fs_dirty st" using F(2) nm by (simp_all add: fs_inv_def)
    have rh: "rows_hold (sha256 E) 0 ?rows ?D" using store_okD(5) [OF F(1)] by (simp add: rows_of_def)
    define st1 where "st1 = st\<lparr>fs_size := i_size n, fs_base := map base_of ?rows, fs_loaded := {},
        fs_dirty_idx := {}\<rparr>"
    have v0: "vw s st = ?D" using nm by (simp add: wb_view_def file_view_def)
    show ?thesis
    proof (cases "aligned (s_cs s) (fs_base st1)")
      case True
      then have res: "r = Inr ()" "st' = st1\<lparr>fs_mat := True\<rparr>" "s' = s"
        using mt nm n by (auto simp: materialize_def Let_def st1_def rows_of_def)
      have "fs_inv (s_cs s) ?rows ?D {} st' \<and> file_view (s_cs s) ?D st' = ?D"
        using aligned_inv [OF rh _ F(5,3), of st'] True tmp sz by (simp add: res st1_def)
      then show ?thesis
        using F v0 by (simp add: res file_ok_def reads_refl wb_view_def same_file_def st1_def rows_of_def)
    next
      case False
      have ne: "?rows \<noteq> []" using False by (auto simp: st1_def aligned_iff)
      obtain q st2 s2 where ld: "load E st1 s 0 (length (fs_base st1)) {} = (q, st2, s2)" by (metis prod_cases3)
      have base: "k < length (fs_base st1) \<Longrightarrow> k < length ?rows \<and> fs_base st1 ! k = base_of (?rows ! k)" for k
        by (simp add: st1_def)
      note L = load_ok [OF F(1) inj rows_of_def refl base ld]
      then obtain ks where ks: "ks \<subseteq> {k. k < length ?rows}" "loads ?D ks st1 st2"
          "q = Inr () \<longrightarrow> ks = {k. k < length ?rows}"
        by (auto simp: st1_def)
      note LD = loadsD [OF ks(2)]
      show ?thesis
      proof (cases q)
        case (Inl e)
        then have res: "r = Inl e" "st' = st2" "s' = s2"
          using mt nm n False ld by (auto simp: materialize_def Let_def st1_def rows_of_def)
        have "chunk_end (fs_base st1) k \<le> length ?D" if "k \<in> ks" for k
          using rows_hold_nth(2) [OF rh, of k] ks(1) that by (auto simp: chunk_end_def st1_def base_of_def)
        then have "length (temp st2) \<le> length ?D" using LD(14) [of "length ?D"] tmp(1) by (simp add: st1_def)
        then show ?thesis
          using L(1) F(3,4) v0 LD nm tmp(2) reads_data [OF L(1)]
          by (simp add: res file_ok_def wb_view_def file_view_def fs_inv_def same_file_def st1_def rows_of_def)
      next
        case (Inr u)
        then have res: "r = Inr ()" "s' = s2"
            "st' = st2\<lparr>fs_dirty_idx := {0..<length (fs_base st2)}, fs_base := [], fs_loaded := {}, fs_mat := True\<rparr>"
          using mt nm n False ld by (auto simp: materialize_def Let_def st1_def rows_of_def)
        have "fs_inv (s_cs s) ?rows ?D {} st' \<and> file_view (s_cs s) ?D st' = ?D"
          using unaligned_inv [OF rh ne _ _ _ _ res(3)] ks Inr tmp(1) sz by (simp add: st1_def)
        then show ?thesis
          using L(1) F(3,4) v0 LD reads_data [OF L(1)]
          by (simp add: res file_ok_def wb_view_def same_file_def st1_def rows_of_def)
      qed
    qed
  qed
  then show "reads s s'" "fok s' st'" "vw s' st' = vw s st" "r = Inr () \<Longrightarrow> fs_mat st'" "same_file st st'"
    "fs_dirty st' = fs_dirty st" by blast+
qed

subsection \<open>Reading\<close>

lemma prepare_read_ok:
  assumes ok: "store_ok (sha256 E) content binv s" and inj: "inj (sha256 E)"
    and inv: "finv {} s st" "fs_mat st"
    and pr: "prepare E st s a e False = (r, st', s')"
  shows "reads s s'" "finv {} s' st'"
    "file_view (s_cs s) (sbytes content s (fs_ino st)) st' = file_view (s_cs s) (sbytes content s (fs_ino st)) st"
    "\<exists>ks. loads (sbytes content s (fs_ino st)) ks st st'"
    "r = Inr () \<Longrightarrow> a \<le> p \<Longrightarrow> p < e \<Longrightarrow> p < fs_size st \<Longrightarrow> \<not> pending_at (s_cs s) st' p"
proof -
  let ?e = "min e (fs_size st)" and ?cs = "s_cs s"
  have "reads s s' \<and> finv {} s' st' \<and>
    file_view ?cs (sbytes content s (fs_ino st)) st' = file_view ?cs (sbytes content s (fs_ino st)) st \<and>
    (\<exists>ks. loads (sbytes content s (fs_ino st)) ks st st') \<and>
    (r = Inr () \<longrightarrow> a \<le> p \<longrightarrow> p < e \<longrightarrow> p < fs_size st \<longrightarrow> \<not> pending_at ?cs st' p)"
  proof (cases "?e \<le> a \<or> fs_base st = []")
    case True
    then have "r = Inr ()" "st' = st" "s' = s" using pr by (auto simp: prepare_def Let_def)
    with True inv(1) ok show ?thesis
      by (auto simp: reads_refl pending_at_def intro: exI [of _ "{}"])
  next
    case False
    let ?lo = "a div ?cs" and ?hi = "(?e - 1) div ?cs + 1"
    have ld: "load E st s ?lo ?hi {} = (r, st', s')" using pr False by (auto simp: prepare_def Let_def)
    note L = load_inv_ok [OF ok inj inv ld]
    then obtain ks where ks: "loads (sbytes content s (fs_ino st)) ks st st'"
      "r = Inr () \<longrightarrow> ks = {k. ?lo \<le> k \<and> k < ?hi \<and> k < length (fs_base st) \<and> k \<notin> fs_loaded st \<and> k \<notin> {}}"
      by blast
    have "\<not> pending_at ?cs st' p" if "r = Inr ()" "a \<le> p" "p < e" "p < fs_size st"
    proof -
      have "p \<le> ?e - 1" using that by simp
      then have "p div ?cs \<le> (?e - 1) div ?cs" "?lo \<le> p div ?cs" using that(2) by (simp_all add: div_le_mono)
      with ks(2) that(1) show ?thesis by (auto simp: pending_at_def loadsD [OF ks(1)])
    qed
    with L(1,2,3) ks(1) show ?thesis by blast
  qed
  then show "reads s s'" "finv {} s' st'"
    "file_view (s_cs s) (sbytes content s (fs_ino st)) st' = file_view (s_cs s) (sbytes content s (fs_ino st)) st"
    "\<exists>ks. loads (sbytes content s (fs_ino st)) ks st st'"
    "r = Inr () \<Longrightarrow> a \<le> p \<Longrightarrow> p < e \<Longrightarrow> p < fs_size st \<Longrightarrow> \<not> pending_at (s_cs s) st' p" by blast+
qed

lemma file_pos:
  "pending_at cs (st\<lparr>fs_file := (fs_file st)\<lparr>f_pos := q\<rparr>\<rparr>) = pending_at cs st"
  "view_at cs D (st\<lparr>fs_file := (fs_file st)\<lparr>f_pos := q\<rparr>\<rparr>) = view_at cs D st"
  "file_view cs D (st\<lparr>fs_file := (fs_file st)\<lparr>f_pos := q\<rparr>\<rparr>) = file_view cs D st"
  "fs_inv cs rows D K (st\<lparr>fs_file := (fs_file st)\<lparr>f_pos := q\<rparr>\<rparr>) = fs_inv cs rows D K st"
proof -
  let ?st = "st\<lparr>fs_file := (fs_file st)\<lparr>f_pos := q\<rparr>\<rparr>"
  show p: "pending_at cs ?st = pending_at cs st" by (simp add: pending_at_def fun_eq_iff)
  show v: "view_at cs D ?st = view_at cs D st" by (simp add: view_at_def p fun_eq_iff)
  show f: "file_view cs D ?st = file_view cs D st" by (simp add: file_view_def v)
  show "fs_inv cs rows D K ?st = fs_inv cs rows D K st" unfolding fs_inv_def p f by simp
qed

lemma dirty_idx_view:
  "pending_at cs (st\<lparr>fs_dirty_idx := dd\<rparr>) = pending_at cs st"
  "view_at cs D (st\<lparr>fs_dirty_idx := dd\<rparr>) = view_at cs D st"
  "file_view cs D (st\<lparr>fs_dirty_idx := dd\<rparr>) = file_view cs D st"
proof -
  show p: "pending_at cs (st\<lparr>fs_dirty_idx := dd\<rparr>) = pending_at cs st" by (simp add: pending_at_def fun_eq_iff)
  show v: "view_at cs D (st\<lparr>fs_dirty_idx := dd\<rparr>) = view_at cs D st" by (simp add: view_at_def p fun_eq_iff)
  show "file_view cs D (st\<lparr>fs_dirty_idx := dd\<rparr>) = file_view cs D st" by (simp add: file_view_def v)
qed

lemma wb_read_ok:
  assumes fok: "fok s st" and inj: "inj (sha256 E)" and rd: "wb_read E st s n a = (r, st', s')"
  shows "reads s s'" "fok s' st'" "vw s' st' = vw s st" "same_file st st'" "fs_dirty st' = fs_dirty st"
    "r = Inr out \<Longrightarrow> out = slice (vw s st) a (a + n)"
proof -
  note F = fokD [OF fok]
  let ?D = "sbytes content s (fs_ino st)" and ?cs = "s_cs s"
  have "reads s s' \<and> fok s' st' \<and> vw s' st' = vw s st \<and> same_file st st' \<and> fs_dirty st' = fs_dirty st \<and>
      (r = Inr out \<longrightarrow> out = slice (vw s st) a (a + n))"
  proof (cases "fs_mat st")
    case False
    obtain q s1 where rr: "read_range E s (fs_ino st) a n = (q, s1)" by force
    note R = read_range_ok [OF F(1) inj rr]
    have "r = q" "st' = st" "s' = s1" using rd rr False by (simp_all add: wb_read_def)
    then show ?thesis
      using R fok_reads [OF R(1) fok] vw_reads [OF R(1), of st] False
      by (simp add: same_file_def) (simp add: wb_view_def file_view_def)
  next
    case True
    let ?e = "min (a + n) (fs_size st)"
    have len: "length (vw s st) = fs_size st" using True by (simp add: wb_view_def length_file_view)
    show ?thesis
    proof (cases "?e \<le> a")
      case small: True
      then have "r = Inr []" "st' = st" "s' = s" using rd True by (simp_all add: wb_read_def Let_def)
      moreover have "slice (vw s st) a (a + n) = []"
        using small len by (cases "n = 0") (auto simp: slice_def)
      ultimately show ?thesis using fok F(1) by (auto simp: reads_refl same_file_def)
    next
      case big: False
      obtain q st1 s1 where pr: "prepare E st s a ?e False = (q, st1, s1)" by (metis prod_cases3)
      note P = prepare_read_ok [OF F(1) inj F(2) True pr]
      then obtain ks where "loads ?D ks st st1" by blast
      note L = loadsD [OF this]
      have fok1: "fok s1 st1" using P(2) fokD [OF fok] reads_data [OF P(1)] L(2)
        by (simp add: file_ok_def rows_of_def)
      have vw1: "vw s1 st1 = vw s st" using P(3) reads_data [OF P(1)] L(2) by (simp add: wb_view_def)
      have same1: "same_file st st1" "fs_dirty st1 = fs_dirty st" using L by (simp_all add: same_file_def)
      show ?thesis
      proof (cases "\<exists>e. q = Inl e \<or> fs_closed st1")
        case True
        then have "\<exists>e. r = Inl e" "st' = st1" "s' = s1"
          using rd \<open>fs_mat st\<close> big pr by (auto simp: wb_read_def Let_def split: sum.splits)
        with P(1) fok1 vw1 same1 show ?thesis by auto
      next
        case False
        then have q: "q = Inr ()" by (cases q) auto
        define f where "f = f_seek (fs_file st1) a"
        have res: "r = Inr (slice (temp st1) a ?e)" "s' = s1"
            "\<exists>p. st' = st1\<lparr>fs_file := (fs_file st1)\<lparr>f_pos := p\<rparr>\<rparr>"
          using rd \<open>fs_mat st\<close> big pr q False
          by (auto simp: wb_read_def Let_def f_read_def f_seek_def)
        then obtain p where st': "st' = st1\<lparr>fs_file := (fs_file st1)\<lparr>f_pos := p\<rparr>\<rparr>" by blast
        have m1: "fs_mat st1" "fs_size st1 = fs_size st" using L True by simp_all
        have clear: "\<not> pending_at ?cs st1 j" if "a \<le> j" "j < ?e" for j
          using P(5) [OF q, of j] that by simp
        have I1: "finv {} s1 st1" by (rule P(2))
        have at: "byte_at (temp st1) j = byte_at (vw s st) j" if "a \<le> j" "j < ?e" for j
          using clear [OF that] that m1 reads_data(2,3) [OF P(1)] L(2) arg_cong [OF vw1, of "\<lambda>v. byte_at v j"]
          by (simp add: wb_view_def byte_at_view [OF m1(1)] view_at_def)
        have long: "?e \<le> length (temp st1)"
        proof (rule ccontr)
          assume "\<not> ?e \<le> length (temp st1)"
          then have "length (temp st1) \<le> ?e - 1" "a \<le> ?e - 1" "?e - 1 < ?e" using big by auto
          with clear [of "?e - 1"] fs_invD(8) [OF I1 m1(1), of "?e - 1"] m1(2) reads_data(2) [OF P(1)]
          show False by auto
        qed
        have "slice (temp st1) a ?e = slice (vw s st) a ?e"
        proof (rule bytes_eqI)
          show "length (slice (temp st1) a ?e) = length (slice (vw s st) a ?e)" using long len by auto
          fix j assume "j < length (slice (temp st1) a ?e)"
          then have "j < ?e - a" "a + j < ?e" by auto
          with at [of "a + j"] show "byte_at (slice (temp st1) a ?e) j = byte_at (slice (vw s st) a ?e) j"
            by (simp add: byte_at_slice)
        qed
        also have "\<dots> = slice (vw s st) a (a + n)" using slice_min [of "vw s st" a "a + n"] len by simp
        finally have out: "slice (temp st1) a ?e = slice (vw s st) a (a + n)" .
        have "fok s1 st'" using fok1 by (simp add: file_ok_def st' rows_of_def file_pos)
        moreover have "vw s1 st' = vw s1 st1" by (simp add: wb_view_def st' file_pos)
        ultimately show ?thesis
          using P(1) vw1 same1 out res(1,2) by (auto simp: st' same_file_def)
      qed
    qed
  qed
  then show "reads s s'" "fok s' st'" "vw s' st' = vw s st" "same_file st st'" "fs_dirty st' = fs_dirty st"
    "r = Inr out \<Longrightarrow> out = slice (vw s st) a (a + n)" by blast+
qed

subsection \<open>Writing\<close>

text \<open>
  \<open>_grow\<close>: the state it leaves is one with the old size in which every chunk still to be
  loaded ends below that size, with the size then moved.
\<close>

lemma grow_ok:
  assumes ok: "store_ok (sha256 E) content binv s" and inj: "inj (sha256 E)"
    and inv: "finv K s st" "fs_mat st"
    and gr: "grow E st s n = (r, st', s')"
  obtains ks dd sg where "reads s s'" "finv K s' (sg\<lparr>fs_dirty_idx := dd\<rparr>)"
    "loads (sbytes content s (fs_ino st)) ks st sg"
    "\<And>p. p < fs_size st \<Longrightarrow> view_at (s_cs s) (sbytes content s (fs_ino st)) sg p =
       view_at (s_cs s) (sbytes content s (fs_ino st)) st p"
    "r = Inr () \<Longrightarrow> st' = sg\<lparr>fs_dirty_idx := dd, fs_size := max (fs_size st) n\<rparr>"
    "r = Inr () \<Longrightarrow> fs_size st < n \<Longrightarrow> full_below (s_cs s) (sg\<lparr>fs_dirty_idx := dd\<rparr>)"
    "r \<noteq> Inr () \<Longrightarrow> st' = sg \<and> dd = fs_dirty_idx st"
proof -
  let ?D = "sbytes content s (fs_ino st)" and ?cs = "s_cs s" and ?b = "length (fs_base st) - 1"
  note I = fs_invD [OF inv] and cs = store_okD(3) [OF ok]
  have old: "st\<lparr>fs_dirty_idx := fs_dirty_idx st\<rparr> = st" by simp
  show thesis
  proof (cases "n \<le> fs_size st")
    case True
    then have "r = Inr ()" "st' = st" "s' = s" using gr by (simp_all add: grow_def)
    with True inv(1) ok show thesis by (intro that [where ks = "{}" and dd = "fs_dirty_idx st" and sg = st]) (simp_all add: reads_refl)
  next
    case False
    let ?tail = "fs_base st \<noteq> [] \<and> fs_size st mod ?cs \<noteq> 0 \<and> length (fs_base st) = fs_size st div ?cs + 1"
    show thesis
    proof (cases ?tail)
      case notail: False
      then have res: "r = Inr ()" "st' = st\<lparr>fs_size := n\<rparr>" "s' = s" using gr False by (auto simp: grow_def Let_def)
      have "full_below ?cs st"
        unfolding full_below_def
      proof (intro allI impI)
        fix k assume k: "k < length (fs_base st)" "k \<notin> fs_loaded st"
        show "(k + 1) * ?cs \<le> fs_size st"
        proof (rule ccontr)
          assume "\<not> (k + 1) * ?cs \<le> fs_size st"
          then have kd: "fs_size st div ?cs = k" "k * ?cs < fs_size st"
            using I(3) [OF k(1)] div_unique [OF cs, of k "fs_size st"] by auto
          then have "fs_size st mod ?cs \<noteq> 0" by (metis add.right_neutral div_mult_mod_eq less_irrefl)
          moreover have "length (fs_base st) = k + 1"
          proof (rule ccontr)
            assume "length (fs_base st) \<noteq> k + 1"
            then have "k + 1 < length (fs_base st)" using k(1) by simp
            with I(3) [OF this] \<open>\<not> (k + 1) * ?cs \<le> fs_size st\<close> show False by simp
          qed
          ultimately show False using notail k(1) kd(1) by auto
        qed
      qed
      with res inv(1) ok False show thesis
        by (intro that [where ks = "{}" and dd = "fs_dirty_idx st" and sg = st]) (simp_all add: reads_refl)
    next
      case tail: True
      obtain q st1 s1 where ld: "load E st s ?b (?b + 1) {} = (q, st1, s1)" by (metis prod_cases3)
      note L = load_inv_ok [OF ok inj inv ld]
      then obtain ks where ks: "loads ?D ks st st1"
        "q = Inr () \<longrightarrow> ks = {k. ?b \<le> k \<and> k < ?b + 1 \<and> k < length (fs_base st) \<and> k \<notin> fs_loaded st \<and> k \<notin> {}}"
        by blast
      note LD = loadsD [OF ks(1)]
      have mat1: "fs_mat st1" by (simp add: LD inv(2))
      have view: "view_at ?cs ?D st1 p = view_at ?cs ?D st p" if "p < fs_size st" for p
        using arg_cong [OF L(3), of "\<lambda>v. byte_at v p"] that inv(2) by (simp add: byte_at_view LD)
      have s1: "s_cs s1 = s_cs s" "sbytes content s1 = sbytes content s" "rows_of s1 st1 = rows_of s st1"
        using reads_data [OF L(1)] by (simp_all add: rows_of_def)
      show thesis
      proof (cases q)
        case (Inl e)
        then have "r = Inl e" "st' = st1" "s' = s1" using gr False tail ld by (auto simp: grow_def Let_def)
        with L(1,2) ks(1) view show thesis
          by (intro that [where ks = ks and dd = "fs_dirty_idx st" and sg = st1]) (simp_all flip: LD(7))
      next
        case (Inr u)
        then have res: "r = Inr ()" "s' = s1"
            "st' = st1\<lparr>fs_dirty_idx := insert ?b (fs_dirty_idx st1), fs_size := n\<rparr>"
          using gr False tail ld by (auto simp: grow_def Let_def)
        let ?st1 = "st1\<lparr>fs_dirty_idx := insert ?b (fs_dirty_idx st)\<rparr>"
        have bl: "?b \<in> fs_loaded st1" using ks(2) Inr tail LD(8) by auto
        note J = fs_invD [OF L(2) mat1]
        have "fs_inv (s_cs s1) (rows_of s1 st1) (sbytes content s1 (fs_ino st1)) K ?st1"
        proof (rule fs_invI)
          show "\<not> fs_dirty ?st1 \<Longrightarrow> K = {} \<Longrightarrow> file_view (s_cs s1) (sbytes content s1 (fs_ino st1)) ?st1 =
              sbytes content s1 (fs_ino st1)"
            using J(9) by (simp add: dirty_idx_view)
        next
          fix p assume "p < fs_size ?st1" "length (temp ?st1) \<le> p"
          then show "pending_at (s_cs s1) ?st1 p \<or> p div s_cs s1 \<in> K" using J(8) [of p] by (simp add: pending_at_def)
        qed (use J bl mat1 LD(7) in \<open>auto\<close>)
        then have "finv K s1 ?st1" by (simp add: rows_of_def)
        moreover have "full_below ?cs ?st1"
          unfolding full_below_def
        proof (intro allI impI)
          fix k assume k: "k < length (fs_base ?st1)" "k \<notin> fs_loaded ?st1"
          then have "k \<noteq> ?b" using bl by auto
          with k(1) have "k + 1 \<le> ?b" by (simp add: LD)
          then have "(k + 1) * ?cs \<le> ?b * ?cs" by (rule mult_le_mono1)
          also have "\<dots> \<le> fs_size st" using I(3) [of ?b] tail by simp
          finally show "(k + 1) * ?cs \<le> fs_size ?st1" by (simp add: LD)
        qed
        ultimately show thesis
          using L(1) ks(1) view res False
          by (intro that [where ks = ks and dd = "insert ?b (fs_dirty_idx st)" and sg = st1]) (simp_all add: LD(7))
      qed
    qed
  qed
qed

lemma prepare_write_ok:
  assumes ok: "store_ok (sha256 E) content binv s" and inj: "inj (sha256 E)"
    and inv: "finv {} s st" "fs_mat st"
    and pr: "prepare E st s a e True = (r, st', s')"
  obtains K ks where "reads s s'" "finv K s' st'"
    "loads (sbytes content s (fs_ino st)) ks (st\<lparr>fs_loaded := fs_loaded st \<union> K\<rparr>) st'"
    "\<And>p. p < fs_size st \<Longrightarrow> \<not> (a \<le> p \<and> p < e) \<Longrightarrow>
       view_at (s_cs s) (sbytes content s (fs_ino st)) st' p = view_at (s_cs s) (sbytes content s (fs_ino st)) st p"
    "\<And>p. r = Inr () \<Longrightarrow> a \<le> p \<Longrightarrow> p < e \<Longrightarrow> p < fs_size st \<Longrightarrow> \<not> pending_at (s_cs s) st' p"
    "\<And>p. p div s_cs s \<in> K \<Longrightarrow> p < fs_size st \<Longrightarrow> a \<le> p \<and> p < e"
proof -
  let ?e = "min e (fs_size st)" and ?cs = "s_cs s" and ?D = "sbytes content s (fs_ino st)"
  note I = fs_invD [OF inv] and cs = store_okD(3) [OF ok]
  have none: "st\<lparr>fs_loaded := fs_loaded st \<union> {}\<rparr> = st" by simp
  show thesis
  proof (cases "?e \<le> a \<or> fs_base st = []")
    case True
    then have "r = Inr ()" "st' = st" "s' = s" using pr by (auto simp: prepare_def Let_def)
    with True inv(1) ok show thesis
      by (intro that [where K = "{}" and ks = "{}"]) (auto simp: reads_refl pending_at_def none)
  next
    case False
    let ?lo = "a div ?cs" and ?hi = "(?e - 1) div ?cs + 1"
    define skip where "skip = set (filter (\<lambda>i. case fs_base st ! i of (off, len, _) \<Rightarrow> a \<le> off \<and> off + len \<le> ?e)
        [?lo..<min ?hi (length (fs_base st))])"
    define K where "K = {k \<in> skip. k \<notin> fs_loaded st}"
    have un: "fs_loaded st \<union> skip = fs_loaded st \<union> K" by (auto simp: K_def)
    let ?st = "st\<lparr>fs_loaded := fs_loaded st \<union> K\<rparr>"
    have ld: "load E ?st s ?lo ?hi skip = (r, st', s')"
    proof -
      have "prepare E st s a e True = load E (st\<lparr>fs_loaded := fs_loaded st \<union> skip\<rparr>) s ?lo ?hi skip"
        unfolding prepare_def Let_def skip_def if_True by (rule if_not_P [OF False])
      with pr show ?thesis by (simp only: un)
    qed
    have Kb: "K \<subseteq> {k. k < length (fs_base st)}" by (auto simp: K_def skip_def)
    note M = mark_inv [OF inv Kb]
    have mat: "fs_mat ?st" using inv(2) by simp
    have inv1: "finv K s ?st" using M(1) by (simp add: rows_of_def)
    note L = load_inv_ok [OF ok inj inv1 mat ld]
    then obtain ks where ks: "loads ?D ks ?st st'"
      "r = Inr () \<longrightarrow> ks = {k. ?lo \<le> k \<and> k < ?hi \<and> k < length (fs_base ?st) \<and> k \<notin> fs_loaded ?st \<and> k \<notin> skip}"
      by auto
    note LD = loadsD [OF ks(1)]
    have Kin: "a \<le> p \<and> p < e" if p: "p div ?cs \<in> K" "p < fs_size st" for p
    proof -
      let ?k = "p div ?cs"
      have k: "?k < length (fs_base st)" "?k \<notin> fs_loaded st" using p(1) Kb by (auto simp: K_def)
      have b: "fs_base st ! ?k = (?k * ?cs, c_len (rows_of s st ! ?k), c_sha (rows_of s st ! ?k))"
        using I(1,2) [OF k(1)] by (simp add: base_of_def)
      have "a \<le> ?k * ?cs" "?k * ?cs + c_len (rows_of s st ! ?k) \<le> ?e"
        using p(1) b by (auto simp: K_def skip_def)
      moreover have "?k * ?cs \<le> p" "p < (?k + 1) * ?cs" using div_bounds [OF cs, of p] by blast+
      ultimately show ?thesis using I(4) [OF k] p(2) by linarith
    qed
    have view: "view_at ?cs ?D st' p = view_at ?cs ?D st p" if p: "p < fs_size st" "\<not> (a \<le> p \<and> p < e)" for p
    proof -
      have "p div ?cs \<notin> K" using Kin p by blast
      then have "view_at ?cs ?D ?st p = view_at ?cs ?D st p" by (rule M(2))
      moreover have "view_at ?cs ?D st' p = view_at ?cs ?D ?st p"
        using arg_cong [OF L(3), of "\<lambda>v. byte_at v p"] p(1) inv(2) by (simp add: byte_at_view LD)
      ultimately show ?thesis by simp
    qed
    have clear: "\<not> pending_at ?cs st' p" if "r = Inr ()" "a \<le> p" "p < e" "p < fs_size st" for p
    proof -
      have "p \<le> ?e - 1" using that by simp
      then have "p div ?cs \<le> (?e - 1) div ?cs" "?lo \<le> p div ?cs" using that(2) by (simp_all add: div_le_mono)
      moreover have "p div ?cs \<in> skip \<Longrightarrow> p div ?cs \<in> fs_loaded st \<union> K" by (auto simp: K_def)
      ultimately show ?thesis using ks(2) that(1) by (auto simp: pending_at_def LD)
    qed
    show thesis by (rule that [OF L(1,2) ks(1) view clear Kin])
  qed
qed

lemma wb_write_ok:
  assumes fok: "fok s st" and inj: "inj (sha256 E)" and d: "d \<noteq> []"
    and wr: "wb_write E st s d a = (r, st', s')"
  shows "reads s s'"
    "r = Inr n \<Longrightarrow> n = length d \<and> fok s' st' \<and> vw s' st' = splice (vw s st) a d \<and> same_file st st' \<and>
       fs_mat st' \<and> fs_dirty st'"
proof -
  let ?e = "a + length d" and ?cs = "s_cs s"
  obtain q1 st1 s1 where mt: "materialize E st s = (q1, st1, s1)" by (metis prod_cases3)
  note M = materialize_ok [OF fok inj mt]
  have "reads s s' \<and> (r = Inr n \<longrightarrow> n = length d \<and> fok s' st' \<and> vw s' st' = splice (vw s st) a d \<and>
      same_file st st' \<and> fs_mat st' \<and> fs_dirty st')"
  proof (cases q1)
    case (Inl e)
    with wr mt M show ?thesis by (auto simp: wb_write_def)
  next
    case q1: (Inr u)
    have mat1: "fs_mat st1" using M(4) q1 by simp
    note F1 = fokD [OF M(2)]
    let ?D = "sbytes content s1 (fs_ino st1)"
    obtain q2 st2 s2 where pr: "prepare E st1 s1 a ?e True = (q2, st2, s2)" by (metis prod_cases3)
    obtain K ks where P: "reads s1 s2" "finv K s2 st2"
      "loads ?D ks (st1\<lparr>fs_loaded := fs_loaded st1 \<union> K\<rparr>) st2"
      "\<And>p. p < fs_size st1 \<Longrightarrow> \<not> (a \<le> p \<and> p < ?e) \<Longrightarrow>
         view_at (s_cs s1) ?D st2 p = view_at (s_cs s1) ?D st1 p"
      "\<And>p. q2 = Inr () \<Longrightarrow> a \<le> p \<Longrightarrow> p < ?e \<Longrightarrow> p < fs_size st1 \<Longrightarrow> \<not> pending_at (s_cs s1) st2 p"
      "\<And>p. p div s_cs s1 \<in> K \<Longrightarrow> p < fs_size st1 \<Longrightarrow> a \<le> p \<and> p < ?e"
      by (rule prepare_write_ok [OF F1(1) inj F1(2) mat1 pr]) blast
    note L2 = loadsD [OF P(3)]
    note R2 = reads_data [OF P(1)]
    have r12: "reads s s2" using reads_trans [OF M(1) P(1)] .
    show ?thesis
    proof (cases q2)
      case (Inl e)
      with wr mt q1 pr r12 show ?thesis by (auto simp: wb_write_def Let_def)
    next
      case q2: (Inr u)
      have mat2: "fs_mat st2" by (simp add: L2 mat1)
      obtain q3 st3 s3 where gr: "grow E st2 s2 ?e = (q3, st3, s3)" by (metis prod_cases3)
      have D2: "sbytes content s2 (fs_ino st2) = ?D" "s_cs s2 = s_cs s1" "fs_ino st2 = fs_ino st1"
        by (simp_all add: R2 L2)
      obtain ks3 dd sg where G: "reads s2 s3" "finv K s3 (sg\<lparr>fs_dirty_idx := dd\<rparr>)" "loads ?D ks3 st2 sg"
        "\<And>p. p < fs_size st2 \<Longrightarrow> view_at (s_cs s2) ?D sg p = view_at (s_cs s2) ?D st2 p"
        "q3 = Inr () \<Longrightarrow> st3 = sg\<lparr>fs_dirty_idx := dd, fs_size := max (fs_size st2) ?e\<rparr>"
        "q3 = Inr () \<Longrightarrow> fs_size st2 < ?e \<Longrightarrow> full_below (s_cs s2) (sg\<lparr>fs_dirty_idx := dd\<rparr>)"
        by (rule grow_ok [OF R2(4) inj P(2) mat2 gr, unfolded D2(1)]) blast
      note L3 = loadsD [OF G(3)] and R3 = reads_data [OF G(1)]
      have r13: "reads s s3" using reads_trans [OF r12 G(1)] .
      show ?thesis
      proof (cases "\<exists>e. q3 = Inl e \<or> fs_closed st3")
        case True
        with wr mt q1 pr q2 gr r13 show ?thesis by (auto simp: wb_write_def Let_def split: sum.splits)
      next
        case False
        then have q3: "q3 = Inr ()" by (cases q3) auto
        let ?sg = "sg\<lparr>fs_dirty_idx := dd\<rparr>"
        have st3: "st3 = ?sg\<lparr>fs_size := max (fs_size ?sg) ?e\<rparr>" using G(5) [OF q3] by (simp add: L3)
        have sz: "fs_size ?sg = fs_size st1" by (simp add: L2 L3)
        have cs: "s_cs s3 = s_cs s1" "sbytes content s3 (fs_ino sg) = ?D" by (simp_all add: R2 R3 L2 L3)
        define out where "out = ?sg\<lparr>fs_size := max (fs_size ?sg) ?e,
          fs_file := f_write (f_seek (fs_file ?sg) a) d,
          fs_dirty_idx := fs_dirty_idx ?sg \<union> {a div s_cs s1..<(?e - 1) div s_cs s1 + 1}, fs_dirty := True\<rparr>"
        have res: "r = Inr (length d)" "st' = out" "s' = s3"
          using wr mt q1 pr q2 gr q3 False d
          by (simp_all add: wb_write_def Let_def st3 out_def cs)
        have inv3: "fs_inv (s_cs s1) (rows_of s3 ?sg) ?D K ?sg" using G(2) by (simp add: cs)
        have mat3: "fs_mat ?sg" by (simp add: L3 mat2)
        have pend: "\<not> pending_at (s_cs s1) ?sg p" if "a \<le> p" "p < ?e" "p < fs_size ?sg" for p
          using P(5) [of p] q2 that sz sz by (auto simp: pending_at_def L3)
        note W = write_inv [where offset = a, OF inv3 mat3 F1(5) d refl, folded out_def]
        have W1: "fs_inv (s_cs s1) (rows_of s3 ?sg) ?D {} out"
          by (rule W(1)) (use G(6) [OF q3] P(6) pend sz D2(2) in \<open>auto simp: L3 L2\<close>)
        have W2: "view_at (s_cs s1) ?D out p =
            (if a \<le> p \<and> p < ?e then d ! (p - a) else if p < fs_size st1 then view_at (s_cs s1) ?D st1 p else 0)"
          if "p < fs_size out" for p
        proof -
          have "view_at (s_cs s1) ?D out p =
            (if a \<le> p \<and> p < ?e then d ! (p - a) else if p < fs_size ?sg then view_at (s_cs s1) ?D ?sg p else 0)"
            by (rule W(2)) (use G(6) [OF q3] P(6) pend sz D2(2) that in \<open>auto simp: L3 L2\<close>)
          moreover have "view_at (s_cs s1) ?D ?sg p = view_at (s_cs s1) ?D st1 p"
            if "p < fs_size st1" "\<not> (a \<le> p \<and> p < ?e)"
            using G(4) [of p] P(4) [of p] that by (simp add: L2 D2(2) dirty_idx_view)
          ultimately show ?thesis by (auto simp: sz)
        qed
        have frame: "fs_mat out" "fs_ino out = fs_ino st1" "fs_size out = max (fs_size st1) ?e" "fs_dirty out"
          "same_file st1 out"
          by (simp_all add: out_def L2 L3 mat1 same_file_def)
        have view: "vw s3 out = splice (vw s1 st1) a d"
        proof (rule bytes_eqI)
          show "length (vw s3 out) = length (splice (vw s1 st1) a d)"
            using frame mat1 by (simp add: wb_view_def length_file_view length_splice)
          fix p assume "p < length (vw s3 out)"
          then have "p < fs_size out" using frame by (simp add: wb_view_def length_file_view)
          with W2 [of p] frame mat1 show "byte_at (vw s3 out) p = byte_at (splice (vw s1 st1) a d) p"
            by (simp add: wb_view_def byte_at_splice byte_at_view R3 R2 cs)
        qed
        have "rows_of s3 ?sg = rows_of s1 st1" by (simp add: rows_of_def R2 R3 L2 L3)
        then have "fok s3 out"
          using W1 F1(3,4) R3(4) frame(2) by (simp add: file_ok_def rows_of_def R2 R3 cs)
        with r13 view frame M(3,5) show ?thesis by (auto simp: res same_file_def)
      qed
    qed
  qed
  then show "reads s s'" "r = Inr n \<Longrightarrow> n = length d \<and> fok s' st' \<and> vw s' st' = splice (vw s st) a d \<and>
      same_file st st' \<and> fs_mat st' \<and> fs_dirty st'" by blast+
qed

end

end
