(* ===== verification/WritebackFlush.thy ===== *)
theory WritebackFlush
  imports WritebackSpec
begin

section \<open>Truncating and flushing\<close>

text \<open>
  \<open>put_file\<close> decides which chunks to keep by comparing with the rows of the index, not with
  the chunks the file state still has. \<open>no_stale\<close> says that this makes no difference: no row
  beyond those chunks would be taken for clean. It holds after a truncation that shrinks the
  file, and is lost when the file grows over the removed part before it is flushed.
\<close>

definition no_stale :: "nat \<Rightarrow> chunk list \<Rightarrow> filestate \<Rightarrow> bool" where
  "no_stale cs rows st \<longleftrightarrow>
     list_all (\<lambda>k. k * cs < fs_size st \<longrightarrow>
         \<not> is_clean (Some (fs_dirty_idx st)) rows k (k * cs) (min cs (fs_size st - k * cs)))
       [length (fs_base st)..<length rows]"

lemma no_staleD:
  assumes "no_stale cs rows st" "length (fs_base st) \<le> k" "k * cs < fs_size st"
  shows "\<not> is_clean (Some (fs_dirty_idx st)) rows k (k * cs) (min cs (fs_size st - k * cs))"
  using assms by (cases "k < length rows") (auto simp: no_stale_def list_all_iff is_clean_def)

lemma slice_byte_eqI:
  assumes "hi \<le> length X" "hi \<le> length Y" "\<And>p. lo \<le> p \<Longrightarrow> p < hi \<Longrightarrow> byte_at X p = byte_at Y p"
  shows "slice X lo hi = slice Y lo hi"
proof (rule nth_equalityI)
  show "length (slice X lo hi) = length (slice Y lo hi)" using assms(1,2) by simp
  fix i assume "i < length (slice X lo hi)"
  moreover from this have "lo + i < hi" by (simp add: less_diff_conv2) linarith
  ultimately show "slice X lo hi ! i = slice Y lo hi ! i"
    using assms(1,2) assms(3) [of "lo + i"] by (simp add: slice_nth byte_at_def)
qed

text \<open>
  What a flush hands to \<open>put_file\<close> makes it store the view: a clean chunk is one whose stored
  bytes are the view, any other one is in the temporary file.
\<close>

lemma flush_target:
  assumes inv: "fs_inv cs rows D {} st" "fs_mat st" "0 < cs" and stale: "no_stale cs rows st"
    and fit: "\<And>k. k < length rows \<Longrightarrow> c_off (rows ! k) + c_len (rows ! k) \<le> length D"
  shows "put_target cs (Some (fs_dirty_idx st)) rows D (resize (fs_size st) (temp st)) (fs_size st)
    (file_view cs D st)"
  unfolding put_target_def
proof (intro conjI allI impI)
  show "length (file_view cs D st) = fs_size st" by (rule length_file_view [OF inv(2)])
  fix k assume k: "k < fs_size st" "k * cs < fs_size st"
  let ?w = "min cs (fs_size st - k * cs)" and ?rs = "resize (fs_size st) (temp st)"
  note I = fs_invD [OF inv(1,2)]
  have view: "byte_at (file_view cs D st) p = view_at cs D st p \<and> byte_at ?rs p = byte_at (temp st) p \<and> p div cs = k"
    if p: "k * cs \<le> p" "p < k * cs + ?w" for p
  proof -
    have "p < fs_size st" "p < (k + 1) * cs" using p by auto
    then show ?thesis using p div_unique [OF inv(3), of k p] by (simp add: byte_at_view inv(2) byte_at_resize)
  qed
  show "slice (file_view cs D st) (k * cs) (k * cs + ?w) =
      slice (if is_clean (Some (fs_dirty_idx st)) rows k (k * cs) ?w then D else ?rs) (k * cs) (k * cs + ?w)"
  proof (cases "is_clean (Some (fs_dirty_idx st)) rows k (k * cs) ?w")
    case True
    then have c: "k \<notin> fs_dirty_idx st" "k < length rows" "c_off (rows ! k) = k * cs" "c_len (rows ! k) = ?w"
      by (simp_all add: is_clean_def)
    have base: "k < length (fs_base st)"
      using no_staleD [OF stale _ k(2)] True by (meson not_le)
    have "slice (file_view cs D st) (k * cs) (k * cs + ?w) = slice D (k * cs) (k * cs + ?w)"
    proof (rule slice_byte_eqI)
      show "k * cs + ?w \<le> length (file_view cs D st)" using k(2) by (simp add: length_file_view inv(2))
      show "k * cs + ?w \<le> length D" using fit [OF c(2)] c(3,4) by simp
      fix p assume p: "k * cs \<le> p" "p < k * cs + ?w"
      then show "byte_at (file_view cs D st) p = byte_at D p"
        using view [OF p] I(6) [OF base _ c(1)] base c(4) by (auto simp: view_at_def pending_at_def)
    qed
    with True show ?thesis by simp
  next
    case False
    have "slice (file_view cs D st) (k * cs) (k * cs + ?w) = slice ?rs (k * cs) (k * cs + ?w)"
    proof (rule slice_byte_eqI)
      show "k * cs + ?w \<le> length (file_view cs D st)" using k(2) by (simp add: length_file_view inv(2))
      show "k * cs + ?w \<le> length ?rs" using k(2) by simp
      fix p assume p: "k * cs \<le> p" "p < k * cs + ?w"
      have "\<not> pending_at cs st p"
      proof
        assume "pending_at cs st p"
        then have b: "k < length (fs_base st)" "k \<notin> fs_loaded st" using view [OF p] by (auto simp: pending_at_def)
        then have "k * cs + c_len (rows ! k) = min ((k + 1) * cs) (fs_size st)" using I(4) by blast
        then have "c_len (rows ! k) = ?w" using k(2) by (auto simp: min_def split: if_splits)
        with b False I(1,2) [OF b(1)] I(5) [OF b(1)] show False by (auto simp: is_clean_def)
      qed
      then show "byte_at (file_view cs D st) p = byte_at ?rs p" using view [OF p] by (simp add: view_at_def)
    qed
    with False show ?thesis by simp
  qed
qed

text \<open>The state a flush leaves, over the rows it has stored.\<close>

lemma flushed_inv:
  assumes inv: "fs_inv cs rows D {} st" "fs_mat st" "0 < cs"
    and shape: "rows_shape cs (fs_size st) rows'" "\<And>k. k * cs < fs_size st \<Longrightarrow> k < length rows'"
    and D': "D' = file_view cs D st"
    and st': "st' = st\<lparr>fs_file := f', fs_base := map base_of rows',
        fs_loaded := fs_loaded st \<union> {length (fs_base st)..<length rows'}, fs_dirty_idx := {}, fs_dirty := False\<rparr>"
    and f': "f_data f' = resize (fs_size st) (temp st)"
  shows "fs_inv cs rows' D' {} st'" "file_view cs D' st' = D'"
proof -
  have sh: "c_off (rows' ! k) = k * cs" "c_len (rows' ! k) = min cs (fs_size st - k * cs)" "k * cs < fs_size st"
    if "k < length rows'" for k
    using shape(1) that by (auto simp: rows_shape_def)
  have end1: "k * cs + c_len (rows' ! k) = min ((k + 1) * cs) (fs_size st)" if "k < length rows'" for k
    using sh [OF that] by (auto simp: min_def)
  have mat: "fs_mat st'" "fs_size st' = fs_size st" "temp st' = resize (fs_size st) (temp st)"
    by (simp_all add: st' inv(2) f')
  have byte: "byte_at (temp st') p = byte_at D' p"
    if "p < fs_size st" "p div cs \<in> fs_loaded st'" for p
    using that inv(2) by (auto simp: D' byte_at_view mat byte_at_resize view_at_def pending_at_def st' f')
  have kd: "p div cs = k" "p < fs_size st" if "k < length rows'" "k * cs \<le> p" "p < k * cs + c_len (rows' ! k)" for k p
    using that sh(2) [OF that(1)] div_unique [OF inv(3), of k p] by auto
  show view: "file_view cs D' st' = D'"
  proof (rule bytes_eqI)
    show "length (file_view cs D' st') = length D'" by (simp add: length_file_view mat D' inv(2))
    fix p assume "p < length (file_view cs D' st')"
    then have p: "p < fs_size st" by (simp add: length_file_view mat)
    then have "p div cs < length rows'" using shape(2) [of "p div cs"] div_bounds [OF inv(3), of p] by simp
    then have "view_at cs D' st' p = byte_at D' p"
      using byte [OF p] by (auto simp: view_at_def pending_at_def st')
    with p show "byte_at (file_view cs D' st') p = byte_at D' p" by (simp add: byte_at_view mat)
  qed
  show "fs_inv cs rows' D' {} st'"
  proof (rule fs_invI)
    fix k p assume k: "k < length (fs_base st')" "k \<in> fs_loaded st'" "k * cs \<le> p" "p < k * cs + c_len (rows' ! k)"
    then have "k < length rows'" by (simp add: st')
    from kd [OF this k(3,4)] k(2) show "byte_at (temp st') p = byte_at D' p" using byte [of p] by simp
  qed (use sh end1 view in \<open>simp_all add: mat, simp_all add: st'\<close>)
qed

lemma refile_inv:
  assumes inv: "fs_inv cs rows D {} st" "fs_mat st" "0 < cs" and f': "f_data f' = resize (fs_size st) (temp st)"
  shows "fs_inv cs rows D {} (st\<lparr>fs_file := f'\<rparr>)" "file_view cs D (st\<lparr>fs_file := f'\<rparr>) = file_view cs D st"
proof -
  let ?st = "st\<lparr>fs_file := f'\<rparr>"
  note I = fs_invD [OF inv(1,2)]
  have at: "view_at cs D ?st p = view_at cs D st p" if "p < fs_size st" for p
    using that by (simp add: view_at_def pending_at_def f' byte_at_resize)
  show view: "file_view cs D ?st = file_view cs D st"
    by (rule bytes_eqI) (use at inv(2) in \<open>simp_all add: length_file_view byte_at_view\<close>)
  show "fs_inv cs rows D {} ?st"
  proof (rule fs_invI)
    fix k p
    assume k: "k < length (fs_base ?st)" "k \<in> fs_loaded ?st" "k \<notin> fs_dirty_idx ?st"
      "k * cs \<le> p" "p < k * cs + c_len (rows ! k)"
    then have "p < fs_size st" using I(10) [of k] by simp
    then show "byte_at (temp ?st) p = byte_at D p" using I(6) [of k p] k by (simp add: f' byte_at_resize)
  qed (use I inv(2) view in \<open>auto simp: f'\<close>)
qed

text \<open>Two stores that differ at most in one file.\<close>

definition others :: "('b \<Rightarrow> nat \<Rightarrow> bytes option) \<Rightarrow> ino \<Rightarrow> 'b store \<Rightarrow> 'b store \<Rightarrow> bool" where
  "others content i s s' \<longleftrightarrow>
     s_cs s' = s_cs s \<and>
     (\<forall>j. j \<noteq> i \<longrightarrow> get_chunks (s_meta s') j = get_chunks (s_meta s) j \<and>
        get_inode (s_meta s') j = get_inode (s_meta s) j \<and> sbytes content s' j = sbytes content s j)"

lemma others_refl [simp]: "others content i s s"
  by (simp add: others_def)

lemma others_trans: "others content i s s' \<Longrightarrow> others content i s' s'' \<Longrightarrow> others content i s s''"
  by (simp add: others_def)

lemma unchanged_others: "unchanged content s s' \<Longrightarrow> others content i s s'"
  using unchanged_bytes [of content s s']
  by (simp add: others_def unchanged_def only_blobs_iff get_chunks_def get_inode_def)

context blob_backend
begin

lemma wb_truncate_ok:
  assumes fok: "fok s st" and inj: "inj (sha256 E)" and "\<not> fs_closed st"
    and tr: "wb_truncate E st s n = (r, st', s')"
  shows "reads s s'" "fok s' st'" "same_file st st'"
    "r = Inr () \<Longrightarrow> vw s' st' = resize n (vw s st) \<and> fs_mat st' \<and> fs_dirty st' \<and> fs_size st' = n"
    "r = Inl e \<Longrightarrow> vw s' st' = vw s st"
proof -
  let ?cs = "s_cs s" and ?b = "n div s_cs s"
  obtain q1 st1 s1 where mt: "materialize E st s = (q1, st1, s1)" by (metis prod_cases3)
  note M = materialize_ok [OF fok inj mt]
  have "reads s s' \<and> fok s' st' \<and> same_file st st' \<and>
     (case r of Inr _ \<Rightarrow> vw s' st' = resize n (vw s st) \<and> fs_mat st' \<and> fs_dirty st' \<and> fs_size st' = n
      | Inl _ \<Rightarrow> vw s' st' = vw s st)"
  proof (cases q1)
    case (Inl e)
    with tr mt M show ?thesis by (auto simp: wb_truncate_def)
  next
    case q1: (Inr u)
    have mat1: "fs_mat st1" using M(4) q1 by simp
    note F1 = fokD [OF M(2)]
    have cs1: "s_cs s1 = ?cs" using reads_data(2) [OF M(1)] .
    let ?D = "sbytes content s1 (fs_ino st1)"
    have open1: "\<not> fs_closed st1" using M(5) assms(3) by (simp add: same_file_def)
    have finish: "reads s s3 \<and> fok s3 out \<and> same_file st out \<and>
        vw s3 out = resize n (vw s st) \<and> fs_mat out \<and> fs_dirty out \<and> fs_size out = n"
      if "reads s1 s3" "fs_inv ?cs (rows_of s1 st1) ?D {} out" "file_view ?cs ?D out = resize n (vw s st)"
        "fs_ino out = fs_ino st1" "same_file st1 out" "fs_mat out" "fs_dirty out" "fs_size out = n" for s3 out
    proof -
      have "fok s3 out"
        using that(2,4) F1(3,4) reads_data [OF that(1)] cs1 by (simp add: file_ok_def rows_of_def)
      moreover have "vw s3 out = resize n (vw s st)"
        using that(3,4) reads_data [OF that(1)] cs1 by (simp add: wb_view_def)
      ultimately show ?thesis
        using that reads_trans [OF M(1) that(1)] M(5) by (auto simp: same_file_def)
    qed
    have vw1: "file_view ?cs ?D st1 = vw s st" using M(3) cs1 by (simp add: wb_view_def)
    show ?thesis
    proof (cases "n < fs_size st1")
      case False
      obtain q3 st3 s3 where gr: "grow E st1 s1 n = (q3, st3, s3)" by (metis prod_cases3)
      obtain ks dd sg where G: "reads s1 s3" "finv {} s3 (sg\<lparr>fs_dirty_idx := dd\<rparr>)" "loads ?D ks st1 sg"
        "\<And>p. p < fs_size st1 \<Longrightarrow> view_at ?cs ?D sg p = view_at ?cs ?D st1 p"
        "q3 = Inr () \<Longrightarrow> st3 = sg\<lparr>fs_dirty_idx := dd, fs_size := max (fs_size st1) n\<rparr>"
        "q3 = Inr () \<Longrightarrow> fs_size st1 < n \<Longrightarrow> full_below ?cs (sg\<lparr>fs_dirty_idx := dd\<rparr>)"
        "q3 \<noteq> Inr () \<Longrightarrow> st3 = sg \<and> dd = fs_dirty_idx st1"
        by (rule grow_ok [OF F1(1) inj F1(2) mat1 gr, unfolded cs1]) blast
      note L = loadsD [OF G(3)] and R3 = reads_data [OF G(1)]
      let ?sg = "sg\<lparr>fs_dirty_idx := dd\<rparr>"
      have inv3: "fs_inv ?cs (rows_of s1 st1) ?D {} ?sg" and mat3: "fs_mat ?sg" and sz: "fs_size ?sg = fs_size st1"
        using G(2) by (simp_all add: rows_of_def R3 L mat1 cs1)
      have view3: "file_view ?cs ?D ?sg = vw s st"
        unfolding vw1 [symmetric] by (simp add: dirty_idx_view) (simp add: file_view_def L mat1 G(4))
      show ?thesis
      proof (cases q3)
        case (Inl e)
        then have res: "r = Inl e" "st' = sg" "s' = s3" and "?sg = sg"
          using tr mt q1 gr False G(7) L(7) by (auto simp: wb_truncate_def Let_def)
        then have "fok s3 sg"
          using inv3 F1(3,4) R3 cs1 L(2) by (simp add: file_ok_def rows_of_def)
        with view3 res \<open>?sg = sg\<close> reads_trans [OF M(1) G(1)] M(5) L show ?thesis
          by (auto simp: wb_view_def R3 cs1 same_file_def)
      next
        case (Inr u)
        define out where "out = ?sg\<lparr>fs_size := n, fs_file := f_truncate (fs_file ?sg) n, fs_dirty := True\<rparr>"
        have res: "r = Inr ()" "st' = out" "s' = s3"
          using tr mt q1 gr False G(5) Inr L(3) open1 by (auto simp: wb_truncate_def Let_def out_def max_def)
        have T: "fs_inv ?cs (rows_of s1 st1) ?D {} out" "file_view ?cs ?D out = resize n (file_view ?cs ?D ?sg)"
          unfolding out_def
          by (rule trunc_grow_inv [OF inv3 mat3 F1(5) [unfolded cs1]]; use False G(6) Inr sz in simp)+
        show ?thesis
          using finish [OF G(1) T(1)] T(2) view3 by (simp add: res) (simp add: out_def L same_file_def mat1)
      qed
    next
      case True
      let ?cut = "n mod ?cs \<noteq> 0 \<and> ?b < length (fs_base st1)"
      define pre where "pre = (if ?cut then (case load E st1 s1 ?b (?b + 1) {} of
            (Inl e, st2, s2) \<Rightarrow> (Inl e, st2, s2)
          | (Inr _, st2, s2) \<Rightarrow> (Inr (), st2\<lparr>fs_dirty_idx := insert ?b (fs_dirty_idx st2)\<rparr>, s2))
        else (Inr (), st1, s1))"
      obtain q2 st2 s2 where pre: "pre = (q2, st2, s2)" by (metis prod_cases3)
      have P: "reads s1 s2 \<and> fs_inv ?cs (rows_of s1 st1) ?D {} st2 \<and> file_view ?cs ?D st2 = vw s st \<and>
          same_file st1 st2 \<and> fs_size st2 = fs_size st1 \<and> fs_mat st2 \<and> fs_ino st2 = fs_ino st1 \<and>
          (q2 = Inr () \<longrightarrow> ?cut \<longrightarrow> ?b \<in> fs_dirty_idx st2) \<and> fs_base st2 = fs_base st1"
      proof (cases ?cut)
        case False
        then have "q2 = Inr ()" "st2 = st1" "s2 = s1" using pre by (auto simp: pre_def)
        with F1(1,2) vw1 mat1 False cs1 show ?thesis by (auto simp: reads_refl same_file_def)
      next
        case cut: True
        obtain q stl s2' where ld: "load E st1 s1 ?b (?b + 1) {} = (q, stl, s2')" by (metis prod_cases3)
        note L = load_inv_ok [OF F1(1) inj F1(2) mat1 ld]
        then obtain ks where ks: "loads ?D ks st1 stl"
          "q = Inr () \<longrightarrow> ks = {k. ?b \<le> k \<and> k < ?b + 1 \<and> k < length (fs_base st1) \<and> k \<notin> fs_loaded st1 \<and> k \<notin> {}}"
          by blast
        note LD = loadsD [OF ks(1)]
        have s2: "s2 = s2'" using pre ld cut by (auto simp: pre_def split: sum.splits)
        have invl: "fs_inv ?cs (rows_of s1 st1) ?D {} stl"
          using L(2) reads_data [OF L(1)] LD(2) cs1 by (simp add: rows_of_def)
        have frame: "same_file st1 stl" "fs_size stl = fs_size st1" "fs_mat stl" "fs_ino stl = fs_ino st1"
          by (simp_all add: LD same_file_def mat1)
        show ?thesis
        proof (cases q)
          case (Inl e)
          then have "st2 = stl" "q2 = Inl e" using pre ld cut by (auto simp: pre_def)
          with L(1,3) invl frame vw1 cs1 LD(1) show ?thesis by (simp add: s2)
        next
          case (Inr u)
          then have st2: "st2 = stl\<lparr>fs_dirty_idx := insert ?b (fs_dirty_idx stl)\<rparr>" "q2 = Inr ()"
            using pre ld cut by (auto simp: pre_def)
          have "?b \<in> fs_loaded stl" using ks(2) Inr cut LD(8) by auto
          note J = fs_invD [OF invl frame(3)]
          have "fs_inv ?cs (rows_of s1 st1) ?D {} st2"
          proof (rule fs_invI)
            show "\<not> fs_dirty st2 \<Longrightarrow> {} = {} \<Longrightarrow> file_view ?cs ?D st2 = ?D"
              using J(9) by (simp add: st2 dirty_idx_view)
          next
            fix p assume "p < fs_size st2" "length (temp st2) \<le> p"
            then show "pending_at ?cs st2 p \<or> p div ?cs \<in> {}" using J(8) [of p] by (simp add: pending_at_def st2)
          qed (use J frame(3) \<open>?b \<in> fs_loaded stl\<close> in \<open>auto simp: st2\<close>)
          then show ?thesis
            using L(1,3) frame vw1 cs1 LD(1)
            by (simp add: s2 st2(2)) (simp add: st2(1) dirty_idx_view same_file_def)
        qed
      qed
      note R2 = reads_data [OF conjunct1 [OF P]]
      have tr': "(case (case pre of (Inl e, st2, s2) \<Rightarrow> (Inl e, st2, s2)
            | (Inr _, st2, s2) \<Rightarrow>
                (Inr (), st2\<lparr>fs_base := take (ceil_div n ?cs) (fs_base st2),
                   fs_loaded := Set.filter (\<lambda>i. i < ceil_div n ?cs) (fs_loaded st2),
                   fs_dirty_idx := Set.filter (\<lambda>i. i < ceil_div n ?cs) (fs_dirty_idx st2),
                   fs_size := n\<rparr>, s2)) of
          (Inl e, st3, s3) \<Rightarrow> (Inl e, st3, s3)
        | (Inr _, st3, s3) \<Rightarrow>
            if fs_closed st3 then (Inl ValueError, st3, s3)
            else (Inr (), st3\<lparr>fs_file := f_truncate (fs_file st3) n, fs_dirty := True\<rparr>, s3)) = (r, st', s')"
        using tr unfolding wb_truncate_def mt prod.case q1 sum.case Let_def if_P [OF True] cs1 pre_def
          ceil_div_def .
      show ?thesis
      proof (cases q2)
        case (Inl e)
        then have res: "r = Inl e" "st' = st2" "s' = s2"
          using tr' by (simp_all add: pre)
        have "fok s2 st2" using P F1(3,4) R2 cs1 by (simp add: file_ok_def rows_of_def)
        then show ?thesis
          using P reads_trans [OF M(1)] M(5) R2 cs1 by (auto simp: res same_file_def wb_view_def)
      next
        case (Inr u)
        define out where "out = st2\<lparr>fs_base := take (ceil_div n ?cs) (fs_base st2),
            fs_loaded := Set.filter (\<lambda>i. i < ceil_div n ?cs) (fs_loaded st2),
            fs_dirty_idx := Set.filter (\<lambda>i. i < ceil_div n ?cs) (fs_dirty_idx st2), fs_size := n,
            fs_file := f_truncate (fs_file st2) n, fs_dirty := True\<rparr>"
        have "\<not> fs_closed st2" using P open1 by (simp add: same_file_def)
        then have res: "r = Inr ()" "st' = out" "s' = s2"
          using tr' by (simp_all add: pre Inr out_def)
        have T: "fs_inv ?cs (rows_of s1 st1) ?D {} out" "file_view ?cs ?D out = take n (file_view ?cs ?D st2)"
          unfolding out_def
          by (rule trunc_shrink_inv [where rows = "rows_of s1 st1"]; use P F1(5) True Inr cs1 in simp)+
        have "length (vw s st) = fs_size st1" using vw1 mat1 by (simp flip: vw1 add: length_file_view)
        then have "take n (vw s st) = resize n (vw s st)" using True by (simp add: resize_def)
        with finish [of s2 out] T P show ?thesis by (simp add: res) (simp add: out_def same_file_def)
      qed
    qed
  qed
  then show "reads s s'" "fok s' st'" "same_file st st'"
    "r = Inr () \<Longrightarrow> vw s' st' = resize n (vw s st) \<and> fs_mat st' \<and> fs_dirty st' \<and> fs_size st' = n"
    "r = Inl e \<Longrightarrow> vw s' st' = vw s st" by auto
qed

lemma rows_fit:
  assumes "store_ok (sha256 E) content binv s" "inj (sha256 E)" "k < length (rows_of s st)"
  shows "c_off (rows_of s st ! k) + c_len (rows_of s st ! k) \<le> length (sbytes content s (fs_ino st))"
  using blob_slice(2) [OF assms(1,2), of k "fs_ino st"] assms(3) by (simp add: rows_of_def)

text \<open>
  \<open>_flush_locked\<close>: it returns with the view stored, or it raises and nothing has changed: the
  store still has the old content and the file state still has the new one.
\<close>

lemma flush_ok:
  assumes fok: "fok s st" and inj: "inj (sha256 E)" and "\<not> fs_closed st"
    and stale: "fs_mat st \<longrightarrow> no_stale (s_cs s) (rows_of s st) st"
    and fl: "flush_locked E st s = (r, st', s')"
  shows "fok s' st'" "vw s' st' = vw s st" "same_file st st'"
    "r = Inr () \<Longrightarrow> \<not> fs_dirty st' \<and> sbytes content s' = (sbytes content s)(fs_ino st := vw s st)"
    "r = Inl e \<Longrightarrow> unchanged content s s' \<and> fs_dirty st' = fs_dirty st"
    "others content (fs_ino st) s s'"
proof -
  let ?i = "fs_ino st" and ?cs = "s_cs s"
  note F = fokD [OF fok]
  have "fok s' st' \<and> vw s' st' = vw s st \<and> same_file st st' \<and> others content ?i s s' \<and>
    (case r of Inr _ \<Rightarrow> \<not> fs_dirty st' \<and> sbytes content s' = (sbytes content s)(?i := vw s st)
     | Inl _ \<Rightarrow> unchanged content s s' \<and> fs_dirty st' = fs_dirty st)"
  proof (cases "fs_dirty st")
    case False
    then have "r = Inr ()" "st' = st" "s' = s" using fl by (auto simp: flush_locked_def)
    moreover have "vw s st = sbytes content s ?i"
    proof (cases "fs_mat st")
      case True
      with fs_invD(9) [OF F(2) True] False show ?thesis by (simp add: wb_view_def)
    qed (simp add: wb_view_def file_view_def)
    ultimately show ?thesis using fok False by (simp add: same_file_def)
  next
    case True
    then have mat: "fs_mat st" using F(2) by (auto simp: fs_inv_def split: if_splits)
    let ?D = "sbytes content s ?i" and ?X = "vw s st"
    define src where "src = f_seek (f_truncate (fs_file st) (fs_size st)) 0"
    have src: "f_pos src = 0" "f_data src = resize (fs_size st) (temp st)" by (simp_all add: src_def)
    have len: "length ?X = fs_size st" by (simp add: wb_view_def length_file_view mat)
    have tgt: "put_target ?cs (Some (fs_dirty_idx st)) (get_chunks (s_meta s) ?i) ?D (f_data src) (length ?X) ?X"
      unfolding src(2) len unfolding wb_view_def rows_of_def [symmetric]
      by (rule flush_target [OF F(2) mat F(5) stale [rule_format, OF mat] rows_fit [OF F(1) inj]])
    obtain q f' s1 where put: "put_file E s ?i src (length ?X) (Some (fs_dirty_idx st)) = (q, f', s1)"
      by (metis prod_cases3)
    note P = put_file_ok [OF F(1) inj src(1) _ tgt put]
    have le: "length ?X \<le> length (f_data src)" by (simp add: src len)
    show ?thesis
    proof (cases q)
      case (Inl x)
      then have res: "r = Inl x" "st' = st\<lparr>fs_file := f'\<rparr>" "s' = s1"
        using fl True \<open>\<not> fs_closed st\<close> put [unfolded len src_def] by (auto simp: flush_locked_def Let_def)
      have u: "unchanged content s s1" using P(4) [OF le] Inl by blast
      then have same: "s_cs s1 = ?cs" "get_chunks (s_meta s1) = get_chunks (s_meta s)" "get_inode (s_meta s1) = get_inode (s_meta s)"
        by (simp_all add: unchanged_def only_blobs_iff get_chunks_def get_inode_def fun_eq_iff)
      have "f_data f' = resize (fs_size st) (temp st)" using P(1) [OF le] by (simp add: src)
      note R = refile_inv [OF F(2) mat F(5) this]
      have "fok s1 (st\<lparr>fs_file := f'\<rparr>)"
        using P(2) [OF le] R(1) F(3,4) same unchanged_bytes [OF u] by (simp add: file_ok_def rows_of_def)
      then show ?thesis
        using R(2) u same unchanged_bytes [OF u] unchanged_others [OF u]
        by (simp add: res wb_view_def same_file_def)
    next
      case (Inr u)
      let ?rows = "get_chunks (s_meta s1) ?i"
      have res: "r = Inr ()" "s' = s1"
        "st' = st\<lparr>fs_file := f', fs_base := map base_of ?rows,
           fs_loaded := fs_loaded st \<union> {length (fs_base st)..<length ?rows}, fs_dirty_idx := {}, fs_dirty := False\<rparr>"
        using fl True \<open>\<not> fs_closed st\<close> put [unfolded len src_def] Inr by (auto simp: flush_locked_def Let_def)
      have S: "sbytes content s1 = (sbytes content s)(?i := ?X)" "rows_shape ?cs (fs_size st) ?rows"
        "\<And>k. k * ?cs < fs_size st \<Longrightarrow> k < length ?rows"
        using P(3) [OF le] Inr by (simp_all add: len)
      have ob: "only_blobs (s\<lparr>s_meta := set_size ((s_meta s)\<lparr>chunks := chunks (s_meta s1)\<rparr>) ?i (length ?X)\<rparr>) s1"
        using P(3) [OF le] Inr by simp
      then have cs1: "s_cs s1 = ?cs" and ino: "inodes (s_meta s1) = inodes (set_size (s_meta s) ?i (length ?X))"
        by (simp_all add: only_blobs_iff set_size_def)
      have "i_size n = length ?X" if "get_inode (s_meta s1) ?i = Some n" for n
        using that by (auto simp: get_inode_def ino set_size_def select_update)
      moreover have inv1: "fs_inv ?cs ?rows ?X {} st'" and view1: "file_view ?cs ?X st' = ?X"
        using flushed_inv [OF F(2) mat F(5) S(2,3) wb_view_def [of content s st] res(3)] P(1) [OF le] src(2) by simp_all
      moreover have "list_all (\<lambda>c. c_len c \<le> ?cs) ?rows"
        using S(2) by (auto simp: rows_shape_def list_all_length)
      ultimately have "fok s1 st'"
        using P(2) [OF le] by (simp add: file_ok_def rows_of_def cs1 S(1) res(3))
      moreover have "others content ?i s s1"
        using P(3) [OF le] Inr S(1) by (simp add: others_def cs1 get_inode_def ino set_size_def select_update)
      ultimately show ?thesis using view1 S(1) by (simp add: res wb_view_def same_file_def cs1)
    qed
  qed
  then show "fok s' st'" "vw s' st' = vw s st" "same_file st st'"
    "r = Inr () \<Longrightarrow> \<not> fs_dirty st' \<and> sbytes content s' = (sbytes content s)(?i := vw s st)"
    "r = Inl e \<Longrightarrow> unchanged content s s' \<and> fs_dirty st' = fs_dirty st"
    "others content (fs_ino st) s s'" by auto
qed

end

end
