(* ===== verification/WritebackSession.thy ===== *)
theory WritebackSession
  imports WritebackFlush
begin

section \<open>Sequences of operations on one file\<close>

text \<open>
  Any sequence of reads, writes, truncations and flushes of a file state behaves as on a pair
  of byte strings: the live content, and the stored one, which a flush sets to the live one.
  The one sequence excluded is a flush after the file was cut and then changed again: see
  \<open>safe_ops\<close> and the section on regrown files in \<open>WritebackProps\<close>.
\<close>

datatype file_op = FRead nat nat | FWrite bytes nat | FTruncate nat | FFlush

fun run_op :: "'b env \<Rightarrow> file_op \<Rightarrow> filestate \<Rightarrow> 'b store \<Rightarrow> (bytes list, 'b) fres" where
  "run_op E (FRead n a) st s = (case wb_read E st s n a of (r, st', s') \<Rightarrow> (map_sum id (\<lambda>d. [d]) r, st', s'))"
| "run_op E (FWrite d a) st s = (case wb_write E st s d a of (r, st', s') \<Rightarrow> (map_sum id (\<lambda>_. []) r, st', s'))"
| "run_op E (FTruncate n) st s = (case wb_truncate E st s n of (r, st', s') \<Rightarrow> (map_sum id (\<lambda>_. []) r, st', s'))"
| "run_op E FFlush st s = (case flush_locked E st s of (r, st', s') \<Rightarrow> (map_sum id (\<lambda>_. []) r, st', s'))"

fun run_ops :: "'b env \<Rightarrow> file_op list \<Rightarrow> filestate \<Rightarrow> 'b store \<Rightarrow> (bytes list, 'b) fres" where
  "run_ops E [] st s = (Inr [], st, s)"
| "run_ops E (x # xs) st s =
     (case run_op E x st s of
        (Inl e, st1, s1) \<Rightarrow> (Inl e, st1, s1)
      | (Inr out, st1, s1) \<Rightarrow>
          (case run_ops E xs st1 s1 of
             (Inl e, st2, s2) \<Rightarrow> (Inl e, st2, s2)
           | (Inr outs, st2, s2) \<Rightarrow> (Inr (out @ outs), st2, s2)))"

text \<open>The abstract file: its live and its stored bytes.\<close>

fun byte_op :: "file_op \<Rightarrow> bytes \<times> bytes \<Rightarrow> bytes list \<times> bytes \<times> bytes" where
  "byte_op (FRead n a) (X, D) = ([slice X a (a + n)], X, D)"
| "byte_op (FWrite d a) (X, D) = ([], splice X a d, D)"
| "byte_op (FTruncate n) (X, D) = ([], resize n X, D)"
| "byte_op FFlush (X, D) = ([], X, X)"

fun byte_ops :: "file_op list \<Rightarrow> bytes \<times> bytes \<Rightarrow> bytes list \<times> bytes \<times> bytes" where
  "byte_ops [] v = ([], v)"
| "byte_ops (x # xs) v =
     (case byte_op x v of (out, v1) \<Rightarrow> (case byte_ops xs v1 of (outs, v2) \<Rightarrow> (out @ outs, v2)))"

text \<open>
  \<open>Whole\<close>: nothing cut since the last flush. \<open>Cut\<close>: truncated once. \<open>Regrown\<close>: changed again
  after that; such a file must not be flushed.
\<close>

datatype cut = Whole | Cut | Regrown

fun safe_ops :: "cut \<Rightarrow> file_op list \<Rightarrow> bool" where
  "safe_ops c [] = True"
| "safe_ops c (FRead n a # xs) = safe_ops c xs"
| "safe_ops c (FWrite d a # xs) = (d \<noteq> [] \<and> safe_ops (if c = Whole then Whole else Regrown) xs)"
| "safe_ops c (FTruncate n # xs) = safe_ops (if c = Whole then Cut else Regrown) xs"
| "safe_ops c (FFlush # xs) = (c \<noteq> Regrown \<and> safe_ops Whole xs)"

subsection \<open>What each operation does to the chunks still known\<close>

definition no_cut :: "chunk list \<Rightarrow> filestate \<Rightarrow> bool" where
  "no_cut rows st \<longleftrightarrow>
     (fs_mat st \<longrightarrow> list_all (\<lambda>k. k \<in> fs_dirty_idx st) [length (fs_base st)..<length rows])"

lemma no_cut_iff: "no_cut rows st \<longleftrightarrow>
    (fs_mat st \<longrightarrow> (\<forall>k. length (fs_base st) \<le> k \<longrightarrow> k < length rows \<longrightarrow> k \<in> fs_dirty_idx st))"
  by (auto simp: no_cut_def list_all_iff)

lemma no_cut_stale: "no_cut rows st \<Longrightarrow> fs_mat st \<Longrightarrow> no_stale cs rows st"
  by (auto simp: no_cut_def no_stale_def list_all_iff is_clean_def)

definition extends :: "filestate \<Rightarrow> filestate \<Rightarrow> bool" where
  "extends st st' \<longleftrightarrow>
     fs_base st' = fs_base st \<and> fs_mat st' = fs_mat st \<and> fs_dirty_idx st \<subseteq> fs_dirty_idx st'"

named_theorems frames

lemma extends_refl [simp]: "extends st st"
  by (simp add: extends_def)

lemma extends_trans: "extends a b \<Longrightarrow> extends b c \<Longrightarrow> extends a c"
  by (auto simp: extends_def)

lemma extends_no_cut: "extends st st' \<Longrightarrow> no_cut rows st \<Longrightarrow> no_cut rows st'"
  by (auto simp: extends_def no_cut_iff)

lemma load_loop_frame [frames]:
  "load_loop E st s need = (r, st', s') \<Longrightarrow>
     fs_base st' = fs_base st \<and> fs_dirty_idx st' = fs_dirty_idx st \<and> fs_size st' = fs_size st \<and> fs_mat st' = fs_mat st"
proof (induction E st s need rule: load_loop.induct)
  case (2 E st s i need)
  then show ?case by (fastforce split: prod.splits sum.splits if_splits)
qed simp

lemma load_frame [frames]:
  "load E st s lo hi skip = (r, st', s') \<Longrightarrow>
     fs_base st' = fs_base st \<and> fs_dirty_idx st' = fs_dirty_idx st \<and> fs_size st' = fs_size st \<and> fs_mat st' = fs_mat st"
  by (auto simp: load_def Let_def dest: load_loop_frame split: if_splits)

lemma prepare_frame [frames]:
  "prepare E st s a e ov = (r, st', s') \<Longrightarrow>
     fs_base st' = fs_base st \<and> fs_dirty_idx st' = fs_dirty_idx st \<and> fs_size st' = fs_size st \<and> fs_mat st' = fs_mat st"
  by (auto simp: prepare_def Let_def dest: load_frame split: if_splits)

lemma grow_frame [frames]: "grow E st s n = (r, st', s') \<Longrightarrow> extends st st'"
  by (auto simp: grow_def Let_def extends_def dest!: load_frame split: if_splits prod.splits sum.splits)

lemma read_frame [frames]:
  assumes "wb_read E st s n a = (r, st', s')"
  shows "fs_base st' = fs_base st \<and> fs_dirty_idx st' = fs_dirty_idx st \<and> fs_size st' = fs_size st \<and> fs_mat st' = fs_mat st"
proof -
  define e where "e = min (a + n) (fs_size st)"
  obtain q st1 s1 where pr: "prepare E st s a e False = (q, st1, s1)" by (metis prod_cases3)
  obtain d f where rd: "f_read (f_seek (fs_file st1) a) (e - a) = (d, f)" by force
  note P = prepare_frame [OF pr]
  have "st' = st \<or> st' = st1 \<or> st' = st1\<lparr>fs_file := f\<rparr>"
  proof (cases "fs_mat st")
    case False
    with assms show ?thesis by (cases "read_range E s (fs_ino st) a n") (simp add: wb_read_def)
  next
    case mat: True
    have "wb_read E st s n a =
        (if e \<le> a then (Inr [], st, s)
         else (case q of Inl x \<Rightarrow> (Inl x, st1, s1)
               | Inr _ \<Rightarrow> if fs_closed st1 then (Inl ValueError, st1, s1) else (Inr d, st1\<lparr>fs_file := f\<rparr>, s1)))"
      unfolding wb_read_def Let_def e_def [symmetric] pr prod.case rd if_P [OF mat] by (cases q) simp_all
    with assms show ?thesis by (cases q) (simp_all split: if_splits)
  qed
  then show ?thesis using P by (elim disjE) simp_all
qed

lemma materialize_frame [frames]:
  assumes mt: "materialize E st s = (Inr (), st', s')" and cut: "no_cut (get_chunks (s_meta s) (fs_ino st)) st"
  shows "no_cut (get_chunks (s_meta s) (fs_ino st)) st'"
proof (cases "fs_mat st")
  case False
  then obtain n where n: "get_inode (s_meta s) (fs_ino st) = Some n"
    using mt by (cases "get_inode (s_meta s) (fs_ino st)") (simp_all add: materialize_def Let_def)
  define st1 where "st1 = st\<lparr>fs_size := i_size n, fs_base := map base_of (get_chunks (s_meta s) (fs_ino st)),
      fs_loaded := {}, fs_dirty_idx := {}\<rparr>"
  show ?thesis
  proof (cases "aligned (s_cs s) (fs_base st1)")
    case True
    with mt n False have "st' = st1\<lparr>fs_mat := True\<rparr>"
      by (auto simp: materialize_def Let_def st1_def)
    then show ?thesis by (simp add: no_cut_iff st1_def)
  next
    case unal: False
    obtain q st2 s2 where ld: "load E st1 s 0 (length (fs_base st1)) {} = (q, st2, s2)" by (metis prod_cases3)
    with mt n False unal have "q = Inr ()" "st' = st2\<lparr>fs_dirty_idx := {0..<length (fs_base st2)}, fs_base := [],
        fs_loaded := {}, fs_mat := True\<rparr>"
      by (cases q; simp add: materialize_def Let_def st1_def)+
    with load_frame [OF ld] show ?thesis by (simp add: no_cut_iff st1_def)
  qed
qed (use assms in \<open>simp add: materialize_def\<close>)

lemma write_frame [frames]:
  assumes wr: "wb_write E st s d a = (Inr n, st', s')" and cut: "no_cut (get_chunks (s_meta s) (fs_ino st)) st"
  shows "no_cut (get_chunks (s_meta s) (fs_ino st)) st'"
proof -
  obtain q1 st1 s1 where mt: "materialize E st s = (q1, st1, s1)" by (metis prod_cases3)
  obtain q2 st2 s2 where pr: "prepare E st1 s1 a (a + length d) True = (q2, st2, s2)" by (metis prod_cases3)
  obtain q3 st3 s3 where gr: "grow E st2 s2 (a + length d) = (q3, st3, s3)" by (metis prod_cases3)
  have q: "q1 = Inr ()" "q2 = Inr ()" "q3 = Inr ()" "\<not> fs_closed st3"
    using wr mt pr gr by (cases q1; cases q2; cases q3; simp add: wb_write_def Let_def split: if_splits)+
  have "no_cut (get_chunks (s_meta s) (fs_ino st)) st1"
    by (rule materialize_frame [OF mt [unfolded q] cut])
  moreover have "extends st1 st3"
    using prepare_frame [OF pr] grow_frame [OF gr] by (auto simp: extends_def)
  moreover have "extends st3 st'"
    using wr mt pr gr q by (auto simp: wb_write_def Let_def extends_def)
  ultimately show ?thesis using extends_no_cut by blast
qed

text \<open>A truncation of a whole file leaves no row that could be taken for a clean chunk.\<close>

lemma truncate_frame:
  assumes tr: "wb_truncate E st s n = (Inr (), st', s')" and cut: "no_cut (get_chunks (s_meta s) (fs_ino st)) st"
    and mt: "materialize E st s = (q1, st1, s1)" and mat1: "q1 = Inr () \<Longrightarrow> fs_mat st1"
    and cs: "s_cs s1 = cs" "0 < cs" and rows: "rows = get_chunks (s_meta s) (fs_ino st)"
  shows "no_stale cs rows st'"
proof -
  have q1: "q1 = Inr ()" using tr mt by (cases q1) (simp_all add: wb_truncate_def)
  have c1: "no_cut rows st1" using materialize_frame [OF _ cut] mt q1 rows by simp
  show ?thesis
  proof (cases "n < fs_size st1")
    case False
    obtain q3 st3 s3 where gr: "grow E st1 s1 n = (q3, st3, s3)" by (metis prod_cases3)
    then have "q3 = Inr ()" "st' = st3\<lparr>fs_file := f_truncate (fs_file st3) n, fs_dirty := True\<rparr>"
      using tr mt q1 False by (cases q3; simp add: wb_truncate_def Let_def split: if_splits)+
    then have "extends st1 st'" using grow_frame [OF gr] by (auto simp: extends_def)
    with c1 mat1 q1 show ?thesis
      using no_cut_stale extends_no_cut by (metis extends_def)
  next
    case True
    let ?keep = "ceil_div n cs" and ?b = "n div cs"
    define pre where "pre = (if n mod cs \<noteq> 0 \<and> ?b < length (fs_base st1) then (case load E st1 s1 ?b (?b + 1) {} of
          (Inl e, st2, s2) \<Rightarrow> (Inl e, st2, s2)
        | (Inr _, st2, s2) \<Rightarrow> (Inr (), st2\<lparr>fs_dirty_idx := insert ?b (fs_dirty_idx st2)\<rparr>, s2))
      else (Inr (), st1, s1))"
    obtain q2 st2 s2 where pre: "pre = (q2, st2, s2)" by (metis prod_cases3)
    have tr': "(case (case pre of (Inl e, st2, s2) \<Rightarrow> (Inl e, st2, s2)
          | (Inr _, st2, s2) \<Rightarrow>
              (Inr (), st2\<lparr>fs_base := take ?keep (fs_base st2),
                 fs_loaded := Set.filter (\<lambda>i. i < ?keep) (fs_loaded st2),
                 fs_dirty_idx := Set.filter (\<lambda>i. i < ?keep) (fs_dirty_idx st2),
                 fs_size := n\<rparr>, s2)) of
        (Inl e, st3, s3) \<Rightarrow> (Inl e, st3, s3)
      | (Inr _, st3, s3) \<Rightarrow>
          if fs_closed st3 then (Inl ValueError, st3, s3)
          else (Inr (), st3\<lparr>fs_file := f_truncate (fs_file st3) n, fs_dirty := True\<rparr>, s3)) = (Inr (), st', s')"
      using tr unfolding wb_truncate_def mt prod.case q1 sum.case Let_def if_P [OF True] cs pre_def
        ceil_div_def .
    have "fs_base st2 = fs_base st1 \<and> fs_dirty_idx st1 \<subseteq> fs_dirty_idx st2"
      using pre by (auto simp: pre_def dest!: load_frame split: if_splits prod.splits sum.splits)
    moreover have "st' = st2\<lparr>fs_base := take ?keep (fs_base st2),
        fs_loaded := Set.filter (\<lambda>i. i < ?keep) (fs_loaded st2),
        fs_dirty_idx := Set.filter (\<lambda>i. i < ?keep) (fs_dirty_idx st2), fs_size := n,
        fs_file := f_truncate (fs_file st2) n, fs_dirty := True\<rparr>"
      using tr' by (cases q2) (auto simp: pre split: if_splits)
    then have "fs_base st' = take ?keep (fs_base st2) \<and> fs_size st' = n \<and>
        fs_dirty_idx st' = {i \<in> fs_dirty_idx st2. i < ?keep}" by auto
    ultimately have S: "fs_base st' = take ?keep (fs_base st1)" "fs_size st' = n"
      "\<And>k. k * cs < n \<Longrightarrow> k \<in> fs_dirty_idx st1 \<Longrightarrow> k \<in> fs_dirty_idx st'"
      using ceil_div_iff [OF cs(2)] by auto
    have "k \<in> fs_dirty_idx st'" if "length (fs_base st') \<le> k" "k < length rows" "k * cs < fs_size st'" for k
    proof -
      have "k < ?keep" using that(3) S(2) ceil_div_iff [OF cs(2)] by simp
      then have "length (fs_base st1) \<le> k" using that(1) S(1) by simp
      then show ?thesis using c1 mat1 [OF q1] that(2,3) S(2,3) by (simp add: no_cut_iff)
    qed
    then show ?thesis by (auto simp: no_stale_def list_all_iff is_clean_def)
  qed
qed

lemma flush_frame: "flush_locked E st s = (Inr (), st', s') \<Longrightarrow> fs_dirty st \<Longrightarrow>
    no_cut (get_chunks (s_meta s') (fs_ino st)) st'"
  by (auto simp: flush_locked_def Let_def no_cut_iff split: if_splits prod.splits sum.splits)

lemma flush_clean: "flush_locked E st s = (Inr (), st', s') \<Longrightarrow> \<not> fs_dirty st \<Longrightarrow> st' = st \<and> s' = s"
  by (simp add: flush_locked_def)

subsection \<open>The simulation\<close>

definition stored_as :: "('b \<Rightarrow> nat \<Rightarrow> bytes option) \<Rightarrow> 'b store \<Rightarrow> ino \<Rightarrow> bytes \<Rightarrow> bool" where
  "stored_as content s i X \<longleftrightarrow>
     sbytes content s i = X \<and> map_option i_size (get_inode (s_meta s) i) = Some (length X) \<and>
     list_all (\<lambda>c. c_len c \<le> s_cs s) (get_chunks (s_meta s) i)"

definition sess_inv :: "cut \<Rightarrow> nat \<Rightarrow> chunk list \<Rightarrow> filestate \<Rightarrow> bool" where
  "sess_inv c cs rows st =
     (case c of
        Whole \<Rightarrow> no_cut rows st
      | Cut \<Rightarrow> fs_dirty st \<and> no_stale cs rows st
      | Regrown \<Rightarrow> True)"

text \<open>One operation: \<open>next_cut\<close> is what \<open>safe_ops\<close> makes of its state.\<close>

definition next_cut :: "cut \<Rightarrow> file_op \<Rightarrow> cut" where
  "next_cut c x = (case x of FRead _ _ \<Rightarrow> c | FWrite _ _ \<Rightarrow> if c = Whole then Whole else Regrown
     | FTruncate _ \<Rightarrow> if c = Whole then Cut else Regrown | FFlush \<Rightarrow> Whole)"

lemma safe_ops_Cons: "safe_ops c (x # xs) \<Longrightarrow> safe_ops (next_cut c x) xs"
  by (cases x) (simp_all add: next_cut_def split: if_splits)

context blob_backend
begin

abbreviation sinv :: "cut \<Rightarrow> 'b store \<Rightarrow> filestate \<Rightarrow> bool" where
  "sinv c s st \<equiv> sess_inv c (s_cs s) (rows_of s st) st"

lemma run_op_ok:
  assumes fok: "fok s st" and inj: "inj (sha256 E)" and op: "\<not> fs_closed st"
    and safe: "safe_ops c [x]" and si: "sinv c s st"
    and run: "run_op E x st s = (Inr out, st', s')"
  shows "fok s' st' \<and> same_file st st' \<and> sinv (next_cut c x) s' st' \<and>
    byte_op x (vw s st, sbytes content s (fs_ino st)) = (out, vw s' st', sbytes content s' (fs_ino st)) \<and>
    (\<forall>j. j \<noteq> fs_ino st \<longrightarrow> sbytes content s' j = sbytes content s j)"
proof (cases x)
  case (FRead n a)
  obtain r st1 s1 where rd: "wb_read E st s n a = (r, st1, s1)" by (metis prod_cases3)
  with run FRead obtain d where d: "r = Inr d" "out = [d]" "st1 = st'" "s1 = s'" by (cases r) auto
  note R = wb_read_ok [OF fok inj rd, unfolded d(3,4)]
  note D = reads_data [OF R(1)]
  have ino: "fs_ino st' = fs_ino st" using R(4) by (simp add: same_file_def)
  have "sinv c s' st' = sinv c s st"
    using read_frame [OF rd] R(5) D(1,2) ino d(3)
    by (simp add: sess_inv_def no_cut_def no_stale_def rows_of_def split: cut.splits)
  with R D d si FRead ino show ?thesis by (simp add: next_cut_def)
next
  case (FWrite d a)
  obtain r st1 s1 where wr: "wb_write E st s d a = (r, st1, s1)" by (metis prod_cases3)
  with run FWrite obtain n where n: "r = Inr n" "out = []" "st1 = st'" "s1 = s'" by (cases r) auto
  have "d \<noteq> []" using safe FWrite by simp
  note W = wb_write_ok [OF fok inj this wr, unfolded n(3,4)]
  note W2 = W(2) [OF n(1)] and D = reads_data [OF W(1)]
  have ino: "fs_ino st' = fs_ino st" using W2 by (simp add: same_file_def)
  have "sinv (next_cut c x) s' st'"
  proof (cases "c = Whole")
    case True
    with si write_frame [OF wr [unfolded n]] D(1) ino show ?thesis
      by (simp add: next_cut_def FWrite sess_inv_def rows_of_def)
  qed (simp add: next_cut_def FWrite sess_inv_def)
  with W2 D n FWrite ino show ?thesis by simp
next
  case (FTruncate n)
  obtain r st1 s1 where tr: "wb_truncate E st s n = (r, st1, s1)" by (metis prod_cases3)
  with run FTruncate have r: "r = Inr ()" "out = []" "st1 = st'" "s1 = s'" by (cases r; auto)+
  note T = wb_truncate_ok [OF fok inj op tr, unfolded r(3,4)]
  note T4 = T(4) [OF r(1)] and D = reads_data [OF T(1)]
  have ino: "fs_ino st' = fs_ino st" using T(3) by (simp add: same_file_def)
  have "sinv (next_cut c x) s' st'"
  proof (cases "c = Whole")
    case True
    obtain q1 st2 s2 where mt: "materialize E st s = (q1, st2, s2)" by (metis prod_cases3)
    note M = materialize_ok [OF fok inj mt]
    have "no_stale (s_cs s) (rows_of s st) st'"
      by (rule truncate_frame [OF tr [unfolded r] _ mt])
        (use si True M(1,4) fokD(5) [OF fok] reads_data in \<open>auto simp: sess_inv_def rows_of_def\<close>)
    with True T4 D(1,2) ino show ?thesis
      by (simp add: next_cut_def FTruncate sess_inv_def rows_of_def)
  qed (simp add: next_cut_def FTruncate sess_inv_def)
  with T T4 D r FTruncate ino show ?thesis by simp
next
  case FFlush
  obtain r st1 s1 where fl: "flush_locked E st s = (r, st1, s1)" by (metis prod_cases3)
  with run FFlush have r: "r = Inr ()" "out = []" "st1 = st'" "s1 = s'" by (cases r; auto)+
  have c: "c \<noteq> Regrown" using safe FFlush by simp
  then have "fs_mat st \<longrightarrow> no_stale (s_cs s) (rows_of s st) st"
    using si no_cut_stale by (auto simp: sess_inv_def split: cut.splits)
  note L = flush_ok [OF fok inj op this fl, unfolded r(3,4)]
  have ino: "fs_ino st' = fs_ino st" using L(3) by (simp add: same_file_def)
  have "no_cut (rows_of s' st') st'"
  proof (cases "fs_dirty st")
    case True
    with flush_frame [OF fl [unfolded r]] ino show ?thesis by (simp add: rows_of_def)
  next
    case False
    then have "c = Whole" using c si by (auto simp: sess_inv_def split: cut.splits)
    with si flush_clean [OF fl [unfolded r]] False show ?thesis by (simp add: sess_inv_def)
  qed
  then have "sinv (next_cut c x) s' st'" by (simp add: next_cut_def FFlush sess_inv_def)
  with L(1,2,3) L(4) [OF r(1)] r FFlush ino show ?thesis by simp
qed

lemma run_ops_ok:
  assumes "fok s st" "inj (sha256 E)" "\<not> fs_closed st" "safe_ops c xs" "sinv c s st"
    and "run_ops E xs st s = (Inr out, st', s')"
  shows "fok s' st' \<and> same_file st st' \<and>
    byte_ops xs (vw s st, sbytes content s (fs_ino st)) = (out, vw s' st', sbytes content s' (fs_ino st)) \<and>
    (\<forall>j. j \<noteq> fs_ino st \<longrightarrow> sbytes content s' j = sbytes content s j)"
  using assms
proof (induction xs arbitrary: c st s out)
  case (Cons x xs)
  obtain q st1 s1 where one: "run_op E x st s = (q, st1, s1)" by (metis prod_cases3)
  obtain q2 st2 s2 where rest: "run_ops E xs st1 s1 = (q2, st2, s2)" by (metis prod_cases3)
  from Cons.prems(6) one rest obtain o1 o2 where
    o: "q = Inr o1" "q2 = Inr o2" "out = o1 @ o2" "st2 = st'" "s2 = s'"
    by (cases q; cases q2) auto
  have safe: "safe_ops c [x]" using Cons.prems(4) by (cases x) simp_all
  note A = run_op_ok [OF Cons.prems(1,2,3) safe Cons.prems(5) one [unfolded o]]
  have "fok s' st' \<and> same_file st1 st' \<and>
    byte_ops xs (vw s1 st1, sbytes content s1 (fs_ino st1)) = (o2, vw s' st', sbytes content s' (fs_ino st1)) \<and>
    (\<forall>j. j \<noteq> fs_ino st1 \<longrightarrow> sbytes content s' j = sbytes content s1 j)"
    by (rule Cons.IH [of s1 st1 "next_cut c x"])
      (use A Cons.prems(2,3) safe_ops_Cons [OF Cons.prems(4)] rest o in \<open>auto simp: same_file_def\<close>)
  with A o show ?case by (auto simp: same_file_def)
qed (simp add: same_file_def)

text \<open>A file as stored, and the file state of its first handle.\<close>

lemma fresh_ok:
  assumes "store_ok (sha256 E) content binv s" "stored_as content s i X"
  shows "fok s (new_filestate i)" "vw s (new_filestate i) = X" "sinv Whole s (new_filestate i)"
    "\<not> fs_closed (new_filestate i)" "sbytes content s i = X"
  using assms
  by (auto simp: stored_as_def file_ok_def new_filestate_def fs_inv_def f_open_def rows_of_def wb_view_def
      file_view_def sess_inv_def no_cut_def)

lemma fok_stored:
  assumes "fok s st" "get_inode (s_meta s) (fs_ino st) \<noteq> None"
  shows "stored_as content s (fs_ino st) (sbytes content s (fs_ino st))"
  using fokD(3,4) [OF assms(1)] assms(2) by (auto simp: stored_as_def rows_of_def)

end

end
