(* ===== verification/WritebackTotal.thy ===== *)
theory WritebackTotal
  imports WritebackSession
begin

section \<open>Progress\<close>

text \<open>
  Over a backend that answers, every operation on an open file returns: the error paths are
  reached only through failing transfers, a closed temporary file or a deleted inode.
\<close>

definition live :: "'b store \<Rightarrow> filestate \<Rightarrow> bool" where
  "live s st \<longleftrightarrow> \<not> fs_closed st \<and> (fs_mat st \<or> get_inode (s_meta s) (fs_ino st) \<noteq> None)"

context reliable_backend
begin

lemma load_loop_returns:
  assumes "store_ok (sha256 E) content binv s" "inj (sha256 E)" "\<not> fs_closed st"
    and "\<And>k. k \<in> set need \<Longrightarrow> k < length (get_chunks (s_meta s) i) \<and> fs_base st ! k = base_of (get_chunks (s_meta s) i ! k)"
  shows "fst (load_loop E st s need) = Inr ()"
  using assms
proof (induction need arbitrary: st s)
  case (Cons k need)
  let ?c = "get_chunks (s_meta s) i ! k"
  have k: "k < length (get_chunks (s_meta s) i)" "fs_base st ! k = (c_off ?c, c_len ?c, c_sha ?c)"
    using Cons.prems(4) [of k] by (simp_all add: base_of_def)
  then have "?c \<in> set (get_chunks (s_meta s) i)" by simp
  then have "0 < refs (s_meta s) (c_sha ?c)" by (rule refs_pos)
  then obtain x s1 where rd: "read_chunk E s (c_sha ?c) None = (Inr x, s1)"
    using read_chunk_returns [OF Cons.prems(1), of "c_sha ?c" None] by (metis prod.collapse)
  note D = reads_data [OF read_chunk_ok(1) [OF Cons.prems(1,2) rd]]
  let ?st = "st\<lparr>fs_file := f_write (f_seek (fs_file st) (c_off ?c)) x, fs_loaded := insert k (fs_loaded st)\<rparr>"
  have "fst (load_loop E ?st s1 need) = Inr ()"
    by (rule Cons.IH) (use Cons.prems D in auto)
  with k rd Cons.prems(3) show ?case by simp
qed simp

lemma load_returns:
  assumes "store_ok (sha256 E) content binv s" "inj (sha256 E)" "\<not> fs_closed st"
    and "\<And>k. k < length (fs_base st) \<Longrightarrow> k < length (rows_of s st) \<and> fs_base st ! k = base_of (rows_of s st ! k)"
  shows "fst (load E st s lo hi skip) = Inr ()"
proof -
  have "fst (load_loop E st s (filter (\<lambda>i. i \<notin> fs_loaded st \<and> i \<notin> skip) [lo..<min hi (length (fs_base st))])) = Inr ()"
    by (rule load_loop_returns [OF assms(1-3), where i = "fs_ino st"]) (use assms(4) in \<open>auto simp: rows_of_def\<close>)
  then show ?thesis by (simp add: load_def Let_def)
qed

lemma load_inv_returns:
  assumes "store_ok (sha256 E) content binv s" "inj (sha256 E)" "\<not> fs_closed st" "finv K s st" "fs_mat st"
  shows "fst (load E st s lo hi skip) = Inr ()"
  by (rule load_returns) (use assms fs_invD(1) [OF assms(4,5)] in auto)

lemma materialize_returns:
  assumes fok: "fok s st" and inj: "inj (sha256 E)" and "live s st"
  shows "fst (materialize E st s) = Inr ()"
proof (cases "fs_mat st")
  case False
  with assms(3) obtain n where n: "get_inode (s_meta s) (fs_ino st) = Some n" by (auto simp: live_def)
  let ?st = "st\<lparr>fs_size := i_size n, fs_base := map base_of (get_chunks (s_meta s) (fs_ino st)),
      fs_loaded := {}, fs_dirty_idx := {}\<rparr>"
  have "fst (load E ?st s 0 (length (fs_base ?st)) {}) = Inr ()"
    by (rule load_returns [OF fokD(1) [OF fok] inj])
      (use assms(3) in \<open>auto simp: live_def rows_of_def\<close>)
  then show ?thesis
    using False n by (auto simp: materialize_def Let_def split: prod.splits sum.splits)
qed (simp add: materialize_def)

lemma prepare_returns:
  assumes "store_ok (sha256 E) content binv s" "inj (sha256 E)" "\<not> fs_closed st" "finv {} s st" "fs_mat st"
  shows "fst (prepare E st s a e ov) = Inr ()"
proof -
  have "fst (load E (st\<lparr>fs_loaded := fs_loaded st \<union> K\<rparr>) s lo hi skip) = Inr ()" for K lo hi skip
    by (rule load_returns [OF assms(1,2)])
      (use assms(3) fs_invD(1) [OF assms(4,5)] in \<open>simp_all add: rows_of_def\<close>)
  then show ?thesis by (simp add: prepare_def Let_def)
qed

lemma grow_returns:
  assumes "store_ok (sha256 E) content binv s" "inj (sha256 E)" "\<not> fs_closed st" "finv K s st" "fs_mat st"
  shows "fst (grow E st s n) = Inr ()"
proof -
  let ?b = "length (fs_base st) - 1"
  obtain q st1 s1 where ld: "load E st s ?b (?b + 1) {} = (q, st1, s1)" by (metis prod_cases3)
  then have "q = Inr ()" using load_inv_returns [OF assms, of ?b "?b + 1" "{}"] by simp
  then show ?thesis unfolding grow_def Let_def ld prod.case \<open>q = Inr ()\<close> sum.case by simp
qed

lemma wb_read_returns:
  assumes fok: "fok s st" and inj: "inj (sha256 E)" and "live s st"
  shows "\<exists>d. fst (wb_read E st s n a) = Inr d"
proof (cases "fs_mat st")
  case False
  obtain d s1 where "read_range E s (fs_ino st) a n = (Inr d, s1)"
    using read_range_returns [OF fokD(1) [OF fok] inj, of "fs_ino st" a n] by (metis prod.collapse)
  with False show ?thesis by (simp add: wb_read_def)
next
  case True
  define e where "e = min (a + n) (fs_size st)"
  obtain q st1 s1 where pr: "prepare E st s a e False = (q, st1, s1)" by (metis prod_cases3)
  have op: "\<not> fs_closed st" using assms(3) by (simp add: live_def)
  have q: "q = Inr ()" using prepare_returns [OF fokD(1) [OF fok] inj op fokD(2) [OF fok] True, of a e False] pr by simp
  obtain ks where "loads (sbytes content s (fs_ino st)) ks st st1"
    using prepare_read_ok(4) [OF fokD(1) [OF fok] inj fokD(2) [OF fok] True pr] by blast
  then have "\<not> fs_closed st1" using loadsD(3) op by simp
  then show ?thesis
    unfolding wb_read_def Let_def e_def [symmetric] pr prod.case q sum.case if_P [OF True]
    by (cases "f_read (f_seek (fs_file st1) a) (e - a)") simp
qed

lemma wb_write_returns:
  assumes fok: "fok s st" and inj: "inj (sha256 E)" and live: "live s st"
  shows "fst (wb_write E st s d a) = Inr (length d)"
proof -
  let ?e = "a + length d"
  obtain q1 st1 s1 where mt: "materialize E st s = (q1, st1, s1)" by (metis prod_cases3)
  note M = materialize_ok [OF fok inj mt]
  have q1: "q1 = Inr ()" using materialize_returns [OF fok inj live] mt by simp
  note F1 = fokD [OF M(2)] and mat1 = M(4) [OF q1]
  have op1: "\<not> fs_closed st1" using M(5) live by (simp add: same_file_def live_def)
  obtain q2 st2 s2 where pr: "prepare E st1 s1 a ?e True = (q2, st2, s2)" by (metis prod_cases3)
  have q2: "q2 = Inr ()" using prepare_returns [OF F1(1) inj op1 F1(2) mat1, of a ?e True] pr by simp
  obtain K ks where P: "reads s1 s2" "finv K s2 st2"
      "loads (sbytes content s1 (fs_ino st1)) ks (st1\<lparr>fs_loaded := fs_loaded st1 \<union> K\<rparr>) st2"
    by (rule prepare_write_ok [OF F1(1) inj F1(2) mat1 pr]) blast
  have op2: "\<not> fs_closed st2" "fs_mat st2" using loadsD(3,4) [OF P(3)] op1 mat1 by simp_all
  note ok2 = reads_data(4) [OF P(1)]
  obtain q3 st3 s3 where gr: "grow E st2 s2 ?e = (q3, st3, s3)" by (metis prod_cases3)
  have q3: "q3 = Inr ()" using grow_returns [OF ok2 inj op2(1) P(2) op2(2), of ?e] gr by simp
  obtain ks3 dd sg where "loads (sbytes content s2 (fs_ino st2)) ks3 st2 sg"
      "st3 = sg\<lparr>fs_dirty_idx := dd, fs_size := max (fs_size st2) ?e\<rparr>"
    by (rule grow_ok [OF ok2 inj P(2) op2(2) gr]) (use q3 in blast)
  then have "\<not> fs_closed st3" using loadsD(3) op2(1) by simp
  then show ?thesis by (simp add: wb_write_def mt q1 pr q2 gr q3 Let_def)
qed

lemma wb_truncate_returns:
  assumes fok: "fok s st" and inj: "inj (sha256 E)" and live: "live s st"
  shows "fst (wb_truncate E st s n) = Inr ()"
proof -
  obtain q1 st1 s1 where mt: "materialize E st s = (q1, st1, s1)" by (metis prod_cases3)
  note M = materialize_ok [OF fok inj mt]
  have q1: "q1 = Inr ()" using materialize_returns [OF fok inj live] mt by simp
  note F1 = fokD [OF M(2)] and mat1 = M(4) [OF q1]
  have op1: "\<not> fs_closed st1" using M(5) live by (simp add: same_file_def live_def)
  obtain q3 st3 s3 where gr: "grow E st1 s1 n = (q3, st3, s3)" by (metis prod_cases3)
  have q3: "q3 = Inr ()" using grow_returns [OF F1(1) inj op1 F1(2) mat1, of n] gr by simp
  obtain ks3 dd sg where "loads (sbytes content s1 (fs_ino st1)) ks3 st1 sg"
      "st3 = sg\<lparr>fs_dirty_idx := dd, fs_size := max (fs_size st1) n\<rparr>"
    by (rule grow_ok [OF F1(1) inj F1(2) mat1 gr]) (use q3 in blast)
  then have op3: "\<not> fs_closed st3" using loadsD(3) op1 by simp
  let ?b = "n div s_cs s1"
  obtain q2 st2 s2 where ld: "load E st1 s1 ?b (?b + 1) {} = (q2, st2, s2)" by (metis prod_cases3)
  have q2: "q2 = Inr ()" using load_inv_returns [OF F1(1) inj op1 F1(2) mat1, of ?b "?b + 1" "{}"] ld by simp
  obtain ks where "loads (sbytes content s1 (fs_ino st1)) ks st1 st2"
    using load_inv_ok(4) [OF F1(1) inj F1(2) mat1 ld] by blast
  then have op2: "\<not> fs_closed st2" using loadsD(3) op1 by simp
  show ?thesis
    unfolding wb_truncate_def mt prod.case q1 sum.case Let_def ld q2 gr q3
    using op1 op2 op3 by simp
qed

lemma flush_returns:
  assumes fok: "fok s st" and inj: "inj (sha256 E)" and "\<not> fs_closed st"
    and stale: "fs_mat st \<longrightarrow> no_stale (s_cs s) (rows_of s st) st"
  shows "fst (flush_locked E st s) = Inr ()"
proof (cases "fs_dirty st")
  case True
  note F = fokD [OF fok]
  then have mat: "fs_mat st" using F(2) True by (auto simp: fs_inv_def split: if_splits)
  have len: "length (vw s st) = fs_size st" by (simp add: wb_view_def length_file_view mat)
  let ?src = "f_seek (f_truncate (fs_file st) (fs_size st)) 0"
  have "put_target (s_cs s) (Some (fs_dirty_idx st)) (get_chunks (s_meta s) (fs_ino st))
      (sbytes content s (fs_ino st)) (f_data ?src) (length (vw s st)) (vw s st)"
    using flush_target [OF F(2) mat F(5) stale [rule_format, OF mat] rows_fit [OF F(1) inj]]
    by (simp add: len [unfolded wb_view_def] wb_view_def rows_of_def)
  then have "fst (put_file E s (fs_ino st) ?src (length (vw s st)) (Some (fs_dirty_idx st))) = Inr ()"
    by (rule put_file_returns [OF F(1) inj, rotated 2]) (simp_all add: len)
  with True assms(3) show ?thesis
    by (auto simp: flush_locked_def Let_def len split: prod.splits sum.splits)
qed (simp add: flush_locked_def)

text \<open>A whole sequence returns.\<close>

lemma run_op_returns:
  assumes "fok s st" "inj (sha256 E)" "live s st" "safe_ops c [x]" "sinv c s st"
  shows "\<exists>out st' s'. run_op E x st s = (Inr out, st', s')"
proof (cases x)
  case (FRead n a)
  with wb_read_returns [OF assms(1-3), of n a] show ?thesis by (auto split: prod.splits)
next
  case (FWrite d a)
  with wb_write_returns [OF assms(1-3), of d a] show ?thesis by (auto split: prod.splits)
next
  case (FTruncate n)
  with wb_truncate_returns [OF assms(1-3), of n] show ?thesis by (auto split: prod.splits)
next
  case FFlush
  then have "fs_mat st \<longrightarrow> no_stale (s_cs s) (rows_of s st) st"
    using assms(4,5) no_cut_stale by (auto simp: sess_inv_def split: cut.splits)
  with FFlush flush_returns [OF assms(1,2)] assms(3) show ?thesis by (auto simp: live_def split: prod.splits)
qed

lemma run_op_live:
  assumes fok: "fok s st" and inj: "inj (sha256 E)" and live: "live s st" and safe: "safe_ops c [x]"
    and si: "sinv c s st" and run: "run_op E x st s = (Inr out, st', s')"
  shows "live s' st'"
proof -
  have op: "\<not> fs_closed st" using live by (simp add: live_def)
  have same: "same_file st st'" using run_op_ok [OF fok inj op safe si run] by blast
  have "fs_mat st' \<or> get_inode (s_meta s') (fs_ino st) \<noteq> None"
  proof (cases x)
    case (FRead n a)
    obtain r where rd: "wb_read E st s n a = (r, st', s')" using run FRead by (auto split: prod.splits)
    show ?thesis
      using read_frame [OF rd] reads_data(1) [OF wb_read_ok(1) [OF fok inj rd]] live by (simp add: live_def)
  next
    case (FWrite d a)
    obtain r where wr: "wb_write E st s d a = (r, st', s')" using run FWrite by (auto split: prod.splits)
    moreover obtain n where "r = Inr n" using run FWrite wr by (cases r) auto
    moreover have "d \<noteq> []" using safe FWrite by simp
    ultimately show ?thesis using wb_write_ok(2) [OF fok inj] by blast
  next
    case (FTruncate n)
    obtain r where tr: "wb_truncate E st s n = (r, st', s')" using run FTruncate by (auto split: prod.splits)
    moreover have "r = Inr ()" using run FTruncate tr by (cases r) auto
    ultimately show ?thesis using wb_truncate_ok(4) [OF fok inj op tr] by simp
  next
    case FFlush
    obtain r where fl: "flush_locked E st s = (r, st', s')" using run FFlush by (auto split: prod.splits)
    moreover have "r = Inr ()" using run FFlush fl by (cases r) auto
    moreover have "fs_dirty st \<longrightarrow> fs_mat st" using fokD(2) [OF fok] by (auto simp: fs_inv_def split: if_splits)
    moreover from this have "st' = st \<and> s' = s \<or> fs_mat st'"
      using fl by (auto simp: flush_locked_def Let_def split: if_splits prod.splits sum.splits)
    ultimately show ?thesis using live by (auto simp: live_def)
  qed
  with same live show ?thesis by (simp add: live_def same_file_def)
qed

lemma run_ops_returns:
  assumes "fok s st" "inj (sha256 E)" "live s st" "safe_ops c xs" "sinv c s st"
  shows "\<exists>out st' s'. run_ops E xs st s = (Inr out, st', s')"
  using assms
proof (induction xs arbitrary: c st s)
  case (Cons x xs)
  have safe: "safe_ops c [x]" using Cons.prems(4) by (cases x) simp_all
  obtain out st1 s1 where one: "run_op E x st s = (Inr out, st1, s1)"
    using run_op_returns [OF Cons.prems(1-3) safe Cons.prems(5)] by blast
  have op: "\<not> fs_closed st" using Cons.prems(3) by (simp add: live_def)
  note A = run_op_ok [OF Cons.prems(1,2) op safe Cons.prems(5) one]
  obtain o2 st2 s2 where "run_ops E xs st1 s1 = (Inr o2, st2, s2)"
    using Cons.IH [of s1 st1 "next_cut c x"] A Cons.prems(2) safe_ops_Cons [OF Cons.prems(4)]
      run_op_live [OF Cons.prems(1-3) safe Cons.prems(5) one] by blast
  with one show ?case by simp
qed simp

end

end
