(* ===== verification/WritebackManager.thy ===== *)
theory WritebackManager
  imports WritebackTotal
begin

section \<open>The manager as a map of byte strings\<close>

text \<open>
  The abstract value of the manager is what a user sees in each file (\<open>mgr_view\<close>): the content
  of its file state when it has one, the stored bytes otherwise. \<open>mgr_ok\<close> is the invariant;
  opening, flushing, the reaper and the shutdown keep it and change no file.
\<close>

definition mgr_view :: "('b \<Rightarrow> nat \<Rightarrow> bytes option) \<Rightarrow> 'b wb \<Rightarrow> ino \<Rightarrow> bytes" where
  "mgr_view content w i =
     (case map_of (w_states w) i of
        None \<Rightarrow> sbytes content (w_store w) i
      | Some a \<Rightarrow> (case w_heap w a of
            None \<Rightarrow> sbytes content (w_store w) i
          | Some st \<Rightarrow> wb_view content (w_store w) st))"

text \<open>A file state that can be flushed: not one that was cut and then changed again.\<close>

definition flushable :: "'b store \<Rightarrow> filestate \<Rightarrow> bool" where
  "flushable s st \<longleftrightarrow>
     no_cut (rows_of s st) st \<or> fs_dirty st \<and> no_stale (s_cs s) (rows_of s st) st"

definition state_ok ::
    "(bytes \<Rightarrow> sha) \<Rightarrow> ('b \<Rightarrow> nat \<Rightarrow> bytes option) \<Rightarrow> ('b \<Rightarrow> bool) \<Rightarrow> 'b store \<Rightarrow> ino \<Rightarrow> filestate \<Rightarrow> bool" where
  "state_ok hash content binv s i st \<longleftrightarrow>
     fs_ino st = i \<and> \<not> fs_closed st \<and> file_ok hash content binv s st \<and> flushable s st"

definition mgr_ok ::
    "(bytes \<Rightarrow> sha) \<Rightarrow> ('b \<Rightarrow> nat \<Rightarrow> bytes option) \<Rightarrow> ('b \<Rightarrow> bool) \<Rightarrow> 'b wb \<Rightarrow> bool" where
  "mgr_ok hash content binv w \<longleftrightarrow>
     store_ok hash content binv (w_store w) \<and>
     distinct (map fst (w_states w)) \<and> distinct (map snd (w_states w)) \<and>
     (\<forall>(i, a) \<in> set (w_states w).
        \<exists>st. w_heap w a = Some st \<and> state_ok hash content binv (w_store w) i st) \<and>
     (\<forall>a. w_next w \<le> a \<longrightarrow> w_heap w a = None)"

lemma others_state:
  assumes "others content i s s'" "store_ok hash content binv s'" "j \<noteq> i" "fs_ino st = j"
  shows "state_ok hash content binv s' j st = state_ok hash content binv s j st \<or>
      \<not> state_ok hash content binv s j st"
    "wb_view content s' st = wb_view content s st"
  using assms by (auto simp: others_def state_ok_def file_ok_def flushable_def rows_of_def wb_view_def)

lemma mgr_okD:
  assumes "mgr_ok hash content binv w"
  shows "store_ok hash content binv (w_store w)" "distinct (map fst (w_states w))"
    "distinct (map snd (w_states w))"
    "map_of (w_states w) i = Some a \<Longrightarrow> \<exists>st. w_heap w a = Some st \<and> state_ok hash content binv (w_store w) i st"
    "w_next w \<le> a \<Longrightarrow> w_heap w a = None"
  using assms by (auto simp: mgr_ok_def dest: map_of_SomeD)

lemma mgr_okI:
  assumes "store_ok hash content binv (w_store w)" "distinct (map fst (w_states w))"
    "distinct (map snd (w_states w))"
    "\<And>i a. map_of (w_states w) i = Some a \<Longrightarrow> \<exists>st. w_heap w a = Some st \<and> state_ok hash content binv (w_store w) i st"
    "\<And>a. w_next w \<le> a \<Longrightarrow> w_heap w a = None"
  shows "mgr_ok hash content binv w"
  using assms by (auto simp: mgr_ok_def)

lemma mgr_addr_inj:
  assumes "mgr_ok hash content binv w" "map_of (w_states w) i = Some a" "map_of (w_states w) j = Some a"
  shows "i = j"
proof -
  have "(i, a) \<in> set (w_states w)" "(j, a) \<in> set (w_states w)" using assms(2,3) by (auto dest: map_of_SomeD)
  with mgr_okD(3) [OF assms(1)] show ?thesis
    by (auto simp: distinct_map dest: inj_onD [where x = "(i, a)" and y = "(j, a)"])
qed

text \<open>Replacing one file state and the store.\<close>

lemma set_state_ok:
  assumes ok: "mgr_ok hash content binv w" and a: "map_of (w_states w) i = Some a"
    and st: "state_ok hash content binv s' i st'" and oth: "others content i (w_store w) s'"
  shows "mgr_ok hash content binv (set_state w a st' s')"
    "mgr_view content (set_state w a st' s') = (mgr_view content w)(i := wb_view content s' st')"
proof -
  let ?w = "set_state w a st' s'"
  have sok: "store_ok hash content binv s'" using st by (simp add: state_ok_def file_ok_def)
  obtain st0 where st0: "w_heap w a = Some st0" using mgr_okD(4) [OF ok a] by blast
  show "mgr_ok hash content binv ?w"
  proof (rule mgr_okI)
    fix j b assume b: "map_of (w_states ?w) j = Some b"
    show "\<exists>st. w_heap ?w b = Some st \<and> state_ok hash content binv (w_store ?w) j st"
    proof (cases "j = i")
      case True
      with a b st show ?thesis by (simp add: set_state_def)
    next
      case False
      then have "b \<noteq> a" using mgr_addr_inj [OF ok a] b by (auto simp: set_state_def)
      moreover obtain st1 where "w_heap w b = Some st1" "state_ok hash content binv (w_store w) j st1"
        using mgr_okD(4) [OF ok] b by (auto simp: set_state_def)
      ultimately show ?thesis
        using others_state(1) [OF oth sok False, of st1] by (auto simp: set_state_def state_ok_def)
    qed
  next
    fix b assume "w_next ?w \<le> b"
    then show "w_heap ?w b = None" using mgr_okD(5) [OF ok, of b] st0 by (auto simp: set_state_def)
  qed (use sok mgr_okD(2,3) [OF ok] in \<open>simp_all add: set_state_def\<close>)
  show "mgr_view content ?w = (mgr_view content w)(i := wb_view content s' st')"
  proof
    fix j
    show "mgr_view content ?w j = ((mgr_view content w)(i := wb_view content s' st')) j"
    proof (cases "j = i")
      case True
      with a show ?thesis by (simp add: mgr_view_def set_state_def)
    next
      case False
      show ?thesis
      proof (cases "map_of (w_states w) j")
        case None
        with False oth show ?thesis by (simp add: mgr_view_def set_state_def others_def)
      next
        case (Some b)
        then have "b \<noteq> a" using mgr_addr_inj [OF ok a] False by auto
        moreover obtain st1 where "w_heap w b = Some st1" "fs_ino st1 = j"
          using mgr_okD(4) [OF ok Some] by (auto simp: state_ok_def)
        ultimately show ?thesis
          using others_state(2) [OF oth sok False, of st1] Some False by (simp add: mgr_view_def set_state_def)
      qed
    qed
  qed
qed

text \<open>Dropping a file state whose content is stored.\<close>

lemma map_of_dict_pop: "map_of (dict_pop d i) j = (if j = i then None else map_of d j)"
  by (induction d) (auto simp: dict_pop_def)

lemma pop_state_ok:
  assumes ok: "mgr_ok hash content binv w" and a: "map_of (w_states w) i = Some a"
    and w': "w_states w' = dict_pop (w_states w) i" "w_store w' = w_store w" "w_next w' = w_next w"
      "\<And>b. b \<noteq> a \<Longrightarrow> w_heap w' b = w_heap w b"
  shows "mgr_ok hash content binv w'"
    "mgr_view content w' = (mgr_view content w)(i := sbytes content (w_store w) i)"
proof -
  have other: "j \<noteq> i \<and> w_heap w' b = w_heap w b \<and> map_of (w_states w) j = Some b"
    if "map_of (w_states w') j = Some b" for j b
  proof -
    have j: "j \<noteq> i" "map_of (w_states w) j = Some b"
      using that by (simp_all add: w'(1) map_of_dict_pop split: if_splits)
    moreover from this have "b \<noteq> a" using mgr_addr_inj [OF ok a, of j] by auto
    ultimately show ?thesis using w'(4) by blast
  qed
  have used: "a < w_next w" using mgr_okD(4) [OF ok a] mgr_okD(5) [OF ok, of a] by (cases "a < w_next w") auto
  show "mgr_ok hash content binv w'"
  proof (rule mgr_okI)
    fix j b assume "map_of (w_states w') j = Some b"
    from other [OF this] mgr_okD(4) [OF ok, of j b]
    show "\<exists>st. w_heap w' b = Some st \<and> state_ok hash content binv (w_store w') j st" by (simp add: w')
  next
    fix b assume "w_next w' \<le> b"
    then show "w_heap w' b = None" using mgr_okD(5) [OF ok, of b] used by (simp add: w')
  qed (use mgr_okD(1-3) [OF ok] in \<open>auto simp: w' dict_pop_def intro: distinct_map_filter\<close>)
  show "mgr_view content w' = (mgr_view content w)(i := sbytes content (w_store w) i)"
  proof
    fix j
    show "mgr_view content w' j = ((mgr_view content w)(i := sbytes content (w_store w) i)) j"
    proof (cases "j = i")
      case True
      then show ?thesis by (simp add: mgr_view_def w' map_of_dict_pop)
    next
      case False
      then have same: "map_of (w_states w') j = map_of (w_states w) j" by (simp add: w' map_of_dict_pop)
      show ?thesis
      proof (cases "map_of (w_states w) j")
        case None
        with same False show ?thesis by (simp add: mgr_view_def w')
      next
        case (Some b)
        with same other [of j b] have "w_heap w' b = w_heap w b" by simp
        with Some same False show ?thesis by (simp add: mgr_view_def w' split: option.split)
      qed
    qed
  qed
qed

subsection \<open>What the operations keep\<close>

lemma view_counts [simp]:
  "file_view cs D (st\<lparr>fs_refcount := n\<rparr>) = file_view cs D st"
  "file_view cs D (st\<lparr>fs_idle := t\<rparr>) = file_view cs D st"
proof -
  have "view_at cs D (st\<lparr>fs_refcount := n\<rparr>) = view_at cs D st" "view_at cs D (st\<lparr>fs_idle := t\<rparr>) = view_at cs D st"
    by (auto simp: fun_eq_iff view_at_def pending_at_def)
  then show "file_view cs D (st\<lparr>fs_refcount := n\<rparr>) = file_view cs D st"
    "file_view cs D (st\<lparr>fs_idle := t\<rparr>) = file_view cs D st" by (simp_all add: file_view_def)
qed

lemma state_ok_counts [simp]:
  "state_ok hash content binv s i (st\<lparr>fs_refcount := n\<rparr>) = state_ok hash content binv s i st"
  "state_ok hash content binv s i (st\<lparr>fs_idle := t\<rparr>) = state_ok hash content binv s i st"
  "wb_view content s (st\<lparr>fs_refcount := n\<rparr>) = wb_view content s st"
  "wb_view content s (st\<lparr>fs_idle := t\<rparr>) = wb_view content s st"
  by (simp_all add: state_ok_def file_ok_def rows_of_def flushable_def no_cut_def no_stale_def
      wb_view_def pending_at_def fs_inv_def)

lemma materialize_fails: "materialize E st s = (Inl e, st', s') \<Longrightarrow> \<not> fs_mat st'"
  by (auto simp: materialize_def Let_def dest!: load_frame split: if_splits option.splits prod.splits sum.splits)

lemma flushable_stale: "flushable s st \<Longrightarrow> fs_mat st \<longrightarrow> no_stale (s_cs s) (rows_of s st) st"
  using no_cut_stale by (auto simp: flushable_def)

context blob_backend
begin

abbreviation sok :: "'b store \<Rightarrow> ino \<Rightarrow> filestate \<Rightarrow> bool" where
  "sok \<equiv> state_ok (sha256 E) content binv"

abbreviation mok :: "'b wb \<Rightarrow> bool" where
  "mok \<equiv> mgr_ok (sha256 E) content binv"

lemma reads_others: "reads s s' \<Longrightarrow> others content i s s'"
  using reads_data [of s s'] by (simp add: others_def)

lemma materialize_state:
  assumes sok: "sok s i st" and inj: "inj (sha256 E)" and mt: "materialize E st s = (r, st', s')"
  shows "sok s' i st'" "others content i s s'" "vw s' st' = vw s st" "same_file st st'" "reads s s'"
    "r = Inr () \<Longrightarrow> fs_mat st'"
proof -
  have fok: "fok s st" using sok by (simp add: state_ok_def)
  note M = materialize_ok [OF fok inj mt] and D = reads_data [OF materialize_ok(1) [OF fok inj mt]]
  show "others content i s s'" "vw s' st' = vw s st" "same_file st st'" "reads s s'" "r = Inr () \<Longrightarrow> fs_mat st'"
    using M reads_others by auto
  have ino: "fs_ino st' = fs_ino st" using M(5) by (simp add: same_file_def)
  have "flushable s' st'"
  proof (cases r)
    case (Inl e)
    then show ?thesis using materialize_fails [of E st s e st' s'] mt by (simp add: flushable_def no_cut_def)
  next
    case (Inr u)
    show ?thesis
    proof (cases "fs_mat st")
      case True
      then have "st' = st" "s' = s" using mt by (simp_all add: materialize_def)
      with sok show ?thesis by (simp add: state_ok_def)
    next
      case False
      then have "no_cut (get_chunks (s_meta s) (fs_ino st)) st" by (simp add: no_cut_def)
      with materialize_frame [of E st s st' s'] mt Inr D(1) ino show ?thesis
        by (simp add: flushable_def rows_of_def)
    qed
  qed
  with M(2,5) sok show "sok s' i st'" by (simp add: state_ok_def same_file_def)
qed

lemma flush_state:
  assumes sok: "sok s i st" and inj: "inj (sha256 E)" and fl: "flush_locked E st s = (r, st', s')"
  shows "sok s' i st'" "others content i s s'" "vw s' st' = vw s st" "same_file st st'"
    "r = Inr () \<Longrightarrow> \<not> fs_dirty st' \<and> sbytes content s' i = vw s st"
    "r = Inl e \<Longrightarrow> sbytes content s' = sbytes content s \<and> fs_dirty st'"
proof -
  have st: "fok s st" "\<not> fs_closed st" "fs_ino st = i" "flushable s st" using sok by (simp_all add: state_ok_def)
  note L = flush_ok [OF st(1) inj st(2) flushable_stale [OF st(4)] fl]
  show "others content i s s'" "vw s' st' = vw s st" "same_file st st'"
    using L st(3) by simp_all
  show "r = Inr () \<Longrightarrow> \<not> fs_dirty st' \<and> sbytes content s' i = vw s st" using L(4) st(3) by simp
  show "sbytes content s' = sbytes content s \<and> fs_dirty st'" if "r = Inl e"
  proof -
    have "fs_dirty st" using that fl by (auto simp: flush_locked_def split: if_splits)
    then show ?thesis using L(5) [OF that] unchanged_bytes by blast
  qed
  have ino: "fs_ino st' = fs_ino st" using L(3) by (simp add: same_file_def)
  have "flushable s' st'"
  proof (cases "fs_dirty st")
    case False
    then have "st' = st \<and> s' = s" using fl by (simp add: flush_locked_def)
    with st(4) show ?thesis by simp
  next
    case True
    show ?thesis
    proof (cases r)
      case (Inr u)
      with flush_frame [of E st s st' s'] fl True ino show ?thesis by (simp add: flushable_def rows_of_def)
    next
      case (Inl x)
      then have u: "unchanged content s s'" using L(5) by blast
      have "\<exists>f. st' = st\<lparr>fs_file := f\<rparr>"
        using fl Inl True st(2) by (auto simp: flush_locked_def Let_def split: prod.splits sum.splits)
      then obtain f where "st' = st\<lparr>fs_file := f\<rparr>" ..
      moreover have "s_cs s' = s_cs s" "get_chunks (s_meta s') = get_chunks (s_meta s)"
        using u by (simp_all add: unchanged_def only_blobs_iff get_chunks_def fun_eq_iff)
      ultimately show ?thesis
        using st(4) by (simp add: flushable_def no_cut_def no_stale_def rows_of_def)
    qed
  qed
  with L(1,3) st show "sok s' i st'" by (simp add: state_ok_def same_file_def)
qed

text \<open>An operation on the file state at an address of the dict.\<close>

lemma on_state_ok:
  assumes ok: "mok w" and a: "map_of (w_states w) i = Some a" and on: "on_state w a f = (r, w')"
    and f: "\<And>st r st' s'. w_heap w a = Some st \<Longrightarrow> sok (w_store w) i st \<Longrightarrow> f st (w_store w) = (r, st', s') \<Longrightarrow>
      sok s' i st' \<and> others content i (w_store w) s'"
  obtains st st' s' where "w_heap w a = Some st" "sok (w_store w) i st" "f st (w_store w) = (r, st', s')"
    "w' = set_state w a st' s'" "mok w'" "mgr_view content w' = (mgr_view content w)(i := vw s' st')"
    "mgr_view content w i = vw (w_store w) st"
proof -
  obtain st where st: "w_heap w a = Some st" "sok (w_store w) i st" using mgr_okD(4) [OF ok a] by blast
  obtain q st' s' where run: "f st (w_store w) = (q, st', s')" by (metis prod_cases3)
  have w': "r = q" "w' = set_state w a st' s'" using on st run by (simp_all add: on_state_def)
  note F = f [OF st run]
  note S = set_state_ok [OF ok a conjunct1 [OF F] conjunct2 [OF F]]
  show thesis
    using that [OF st _ w'(2)] run S w' a st(1) by (simp add: mgr_view_def)
qed

lemma sync_ok:
  assumes ok: "mok w" and inj: "inj (sha256 E)" and a: "map_of (w_states w) i = Some a"
    and on: "on_state w a (flush_locked E) = (r, w')"
  shows "mok w'" "mgr_view content w' = mgr_view content w" "w_states w' = w_states w"
    "r = Inr () \<Longrightarrow> sbytes content (w_store w') i = mgr_view content w i"
    "j \<noteq> i \<Longrightarrow> sbytes content (w_store w') j = sbytes content (w_store w) j"
    "r = Inl e \<Longrightarrow> sbytes content (w_store w') = sbytes content (w_store w)"
    "\<exists>st st'. w_heap w a = Some st \<and> w_heap w' = (w_heap w)(a \<mapsto> st') \<and> same_file st st' \<and>
       (r = Inr () \<longrightarrow> \<not> fs_dirty st') \<and> (\<forall>e. r = Inl e \<longrightarrow> fs_dirty st')"
proof -
  obtain st st' s' where S: "w_heap w a = Some st" "sok (w_store w) i st"
    "flush_locked E st (w_store w) = (r, st', s')" "w' = set_state w a st' s'" "mok w'"
    "mgr_view content w' = (mgr_view content w)(i := vw s' st')" "mgr_view content w i = vw (w_store w) st"
    using on_state_ok [OF ok a on] flush_state(1,2) [OF _ inj] by metis
  note F = flush_state [OF S(2) inj S(3)]
  show "mok w'" "w_states w' = w_states w" using S(4,5) by (simp_all add: set_state_def)
  show "mgr_view content w' = mgr_view content w" using S(6,7) F(3) by (simp add: fun_eq_iff)
  show "r = Inr () \<Longrightarrow> sbytes content (w_store w') i = mgr_view content w i"
    "j \<noteq> i \<Longrightarrow> sbytes content (w_store w') j = sbytes content (w_store w) j"
    "r = Inl e \<Longrightarrow> sbytes content (w_store w') = sbytes content (w_store w)"
    using F(2,5,6) S(4,7) by (simp_all add: set_state_def others_def)
  show "\<exists>st st'. w_heap w a = Some st \<and> w_heap w' = (w_heap w)(a \<mapsto> st') \<and> same_file st st' \<and>
       (r = Inr () \<longrightarrow> \<not> fs_dirty st') \<and> (\<forall>e. r = Inl e \<longrightarrow> fs_dirty st')"
    using S(1,4) F(4-6) by (auto simp: set_state_def)
qed

text \<open>Changing a count or a time stamp.\<close>

lemma touch_ok:
  assumes ok: "mok w" and a: "map_of (w_states w) i = Some a" and st: "w_heap w a = Some st"
    and st': "st' = st\<lparr>fs_refcount := n\<rparr> \<or> st' = st\<lparr>fs_idle := t\<rparr>"
  shows "mok (w\<lparr>w_heap := (w_heap w)(a := Some st')\<rparr>)"
    "mgr_view content (w\<lparr>w_heap := (w_heap w)(a := Some st')\<rparr>) = mgr_view content w"
proof -
  have sok: "sok (w_store w) i st" using mgr_okD(4) [OF ok a] st by auto
  have w': "w\<lparr>w_heap := (w_heap w)(a := Some st')\<rparr> = set_state w a st' (w_store w)"
    by (simp add: set_state_def)
  have "sok (w_store w) i st'" using sok st' by auto
  from set_state_ok [OF ok a this] st'
  show "mok (w\<lparr>w_heap := (w_heap w)(a := Some st')\<rparr>)"
    "mgr_view content (w\<lparr>w_heap := (w_heap w)(a := Some st')\<rparr>) = mgr_view content w"
    unfolding w' by (auto simp: fun_eq_iff mgr_view_def a st)
qed

lemma alloc_ok:
  assumes ok: "mok w" and new: "map_of (w_states w) i = None" "stored_as content (w_store w) i X"
  defines "w' \<equiv> w\<lparr>w_heap := (w_heap w)(w_next w := Some (new_filestate i)),
      w_states := w_states w @ [(i, w_next w)], w_next := w_next w + 1\<rparr>"
  shows "mok w'" "mgr_view content w' = mgr_view content w" "map_of (w_states w') i = Some (w_next w)"
proof -
  have fresh: "sok (w_store w) i (new_filestate i)"
    using fresh_ok [OF mgr_okD(1) [OF ok] new(2)]
    by (simp add: state_ok_def flushable_def sess_inv_def) (simp add: new_filestate_def)
  have used: "a < w_next w" if "(j, a) \<in> set (w_states w)" for j a
  proof -
    have "map_of (w_states w) j = Some a" using that mgr_okD(2) [OF ok] by simp
    then obtain st where "w_heap w a = Some st" using mgr_okD(4) [OF ok] by blast
    then show ?thesis using mgr_okD(5) [OF ok, of a] by (cases "a < w_next w") auto
  qed
  have look: "map_of (w_states w') j = (if j = i then Some (w_next w) else map_of (w_states w) j)" for j
    using new(1) by (simp add: w'_def map_add_def split: option.split)
  then show "map_of (w_states w') i = Some (w_next w)" by simp
  show "mok w'"
  proof (rule mgr_okI)
    show "distinct (map snd (w_states w'))" using mgr_okD(3) [OF ok] used by (force simp: w'_def)
    show "distinct (map fst (w_states w'))"
      using mgr_okD(2) [OF ok] new(1) by (simp add: w'_def map_of_eq_None_iff)
    fix j a assume j: "map_of (w_states w') j = Some a"
    show "\<exists>st. w_heap w' a = Some st \<and> sok (w_store w') j st"
    proof (cases "j = i")
      case True
      with j look fresh show ?thesis by (simp add: w'_def)
    next
      case False
      then have "map_of (w_states w) j = Some a" using j look by simp
      with mgr_okD(4) [OF ok this] used [of j a] show ?thesis by (auto simp: w'_def dest: map_of_SomeD)
    qed
  qed (use mgr_okD(1,5) [OF ok] in \<open>simp_all add: w'_def\<close>)
  show "mgr_view content w' = mgr_view content w"
  proof
    fix j
    show "mgr_view content w' j = mgr_view content w j"
    proof (cases "j = i")
      case True
      have "vw (w_store w) (new_filestate i) = sbytes content (w_store w) i"
        using fresh_ok(2,5) [OF mgr_okD(1) [OF ok] new(2)] by simp
      with True new(1) look show ?thesis by (simp add: mgr_view_def) (simp add: w'_def)
    next
      case False
      with look used [of j] show ?thesis
        by (auto simp: mgr_view_def w'_def dest: map_of_SomeD split: option.split)
    qed
  qed
qed

text \<open>The state that is opened, before it is loaded.\<close>

lemma wb_open_split:
  assumes ok: "mok w" and known: "map_of (w_states w) i = None \<longrightarrow> (\<exists>X. stored_as content (w_store w) i X)"
    and op: "wb_open E w i fw = (r, w')"
  obtains a1 w2 st2 where "map_of (w_states w2) i = Some a1" "w_store w2 = w_store w" "w_heap w2 a1 = Some st2"
    "\<forall>j. j \<noteq> i \<longrightarrow> map_of (w_states w2) j = map_of (w_states w) j"
    "\<exists>n. st2 = (case map_of (w_states w) i of None \<Rightarrow> new_filestate i | Some b \<Rightarrow> the (w_heap w b))\<lparr>fs_refcount := n\<rparr>"
    "(if fw then (case on_state w2 a1 (materialize E) of (Inl e, w3) \<Rightarrow> (Inl e, w3) | (Inr _, w3) \<Rightarrow> (Inr a1, w3))
      else (Inr a1, w2)) = (r, w')"
    "mok w2" "mgr_view content w2 = mgr_view content w"
    "a1 = (case map_of (w_states w) i of Some b \<Rightarrow> b | None \<Rightarrow> w_next w)"
    "fs_refcount st2 = (case map_of (w_states w) i of None \<Rightarrow> 0 | Some a0 \<Rightarrow>
       (case w_heap w a0 of None \<Rightarrow> 0 | Some st0 \<Rightarrow> fs_refcount st0)) + 1"
proof -
  define w1 where "w1 = (case map_of (w_states w) i of Some a \<Rightarrow> w
     | None \<Rightarrow> w\<lparr>w_heap := (w_heap w)(w_next w := Some (new_filestate i)),
                w_states := w_states w @ [(i, w_next w)], w_next := w_next w + 1\<rparr>)"
  define a1 where "a1 = (case map_of (w_states w) i of Some a \<Rightarrow> a | None \<Rightarrow> w_next w)"
  have w1: "mok w1 \<and> mgr_view content w1 = mgr_view content w \<and> map_of (w_states w1) i = Some a1 \<and>
      w_store w1 = w_store w"
  proof (cases "map_of (w_states w) i")
    case None
    with known obtain X where "stored_as content (w_store w) i X" by blast
    from alloc_ok [OF ok None this] None show ?thesis by (simp add: w1_def a1_def)
  qed (use ok in \<open>simp add: w1_def a1_def\<close>)
  obtain st where st: "w_heap w1 a1 = Some st" using mgr_okD(4) w1 by blast
  define st2 where "st2 = st\<lparr>fs_refcount := fs_refcount st + 1\<rparr>"
  define w2 where "w2 = w1\<lparr>w_heap := (w_heap w1)(a1 := Some st2)\<rparr>"
  have w2: "mok w2" "mgr_view content w2 = mgr_view content w" "map_of (w_states w2) i = Some a1"
    "w_store w2 = w_store w" "w_heap w2 a1 = Some st2"
    using touch_ok [of w1 i a1 st st2] w1 st by (auto simp: w2_def st2_def)
  have dict: "\<forall>j. j \<noteq> i \<longrightarrow> map_of (w_states w2) j = map_of (w_states w) j"
    by (auto simp: w2_def w1_def map_add_def split: option.split)
  have state: "st = (case map_of (w_states w) i of None \<Rightarrow> new_filestate i | Some b \<Rightarrow> the (w_heap w b))"
    using st by (auto simp: w1_def a1_def split: option.splits)
  have count: "fs_refcount st2 = (case map_of (w_states w) i of None \<Rightarrow> 0 | Some a0 \<Rightarrow>
      (case w_heap w a0 of None \<Rightarrow> 0 | Some st0 \<Rightarrow> fs_refcount st0)) + 1"
    using st by (auto simp: st2_def w1_def a1_def new_filestate_def split: option.splits)
  have "(case map_of (w_states w) i of Some a \<Rightarrow> (a, w)
     | None \<Rightarrow> (w_next w, w\<lparr>w_heap := (w_heap w)(w_next w := Some (new_filestate i)),
          w_states := w_states w @ [(i, w_next w)], w_next := w_next w + 1\<rparr>)) = (a1, w1)"
    by (simp add: w1_def a1_def split: option.split)
  with op have run: "(if fw then (case on_state w2 a1 (materialize E) of (Inl e, w3) \<Rightarrow> (Inl e, w3) | (Inr _, w3) \<Rightarrow> (Inr a1, w3))
      else (Inr a1, w2)) = (r, w')"
    unfolding wb_open_def w2_def st2_def by (simp only: Let_def prod.case st option.map)
  have "\<exists>n. st2 = (case map_of (w_states w) i of None \<Rightarrow> new_filestate i | Some b \<Rightarrow> the (w_heap w b))\<lparr>fs_refcount := n\<rparr>"
    unfolding st2_def state by blast
  from that [OF w2(3,4,5) dict this run w2(1,2) a1_def count] show thesis .
qed

lemma wb_open_ok:
  assumes ok: "mok w" and inj: "inj (sha256 E)"
    and known: "map_of (w_states w) i = None \<longrightarrow> (\<exists>X. stored_as content (w_store w) i X)"
    and op: "wb_open E w i fw = (r, w')"
  shows "mok w'" "mgr_view content w' = mgr_view content w" "reads (w_store w) (w_store w')"
    "r = Inr a \<Longrightarrow> map_of (w_states w') i = Some a \<and>
       (\<exists>st. w_heap w' a = Some st \<and> (fw \<longrightarrow> fs_mat st) \<and>
          fs_refcount st = (case map_of (w_states w) i of None \<Rightarrow> 0 | Some a0 \<Rightarrow>
             (case w_heap w a0 of None \<Rightarrow> 0 | Some st0 \<Rightarrow> fs_refcount st0)) + 1)"
    "r = Inr a \<Longrightarrow> a = (case map_of (w_states w) i of Some b \<Rightarrow> b | None \<Rightarrow> w_next w)"
proof -
  obtain a1 w2 st2 where w2: "map_of (w_states w2) i = Some a1" "w_store w2 = w_store w" "w_heap w2 a1 = Some st2"
    and op2: "(if fw then (case on_state w2 a1 (materialize E) of (Inl e, w3) \<Rightarrow> (Inl e, w3) | (Inr _, w3) \<Rightarrow> (Inr a1, w3))
      else (Inr a1, w2)) = (r, w')"
    and ok2: "mok w2" "mgr_view content w2 = mgr_view content w"
    and a1: "a1 = (case map_of (w_states w) i of Some b \<Rightarrow> b | None \<Rightarrow> w_next w)"
    and count: "fs_refcount st2 = (case map_of (w_states w) i of None \<Rightarrow> 0 | Some a0 \<Rightarrow>
       (case w_heap w a0 of None \<Rightarrow> 0 | Some st0 \<Rightarrow> fs_refcount st0)) + 1"
    by (rule wb_open_split [OF ok known op]) (rule that; assumption)
  show "r = Inr a \<Longrightarrow> a = (case map_of (w_states w) i of Some b \<Rightarrow> b | None \<Rightarrow> w_next w)"
    using op2 unfolding a1 by (auto split: if_splits prod.splits sum.splits)
  have "mok w' \<and> mgr_view content w' = mgr_view content w \<and> reads (w_store w) (w_store w') \<and>
    (r = Inr a \<longrightarrow> map_of (w_states w') i = Some a \<and> (\<exists>st. w_heap w' a = Some st \<and> (fw \<longrightarrow> fs_mat st) \<and>
       fs_refcount st = fs_refcount st2))"
  proof (cases fw)
    case False
    with op2 w2 ok2 mgr_okD(1) [OF ok2(1)] show ?thesis by (auto simp: reads_refl)
  next
    case True
    obtain q w3 where on: "on_state w2 a1 (materialize E) = (q, w3)" by force
    obtain st0 st' s' where S: "w_heap w2 a1 = Some st0" "sok (w_store w2) i st0"
      "materialize E st0 (w_store w2) = (q, st', s')" "w3 = set_state w2 a1 st' s'" "mok w3"
      "mgr_view content w3 = (mgr_view content w2)(i := vw s' st')" "mgr_view content w2 i = vw (w_store w2) st0"
      using on_state_ok [OF ok2(1) w2(1) on] materialize_state(1,2) [OF _ inj] by metis
    note M = materialize_state [OF S(2) inj S(3)]
    have "w' = w3" "r = Inr a \<longrightarrow> q = Inr () \<and> a = a1" using op2 on True by (auto split: sum.splits)
    moreover have "mgr_view content w3 = mgr_view content w" using S(6,7) M(3) ok2(2) by (simp add: fun_eq_iff)
    ultimately show ?thesis
      using S M w2 by (auto simp: set_state_def same_file_def)
  qed
  with count show "mok w'" "mgr_view content w' = mgr_view content w" "reads (w_store w) (w_store w')"
    "r = Inr a \<Longrightarrow> map_of (w_states w') i = Some a \<and>
       (\<exists>st. w_heap w' a = Some st \<and> (fw \<longrightarrow> fs_mat st) \<and>
          fs_refcount st = (case map_of (w_states w) i of None \<Rightarrow> 0 | Some a0 \<Rightarrow>
             (case w_heap w a0 of None \<Rightarrow> 0 | Some st0 \<Rightarrow> fs_refcount st0)) + 1)"
    by auto
qed

end

end
