(* ===== verification/WritebackReap.thy ===== *)
theory WritebackReap
  imports WritebackManager
begin

section \<open>Releasing, discarding, the reaper and the shutdown\<close>

lemma on_state_states: "on_state (w\<lparr>w_states := d\<rparr>) a f = (r, w2) \<longleftrightarrow>
    (\<exists>w1. on_state w a f = (r, w1) \<and> w2 = w1\<lparr>w_states := d\<rparr>)"
  by (auto simp: on_state_def set_state_def split: option.splits prod.splits)

text \<open>All reference counts set to zero, as the shutdown does.\<close>

definition idle_all :: "'b wb \<Rightarrow> 'b wb" where
  "idle_all w = w\<lparr>w_heap := (\<lambda>a. if a \<in> snd ` set (w_states w)
     then map_option (\<lambda>st. st\<lparr>fs_refcount := 0\<rparr>) (w_heap w a) else w_heap w a)\<rparr>"

lemma shutdown_idle: "shutdown E w = reap_once E (idle_all w) True"
  by (simp add: shutdown_def idle_all_def)

lemma idle_all_ok:
  assumes ok: "mgr_ok hash content binv w"
  shows "mgr_ok hash content binv (idle_all w)" "mgr_view content (idle_all w) = mgr_view content w"
    "map_of (w_states w) i = Some a \<Longrightarrow>
       \<exists>st. w_heap (idle_all w) a = Some st \<and> fs_refcount st = 0"
proof -
  let ?w = "idle_all w"
  have heap: "\<exists>st. w_heap w a = Some st \<and> w_heap ?w a = Some (st\<lparr>fs_refcount := 0\<rparr>) \<and>
      state_ok hash content binv (w_store w) i st"
    if "map_of (w_states w) i = Some a" for i a
  proof -
    have "a \<in> snd ` set (w_states w)" using map_of_SomeD [OF that] by force
    with mgr_okD(4) [OF ok that] show ?thesis by (auto simp: idle_all_def)
  qed
  show "map_of (w_states w) i = Some a \<Longrightarrow> \<exists>st. w_heap ?w a = Some st \<and> fs_refcount st = 0"
    using heap by force
  have same: "w_states ?w = w_states w" "w_store ?w = w_store w" "w_next ?w = w_next w"
    by (simp_all add: idle_all_def)
  show "mgr_ok hash content binv ?w"
  proof (rule mgr_okI)
    fix j b assume "map_of (w_states ?w) j = Some b"
    with heap [of j b] show "\<exists>st. w_heap ?w b = Some st \<and> state_ok hash content binv (w_store ?w) j st"
      by (auto simp: same)
  next
    fix b assume "w_next ?w \<le> b"
    then show "w_heap ?w b = None" using mgr_okD(5) [OF ok, of b] by (simp add: idle_all_def)
  qed (use mgr_okD(1-3) [OF ok] in \<open>simp_all add: same\<close>)
  show "mgr_view content ?w = mgr_view content w"
  proof
    fix j
    show "mgr_view content ?w j = mgr_view content w j"
      using heap [of j] by (cases "map_of (w_states w) j") (auto simp: mgr_view_def same)
  qed
qed

context blob_backend
begin

lemma clean_view: "sok s i st \<Longrightarrow> \<not> fs_dirty st \<Longrightarrow> vw s st = sbytes content s i"
  using fs_invD(9) [of "s_cs s" "rows_of s st" "sbytes content s (fs_ino st)" "{}" st]
  by (cases "fs_mat st") (auto simp: state_ok_def wb_view_def file_ok_def, simp add: file_view_def)

text \<open>Dropping a clean file state changes no file.\<close>

lemma drop_clean_ok:
  assumes ok: "mok w" and a: "map_of (w_states w) i = Some a" and st: "w_heap w a = Some st" "\<not> fs_dirty st"
  shows "mok (close_state (w\<lparr>w_states := dict_pop (w_states w) i\<rparr>) a)"
    "mgr_view content (close_state (w\<lparr>w_states := dict_pop (w_states w) i\<rparr>) a) = mgr_view content w"
proof -
  let ?w = "close_state (w\<lparr>w_states := dict_pop (w_states w) i\<rparr>) a"
  have w: "w_states ?w = dict_pop (w_states w) i" "w_store ?w = w_store w" "w_next ?w = w_next w"
    "b \<noteq> a \<Longrightarrow> w_heap ?w b = w_heap w b" for b by (simp_all add: close_state_def)
  note P = pop_state_ok [OF ok a w]
  show "mok ?w" using P(1) .
  have "sok (w_store w) i st" using mgr_okD(4) [OF ok a] st(1) by simp
  from clean_view [OF this st(2)] have "sbytes content (w_store w) i = mgr_view content w i"
    by (simp add: mgr_view_def a st(1))
  with P(2) show "mgr_view content ?w = mgr_view content w" by simp
qed

subsection \<open>release\<close>

lemma wb_release_ok:
  assumes ok: "mok w" and inj: "inj (sha256 E)" and a: "map_of (w_states w) i = Some a"
    and st0: "w_heap w a = Some st0" and rel: "wb_release E w a = (r, w')"
  shows "r = Inr () \<Longrightarrow> mok w' \<and> mgr_view content w' = mgr_view content w"
    "r = Inr () \<Longrightarrow> fs_refcount st0 \<le> 1 \<Longrightarrow> w_delay w = 0 \<Longrightarrow> map_of (w_states w') i = None"
    "r = Inl e \<Longrightarrow> map_of (w_states w') i = None \<and> sbytes content (w_store w') = sbytes content (w_store w)"
proof -
  define st where "st = st0\<lparr>fs_refcount := fs_refcount st0 - 1\<rparr>"
  define w1 where "w1 = w\<lparr>w_heap := (w_heap w)(a := Some st)\<rparr>"
  have ino: "fs_ino st = i" using mgr_okD(4) [OF ok a] st0 by (auto simp: state_ok_def st_def)
  have w1: "mok w1" "mgr_view content w1 = mgr_view content w"
    using touch_ok [OF ok a st0, of st "fs_refcount st0 - 1" "fs_idle st0"] by (simp_all add: w1_def st_def)
  have w1a: "map_of (w_states w1) i = Some a" "w_heap w1 a = Some st" "w_store w1 = w_store w"
    "w_states w1 = w_states w" by (simp_all add: w1_def a)
  have rel': "(if fs_refcount st > 0 then (Inr (), w1)
              else if w_delay w > 0 \<and> fs_dirty st
              then (Inr (), w1\<lparr>w_heap := (w_heap w1)(a := Some (st\<lparr>fs_idle := w_now w\<rparr>))\<rparr>)
              else (case on_state (w1\<lparr>w_states := dict_pop (w_states w1) (fs_ino st)\<rparr>) a
                           (flush_locked E) of
                      (Inl e, w2) \<Rightarrow> (Inl e, w2)
                    | (Inr _, w2) \<Rightarrow> (Inr (), close_state w2 a))) = (r, w')"
    using rel unfolding wb_release_def st0 option.case Let_def st_def w1_def .
  show "r = Inr () \<Longrightarrow> mok w' \<and> mgr_view content w' = mgr_view content w"
    "r = Inr () \<Longrightarrow> fs_refcount st0 \<le> 1 \<Longrightarrow> w_delay w = 0 \<Longrightarrow> map_of (w_states w') i = None"
    "r = Inl e \<Longrightarrow> map_of (w_states w') i = None \<and> sbytes content (w_store w') = sbytes content (w_store w)"
  proof -
    obtain q w2 where on: "on_state w1 a (flush_locked E) = (q, w2)" by force
    note S = sync_ok [OF w1(1) inj w1a(1) on]
    have pop: "on_state (w1\<lparr>w_states := dict_pop (w_states w1) (fs_ino st)\<rparr>) a (flush_locked E) =
        (q, w2\<lparr>w_states := dict_pop (w_states w2) i\<rparr>)"
      using on S(3) ino by (auto simp: on_state_states)
    have a2: "map_of (w_states w2) i = Some a" using S(3) w1a(1) by simp
    consider (keep) "fs_refcount st > 0" | (later) "\<not> fs_refcount st > 0" "w_delay w > 0 \<and> fs_dirty st"
      | (now) "\<not> fs_refcount st > 0" "\<not> (w_delay w > 0 \<and> fs_dirty st)" by blast
    then have "(r = Inr () \<longrightarrow> mok w' \<and> mgr_view content w' = mgr_view content w) \<and>
      (r = Inr () \<longrightarrow> fs_refcount st0 \<le> 1 \<longrightarrow> w_delay w = 0 \<longrightarrow> map_of (w_states w') i = None) \<and>
      (r = Inl e \<longrightarrow> map_of (w_states w') i = None \<and> sbytes content (w_store w') = sbytes content (w_store w))"
    proof cases
      case keep
      with rel' w1 show ?thesis by (auto simp: st_def)
    next
      case later
      then show ?thesis using rel' touch_ok [OF w1(1) w1a(1,2), of "st\<lparr>fs_idle := w_now w\<rparr>"] w1(2) by auto
    next
      case now
      show ?thesis
      proof (cases q)
        case (Inl x)
        with rel' now pop S(6) w1a(3) show ?thesis by (auto simp: map_of_dict_pop)
      next
        case (Inr u)
        then obtain st' where st': "w_heap w2 a = Some st'" "\<not> fs_dirty st'" using S(7) by auto
        have "r = Inr ()" "w' = close_state (w2\<lparr>w_states := dict_pop (w_states w2) i\<rparr>) a"
          using rel' now pop Inr by auto
        with drop_clean_ok [OF S(1) a2 st'] S(2) w1(2) show ?thesis
          by (simp add: close_state_def map_of_dict_pop)
      qed
    qed
    then show "r = Inr () \<Longrightarrow> mok w' \<and> mgr_view content w' = mgr_view content w"
      "r = Inr () \<Longrightarrow> fs_refcount st0 \<le> 1 \<Longrightarrow> w_delay w = 0 \<Longrightarrow> map_of (w_states w') i = None"
      "r = Inl e \<Longrightarrow> map_of (w_states w') i = None \<and> sbytes content (w_store w') = sbytes content (w_store w)"
      by blast+
  qed
qed

subsection \<open>discard\<close>

lemma discard_ok:
  assumes ok: "mok w"
  shows "mok (discard w i)" "w_store (discard w i) = w_store w" "map_of (w_states (discard w i)) i = None"
    "mgr_view content (discard w i) = (mgr_view content w)(i := sbytes content (w_store w) i)"
proof -
  have "mok (discard w i) \<and> w_store (discard w i) = w_store w \<and> map_of (w_states (discard w i)) i = None \<and>
    mgr_view content (discard w i) = (mgr_view content w)(i := sbytes content (w_store w) i)"
  proof (cases "map_of (w_states w) i")
    case None
    with ok show ?thesis by (simp add: discard_def fun_eq_iff mgr_view_def)
  next
    case (Some a)
    have w: "w_states (discard w i) = dict_pop (w_states w) i" "w_store (discard w i) = w_store w"
      "w_next (discard w i) = w_next w" "b \<noteq> a \<Longrightarrow> w_heap (discard w i) b = w_heap w b" for b
      using Some by (simp_all add: discard_def close_state_def)
    show ?thesis using pop_state_ok [OF ok Some w] w by (simp add: map_of_dict_pop)
  qed
  then show "mok (discard w i)" "w_store (discard w i) = w_store w" "map_of (w_states (discard w i)) i = None"
    "mgr_view content (discard w i) = (mgr_view content w)(i := sbytes content (w_store w) i)" by blast+
qed

subsection \<open>The reaper\<close>

lemma reap_flush_ok:
  assumes ok: "mok w" and inj: "inj (sha256 E)" and a: "map_of (w_states w) i = Some a"
    and st0: "w_heap w a = Some st0" and rf: "reap_flush E w a = (r, w')"
  shows "mok w'" "mgr_view content w' = mgr_view content w" "w_states w' = w_states w"
    "b \<noteq> a \<Longrightarrow> w_heap w' b = w_heap w b"
    "\<exists>st. w_heap w' a = Some st \<and> fs_ino st = i \<and> fs_refcount st = fs_refcount st0 \<and> (r = Inr () \<longrightarrow> \<not> fs_dirty st)"
    "r = Inr () \<Longrightarrow> sbytes content (w_store w') i = mgr_view content w i"
proof -
  obtain q w1 where on: "on_state w a (flush_locked E) = (q, w1)" by force
  note S = sync_ok [OF ok inj a on]
  obtain st where st: "w_heap w1 = (w_heap w)(a \<mapsto> st)" "fs_refcount st = fs_refcount st0" "fs_ino st = fs_ino st0"
    "q = Inr () \<longrightarrow> \<not> fs_dirty st"
    using S(7) st0 by (auto simp: same_file_def)
  have ino: "fs_ino st0 = i" using mgr_okD(4) [OF ok a] st0 by (auto simp: state_ok_def)
  have a1: "map_of (w_states w1) i = Some a" "w_heap w1 a = Some st" using S(3) a st(1) by simp_all
  note T = touch_ok [OF S(1) a1, of "st\<lparr>fs_idle := w_now w1\<rparr>" 0 "w_now w1"]
  have "mok w' \<and> mgr_view content w' = mgr_view content w \<and> w_states w' = w_states w \<and>
    (\<forall>b. b \<noteq> a \<longrightarrow> w_heap w' b = w_heap w b) \<and>
    (\<exists>st. w_heap w' a = Some st \<and> fs_ino st = i \<and> fs_refcount st = fs_refcount st0 \<and> (r = Inr () \<longrightarrow> \<not> fs_dirty st)) \<and>
    (r = Inr () \<longrightarrow> sbytes content (w_store w') i = mgr_view content w i)"
  proof (cases q)
    case (Inl e)
    then have "r = Inl e" "w' = w1\<lparr>w_heap := (w_heap w1)(a := Some (st\<lparr>fs_idle := w_now w1\<rparr>))\<rparr>"
      using rf on a1(2) by (simp_all add: reap_flush_def)
    with T S(2,3) st(1-3) ino show ?thesis by simp
  next
    case (Inr u)
    then have "r = Inr ()" "w' = w1" using rf on by (simp_all add: reap_flush_def)
    with S(1-4) st ino Inr show ?thesis by simp
  qed
  then show "mok w'" "mgr_view content w' = mgr_view content w" "w_states w' = w_states w"
    "b \<noteq> a \<Longrightarrow> w_heap w' b = w_heap w b"
    "\<exists>st. w_heap w' a = Some st \<and> fs_ino st = i \<and> fs_refcount st = fs_refcount st0 \<and> (r = Inr () \<longrightarrow> \<not> fs_dirty st)"
    "r = Inr () \<Longrightarrow> sbytes content (w_store w') i = mgr_view content w i"
    by blast+
qed

lemma reap_remove_ok:
  assumes ok: "mok w" and a: "map_of (w_states w) i = Some a" and st: "w_heap w a = Some st" "\<not> fs_dirty st"
  shows "mok (reap_remove w a)" "mgr_view content (reap_remove w a) = mgr_view content w"
    "w_states (reap_remove w a) = (if fs_refcount st = 0 then dict_pop (w_states w) i else w_states w)"
    "w_store (reap_remove w a) = w_store w" "b \<noteq> a \<Longrightarrow> w_heap (reap_remove w a) b = w_heap w b"
proof -
  have ino: "fs_ino st = i" using mgr_okD(4) [OF ok a] st(1) by (auto simp: state_ok_def)
  show "mok (reap_remove w a)" "mgr_view content (reap_remove w a) = mgr_view content w"
    "w_states (reap_remove w a) = (if fs_refcount st = 0 then dict_pop (w_states w) i else w_states w)"
    "w_store (reap_remove w a) = w_store w" "b \<noteq> a \<Longrightarrow> w_heap (reap_remove w a) b = w_heap w b"
    using drop_clean_ok [OF ok a st] a st ino ok
    by (simp_all add: reap_remove_def) (simp_all add: close_state_def)
qed

definition idle_states :: "'b wb \<Rightarrow> nat list \<Rightarrow> bool" where
  "idle_states w cands \<longleftrightarrow>
     distinct cands \<and>
     (\<forall>a \<in> set cands. \<exists>i st. map_of (w_states w) i = Some a \<and> w_heap w a = Some st \<and> fs_refcount st = 0)"

lemma idle_statesE:
  assumes "idle_states w cands" "a \<in> set cands"
  obtains i st where "map_of (w_states w) i = Some a" "w_heap w a = Some st" "fs_refcount st = 0"
  using assms unfolding idle_states_def by meson

lemma idle_flushed:
  assumes ok: "mok w" and inj: "inj (sha256 E)" and idle: "idle_states w (a # cands)"
    and rf: "reap_flush E w a = (r, w1)"
  shows "idle_states w1 cands"
    "r = Inr () \<Longrightarrow> mok (reap_remove w1 a) \<and> mgr_view content (reap_remove w1 a) = mgr_view content w \<and>
       idle_states (reap_remove w1 a) cands \<and>
       w_states (reap_remove w1 a) = filter (\<lambda>(j, b). b \<noteq> a) (w_states w)"
proof -
  obtain i st0 where a: "map_of (w_states w) i = Some a" "w_heap w a = Some st0" "fs_refcount st0 = 0"
    using idle_statesE [OF idle, of a] by auto
  have new: "a \<notin> set cands" "distinct cands" using idle by (simp_all add: idle_states_def)
  note F = reap_flush_ok [OF ok inj a(1,2) rf]
  have other: "\<exists>j st. map_of (w_states w) j = Some b \<and> j \<noteq> i \<and> w_heap w1 b = Some st \<and> fs_refcount st = 0"
    if b: "b \<in> set cands" for b
  proof -
    have "b \<noteq> a" using b new by auto
    moreover obtain j st where "map_of (w_states w) j = Some b" "w_heap w b = Some st" "fs_refcount st = 0"
      using idle_statesE [OF idle, of b] b by auto
    ultimately show ?thesis using F(4) [of b] a(1) by auto
  qed
  show "idle_states w1 cands" using other new(2) F(3) by (fastforce simp: idle_states_def)
  show "mok (reap_remove w1 a) \<and> mgr_view content (reap_remove w1 a) = mgr_view content w \<and>
       idle_states (reap_remove w1 a) cands \<and>
       w_states (reap_remove w1 a) = filter (\<lambda>(j, b). b \<noteq> a) (w_states w)" if r: "r = Inr ()"
  proof -
    obtain st where st: "w_heap w1 a = Some st" "\<not> fs_dirty st" "fs_refcount st = 0"
      using F(5) a(3) r by auto
    have a1: "map_of (w_states w1) i = Some a" using F(3) a(1) by simp
    note R = reap_remove_ok [OF F(1) a1 st(1,2)]
    have states: "w_states (reap_remove w1 a) = dict_pop (w_states w) i" using R(3) F(3) st(3) by simp
    have "idle_states (reap_remove w1 a) cands"
      unfolding idle_states_def
    proof (intro conjI ballI new(2))
      fix b assume b: "b \<in> set cands"
      then have "b \<noteq> a" using new by auto
      with other [OF b] R(5) [of b] show "\<exists>i st. map_of (w_states (reap_remove w1 a)) i = Some b \<and>
          w_heap (reap_remove w1 a) b = Some st \<and> fs_refcount st = 0"
        by (auto simp: states map_of_dict_pop)
    qed
    moreover have "j = i \<longleftrightarrow> b = a" if "(j, b) \<in> set (w_states w)" for j b
    proof -
      have "map_of (w_states w) j = Some b" using that mgr_okD(2) [OF ok] by simp
      with mgr_addr_inj [OF ok a(1), of j] a(1) show ?thesis by auto
    qed
    then have "dict_pop (w_states w) i = filter (\<lambda>(j, b). b \<noteq> a) (w_states w)"
      by (auto simp: dict_pop_def intro!: filter_cong)
    ultimately show ?thesis using R(1,2) F(2) states by simp
  qed
qed

text \<open>
  One pass: no file changes; only with \<open>force\<close> can it raise, and when a forced pass returns,
  every candidate has been flushed and dropped.
\<close>

lemma reap_loop_ok:
  assumes "mok w" "inj (sha256 E)" "idle_states w cands" "reap_loop E w force cands = (r, w')"
  shows "mok w' \<and> mgr_view content w' = mgr_view content w \<and> (\<not> force \<longrightarrow> r = Inr ()) \<and>
    (force \<longrightarrow> r = Inr () \<longrightarrow> w_states w' = filter (\<lambda>(i, a). a \<notin> set cands) (w_states w))"
  using assms
proof (induction cands arbitrary: w)
  case (Cons a cands)
  obtain i st0 where a: "map_of (w_states w) i = Some a" "w_heap w a = Some st0"
    by (rule idle_statesE [OF Cons.prems(3) list.set_intros(1)])
  obtain q w1 where rf: "reap_flush E w a = (q, w1)" by force
  note F = reap_flush_ok [OF Cons.prems(1,2) a rf] and I = idle_flushed [OF Cons.prems(1-3) rf]
  show ?case
  proof (cases q)
    case (Inl e)
    with Cons.IH [OF F(1) Cons.prems(2) I(1)] rf Cons.prems(4) F(1,2) show ?thesis
      by (cases force) auto
  next
    case (Inr u)
    then have N: "mok (reap_remove w1 a)" "mgr_view content (reap_remove w1 a) = mgr_view content w"
      "idle_states (reap_remove w1 a) cands"
      "w_states (reap_remove w1 a) = filter (\<lambda>(j, b). b \<noteq> a) (w_states w)"
      using I(2) by simp_all
    have "reap_loop E (reap_remove w1 a) force cands = (r, w')" using Cons.prems(4) rf Inr by simp
    from Cons.IH [OF N(1) Cons.prems(2) N(3) this] N(2,4) show ?thesis
      by (auto simp: filter_filter intro!: filter_cong)
  qed
qed simp

lemma candidates_idle:
  assumes ok: "mok w"
  shows "idle_states w (reap_candidates w force)"
  unfolding idle_states_def
proof (intro conjI ballI)
  show "distinct (reap_candidates w force)" using mgr_okD(3) [OF ok] by (simp add: reap_candidates_def)
  fix a assume "a \<in> set (reap_candidates w force)"
  then obtain i st where "(i, a) \<in> set (w_states w)" "w_heap w a = Some st" "fs_refcount st = 0"
    by (auto simp: reap_candidates_def split: option.splits)
  moreover from this have "map_of (w_states w) i = Some a" using mgr_okD(2) [OF ok] by simp
  ultimately show "\<exists>i st. map_of (w_states w) i = Some a \<and> w_heap w a = Some st \<and> fs_refcount st = 0" by blast
qed

lemma reap_once_ok:
  assumes ok: "mok w" and inj: "inj (sha256 E)" and rp: "reap_once E w False = (r, w')"
  shows "r = Inr ()" "mok w'" "mgr_view content w' = mgr_view content w"
  using reap_loop_ok [OF ok inj candidates_idle [OF ok] rp [unfolded reap_once_def]] by simp_all

lemma shutdown_ok:
  assumes ok: "mok w" and inj: "inj (sha256 E)" and sd: "shutdown E w = (r, w')"
  shows "mok w'" "mgr_view content w' = mgr_view content w"
    "r = Inr () \<Longrightarrow> w_states w' = [] \<and> sbytes content (w_store w') = mgr_view content w"
proof -
  note I = idle_all_ok [OF ok]
  have sd': "reap_loop E (idle_all w) True (reap_candidates (idle_all w) True) = (r, w')"
    using sd by (simp add: shutdown_idle reap_once_def)
  note L = reap_loop_ok [OF I(1) inj candidates_idle [OF I(1)] sd']
  have states: "w_states (idle_all w) = w_states w" by (simp add: idle_all_def)
  have "a \<in> set (reap_candidates (idle_all w) True)" if "(i, a) \<in> set (w_states w)" for i a
  proof -
    have "map_of (w_states w) i = Some a" using that mgr_okD(2) [OF ok] by simp
    from I(3) [OF this] show ?thesis using that by (force simp: reap_candidates_def states)
  qed
  then have "filter (\<lambda>(i, a). a \<notin> set (reap_candidates (idle_all w) True)) (w_states w) = []"
    by (auto simp: filter_empty_conv)
  with L I(2) states have R: "mok w' \<and> mgr_view content w' = mgr_view content w \<and> (r = Inr () \<longrightarrow> w_states w' = [])"
    by simp
  then show "mok w'" "mgr_view content w' = mgr_view content w" by simp_all
  show "w_states w' = [] \<and> sbytes content (w_store w') = mgr_view content w" if "r = Inr ()"
  proof -
    have st: "w_states w' = []" using R that by blast
    then have "mgr_view content w' = sbytes content (w_store w')" by (simp add: fun_eq_iff mgr_view_def)
    with st R show ?thesis by simp
  qed
qed

subsection \<open>Operations through a handle\<close>

lemma mgr_write_ok:
  assumes ok: "mok w" and inj: "inj (sha256 E)" and a: "map_of (w_states w) i = Some a"
    and st: "w_heap w a = Some st" "no_cut (rows_of (w_store w) st) st" and d: "d \<noteq> []"
    and on: "on_state w a (\<lambda>st s. wb_write E st s d n) = (Inr k, w')"
  shows "mok w'" "mgr_view content w' = (mgr_view content w)(i := splice (mgr_view content w i) n d)"
    "sbytes content (w_store w') = sbytes content (w_store w)" "w_states w' = w_states w"
    "\<exists>st'. w_heap w' = (w_heap w)(a \<mapsto> st') \<and> same_file st st' \<and> fs_dirty st' \<and>
       no_cut (rows_of (w_store w') st') st'"
proof -
  have sok: "sok (w_store w) i st" using mgr_okD(4) [OF ok a] st(1) by simp
  then have fok: "fok (w_store w) st" "fs_ino st = i" by (simp_all add: state_ok_def)
  obtain st' s' where wr: "wb_write E st (w_store w) d n = (Inr k, st', s')" "w' = set_state w a st' s'"
    using on st(1) by (auto simp: on_state_def split: prod.splits)
  note W = wb_write_ok [OF fok(1) inj d wr(1)]
  note W2 = W(2) [OF refl] and D = reads_data [OF W(1)]
  have cut: "no_cut (rows_of s' st') st'"
    using write_frame [OF wr(1)] st(2) D(1) W2 by (simp add: rows_of_def same_file_def)
  have "sok s' i st'" using sok W2 cut by (simp add: state_ok_def flushable_def same_file_def)
  from set_state_ok [OF ok a this reads_others [OF W(1)]] W2 st(1) a D(3) cut
  show "mok w'" "mgr_view content w' = (mgr_view content w)(i := splice (mgr_view content w i) n d)"
    "sbytes content (w_store w') = sbytes content (w_store w)" "w_states w' = w_states w"
    "\<exists>st'. w_heap w' = (w_heap w)(a \<mapsto> st') \<and> same_file st st' \<and> fs_dirty st' \<and>
       no_cut (rows_of (w_store w') st') st'"
    by (simp_all add: wr(2) mgr_view_def) (auto simp: set_state_def)
qed

lemma mgr_truncate_ok:
  assumes ok: "mok w" and inj: "inj (sha256 E)" and a: "map_of (w_states w) i = Some a"
    and st: "w_heap w a = Some st" "no_cut (rows_of (w_store w) st) st"
    and on: "on_state w a (\<lambda>st s. wb_truncate E st s n) = (Inr (), w')"
  shows "mok w'" "mgr_view content w' = (mgr_view content w)(i := resize n (mgr_view content w i))"
    "sbytes content (w_store w') = sbytes content (w_store w)" "w_states w' = w_states w"
    "\<exists>st'. w_heap w' = (w_heap w)(a \<mapsto> st') \<and> same_file st st' \<and> fs_dirty st'"
proof -
  have sok: "sok (w_store w) i st" using mgr_okD(4) [OF ok a] st(1) by simp
  then have fok: "fok (w_store w) st" "fs_ino st = i" "\<not> fs_closed st" by (simp_all add: state_ok_def)
  obtain st' s' where tr: "wb_truncate E st (w_store w) n = (Inr (), st', s')" "w' = set_state w a st' s'"
    using on st(1) by (auto simp: on_state_def split: prod.splits)
  note T = wb_truncate_ok [OF fok(1) inj fok(3) tr(1)]
  note T4 = T(4) [OF refl] and D = reads_data [OF T(1)]
  obtain q st1 s1 where mt: "materialize E st (w_store w) = (q, st1, s1)" by (metis prod_cases3)
  note M = materialize_ok [OF fok(1) inj mt]
  have "no_stale (s_cs (w_store w)) (rows_of (w_store w) st) st'"
    by (rule truncate_frame [OF tr(1) _ mt])
      (use st(2) M(1,4) fokD(5) [OF fok(1)] reads_data in \<open>auto simp: rows_of_def\<close>)
  then have "flushable s' st'" using T4 T(3) D(1,2) by (simp add: flushable_def rows_of_def same_file_def)
  then have "sok s' i st'" using T(2,3) fok by (simp add: state_ok_def same_file_def)
  from set_state_ok [OF ok a this reads_others [OF T(1)]] T(3) T4 st(1) a D(3)
  show "mok w'" "mgr_view content w' = (mgr_view content w)(i := resize n (mgr_view content w i))"
    "sbytes content (w_store w') = sbytes content (w_store w)" "w_states w' = w_states w"
    "\<exists>st'. w_heap w' = (w_heap w)(a \<mapsto> st') \<and> same_file st st' \<and> fs_dirty st'"
    by (simp_all add: tr(2) mgr_view_def) (auto simp: set_state_def)
qed

end

subsection \<open>Progress\<close>

context reliable_backend
begin

lemma sync_returns:
  assumes ok: "mok w" and inj: "inj (sha256 E)" and a: "map_of (w_states w) i = Some a"
  shows "fst (on_state w a (flush_locked E)) = Inr ()"
proof -
  obtain st where st: "w_heap w a = Some st" "sok (w_store w) i st" using mgr_okD(4) [OF ok a] by blast
  then have "fst (flush_locked E st (w_store w)) = Inr ()"
    by (intro flush_returns [OF _ inj] flushable_stale) (simp_all add: state_ok_def)
  with st(1) show ?thesis by (auto simp: on_state_def split: prod.splits)
qed

lemma reap_loop_returns:
  assumes "mok w" "inj (sha256 E)" "idle_states w cands"
  shows "fst (reap_loop E w force cands) = Inr ()"
  using assms
proof (induction cands arbitrary: w)
  case (Cons a cands)
  obtain i st0 where a: "map_of (w_states w) i = Some a"
    by (rule idle_statesE [OF Cons.prems(3) list.set_intros(1)])
  then obtain w1 where on: "on_state w a (flush_locked E) = (Inr (), w1)"
    using sync_returns [OF Cons.prems(1,2)] by (metis prod.collapse)
  then have rf: "reap_flush E w a = (Inr (), w1)" by (simp add: reap_flush_def)
  from Cons.IH [OF _ Cons.prems(2)] idle_flushed(2) [OF Cons.prems rf] rf show ?case by simp
qed simp

lemma shutdown_returns:
  assumes ok: "mok w" and inj: "inj (sha256 E)"
  shows "fst (shutdown E w) = Inr ()"
  unfolding shutdown_idle reap_once_def
  by (rule reap_loop_returns [OF idle_all_ok(1) [OF ok] inj candidates_idle [OF idle_all_ok(1) [OF ok]]])

end

subsection \<open>A new manager\<close>

lemma new_wb_ok: "store_ok hash content binv s \<Longrightarrow> mgr_ok hash content binv (new_wb s delay)"
  by (simp add: mgr_ok_def new_wb_def)

lemma new_wb_view [simp]: "mgr_view content (new_wb s delay) = sbytes content s"
  by (simp add: fun_eq_iff mgr_view_def new_wb_def)

end
