(* ===== verification/WritebackSteps.thy ===== *)
theory WritebackSteps
  imports WritebackReap
begin

section \<open>The manager under concurrent calls\<close>

text \<open>
  Calls arrive on any thread, and the reaper runs beside them. Each call is one step: its
  critical sections on one file state are serialised by that state's lock. A reaper pass is
  several steps, because it lets go of the locks between choosing the candidates, flushing
  one and dropping it, and any call can come between.
\<close>

datatype reaper = Resting | Scanning "nat list" | Flushed nat "nat list"

inductive wb_step :: "'b env \<Rightarrow> 'b wb \<times> reaper \<Rightarrow> 'b wb \<times> reaper \<Rightarrow> bool" for E where
  Open: "wb_open E w i fw = (r, w') \<Longrightarrow> wb_step E (w, p) (w', p)"
| Read: "on_state w a (\<lambda>st s. wb_read E st s n off) = (r, w') \<Longrightarrow> wb_step E (w, p) (w', p)"
| Write: "on_state w a (\<lambda>st s. wb_write E st s d off) = (r', w') \<Longrightarrow> wb_step E (w, p) (w', p)"
| Truncate: "on_state w a (\<lambda>st s. wb_truncate E st s n) = (r'', w') \<Longrightarrow> wb_step E (w, p) (w', p)"
| Flush: "wb_flush E w a = (r'', w') \<Longrightarrow> wb_step E (w, p) (w', p)"
| Sync: "wb_sync E w a = (r'', w') \<Longrightarrow> wb_step E (w, p) (w', p)"
| Release: "wb_release E w a = (r'', w') \<Longrightarrow> wb_step E (w, p) (w', p)"
| Discard: "wb_step E (w, p) (discard w i, p)"
| Tick: "wb_step E (w, p) (w\<lparr>w_now := w_now w + t\<rparr>, p)"
| Scan: "wb_step E (w, Resting) (w, Scanning (reap_candidates w False))"
| FlushOne: "reap_flush E w a = (Inr (), w') \<Longrightarrow> wb_step E (w, Scanning (a # c)) (w', Flushed a c)"
| FlushFails: "reap_flush E w a = (Inl e, w') \<Longrightarrow> wb_step E (w, Scanning (a # c)) (w', Scanning c)"
| Remove: "wb_step E (w, Flushed a c) (reap_remove w a, Scanning c)"
| Rest: "wb_step E (w, Scanning []) (w, Resting)"

inductive_cases wb_stepE: "wb_step E (w, p) (w', p')"

inductive wb_reach :: "'b env \<Rightarrow> 'b wb \<times> reaper \<Rightarrow> 'b wb \<times> reaper \<Rightarrow> bool" for E where
  Start: "wb_reach E x x"
| Step: "wb_reach E x y \<Longrightarrow> wb_step E y z \<Longrightarrow> wb_reach E x z"

subsection \<open>What every interleaving keeps\<close>

text \<open>
  The dict never names a closed file, never the wrong inode, never two states for one inode
  nor one state for two.
\<close>

definition table_ok :: "'b wb \<Rightarrow> bool" where
  "table_ok w \<longleftrightarrow>
     distinct (map fst (w_states w)) \<and> distinct (map snd (w_states w)) \<and>
     list_all (\<lambda>(i, a). case w_heap w a of None \<Rightarrow> False | Some st \<Rightarrow> fs_ino st = i \<and> \<not> fs_closed st)
       (w_states w) \<and>
     (\<forall>a. w_next w \<le> a \<longrightarrow> w_heap w a = None)"

definition same_id :: "filestate \<Rightarrow> filestate \<Rightarrow> bool" where
  "same_id st st' \<longleftrightarrow> fs_ino st' = fs_ino st \<and> fs_closed st' = fs_closed st"

lemma same_id_refl [simp]: "same_id st st"
  by (simp add: same_id_def)

text \<open>The operations on one file state also leave its count of handles alone.\<close>

definition same_ref :: "filestate \<Rightarrow> filestate \<Rightarrow> bool" where
  "same_ref st st' \<longleftrightarrow> same_id st st' \<and> fs_refcount st' = fs_refcount st"

lemma same_refD: "same_ref st st' \<Longrightarrow> same_id st st'"
  by (simp add: same_ref_def)

lemma same_ref_refl [simp]: "same_ref st st"
  by (simp add: same_ref_def same_id_def)

lemma load_loop_id: "load_loop E st s need = (r, st', s') \<Longrightarrow> same_ref st st'"
proof (induction E st s need rule: load_loop.induct)
  case (2 E st s i need)
  then show ?case by (fastforce simp: same_ref_def same_id_def split: prod.splits sum.splits if_splits)
qed simp

lemma load_id: "load E st s lo hi skip = (r, st', s') \<Longrightarrow> same_ref st st'"
  by (auto simp: load_def Let_def dest: load_loop_id split: if_splits)

lemma materialize_id: "materialize E st s = (r, st', s') \<Longrightarrow> same_ref st st'"
  by (auto simp: materialize_def Let_def same_ref_def same_id_def dest!: load_id split: if_splits option.splits prod.splits sum.splits)

lemma prepare_id: "prepare E st s a e ov = (r, st', s') \<Longrightarrow> same_ref st st'"
  by (auto simp: prepare_def Let_def same_ref_def same_id_def dest!: load_id split: if_splits)

lemma grow_id: "grow E st s n = (r, st', s') \<Longrightarrow> same_ref st st'"
  by (auto simp: grow_def Let_def same_ref_def same_id_def dest!: load_id split: if_splits prod.splits sum.splits)

lemma same_ref_trans: "same_ref a b \<Longrightarrow> same_ref b c \<Longrightarrow> same_ref a c"
  by (simp add: same_ref_def same_id_def)

lemma read_id:
  assumes rd: "wb_read E st s n a = (r, st', s')"
  shows "same_ref st st'"
proof (cases "fs_mat st")
  case False
  with rd show ?thesis by (auto simp: wb_read_def split: prod.splits)
next
  case True
  define e where "e = min (a + n) (fs_size st)"
  obtain q st1 s1 where pr: "prepare E st s a e False = (q, st1, s1)" by (metis prod_cases3)
  obtain d f where fr: "f_read (f_seek (fs_file st1) a) (e - a) = (d, f)" by force
  have "st' = st \<or> st' = st1 \<or> st' = st1\<lparr>fs_file := f\<rparr>"
    using rd unfolding wb_read_def Let_def e_def [symmetric] pr prod.case fr if_P [OF True]
    by (cases q) (simp_all split: if_splits)
  with prepare_id [OF pr] show ?thesis by (auto simp: same_ref_def same_id_def)
qed

lemma write_id:
  assumes wr: "wb_write E st s d a = (r, st', s')"
  shows "same_ref st st'"
proof -
  obtain q1 st1 s1 where mt: "materialize E st s = (q1, st1, s1)" by (metis prod_cases3)
  obtain q2 st2 s2 where pr: "prepare E st1 s1 a (a + length d) True = (q2, st2, s2)" by (metis prod_cases3)
  obtain q3 st3 s3 where gr: "grow E st2 s2 (a + length d) = (q3, st3, s3)" by (metis prod_cases3)
  have "st' = st1 \<or> st' = st2 \<or> same_ref st3 st'"
  proof (cases q1)
    case (Inl e)
    with wr mt show ?thesis by (simp add: wb_write_def)
  next
    case q1: (Inr u)
    show ?thesis
    proof (cases q2)
      case (Inl e)
      with wr mt pr q1 show ?thesis by (simp add: wb_write_def Let_def)
    next
      case q2: (Inr u)
      note eq = wr [unfolded wb_write_def mt prod.case q1 sum.case Let_def pr q2 gr]
      show ?thesis
      proof (cases q3)
        case (Inl e)
        with eq show ?thesis by simp
      next
        case (Inr u)
        with eq show ?thesis by (auto simp: same_ref_def same_id_def split: if_split_asm)
      qed
    qed
  qed
  with materialize_id [OF mt] prepare_id [OF pr] grow_id [OF gr] show ?thesis
    by (auto intro: same_ref_trans)
qed

lemma truncate_id:
  assumes tr: "wb_truncate E st s n = (r, st', s')"
  shows "same_ref st st'"
proof -
  obtain q1 st1 s1 where mt: "materialize E st s = (q1, st1, s1)" by (metis prod_cases3)
  obtain q2 st2 s2 where ld: "load E st1 s1 (n div s_cs s1) (n div s_cs s1 + 1) {} = (q2, st2, s2)"
    by (metis prod_cases3)
  obtain q3 st3 s3 where gr: "grow E st1 s1 n = (q3, st3, s3)" by (metis prod_cases3)
  have "same_ref st1 st' \<or> same_ref st2 st' \<or> same_ref st3 st'"
  proof (cases q1)
    case (Inl e)
    with tr mt show ?thesis by (simp add: wb_truncate_def)
  next
    case (Inr u)
    note eq = tr [unfolded wb_truncate_def mt prod.case Inr sum.case Let_def gr]
    show ?thesis
    proof (cases "n < fs_size st1")
      case True
      define pre where "pre = (if n mod s_cs s1 \<noteq> 0 \<and> n div s_cs s1 < length (fs_base st1)
          then (case load E st1 s1 (n div s_cs s1) (n div s_cs s1 + 1) {} of (Inl e, st2, s2) \<Rightarrow> (Inl e, st2, s2)
            | (Inr _, st2, s2) \<Rightarrow> (Inr (), st2\<lparr>fs_dirty_idx := insert (n div s_cs s1) (fs_dirty_idx st2)\<rparr>, s2))
          else (Inr (), st1, s1))"
      obtain q4 st4 s4 where pre: "pre = (q4, st4, s4)" by (metis prod_cases3)
      have "same_ref st1 st4 \<or> same_ref st2 st4"
        using pre ld by (auto simp: pre_def same_ref_def same_id_def split: sum.splits if_splits)
      moreover have "same_ref st4 st'"
        using eq [unfolded if_P [OF True], folded pre_def, unfolded pre prod.case]
        by (cases q4; cases "fs_closed st4") (auto simp: same_ref_def same_id_def)
      ultimately show ?thesis by (auto intro: same_ref_trans)
    next
      case False
      show ?thesis
        using eq [unfolded if_not_P [OF False]]
        by (cases q3; cases "fs_closed st3") (auto simp: same_ref_def same_id_def)
    qed
  qed
  with materialize_id [OF mt] load_id [OF ld] grow_id [OF gr] show ?thesis
    by (auto intro: same_ref_trans)
qed

lemma flush_id: "flush_locked E st s = (r, st', s') \<Longrightarrow> same_ref st st'"
  by (auto simp: flush_locked_def Let_def same_ref_def same_id_def split: if_splits prod.splits sum.splits)

subsubsection \<open>The table\<close>

lemma table_okD:
  assumes "table_ok w"
  shows "distinct (map fst (w_states w))" "distinct (map snd (w_states w))"
    "(i, a) \<in> set (w_states w) \<Longrightarrow> \<exists>st. w_heap w a = Some st \<and> fs_ino st = i \<and> \<not> fs_closed st"
    "w_next w \<le> a \<Longrightarrow> w_heap w a = None"
  using assms by (auto simp: table_ok_def list_all_iff split: option.splits)

lemma table_okI:
  assumes "distinct (map fst (w_states w))" "distinct (map snd (w_states w))"
    "\<And>i a. (i, a) \<in> set (w_states w) \<Longrightarrow> \<exists>st. w_heap w a = Some st \<and> fs_ino st = i \<and> \<not> fs_closed st"
    "\<And>a. w_next w \<le> a \<Longrightarrow> w_heap w a = None"
  shows "table_ok w"
  using assms by (fastforce simp: table_ok_def list_all_iff split: option.splits)

text \<open>Steps on one object keep the table when they keep its identity.\<close>

lemma table_update:
  assumes ok: "table_ok w" and w': "w_states w' = w_states w" "w_next w' = w_next w"
    and heap: "\<And>b. w_heap w' b = w_heap w b \<or>
      (\<exists>st st'. w_heap w b = Some st \<and> w_heap w' b = Some st' \<and> same_id st st')"
  shows "table_ok w'"
proof -
  have "case w_heap w' a of None \<Rightarrow> False | Some st \<Rightarrow> fs_ino st = i \<and> \<not> fs_closed st"
    if "(i, a) \<in> set (w_states w)" for i a
    using table_okD(3) [OF ok that] heap [of a] by (auto simp: same_id_def)
  moreover have "w_heap w' a = None" if "w_next w \<le> a" for a
    using table_okD(4) [OF ok that] heap [of a] by auto
  ultimately show ?thesis
    using table_okD(1,2) [OF ok] by (auto simp: table_ok_def w' list_all_iff)
qed

lemma table_on_state:
  assumes ok: "table_ok w" and on: "on_state w a f = (r, w')"
    and f: "\<And>st s r st' s'. f st s = (r, st', s') \<Longrightarrow> same_ref st st'"
  shows "table_ok w'"
proof (cases "w_heap w a")
  case None
  with on ok show ?thesis by (simp add: on_state_def)
next
  case (Some st)
  obtain q st' s' where run: "f st (w_store w) = (q, st', s')" by (metis prod_cases3)
  then have "w' = set_state w a st' s'" using on Some by (simp add: on_state_def)
  then show ?thesis
    using same_refD [OF f [OF run]] Some by (intro table_update [OF ok]) (auto simp: set_state_def)
qed

lemma table_pop:
  assumes ok: "table_ok w" and heap: "\<And>j b. (j, b) \<in> set (w_states w) \<Longrightarrow> j \<noteq> i \<Longrightarrow> w_heap w' b = w_heap w b"
    and w': "w_states w' = dict_pop (w_states w) i" "w_next w' = w_next w"
    and new: "\<And>b. w_next w \<le> b \<Longrightarrow> w_heap w' b = None"
  shows "table_ok w'"
proof -
  have "case w_heap w' a of None \<Rightarrow> False | Some st \<Rightarrow> fs_ino st = j \<and> \<not> fs_closed st"
    if "(j, a) \<in> set (w_states w')" for j a
  proof -
    have "(j, a) \<in> set (w_states w)" "j \<noteq> i" using that by (auto simp: w' dict_pop_def)
    with table_okD(3) [OF ok this(1)] heap show ?thesis by auto
  qed
  moreover have "distinct (map fst (w_states w'))" "distinct (map snd (w_states w'))"
    using table_okD(1,2) [OF ok] by (auto simp: w' dict_pop_def intro: distinct_map_filter)
  ultimately show ?thesis using new by (auto simp: table_ok_def w'(2) list_all_iff)
qed

lemma table_addr:
  assumes "table_ok w" "(i, a) \<in> set (w_states w)" "(j, a) \<in> set (w_states w)"
  shows "i = j"
  using table_okD(2) [OF assms(1)] assms(2,3)
  by (auto simp: distinct_map dest: inj_onD [where x = "(i, a)" and y = "(j, a)"])

lemma table_alloc:
  assumes ok: "table_ok w" and new: "map_of (w_states w) i = None" and ino: "fs_ino st = i" "\<not> fs_closed st"
  shows "table_ok (w\<lparr>w_heap := (w_heap w)(w_next w := Some st),
      w_states := w_states w @ [(i, w_next w)], w_next := w_next w + 1\<rparr>)"
proof -
  have used: "a \<noteq> w_next w" if "(j, a) \<in> set (w_states w)" for j a
    using table_okD(3) [OF ok that] table_okD(4) [OF ok, of "w_next w"] by auto
  then have "w_next w \<notin> snd ` set (w_states w)" by force
  moreover have "i \<notin> fst ` set (w_states w)" using new by (simp add: map_of_eq_None_iff)
  ultimately show ?thesis
  proof (intro table_okI)
    fix j a assume "(j, a) \<in> set (w_states (w\<lparr>w_heap := (w_heap w)(w_next w := Some st),
      w_states := w_states w @ [(i, w_next w)], w_next := w_next w + 1\<rparr>))"
    then consider "j = i" "a = w_next w" | "(j, a) \<in> set (w_states w)" by auto
    then show "\<exists>st'. w_heap (w\<lparr>w_heap := (w_heap w)(w_next w := Some st),
      w_states := w_states w @ [(i, w_next w)], w_next := w_next w + 1\<rparr>) a = Some st' \<and> fs_ino st' = j \<and> \<not> fs_closed st'"
      by cases (use ino used table_okD(3) [OF ok] in auto)
  qed (use table_okD(1,2,4) [OF ok] in auto)
qed

lemma table_open:
  assumes ok: "table_ok w" and op: "wb_open E w i fw = (r, w')"
  shows "table_ok w'"
proof -
  define w1 where "w1 = (case map_of (w_states w) i of Some a \<Rightarrow> w
     | None \<Rightarrow> w\<lparr>w_heap := (w_heap w)(w_next w := Some (new_filestate i)),
                w_states := w_states w @ [(i, w_next w)], w_next := w_next w + 1\<rparr>)"
  define a1 where "a1 = (case map_of (w_states w) i of Some a \<Rightarrow> a | None \<Rightarrow> w_next w)"
  define w2 where "w2 = w1\<lparr>w_heap := (w_heap w1)(a1 :=
      map_option (\<lambda>st. st\<lparr>fs_refcount := fs_refcount st + 1\<rparr>) (w_heap w1 a1))\<rparr>"
  have "table_ok w1"
    using ok table_alloc [OF ok, of i "new_filestate i"]
    by (auto simp: w1_def new_filestate_def split: option.split)
  then have ok2: "table_ok w2"
    by (rule table_update) (auto simp: w2_def same_id_def split: option.splits)
  have "(case map_of (w_states w) i of Some a \<Rightarrow> (a, w)
     | None \<Rightarrow> (w_next w, w\<lparr>w_heap := (w_heap w)(w_next w := Some (new_filestate i)),
          w_states := w_states w @ [(i, w_next w)], w_next := w_next w + 1\<rparr>)) = (a1, w1)"
    by (simp add: w1_def a1_def split: option.split)
  with op have "(if fw then (case on_state w2 a1 (materialize E) of (Inl e, w3) \<Rightarrow> (Inl e, w3) | (Inr _, w3) \<Rightarrow> (Inr a1, w3))
      else (Inr a1, w2)) = (r, w')"
    unfolding wb_open_def w2_def by (simp only: Let_def prod.case)
  then have "w' = w2 \<or> (\<exists>q. on_state w2 a1 (materialize E) = (q, w'))"
    by (cases fw; cases "on_state w2 a1 (materialize E)") (auto split: sum.splits)
  with ok2 table_on_state [OF ok2] materialize_id show ?thesis by metis
qed

lemma table_close:
  assumes ok: "table_ok w" and a: "w_heap w a = Some st" "fs_ino st = i"
  shows "table_ok (close_state (w\<lparr>w_states := dict_pop (w_states w) i\<rparr>) a)"
proof (rule table_pop [OF ok])
  fix j b assume "(j, b) \<in> set (w_states w)" "j \<noteq> i"
  with table_okD(3) [OF ok this(1)] a have "b \<noteq> a" by auto
  then show "w_heap (close_state (w\<lparr>w_states := dict_pop (w_states w) i\<rparr>) a) b = w_heap w b"
    by (simp add: close_state_def)
next
  fix b assume "w_next w \<le> b"
  then show "w_heap (close_state (w\<lparr>w_states := dict_pop (w_states w) i\<rparr>) a) b = None"
    using table_okD(4) [OF ok, of b] by (auto simp: close_state_def)
qed (simp_all add: close_state_def)

lemma table_release:
  assumes ok: "table_ok w" and rel: "wb_release E w a = (r, w')"
  shows "table_ok w'"
proof (cases "w_heap w a")
  case None
  with ok rel show ?thesis by (simp add: wb_release_def)
next
  case (Some st0)
  define st where "st = st0\<lparr>fs_refcount := fs_refcount st0 - 1\<rparr>"
  define w1 where "w1 = w\<lparr>w_heap := (w_heap w)(a := Some st)\<rparr>"
  have ok1: "table_ok w1"
    by (rule table_update [OF ok]) (auto simp: w1_def st_def Some same_id_def)
  have st: "w_heap w1 a = Some st" by (simp add: w1_def)
  have rel': "(if fs_refcount st > 0 then (Inr (), w1)
              else if w_delay w > 0 \<and> fs_dirty st
              then (Inr (), w1\<lparr>w_heap := (w_heap w1)(a := Some (st\<lparr>fs_idle := w_now w\<rparr>))\<rparr>)
              else (case on_state (w1\<lparr>w_states := dict_pop (w_states w1) (fs_ino st)\<rparr>) a
                           (flush_locked E) of
                      (Inl e, w2) \<Rightarrow> (Inl e, w2)
                    | (Inr _, w2) \<Rightarrow> (Inr (), close_state w2 a))) = (r, w')"
    using rel unfolding wb_release_def Some option.case Let_def st_def w1_def .
  obtain q w2 where on: "on_state w1 a (flush_locked E) = (q, w2)" by force
  have ok2: "table_ok w2" by (rule table_on_state [OF ok1 on flush_id])
  obtain st2 where st2: "w_heap w2 a = Some st2" "fs_ino st2 = fs_ino st"
    using on st flush_id by (fastforce simp: on_state_def set_state_def same_ref_def same_id_def split: prod.splits)
  have states: "w_states w2 = w_states w1"
    using on by (auto simp: on_state_def set_state_def split: option.splits prod.splits)
  have pop: "on_state (w1\<lparr>w_states := dict_pop (w_states w1) (fs_ino st)\<rparr>) a (flush_locked E) =
      (q, w2\<lparr>w_states := dict_pop (w_states w2) (fs_ino st)\<rparr>)"
    using on states by (auto simp: on_state_states)
  have closed: "table_ok (close_state (w2\<lparr>w_states := dict_pop (w_states w2) (fs_ino st)\<rparr>) a)"
    by (rule table_close [OF ok2 st2])
  have popped: "table_ok (w2\<lparr>w_states := dict_pop (w_states w2) (fs_ino st)\<rparr>)"
    by (rule table_pop [OF ok2]) (use table_okD(4) [OF ok2] in simp_all)
  have later: "table_ok (w1\<lparr>w_heap := (w_heap w1)(a := Some (st\<lparr>fs_idle := w_now w\<rparr>))\<rparr>)"
    by (rule table_update [OF ok1]) (auto simp: st same_id_def)
  show ?thesis
    using rel' pop ok1 closed popped later by (cases q) (auto split: if_splits)
qed

lemma table_discard: "table_ok w \<Longrightarrow> table_ok (discard w i)"
proof (cases "map_of (w_states w) i")
  case (Some a)
  assume ok: "table_ok w"
  obtain st where st: "w_heap w a = Some st" "fs_ino st = i"
    using table_okD(3) [OF ok map_of_SomeD [OF Some]] by blast
  let ?w = "w\<lparr>w_heap := (w_heap w)(a := Some (st\<lparr>fs_dirty := False\<rparr>))\<rparr>"
  have "table_ok ?w" by (rule table_update [OF ok]) (auto simp: st same_id_def)
  moreover have "discard w i = close_state (?w\<lparr>w_states := dict_pop (w_states ?w) i\<rparr>) a"
    by (simp add: discard_def Some st close_state_def)
  ultimately show ?thesis using table_close [of ?w a "st\<lparr>fs_dirty := False\<rparr>" i] st by simp
qed (simp add: discard_def)

lemma table_reap_flush:
  assumes ok: "table_ok w" and rf: "reap_flush E w a = (r, w')"
  shows "table_ok w'"
proof -
  obtain q w1 where on: "on_state w a (flush_locked E) = (q, w1)" by force
  have ok1: "table_ok w1" by (rule table_on_state [OF ok on flush_id])
  have "table_ok (w1\<lparr>w_heap := (w_heap w1)(a := map_option (\<lambda>st. st\<lparr>fs_idle := w_now w1\<rparr>) (w_heap w1 a))\<rparr>)"
    by (rule table_update [OF ok1]) (auto simp: same_id_def split: option.splits)
  with rf on ok1 show ?thesis by (cases q) (auto simp: reap_flush_def)
qed

lemma table_reap_remove: "table_ok w \<Longrightarrow> table_ok (reap_remove w a)"
  using table_close [of w a _ _] by (auto simp: reap_remove_def split: option.split)

lemma wb_step_table: "wb_step E x y \<Longrightarrow> table_ok (fst x) \<Longrightarrow> table_ok (fst y)"
proof (induction rule: wb_step.induct)
  case (Tick w p t)
  then show ?case by (auto intro: table_update simp: same_id_def)
qed (auto simp: wb_flush_def wb_sync_def split: if_splits
    intro: table_open table_on_state read_id write_id truncate_id flush_id table_release table_discard
      table_reap_flush table_reap_remove)

lemma wb_reach_table: "wb_reach E x y \<Longrightarrow> table_ok (fst x) \<Longrightarrow> table_ok (fst y)"
  by (induction rule: wb_reach.induct) (auto dest: wb_step_table)

end
