(* ===== verification/FsTree.thy ===== *)
theory FsTree
  imports FsCore MetaInv WritebackSteps
begin

section \<open>File data and the directory tree are independent\<close>

text \<open>
  Whatever the store and the manager do, and however it fails, they leave the tree alone: no
  entry, link count, type or number of an inode changes (\<open>same_tree\<close>). The requests of
  \<open>FsCore\<close> that only handle file data inherit this, the others change the tree through one
  method of \<open>Meta\<close> whose effect on well-formedness is known.
\<close>

definition ident :: "inode \<Rightarrow> ino \<times> kind \<times> int \<times> string option" where
  "ident n = (i_id n, i_kind n, i_nlink n, i_target n)"

definition same_tree :: "meta \<Rightarrow> meta \<Rightarrow> bool" where
  "same_tree m m' \<longleftrightarrow>
     dirents m' = dirents m \<and> seq m' = seq m \<and>
     (\<forall>i. map_option ident (get_inode m' i) = map_option ident (get_inode m i)) \<and>
     (keyed (inodes m) \<longrightarrow> keyed (inodes m')) \<and> (keyed (chunks m) \<longrightarrow> keyed (chunks m')) \<and>
     (keyed (blobs m) \<longrightarrow> keyed (blobs m'))"

lemma same_tree_refl [simp]: "same_tree m m"
  by (simp add: same_tree_def)

lemma same_tree_trans [trans]: "same_tree m m' \<Longrightarrow> same_tree m' m'' \<Longrightarrow> same_tree m m''"
  by (simp add: same_tree_def)

lemma same_treeD:
  assumes "same_tree m m'"
  shows "dirents m' = dirents m" "seq m' = seq m"
    "get_inode m i = None \<longleftrightarrow> get_inode m' i = None"
    "get_inode m i = Some n \<Longrightarrow> \<exists>n'. get_inode m' i = Some n' \<and> ident n' = ident n"
    "get_inode m' i = Some n' \<Longrightarrow> \<exists>n. get_inode m i = Some n \<and> ident n' = ident n"
proof -
  show "dirents m' = dirents m" "seq m' = seq m" using assms by (simp_all add: same_tree_def)
  have eq: "map_option ident (get_inode m' i) = map_option ident (get_inode m i)"
    using assms by (simp add: same_tree_def)
  then show "get_inode m i = None \<longleftrightarrow> get_inode m' i = None" by (metis map_option_is_None)
  show "\<exists>n'. get_inode m' i = Some n' \<and> ident n' = ident n" if "get_inode m i = Some n"
    using eq that by auto
  show "\<exists>n. get_inode m i = Some n \<and> ident n' = ident n" if "get_inode m' i = Some n'"
    using eq that by (metis map_option_eq_Some)
qed

lemma ident_eqD:
  "ident n = ident n' \<Longrightarrow> i_id n = i_id n' \<and> i_kind n = i_kind n' \<and> i_nlink n = i_nlink n' \<and> i_target n = i_target n'"
  by (simp add: ident_def)

lemma same_tree_dir: "same_tree m m' \<Longrightarrow> ino_is_dir m' = ino_is_dir m"
proof
  fix i assume same: "same_tree m m'"
  show "ino_is_dir m' i = ino_is_dir m i"
    using same_treeD(3-5) [OF same, of i]
    by (cases "get_inode m i"; cases "get_inode m' i") (auto simp: ino_is_dir_def dest: ident_eqD)
qed

lemma same_tree_wf:
  assumes "same_tree m m'" "meta_wf m"
  shows "meta_wf m'"
proof -
  note S = same_treeD [OF assms(1)] and dir = same_tree_dir [OF assms(1)]
  note t = meta_wfD(1) [OF assms(2)]
  have "tables_ok m'"
    unfolding tables_ok_def
  proof (intro conjI allI impI)
    show "keyed (inodes m')" "keyed (dirents m')" "keyed (chunks m')" "keyed (blobs m')"
      using assms(1) tables_okD(1-4) [OF t] by (simp_all add: same_tree_def)
    show "i_id n = i" "i \<le> seq m'" if "get_inode m' i = Some n" for i n
      using S(2) S(5) [OF that] tables_okD(5,6) [OF t, of i] by (auto dest: ident_eqD)
    show "get_inode m' c \<noteq> None" "p \<le> seq m'" if "sql_select (dirents m') (p, name) = Some c" for p name c
      using that S(1,2) S(3) [of c] tables_okD(7,8) [OF t, of p name c] by auto
    show "ino_is_dir m' ROOT_INO" using dir tables_okD(9) [OF t] by simp
  qed
  moreover have "want_nlink m' = want_nlink m" by (rule want_cong [symmetric]) (simp_all add: S dir)
  then have "owed m' (\<lambda>_. 0)"
    unfolding owed_def
  proof (intro allI impI)
    fix i n assume "get_inode m' i = Some n"
    from S(5) [OF this] obtain n0 where "get_inode m i = Some n0" "ident n = ident n0" by blast
    with meta_wfD(2) [OF assms(2)] \<open>want_nlink m' = want_nlink m\<close>
    show "i_nlink n + 0 = want_nlink m' i (i_kind n)" by (auto simp: owed_def dest!: ident_eqD)
  qed
  ultimately show ?thesis by (auto intro: meta_wfI)
qed

lemma same_tree_update:
  "(\<And>n. ident (f n) = ident n) \<Longrightarrow> same_tree m (m\<lparr>inodes := sql_update (inodes m) i f\<rparr>)"
  by (auto simp: same_tree_def option.map_comp comp_def)

subsection \<open>Index and store\<close>

lemma setattr_tree: "same_tree m (setattr m i mode uid gid sz atime mtime)"
  unfolding setattr_def
  by (auto intro!: same_tree_update simp: ident_def opt_set_def split: option.splits)

lemma set_size_tree: "same_tree m (set_size m i sz)"
  unfolding set_size_def by (rule same_tree_update) (simp add: ident_def)

lemma insert_chunks_keyed: "insert_chunks t i cs = (r, t') \<Longrightarrow> keyed t \<Longrightarrow> keyed t'"
  by (induction t i cs rule: insert_chunks.induct) (auto split: option.splits dest: keyed_insert)

lemma set_chunks_tree: "set_chunks m i cs = (r, m') \<Longrightarrow> same_tree m m'"
  by (auto simp: set_chunks_def same_tree_def Let_def
      dest: insert_chunks_keyed split: prod.splits option.splits)

lemma blob_incref_tree: "same_tree m (blob_incref m sh)"
  by (simp add: blob_incref_def same_tree_def)

lemma blob_decref_tree: "blob_decref m sh = (r, m') \<Longrightarrow> same_tree m m'"
  by (auto simp: blob_decref_def same_tree_def split: option.splits if_splits)

lemma blob_create_tree: "blob_create m sh handle len = (r, m') \<Longrightarrow> same_tree m m'"
  by (auto simp: blob_create_def same_tree_def dest: keyed_insert split: option.splits)

abbreviation tree_kept :: "'b store \<Rightarrow> 'b store \<Rightarrow> bool" where
  "tree_kept s s' \<equiv> same_tree (s_meta s) (s_meta s')"

lemma upload_blob_tree: "upload_blob E s sh d = (r, s') \<Longrightarrow> tree_kept s s'"
  by (auto simp: upload_blob_def blob_incref_tree dest: blob_create_tree
      split: prod.splits sum.splits if_splits)

lemma release_blob_tree: "release_blob E s sh = (r, s') \<Longrightarrow> tree_kept s s'"
  by (auto simp: release_blob_def dest: blob_decref_tree split: prod.splits option.splits)

lemma release_all_tree: "release_all E s shs = (r, s') \<Longrightarrow> tree_kept s s'"
proof (induction E s shs rule: release_all.induct)
  case (2 E s sh shs)
  then show ?case
    by (auto dest: release_blob_tree intro: same_tree_trans split: prod.splits sum.splits)
qed simp

lemma incref_store_tree: "tree_kept s (incref_store s sh)"
  by (simp add: incref_store_def blob_incref_tree)

lemma put_ref_tree: "put_ref E L sh d = (r, L') \<Longrightarrow> tree_kept (p_store L) (p_store L')"
  by (auto simp: put_ref_def reap_running_def incref_store_tree dest: upload_blob_tree
      split: if_splits prod.splits sum.splits option.splits)

lemma put_step_tree: "put_step E dirty rows sz L = (r, L') \<Longrightarrow> tree_kept (p_store L) (p_store L')"
  by (auto simp: put_step_def put_clean_def put_dirty_def Let_def incref_store_tree dest!: put_ref_tree
      split: if_splits prod.splits sum.splits)

lemma put_loop_tree: "put_loop E dirty rows sz L = (r, L') \<Longrightarrow> tree_kept (p_store L) (p_store L')"
proof (induction E dirty rows sz L rule: put_loop.induct)
  case (1 E dirty rows sz L)
  obtain q L1 where st: "put_step E dirty rows sz L = (q, L1)" by force
  note one = put_step_tree [OF st]
  show ?case
  proof (cases "p_off L < sz \<and> q = Inr True")
    case True
    with 1 st one show ?thesis by (simp add: put_loop.simps [of E dirty rows sz L]) (blast intro: same_tree_trans)
  next
    case False
    then have "L' = L \<or> L' = L1"
      using "1.prems" st by (auto simp: put_loop.simps [of E dirty rows sz L] split: if_splits sum.splits)
    with one show ?thesis by auto
  qed
qed

lemma rollback_tree: "rollback E e L = (r, s') \<Longrightarrow> tree_kept (p_store L) s'"
  by (auto simp: rollback_def dest!: release_all_tree split: prod.splits sum.splits)

lemma increfs_tree: "tree_kept s (foldl incref_store s shs)"
  by (induction shs arbitrary: s) (auto intro: same_tree_trans [OF incref_store_tree])

lemma put_file_tree:
  assumes put: "put_file E s i src sz dirty = (r, src', s')"
  shows "tree_kept s s'"
proof -
  define L0 where "L0 = \<lparr>p_idx = 0, p_off = 0, p_src = src, p_new = [], p_acquired = [], p_pending = [],
      p_dups = [], p_running = [], p_store = s\<rparr>"
  obtain q L where lp: "put_loop E dirty (get_chunks (s_meta s) i) sz L0 = (q, L)" by force
  have L: "tree_kept s (p_store L)" using put_loop_tree [OF lp] by (simp add: L0_def)
  note put = put [unfolded put_file_def Let_def, folded L0_def, unfolded lp prod.case]
  define err where "err = (case q of Inl e \<Rightarrow> Some e | Inr _ \<Rightarrow> first_error (map snd (p_pending L)))"
  note err = err_def
  show ?thesis
  proof (cases err)
    case (Some e)
    obtain r1 s1 where rb: "rollback E e L = (r1, s1)" by force
    have "s' = s1" using put rb Some by (cases q) (simp_all add: err)
    with same_tree_trans [OF L rollback_tree [OF rb]] show ?thesis by simp
  next
    case None
    define s1 where "s1 = foldl incref_store (p_store L) (p_dups L)"
    obtain q2 m where sc: "set_chunks (s_meta s1) i (p_new L) = (q2, m)" by force
    obtain q3 s2 where ra: "release_all E (s1\<lparr>s_meta := set_size m i (p_off L)\<rparr>)
        (map c_sha (get_chunks (s_meta s) i)) = (q3, s2)" by force
    have "same_tree (s_meta s) m"
      by (rule same_tree_trans [OF L same_tree_trans [OF increfs_tree set_chunks_tree [OF sc [unfolded s1_def]]]])
    then have "same_tree (s_meta s) m" "tree_kept s s2"
      using same_tree_trans [OF set_size_tree release_all_tree [OF ra, simplified]] by (auto intro: same_tree_trans)
    moreover have "s' = s1\<lparr>s_meta := m\<rparr> \<or> s' = s2"
      using put None ra sc by (cases q; cases q2) (simp_all add: err s1_def)
    ultimately show ?thesis by auto
  qed
qed

lemma free_file_tree:
  assumes "free_file E s i = (r, s')"
  shows "tree_kept s s'"
proof -
  obtain q s1 where ra: "release_all E s (get_chunk_shas (s_meta s) i) = (q, s1)" by force
  obtain q2 m where sc: "set_chunks (s_meta s1) i [] = (q2, m)" by force
  have "s' = s1 \<or> s' = s1\<lparr>s_meta := m\<rparr>" using assms ra sc by (cases q) (auto simp: free_file_def)
  with release_all_tree [OF ra] set_chunks_tree [OF sc] show ?thesis by (auto intro: same_tree_trans)
qed

subsection \<open>Reads and the manager\<close>

lemma read_chunk_meta: "read_chunk E s sh rng = (r, s') \<Longrightarrow> s_meta s' = s_meta s"
  by (auto simp: read_chunk_def split: option.splits prod.splits)

lemma read_parts_meta: "read_parts E s off en chs = (rs, s') \<Longrightarrow> s_meta s' = s_meta s"
proof (induction E s off en chs arbitrary: rs rule: read_parts.induct)
  case (2 E s off en ch chs)
  obtain q s1 where one: "read_part E s off en ch = (q, s1)" by force
  obtain qs where rest: "read_parts E s1 off en chs = (qs, s')"
    using "2.prems" one by (auto split: prod.splits)
  have "s_meta s1 = s_meta s" using one by (auto simp: read_part_def Let_def dest: read_chunk_meta)
  with "2.IH" [OF one [symmetric] rest] show ?case by simp
qed simp

lemma prefetch_meta: "s_meta (prefetch E s shs) = s_meta s"
  by (induction E s shs rule: prefetch.induct) (auto split: option.split prod.split)

lemma read_range_meta: "read_range E s i off n = (r, s') \<Longrightarrow> s_meta s' = s_meta s"
  by (auto simp: read_range_def Let_def prefetch_meta dest!: read_parts_meta
      split: if_splits prod.splits sum.splits)

lemma load_loop_meta: "load_loop E st s need = (r, st', s') \<Longrightarrow> s_meta s' = s_meta s"
proof (induction E st s need rule: load_loop.induct)
  case (2 E st s i need)
  then show ?case by (fastforce dest: read_chunk_meta split: prod.splits sum.splits if_splits)
qed simp

lemma load_meta: "load E st s lo hi skip = (r, st', s') \<Longrightarrow> s_meta s' = s_meta s"
  by (auto simp: load_def Let_def dest: load_loop_meta split: if_splits)

lemma materialize_meta: "materialize E st s = (r, st', s') \<Longrightarrow> s_meta s' = s_meta s"
  by (auto simp: materialize_def Let_def dest!: load_meta split: if_splits option.splits prod.splits sum.splits)

lemma prepare_meta: "prepare E st s a e ov = (r, st', s') \<Longrightarrow> s_meta s' = s_meta s"
  by (auto simp: prepare_def Let_def dest!: load_meta split: if_splits)

lemma grow_meta: "grow E st s n = (r, st', s') \<Longrightarrow> s_meta s' = s_meta s"
  by (auto simp: grow_def Let_def dest!: load_meta split: if_splits prod.splits sum.splits)

lemma wb_read_meta: "wb_read E st s n off = (r, st', s') \<Longrightarrow> s_meta s' = s_meta s"
  by (auto simp: wb_read_def Let_def dest!: prepare_meta read_range_meta split: if_splits prod.splits sum.splits)

lemma wb_write_meta:
  assumes "wb_write E st s d off = (r, st', s')"
  shows "s_meta s' = s_meta s"
proof -
  obtain q1 st1 s1 where mt: "materialize E st s = (q1, st1, s1)" by (metis prod_cases3)
  obtain q2 st2 s2 where pr: "prepare E st1 s1 off (off + length d) True = (q2, st2, s2)" by (metis prod_cases3)
  obtain q3 st3 s3 where gr: "grow E st2 s2 (off + length d) = (q3, st3, s3)" by (metis prod_cases3)
  have "s' = s1 \<or> s' = s2 \<or> s' = s3"
    using assms unfolding wb_write_def Let_def mt prod.case pr gr
    by (cases q1; cases q2; cases q3) (simp_all split: if_splits)
  with materialize_meta [OF mt] prepare_meta [OF pr] grow_meta [OF gr] show ?thesis by auto
qed

lemma flush_tree: "flush_locked E st s = (r, st', s') \<Longrightarrow> tree_kept s s'"
  by (auto simp: flush_locked_def Let_def dest: put_file_tree split: if_splits prod.splits sum.splits)

end
