(* ===== verification/FsHandles.thy ===== *)
theory FsHandles
  imports FsTree "HOL-Library.Multiset"
begin

section \<open>Handles and the counts of the manager\<close>

text \<open>
  The table of handles and the manager's dict meet in the reference counts. \<open>held w H\<close>: every
  address in the multiset \<open>H\<close> of the handles' addresses is in the dict, and its state counts at
  least the handles that use it. The count can be larger: an open that raises has counted a
  handle that never comes to be. \<open>held\<close> is what keeps the reaper and the last release of
  another handle away from a state in use.
\<close>

definition held :: "'b wb \<Rightarrow> nat multiset \<Rightarrow> bool" where
  "held w H \<longleftrightarrow>
     (\<forall>a \<in># H. a \<in> snd ` set (w_states w)) \<and>
     (\<forall>a st. w_heap w a = Some st \<longrightarrow> int (count H a) \<le> fs_refcount st)"

lemma heldD:
  assumes "held w H"
  shows "a \<in># H \<Longrightarrow> \<exists>i. (i, a) \<in> set (w_states w)"
    "w_heap w a = Some st \<Longrightarrow> int (count H a) \<le> fs_refcount st"
  using assms by (force simp: held_def)+

lemma heldI:
  assumes "\<And>a. a \<in># H \<Longrightarrow> \<exists>i. (i, a) \<in> set (w_states w)"
    "\<And>a st. w_heap w a = Some st \<Longrightarrow> int (count H a) \<le> fs_refcount st"
  shows "held w H"
  using assms unfolding held_def by (metis image_eqI snd_conv)

lemma held_less: "held w (add_mset a H) \<Longrightarrow> held w H"
proof (rule heldI)
  assume hd: "held w (add_mset a H)"
  show "\<exists>j. (j, b) \<in> set (w_states w)" if "b \<in># H" for b
    using heldD(1) [OF hd] that by simp
  show "int (count H b) \<le> fs_refcount st" if "w_heap w b = Some st" for b st
    using heldD(2) [OF hd that] by (simp split: if_splits)
qed

lemma held_table: "held w H \<Longrightarrow> table_ok w \<Longrightarrow> a \<in># H \<Longrightarrow>
    \<exists>i st. (i, a) \<in> set (w_states w) \<and> w_heap w a = Some st \<and> fs_ino st = i \<and> \<not> fs_closed st"
  using heldD(1) table_okD(3) by meson

text \<open>Changing objects but not counts.\<close>

lemma held_update:
  assumes "held w H" "w_states w' = w_states w"
    and heap: "\<And>b st'. w_heap w' b = Some st' \<Longrightarrow>
      \<exists>st. w_heap w b = Some st \<and> fs_refcount st \<le> fs_refcount st'"
  shows "held w' H"
proof (rule heldI)
  show "\<exists>i. (i, a) \<in> set (w_states w')" if "a \<in># H" for a
    using heldD(1) [OF assms(1) that] assms(2) by simp
  show "int (count H a) \<le> fs_refcount st'" if "w_heap w' a = Some st'" for a st'
    using heap [OF that] heldD(2) [OF assms(1)] by (meson order_trans)
qed

lemma on_state_dict: "on_state w a f = (r, w') \<Longrightarrow> w_states w' = w_states w \<and> w_next w' = w_next w"
  by (auto simp: on_state_def set_state_def split: option.splits prod.splits)

lemma held_on_state:
  assumes "held w H" and on: "on_state w a f = (r, w')"
    and f: "\<And>st s r st' s'. f st s = (r, st', s') \<Longrightarrow> same_ref st st'"
  shows "held w' H"
proof (cases "w_heap w a")
  case None
  with on assms(1) show ?thesis by (simp add: on_state_def)
next
  case (Some st)
  obtain q st' s' where run: "f st (w_store w) = (q, st', s')" by (metis prod_cases3)
  then have "w' = set_state w a st' s'" using on Some by (simp add: on_state_def)
  then show ?thesis
    using f [OF run] Some
    by (intro held_update [OF assms(1)]) (auto simp: set_state_def same_ref_def split: if_splits)
qed

text \<open>Dropping a state no handle uses.\<close>

lemma held_pop:
  assumes "held w H" "table_ok w" "(i, a) \<in> set (w_states w)" "a \<notin># H"
    and w': "w_states w' = dict_pop (w_states w) i"
      "\<And>b st'. b \<noteq> a \<Longrightarrow> w_heap w' b = Some st' \<Longrightarrow> w_heap w b = Some st'"
      "\<And>st'. w_heap w' a = Some st' \<Longrightarrow> 0 \<le> fs_refcount st'"
  shows "held w' H"
proof (rule heldI)
  fix b assume b: "b \<in># H"
  then obtain j where j: "(j, b) \<in> set (w_states w)" using heldD(1) [OF assms(1)] by blast
  have "b \<noteq> a" using b assms(4) by auto
  then have "j \<noteq> i"
    using table_okD(1) [OF assms(2)] j assms(3)
    by (auto simp: distinct_map dest: inj_onD [where x = "(j, b)" and y = "(i, a)"])
  with j show "\<exists>j. (j, b) \<in> set (w_states w')" by (auto simp: w' dict_pop_def)
next
  fix b st' assume "w_heap w' b = Some st'"
  then show "int (count H b) \<le> fs_refcount st'"
    using heldD(2) [OF assms(1)] w'(2,3) assms(4) by (cases "b = a") (auto simp: not_in_iff)
qed

subsection \<open>The calls of the manager\<close>

lemma held_open:
  assumes hd: "held w H" and tab: "table_ok w" and op: "wb_open E w i fw = (r, w')"
  shows "held w' H" "r = Inr a \<Longrightarrow> held w' (add_mset a H)"
    "r = Inr a \<Longrightarrow> (i, a) \<in> set (w_states w')"
proof -
  define w1 where "w1 = (case map_of (w_states w) i of Some a \<Rightarrow> w
     | None \<Rightarrow> w\<lparr>w_heap := (w_heap w)(w_next w := Some (new_filestate i)),
                w_states := w_states w @ [(i, w_next w)], w_next := w_next w + 1\<rparr>)"
  define a1 where "a1 = (case map_of (w_states w) i of Some a \<Rightarrow> a | None \<Rightarrow> w_next w)"
  define w2 where "w2 = w1\<lparr>w_heap := (w_heap w1)(a1 :=
      map_option (\<lambda>st. st\<lparr>fs_refcount := fs_refcount st + 1\<rparr>) (w_heap w1 a1))\<rparr>"
  have next_free: "w_next w \<notin># H"
    using held_table [OF hd tab] table_okD(4) [OF tab] by fastforce
  have in1: "(i, a1) \<in> set (w_states w1)"
    by (auto simp: w1_def a1_def dest: map_of_SomeD split: option.split)
  have "held w1 H"
  proof (cases "map_of (w_states w) i")
    case None
    show ?thesis
    proof (rule heldI)
      show "\<exists>j. (j, b) \<in> set (w_states w1)" if "b \<in># H" for b
        using heldD(1) [OF hd that] None by (auto simp: w1_def)
      show "int (count H b) \<le> fs_refcount st" if "w_heap w1 b = Some st" for b st
        using that heldD(2) [OF hd] next_free None
        by (auto simp: w1_def new_filestate_def not_in_iff split: if_splits)
    qed
  qed (use hd in \<open>simp add: w1_def\<close>)
  then have h2: "held w2 (add_mset a1 H)"
    using in1 rev_image_eqI [OF in1, of a1 snd] by (auto simp: held_def w2_def)
  have "(case map_of (w_states w) i of Some a \<Rightarrow> (a, w)
     | None \<Rightarrow> (w_next w, w\<lparr>w_heap := (w_heap w)(w_next w := Some (new_filestate i)),
          w_states := w_states w @ [(i, w_next w)], w_next := w_next w + 1\<rparr>)) = (a1, w1)"
    by (simp add: w1_def a1_def split: option.split)
  with op have "(if fw then (case on_state w2 a1 (materialize E) of (Inl e, w3) \<Rightarrow> (Inl e, w3) | (Inr _, w3) \<Rightarrow> (Inr a1, w3))
      else (Inr a1, w2)) = (r, w')"
    unfolding wb_open_def w2_def by (simp only: Let_def prod.case)
  then have "w' = w2 \<or> (\<exists>q. on_state w2 a1 (materialize E) = (q, w'))" and ra: "\<forall>a. r = Inr a \<longrightarrow> a = a1"
    by (cases fw; cases "on_state w2 a1 (materialize E)"; auto split: sum.splits)+
  then have h': "held w' (add_mset a1 H)" "w_states w' = w_states w1"
  proof -
    have "w_states w2 = w_states w1" by (simp add: w2_def)
    moreover have "held x (add_mset a1 H) \<and> w_states x = w_states w2"
      if "on_state w2 a1 (materialize E) = (q, x)" for q x
      using held_on_state [OF h2 that] materialize_id on_state_dict [OF that] by blast
    ultimately show "held w' (add_mset a1 H)" "w_states w' = w_states w1"
      using h2 \<open>w' = w2 \<or> (\<exists>q. on_state w2 a1 (materialize E) = (q, w'))\<close> by auto
  qed
  then show "r = Inr a \<Longrightarrow> held w' (add_mset a H)" "r = Inr a \<Longrightarrow> (i, a) \<in> set (w_states w')"
    using ra in1 by auto
  show "held w' H"
    using h'(1) by (rule held_less)
qed

lemma held_release:
  assumes hd: "held w (add_mset a H)" and tab: "table_ok w" and rel: "wb_release E w a = (r, w')"
  shows "held w' H"
proof -
  obtain i st0 where st0: "(i, a) \<in> set (w_states w)" "w_heap w a = Some st0" "fs_ino st0 = i"
    using held_table [OF hd tab, of a] by auto
  define st where "st = st0\<lparr>fs_refcount := fs_refcount st0 - 1\<rparr>"
  define w1 where "w1 = w\<lparr>w_heap := (w_heap w)(a := Some st)\<rparr>"
  have count: "int (count H a) \<le> fs_refcount st" using heldD(2) [OF hd st0(2)] by (simp add: st_def)
  have h1: "held w1 H"
    using hd count by (auto simp: held_def w1_def split: if_splits)
  have t1: "table_ok w1" by (rule table_update [OF tab]) (auto simp: w1_def st_def st0 same_id_def)
  have rel': "(if fs_refcount st > 0 then (Inr (), w1)
              else if w_delay w > 0 \<and> fs_dirty st
              then (Inr (), w1\<lparr>w_heap := (w_heap w1)(a := Some (st\<lparr>fs_idle := w_now w\<rparr>))\<rparr>)
              else (case on_state (w1\<lparr>w_states := dict_pop (w_states w1) (fs_ino st)\<rparr>) a
                           (flush_locked E) of
                      (Inl e, w2) \<Rightarrow> (Inl e, w2)
                    | (Inr _, w2) \<Rightarrow> (Inr (), close_state w2 a))) = (r, w')"
    using rel unfolding wb_release_def st0(2) option.case Let_def st_def w1_def .
  show ?thesis
  proof (cases "fs_refcount st > 0 \<or> w_delay w > 0 \<and> fs_dirty st")
    case True
    have "held (w1\<lparr>w_heap := (w_heap w1)(a := Some (st\<lparr>fs_idle := w_now w\<rparr>))\<rparr>) H"
      by (rule held_update [OF h1]) (auto simp: w1_def split: if_splits)
    then show ?thesis using rel' True h1 by (auto split: if_splits)
  next
    case False
    then have out: "a \<notin># H" "0 \<le> fs_refcount st" using count by (auto simp: not_in_iff)
    define wp where "wp = w1\<lparr>w_states := dict_pop (w_states w1) (fs_ino st)\<rparr>"
    have i1: "(fs_ino st, a) \<in> set (w_states w1)" using st0 by (simp add: w1_def st_def)
    have hp: "held wp H"
      by (rule held_pop [OF h1 t1 i1 out(1)]) (use out(2) in \<open>auto simp: wp_def w1_def\<close>)
    obtain q w2 where on: "on_state wp a (flush_locked E) = (q, w2)" by force
    have h2: "held w2 H" by (rule held_on_state [OF hp on flush_id])
    have "held (close_state w2 a) H"
      by (rule held_update [OF h2]) (auto simp: close_state_def split: if_splits)
    then show ?thesis using rel' False on h2 by (cases q) (auto simp: wp_def)
  qed
qed

lemma held_discard:
  assumes hd: "held w H" and tab: "table_ok w" and free: "\<And>a. a \<in># H \<Longrightarrow> (i, a) \<notin> set (w_states w)"
  shows "held (discard w i) H"
proof (cases "map_of (w_states w) i")
  case (Some a)
  then have i: "(i, a) \<in> set (w_states w)" by (rule map_of_SomeD)
  then obtain st where "w_heap w a = Some st" using table_okD(3) [OF tab] by blast
  moreover from heldD(2) [OF hd this] have "0 \<le> fs_refcount st" by simp
  ultimately show ?thesis
    using i free [of a] Some
    by (intro held_pop [OF hd tab i]) (auto simp: discard_def close_state_def)
qed (use hd in \<open>simp add: discard_def\<close>)

lemma held_reap_flush:
  assumes hd: "held w H" and rf: "reap_flush E w a = (r, w')"
  shows "held w' H"
proof -
  obtain q w1 where on: "on_state w a (flush_locked E) = (q, w1)" by force
  have h1: "held w1 H" by (rule held_on_state [OF hd on flush_id])
  have "held (w1\<lparr>w_heap := (w_heap w1)(a := map_option (\<lambda>st. st\<lparr>fs_idle := w_now w1\<rparr>) (w_heap w1 a))\<rparr>) H"
    by (rule held_update [OF h1]) (auto split: if_splits)
  with rf on h1 show ?thesis by (cases q) (auto simp: reap_flush_def)
qed

lemma held_reap_remove:
  assumes hd: "held w H" and tab: "table_ok w"
  shows "held (reap_remove w a) H"
proof (cases "w_heap w a")
  case (Some st)
  show ?thesis
  proof (cases "fs_refcount st = 0 \<and> map_of (w_states w) (fs_ino st) = Some a")
    case True
    then have i: "(fs_ino st, a) \<in> set (w_states w)" by (auto dest: map_of_SomeD)
    have out: "a \<notin># H" using heldD(2) [OF hd Some] True by (auto simp: not_in_iff)
    show ?thesis
      by (rule held_pop [OF hd tab i out])
        (use True Some in \<open>auto simp: reap_remove_def close_state_def\<close>)
  qed (use hd Some in \<open>auto simp: reap_remove_def\<close>)
qed (use hd in \<open>simp add: reap_remove_def\<close>)

text \<open>\<open>truncate_path\<close> holds the state of a file for its duration.\<close>

lemma truncate_path_kept:
  assumes hd: "held w H" and tab: "table_ok w" and tr: "truncate_path E w i len = (r, w')"
  shows "held w' H" "table_ok w'"
proof -
  obtain q w1 where op: "wb_open E w i True = (q, w1)" by force
  note T1 = table_open [OF tab op] and H1 = held_open [OF hd tab op]
  have "held w' H \<and> table_ok w'"
  proof (cases q)
    case (Inl e)
    with tr op T1 H1(1) show ?thesis by (simp add: truncate_path_def)
  next
    case (Inr a)
    define tail where "tail = (case on_state w1 a (\<lambda>st s. wb_truncate E st s len) of
        (Inl e, w2) \<Rightarrow> (Inl e, w2) | (Inr _, w2) \<Rightarrow> wb_flush E w2 a)"
    obtain q2 w2 where on: "on_state w1 a (\<lambda>st s. wb_truncate E st s len) = (q2, w2)" by force
    obtain q3 w3 where fl: "wb_flush E w2 a = (q3, w3)" by force
    obtain q4 w4 where tl: "tail = (q4, w4)" by force
    have T2: "table_ok w2" and H2: "held w2 (add_mset a H)"
      using table_on_state [OF T1 on] held_on_state [OF H1(2) [OF Inr] on] truncate_id by blast+
    have "table_ok w3 \<and> held w3 (add_mset a H)"
    proof (cases "w_delay w2 > 0")
      case True
      with fl T2 H2 show ?thesis by (simp add: wb_flush_def)
    next
      case False
      then have "on_state w2 a (flush_locked E) = (q3, w3)" using fl by (simp add: wb_flush_def)
      then show ?thesis
        using table_on_state [OF T2] held_on_state [OF H2] flush_id by blast
    qed
    then have W4: "table_ok w4" "held w4 (add_mset a H)"
      using tl on fl T2 H2 by (cases q2; simp add: tail_def)+
    obtain q5 w5 where rel: "wb_release E w4 a = (q5, w5)" by force
    have "w' = w5"
      using tr rel unfolding truncate_path_def op prod.case Inr sum.case tail_def [symmetric] tl
      by (cases q5) simp_all
    with table_release [OF W4(1) rel] held_release [OF W4(2,1) rel] show ?thesis by simp
  qed
  then show "held w' H" "table_ok w'" by simp_all
qed

end
