(* ===== verification/FsSteps.thy ===== *)
theory FsSteps
  imports FsHandles
begin

section \<open>The filesystem under any sequence of requests\<close>

text \<open>
  Every request of \<open>FsCore\<close> that can change something, with whatever outcome, is a step; so
  are the steps of the reaper that run beside them. The kernel only names inodes it has
  looked up, so the parent directory of a request exists. \<open>core_inv\<close> is the invariant: the
  index is well formed, every handle's file state is in the dict with its temporary file
  open, and the inodes waiting for their last handle are gone from the index.
\<close>

inductive core_step :: "'b env \<Rightarrow> 'b fs \<times> reaper \<Rightarrow> 'b fs \<times> reaper \<Rightarrow> bool" for E where
  Setattr: "core_setattr E f i mode uid gid sz atime mtime = (r, f') \<Longrightarrow> core_step E (f, p) (f', p)"
| Mkdir: "core_mkdir f parent name mode uid gid = (r, f') \<Longrightarrow> get_inode (fc_meta f) parent \<noteq> None \<Longrightarrow>
    core_step E (f, p) (f', p)"
| Rmdir: "core_rmdir f parent name = (r', f') \<Longrightarrow> core_step E (f, p) (f', p)"
| CreateNode: "core_create_node f parent name mode uid gid = (r, f') \<Longrightarrow>
    get_inode (fc_meta f) parent \<noteq> None \<Longrightarrow> core_step E (f, p) (f', p)"
| Symlink: "core_symlink f parent name target uid gid = (r, f') \<Longrightarrow>
    get_inode (fc_meta f) parent \<noteq> None \<Longrightarrow> core_step E (f, p) (f', p)"
| Link: "core_link f i parent name = (r, f') \<Longrightarrow> get_inode (fc_meta f) parent \<noteq> None \<Longrightarrow>
    core_step E (f, p) (f', p)"
| Unlink: "core_unlink E f parent name = (r', f') \<Longrightarrow> core_step E (f, p) (f', p)"
| Rename: "core_rename E f oldp oldname newp newname = (r', f') \<Longrightarrow>
    get_inode (fc_meta f) newp \<noteq> None \<Longrightarrow> core_step E (f, p) (f', p)"
| Open: "core_open E f i flags = (rh, f') \<Longrightarrow> core_step E (f, p) (f', p)"
| Create: "core_create E f parent name mode flags uid gid = (rn, f') \<Longrightarrow>
    get_inode (fc_meta f) parent \<noteq> None \<Longrightarrow> core_step E (f, p) (f', p)"
| Read: "core_read E f fh off n = (rb, f') \<Longrightarrow> core_step E (f, p) (f', p)"
| Write: "core_write E f fh off d = (rh, f') \<Longrightarrow> core_step E (f, p) (f', p)"
| Flush: "core_flush E f fh = (r', f') \<Longrightarrow> core_step E (f, p) (f', p)"
| Fsync: "core_fsync E f fh = (r', f') \<Longrightarrow> core_step E (f, p) (f', p)"
| Release: "core_release E f fh = (r', f') \<Longrightarrow> core_step E (f, p) (f', p)"
| Tick: "core_step E (f, p) (f\<lparr>fc_wb := (fc_wb f)\<lparr>w_now := w_now (fc_wb f) + t\<rparr>\<rparr>, p)"
| Scan: "core_step E (f, Resting) (f, Scanning (reap_candidates (fc_wb f) False))"
| FlushOne: "on_wb f (\<lambda>w. reap_flush E w a) = (Inr (), f') \<Longrightarrow>
    core_step E (f, Scanning (a # c)) (f', Flushed a c)"
| FlushFails: "on_wb f (\<lambda>w. reap_flush E w a) = (Inl e, f') \<Longrightarrow>
    core_step E (f, Scanning (a # c)) (f', Scanning c)"
| Remove: "core_step E (f, Flushed a c) (f\<lparr>fc_wb := reap_remove (fc_wb f) a\<rparr>, Scanning c)"
| Rest: "core_step E (f, Scanning []) (f, Resting)"

inductive core_reach :: "'b env \<Rightarrow> 'b fs \<times> reaper \<Rightarrow> 'b fs \<times> reaper \<Rightarrow> bool" for E where
  Start: "core_reach E x x"
| Step: "core_reach E x y \<Longrightarrow> core_step E y z \<Longrightarrow> core_reach E x z"

subsection \<open>The invariant\<close>

definition handles :: "'b fs \<Rightarrow> nat multiset" where
  "handles f = image_mset snd (mset (fc_fh f))"

definition core_inv :: "'b fs \<Rightarrow> bool" where
  "core_inv f \<longleftrightarrow>
     meta_wf (fc_meta f) \<and> table_ok (fc_wb f) \<and> held (fc_wb f) (handles f) \<and>
     distinct (map fst (fc_fh f)) \<and> (\<forall>fh \<in> fst ` set (fc_fh f). fh < fc_seq f) \<and>
     (\<forall>i \<in> fc_pending f. i \<le> seq (fc_meta f) \<and> get_inode (fc_meta f) i = None)"

lemma core_invD:
  assumes "core_inv f"
  shows "meta_wf (fc_meta f)" "table_ok (fc_wb f)" "held (fc_wb f) (handles f)"
    "distinct (map fst (fc_fh f))" "fh \<in> fst ` set (fc_fh f) \<Longrightarrow> fh < fc_seq f"
    "i \<in> fc_pending f \<Longrightarrow> i \<le> seq (fc_meta f) \<and> get_inode (fc_meta f) i = None"
  using assms by (auto simp: core_inv_def)

text \<open>The manager and the store at work: same handles, same tree.\<close>

lemma core_inv_wb:
  assumes inv: "core_inv f" and "table_ok w'" "held w' (handles f)" "same_tree (fc_meta f) (s_meta (w_store w'))"
  shows "core_inv (f\<lparr>fc_wb := w'\<rparr>)"
  using core_invD(1) [OF inv] same_tree_wf [OF assms(4)] same_treeD(1-3) [OF assms(4)] inv assms(2,3)
  by (auto simp: core_inv_def handles_def)

lemma dict_pop_mset:
  assumes "map_of d k = Some a" "distinct (map fst d)"
  shows "image_mset snd (mset d) = add_mset a (image_mset snd (mset (dict_pop d k)))"
  using assms
proof (induction d)
  case (Cons x d)
  obtain j b where x: "x = (j, b)" by force
  show ?case
  proof (cases "j = k")
    case True
    then have "dict_pop d k = d"
      using Cons.prems(2) x by (force simp: dict_pop_def intro!: filter_True)
    then show ?thesis using Cons.prems(1) x True by (simp add: dict_pop_def)
  next
    case False
    then show ?thesis using Cons x by (simp add: dict_pop_def)
  qed
qed simp

subsection \<open>The manager's calls and the tree\<close>

lemma on_state_tree:
  assumes on: "on_state w a f = (r, w')"
    and f: "\<And>st s r st' s'. f st s = (r, st', s') \<Longrightarrow> tree_kept s s'"
  shows "tree_kept (w_store w) (w_store w')"
proof (cases "w_heap w a")
  case None
  with on show ?thesis by (simp add: on_state_def)
next
  case (Some st)
  obtain q st' s' where run: "f st (w_store w) = (q, st', s')" by (metis prod_cases3)
  then have "w' = set_state w a st' s'" using on Some by (simp add: on_state_def)
  with f [OF run] show ?thesis by (simp add: set_state_def)
qed

lemma materialize_tree: "materialize E st s = (r, st', s') \<Longrightarrow> tree_kept s s'"
  by (simp add: materialize_meta)

lemma wb_truncate_meta:
  assumes tr: "wb_truncate E st s n = (r, st', s')"
  shows "s_meta s' = s_meta s"
proof -
  obtain q1 st1 s1 where mt: "materialize E st s = (q1, st1, s1)" by (metis prod_cases3)
  obtain q2 st2 s2 where ld: "load E st1 s1 (n div s_cs s1) (n div s_cs s1 + 1) {} = (q2, st2, s2)"
    by (metis prod_cases3)
  obtain q3 st3 s3 where gr: "grow E st1 s1 n = (q3, st3, s3)" by (metis prod_cases3)
  have "s' = s1 \<or> s' = s2 \<or> s' = s3"
  proof (cases q1)
    case (Inl e)
    with tr mt show ?thesis by (simp add: wb_truncate_def)
  next
    case (Inr u)
    note eq = tr [unfolded wb_truncate_def mt prod.case Inr sum.case Let_def gr ld]
    show ?thesis
    proof (cases "n < fs_size st1")
      case False
      show ?thesis
        using eq [unfolded if_not_P [OF False]] by (cases q3; cases "fs_closed st3") simp_all
    next
      case True
      note eq = eq [unfolded if_P [OF True]]
      show ?thesis
      proof (cases "n mod s_cs s1 \<noteq> 0 \<and> n div s_cs s1 < length (fs_base st1)")
        case True
        show ?thesis using eq [unfolded if_P [OF True]] by (cases q2; cases "fs_closed st2") simp_all
      next
        case False
        show ?thesis using eq [unfolded if_not_P [OF False]] by (cases "fs_closed st1") simp_all
      qed
    qed
  qed
  with materialize_meta [OF mt] load_meta [OF ld] grow_meta [OF gr] show ?thesis by auto
qed

lemma wb_open_tree:
  assumes op: "wb_open E w i fw = (r, w')"
  shows "tree_kept (w_store w) (w_store w')"
proof -
  define a1 where "a1 = (case map_of (w_states w) i of Some a \<Rightarrow> a | None \<Rightarrow> w_next w)"
  define w1 where "w1 = (case map_of (w_states w) i of Some a \<Rightarrow> w
     | None \<Rightarrow> w\<lparr>w_heap := (w_heap w)(w_next w := Some (new_filestate i)),
                w_states := w_states w @ [(i, w_next w)], w_next := w_next w + 1\<rparr>)"
  define w2 where "w2 = w1\<lparr>w_heap := (w_heap w1)(a1 :=
      map_option (\<lambda>st. st\<lparr>fs_refcount := fs_refcount st + 1\<rparr>) (w_heap w1 a1))\<rparr>"
  have w2: "w_store w2 = w_store w" by (simp add: w2_def w1_def split: option.split)
  have "(case map_of (w_states w) i of Some a \<Rightarrow> (a, w)
     | None \<Rightarrow> (w_next w, w\<lparr>w_heap := (w_heap w)(w_next w := Some (new_filestate i)),
          w_states := w_states w @ [(i, w_next w)], w_next := w_next w + 1\<rparr>)) = (a1, w1)"
    by (simp add: w1_def a1_def split: option.split)
  with op have "(if fw then (case on_state w2 a1 (materialize E) of (Inl e, w3) \<Rightarrow> (Inl e, w3) | (Inr _, w3) \<Rightarrow> (Inr a1, w3))
      else (Inr a1, w2)) = (r, w')"
    unfolding wb_open_def w2_def by (simp only: Let_def prod.case)
  then have "w' = w2 \<or> (\<exists>q. on_state w2 a1 (materialize E) = (q, w'))"
    by (cases fw; cases "on_state w2 a1 (materialize E)") (auto split: sum.splits)
  then show ?thesis using on_state_tree [of w2 a1 "materialize E"] materialize_tree w2 by fastforce
qed

lemma wb_flush_tree: "wb_flush E w a = (r, w') \<Longrightarrow> tree_kept (w_store w) (w_store w')"
  using on_state_tree [of w a "flush_locked E" r w'] flush_tree
  by (fastforce simp: wb_flush_def split: if_splits)

lemma wb_release_tree:
  assumes rel: "wb_release E w a = (r, w')"
  shows "tree_kept (w_store w) (w_store w')"
proof (cases "w_heap w a")
  case None
  with rel show ?thesis by (simp add: wb_release_def)
next
  case (Some st0)
  define st where "st = st0\<lparr>fs_refcount := fs_refcount st0 - 1\<rparr>"
  define wp where "wp = w\<lparr>w_heap := (w_heap w)(a := Some st), w_states := dict_pop (w_states w) (fs_ino st)\<rparr>"
  obtain q w2 where on: "on_state wp a (flush_locked E) = (q, w2)" by force
  have "tree_kept (w_store w) (w_store w2)"
    using on_state_tree [OF on] flush_tree by (fastforce simp: wp_def)
  moreover have "w_store w' = w_store w \<or> w_store w' = w_store w2"
    using rel on [unfolded wp_def] unfolding wb_release_def Some option.case Let_def st_def
    by (cases q) (auto simp: close_state_def split: if_splits)
  ultimately show ?thesis by auto
qed

lemma truncate_path_tree:
  assumes tr: "truncate_path E w i len = (r, w')"
  shows "tree_kept (w_store w) (w_store w')"
proof -
  obtain q w1 where op: "wb_open E w i True = (q, w1)" by force
  show ?thesis
  proof (cases q)
    case (Inl e)
    with tr op wb_open_tree [OF op] show ?thesis by (simp add: truncate_path_def)
  next
    case (Inr a)
    obtain q2 w2 where on: "on_state w1 a (\<lambda>st s. wb_truncate E st s len) = (q2, w2)" by force
    obtain q3 w3 where fl: "wb_flush E w2 a = (q3, w3)" by force
    define w4 where "w4 = (case q2 of Inl e \<Rightarrow> w2 | Inr _ \<Rightarrow> w3)"
    obtain q5 w5 where rel: "wb_release E w4 a = (q5, w5)" by force
    have "tree_kept (w_store w1) (w_store w2)"
      using on_state_tree [OF on] wb_truncate_meta by (metis same_tree_refl)
    then have "tree_kept (w_store w1) (w_store w4)"
      using wb_flush_tree [OF fl] by (auto simp: w4_def intro: same_tree_trans split: sum.split)
    then have "tree_kept (w_store w) (w_store w5)"
      using wb_open_tree [OF op] wb_release_tree [OF rel] by (blast intro: same_tree_trans)
    moreover have "w' = w5"
      using tr rel unfolding truncate_path_def op Inr prod.case sum.case on
      by (cases q2; cases q5) (simp_all add: fl w4_def)
    ultimately show ?thesis by simp
  qed
qed

lemma discard_store [simp]: "w_store (discard w i) = w_store w"
  by (simp add: discard_def close_state_def split: option.split)

lemma reap_remove_store [simp]: "w_store (reap_remove w a) = w_store w"
  by (simp add: reap_remove_def close_state_def split: option.split)

lemma reap_flush_tree: "reap_flush E w a = (r, w') \<Longrightarrow> tree_kept (w_store w) (w_store w')"
  using on_state_tree [of w a "flush_locked E"] flush_tree
  by (fastforce simp: reap_flush_def split: prod.splits sum.splits)

subsection \<open>The index's methods\<close>

text \<open>Inode numbers that are gone stay gone, since the counter only grows.\<close>

definition no_revival :: "meta \<Rightarrow> meta \<Rightarrow> bool" where
  "no_revival m m' \<longleftrightarrow>
     seq m \<le> seq m' \<and> (\<forall>i \<le> seq m. get_inode m i = None \<longrightarrow> get_inode m' i = None)"

lemma on_meta_run:
  assumes "on_meta f op = (r, f')"
  shows "op (fc_meta f) = (r, fc_meta f')"
    "f' = f\<lparr>fc_wb := (fc_wb f)\<lparr>w_store := (fc_store f)\<lparr>s_meta := fc_meta f'\<rparr>\<rparr>\<rparr>"
  using assms by (auto simp: on_meta_def on_store_def on_wb_def split: prod.splits)

lemma core_inv_meta:
  assumes inv: "core_inv f" and on: "on_meta f op = (r, f')"
    and m': "meta_wf (fc_meta f')" "no_revival (fc_meta f) (fc_meta f')"
  shows "core_inv f'"
proof -
  define m' where "m' = fc_meta f'"
  have f': "f' = f\<lparr>fc_wb := (fc_wb f)\<lparr>w_store := (fc_store f)\<lparr>s_meta := m'\<rparr>\<rparr>\<rparr>"
    using on_meta_run(2) [OF on] by (simp add: m'_def)
  have "table_ok (fc_wb f')" using core_invD(2) [OF inv] by (simp add: f' table_ok_def)
  moreover have "held (fc_wb f') (handles f')"
    using core_invD(3) [OF inv] by (simp add: f' held_def handles_def)
  ultimately show "core_inv f'"
    using m' inv unfolding core_inv_def no_revival_def m'_def [symmetric] by (auto simp: f')
qed

lemma create_revival:
  assumes "create m parent name mode knd uid gid target = (r, m')"
  shows "no_revival m m'"
  using assms
  by (auto simp: create_def Let_def no_revival_def get_inode_def add_nlink_def sql_select_def map_add_def
      select_update [unfolded sql_select_def] split: option.splits if_splits)

lemma link_revival: "link m parent name i = (r, m') \<Longrightarrow> no_revival m m'"
  by (auto simp: link_def no_revival_def get_inode_def select_update split: option.splits)

lemma unlink_revival:
  assumes "meta_wf m" "unlink_dirent m parent name = (r, m')"
  shows "no_revival m m'"
  using assms(1)
proof (cases rule: unlink_dirent_cases [of m parent name])
  case missing
  with assms(2) show ?thesis by (simp add: no_revival_def)
next
  case (gone c n m3 r3)
  have "get_inode m3 i = None" if "get_inode m i = None" for i
    using gone(6) [of i] that by simp
  then show ?thesis
    using gone(10,12) assms(2) by (auto simp: no_revival_def delete_inode_def [of m3] get_inode_def select_delete)
qed

lemma seq_add_nlink: "seq (add_nlink m i d) = seq m"
  by (simp add: add_nlink_def)

lemma rename_revival:
  assumes "meta_wf m" "rename m op oname np nname = (r, m')"
  shows "no_revival m m'"
proof (cases "sql_select (dirents m) (op, oname)")
  case None
  with assms(2) show ?thesis by (simp add: rename_def no_revival_def)
next
  case (Some src)
  obtain sn rep m1 where "get_inode m src = Some sn"
    and rr: "rename_replace m np nname = (Inr rep, m1)"
    and res: "rename m op oname np nname =
       (Inr rep, let m2 = m1\<lparr>dirents := sql_rekey (dirents m1) (op, oname) (np, nname)\<rparr>
                 in if i_kind sn = KDir \<and> op \<noteq> np
                    then add_nlink (add_nlink m2 op (- 1)) np 1 else m2)"
    by (rule rename_Inr [OF assms(1) Some])
  note R = rename_replace_ok(6,8) [OF assms(1) rr]
  have "get_inode m1 i = None" if "get_inode m i = None" for i
    using R(2) [of i] that by (cases "get_inode m1 i") fastforce+
  moreover have "seq m' = seq m1" "get_inode m' i = None \<longleftrightarrow> get_inode m1 i = None" for i
    using assms(2) res by (auto simp: Let_def seq_add_nlink split: if_splits)
  ultimately show ?thesis using R(1) by (auto simp: no_revival_def)
qed

lemma unlink_gone:
  assumes "meta_wf m" "sql_select (dirents m) (parent, name) = Some c"
    and "unlink_dirent m parent name = (Inr (c', k), m')" "k \<le> 0"
  shows "get_inode m' c = None"
  using assms(1)
proof (cases rule: unlink_dirent_cases [of m parent name])
  case missing
  with assms(2) show ?thesis by simp
next
  case (gone d n m3 r)
  with assms show ?thesis by auto
qed

lemma rename_gone:
  assumes "meta_wf m" "sql_select (dirents m) (op, oname) = Some src"
    and "rename m op oname np nname = (Inr (Some c), m')"
  shows "get_inode m' c = None \<and> c \<le> seq m \<and> get_inode m c \<noteq> None"
proof -
  obtain sn rep m1 where "get_inode m src = Some sn"
    and rr: "rename_replace m np nname = (Inr rep, m1)"
    and res: "rename m op oname np nname =
       (Inr rep, let m2 = m1\<lparr>dirents := sql_rekey (dirents m1) (op, oname) (np, nname)\<rparr>
                 in if i_kind sn = KDir \<and> op \<noteq> np
                    then add_nlink (add_nlink m2 op (- 1)) np 1 else m2)"
    by (rule rename_Inr [OF assms(1,2)])
  have m': "rep = Some c" "get_inode m' c = None \<longleftrightarrow> get_inode m1 c = None"
    using assms(3) res by (auto simp: Let_def split: if_splits)
  from assms(1) show ?thesis
  proof (cases rule: rename_replace_cases [of m np nname])
    case free
    with rr m' show ?thesis by simp
  next
    case (taken c' n m3 r)
    with rr m' tables_okD(6) [OF meta_wfD(1) [OF assms(1)]] show ?thesis by (auto split: if_splits)
  qed
qed

lemma lookup_None:
  assumes "meta_wf m" "lookup m parent name = None"
  shows "sql_select (dirents m) (parent, name) = None"
  using tables_okD(7) [OF meta_wfD(1) [OF assms(1)]] assms(2)
  by (force simp: lookup_def split: option.splits)

subsection \<open>The requests\<close>

lemma on_wbE:
  assumes "on_wb f op = (r, f')"
  obtains w' where "op (fc_wb f) = (r, w')" "f' = f\<lparr>fc_wb := w'\<rparr>"
  using assms by (auto simp: on_wb_def split: prod.splits)

lemma inv_truncate_path:
  assumes inv: "core_inv f" and on: "on_wb f (\<lambda>w. truncate_path E w i n) = (r, f')"
  shows "core_inv f'" "same_tree (fc_meta f) (fc_meta f')"
proof -
  obtain w' where w': "truncate_path E (fc_wb f) i n = (r, w')" "f' = f\<lparr>fc_wb := w'\<rparr>"
    by (rule on_wbE [OF on])
  note tree = truncate_path_tree [OF w'(1)]
  show "core_inv f'"
    unfolding w'(2)
    by (rule core_inv_wb [OF inv _ _ tree])
      (rule truncate_path_kept [OF core_invD(3,2) [OF inv] w'(1)])+
  show "same_tree (fc_meta f) (fc_meta f')" using tree by (simp add: w'(2))
qed

lemma inv_open_new:
  assumes inv: "core_inv f" and on: "on_wb f (\<lambda>w. wb_open E w i fw) = (r, f')"
  shows "core_inv f'" "r = Inr a \<Longrightarrow> core_inv (snd (new_fh f' a))"
proof -
  obtain w' where w': "wb_open E (fc_wb f) i fw = (r, w')" "f' = f\<lparr>fc_wb := w'\<rparr>"
    by (rule on_wbE [OF on])
  note H = held_open [OF core_invD(3,2) [OF inv] w'(1)]
  show inv': "core_inv f'"
    unfolding w'(2) by (rule core_inv_wb [OF inv table_open [OF core_invD(2) [OF inv] w'(1)] H(1)
        wb_open_tree [OF w'(1)]])
  assume r: "r = Inr a"
  have "fc_seq f' \<notin> fst ` set (fc_fh f')" using core_invD(5) [OF inv', of "fc_seq f'"] by auto
  moreover from this have "dict_pop (fc_fh f') (fc_seq f') = fc_fh f'"
    by (force simp: dict_pop_def intro!: filter_True)
  ultimately show "core_inv (snd (new_fh f' a))"
    using inv' H(2) [OF r] core_invD(5) [OF inv']
    by (auto simp: core_inv_def new_fh_def handles_def w'(2) less_Suc_eq)
qed

lemma inv_on_handle:
  assumes inv: "core_inv f" and on: "on_handle f fh op = (r, f')"
    and op: "\<And>a r w'. op a (fc_wb f) = (r, w') \<Longrightarrow>
      table_ok w' \<and> held w' (handles f) \<and> same_tree (fc_meta f) (s_meta (w_store w'))"
  shows "core_inv f'"
proof (cases "get_state f fh")
  case (Inl e)
  with on inv show ?thesis by (simp add: on_handle_def)
next
  case (Inr a)
  with on obtain w' where "op a (fc_wb f) = (r, w')" "f' = f\<lparr>fc_wb := w'\<rparr>"
    by (auto simp: on_handle_def elim: on_wbE)
  with op core_inv_wb [OF inv] show ?thesis by blast
qed

lemma inv_state_op:
  assumes inv: "core_inv f" and on: "on_state (fc_wb f) a op = (r, w')"
    and op: "\<And>st s r st' s'. op st s = (r, st', s') \<Longrightarrow> same_ref st st' \<and> tree_kept s s'"
  shows "table_ok w' \<and> held w' (handles f) \<and> same_tree (fc_meta f) (s_meta (w_store w'))"
  using table_on_state [OF core_invD(2) [OF inv] on] held_on_state [OF core_invD(3) [OF inv] on]
    on_state_tree [OF on] op by blast

lemma is_open_iff:
  assumes "core_inv f"
  shows "is_open f i \<longleftrightarrow> (\<exists>a \<in># handles f. (i, a) \<in> set (w_states (fc_wb f)))"
proof -
  have "map_option fs_ino (w_heap (fc_wb f) a) = Some i \<longleftrightarrow> (i, a) \<in> set (w_states (fc_wb f))"
    if "a \<in># handles f" for a
  proof -
    obtain j st where "(j, a) \<in> set (w_states (fc_wb f))" "w_heap (fc_wb f) a = Some st" "fs_ino st = j"
      using held_table [OF core_invD(3) [OF assms] core_invD(2) [OF assms]] \<open>a \<in># handles f\<close> by blast
    moreover from this have "(i, a) \<in> set (w_states (fc_wb f)) \<Longrightarrow> i = j"
      using table_addr [OF core_invD(2) [OF assms]] by blast
    ultimately show ?thesis by auto
  qed
  moreover have "is_open f i \<longleftrightarrow> (\<exists>a \<in># handles f. map_option fs_ino (w_heap (fc_wb f) a) = Some i)"
    by (force simp: is_open_def list_ex_iff handles_def)
  ultimately show ?thesis by blast
qed

lemma inv_drop_file:
  assumes inv: "core_inv f" and closed: "\<not> is_open f i" and dr: "drop_file E f i = (r, f')"
  shows "core_inv f'" "same_tree (fc_meta f) (fc_meta f')"
proof -
  let ?w = "discard (fc_wb f) i"
  obtain q s' where fr: "free_file E (fc_store f) i = (q, s')" by force
  have f': "f' = f\<lparr>fc_wb := ?w\<lparr>w_store := s'\<rparr>\<rparr>"
    using dr fr by (simp add: drop_file_def on_store_def on_wb_def)
  have "held ?w (handles f)"
    by (rule held_discard [OF core_invD(3,2) [OF inv]]) (use closed is_open_iff [OF inv] in blast)
  then have hd: "held (?w\<lparr>w_store := s'\<rparr>) (handles f)" by (simp add: held_def)
  have tab: "table_ok (?w\<lparr>w_store := s'\<rparr>)"
    using table_discard [OF core_invD(2) [OF inv], of i] by (simp add: table_ok_def)
  note tree = free_file_tree [OF fr]
  show "core_inv f'" unfolding f' by (rule core_inv_wb [OF inv tab hd]) (simp add: tree)
  show "same_tree (fc_meta f) (fc_meta f')" using tree by (simp add: f')
qed

lemma inv_free_or_defer:
  assumes inv: "core_inv f" and i: "i \<le> seq (fc_meta f)" "get_inode (fc_meta f) i = None"
    and dr: "free_or_defer E f i = (r, f')"
  shows "core_inv f'"
proof (cases "is_open f i")
  case True
  then have "f' = f\<lparr>fc_pending := insert i (fc_pending f)\<rparr>" using dr by (simp add: free_or_defer_def)
  with i inv show ?thesis by (simp add: core_inv_def handles_def)
next
  case False
  with dr inv_drop_file(1) [OF inv False] show ?thesis by (simp add: free_or_defer_def)
qed

lemma inv_unlink:
  assumes inv: "core_inv f" and un: "core_unlink E f parent name = (r, f')"
  shows "core_inv f'"
proof (cases "lookup (fc_meta f) parent name")
  case None
  with un inv show ?thesis by (simp add: core_unlink_def)
next
  case (Some n)
  note wf = core_invD(1) [OF inv]
  obtain q f1 where on: "on_meta f (\<lambda>m. unlink_dirent m parent name) = (q, f1)" by force
  note run = on_meta_run(1) [OF on]
  have M: "core_inv f1"
    by (rule core_inv_meta [OF inv on _ unlink_revival [OF wf run]])
      (use unlink_dirent_wf [OF wf, of parent name] run in simp)
  show ?thesis
  proof (cases "\<not> is_dir n \<and> (\<exists>c k. q = Inr (c, k) \<and> k \<le> 0)")
    case False
    then have "f' = f \<or> f' = f1"
      using un Some on by (auto simp: core_unlink_def split: if_splits sum.splits)
    with M inv show ?thesis by auto
  next
    case True
    then obtain c k where q: "q = Inr (c, k)" "k \<le> 0" and dir: "\<not> is_dir n" by blast
    have id: "sql_select (dirents (fc_meta f)) (parent, name) = Some (i_id n)"
      using Some tables_okD(5) [OF meta_wfD(1) [OF wf]] by (auto simp: lookup_def split: option.splits)
    then have old: "i_id n \<le> seq (fc_meta f)"
      using tables_okD(6,7) [OF meta_wfD(1) [OF wf]] by blast
    have gone: "get_inode (fc_meta f1) (i_id n) = None" "seq (fc_meta f) \<le> seq (fc_meta f1)"
      using unlink_gone [OF wf id] run q unlink_revival [OF wf run] by (auto simp: no_revival_def)
    have "free_or_defer E f1 (i_id n) = (r, f')"
      using un Some on q dir by (simp add: core_unlink_def)
    from inv_free_or_defer [OF M order_trans [OF old gone(2)] gone(1) this] show ?thesis .
  qed
qed

lemma inv_rename:
  assumes inv: "core_inv f" and rn: "core_rename E f oldp oldname newp newname = (r, f')"
    and new: "get_inode (fc_meta f) newp \<noteq> None"
  shows "core_inv f'"
proof -
  note wf = core_invD(1) [OF inv]
  have np: "newp \<le> seq (fc_meta f)" using tables_okD(6) [OF meta_wfD(1) [OF wf]] new by auto
  obtain q f1 where on: "on_meta f (\<lambda>m. rename m oldp oldname newp newname) = (q, f1)" by force
  note run = on_meta_run(1) [OF on]
  have M: "core_inv f1"
    by (rule core_inv_meta [OF inv on _ rename_revival [OF wf run]])
      (use rename_wf [OF wf np, of oldp oldname newname] run in simp)
  have "f' = f \<or> f' = f1 \<or> (\<exists>c. q = Inr (Some c) \<and> free_or_defer E f1 c = (r, f'))"
    using rn on by (auto simp: core_rename_def split: if_splits option.splits sum.splits)
  moreover have "core_inv f'" if c: "q = Inr (Some c)" "free_or_defer E f1 c = (r, f')" for c
  proof -
    note run = run [unfolded c(1)]
    have "sql_select (dirents (fc_meta f)) (oldp, oldname) \<noteq> None"
      using run by (auto simp: rename_def split: option.splits)
    then obtain src where src: "sql_select (dirents (fc_meta f)) (oldp, oldname) = Some src" by blast
    have gone: "get_inode (fc_meta f1) c = None" "c \<le> seq (fc_meta f)"
      using rename_gone [OF wf src run] by blast+
    have "seq (fc_meta f) \<le> seq (fc_meta f1)"
      using rename_revival [OF wf run] by (simp add: no_revival_def)
    with inv_free_or_defer [OF M _ gone(1) c(2)] gone(2) show ?thesis by simp
  qed
  ultimately show ?thesis using inv M by blast
qed

lemma inv_make:
  assumes inv: "core_inv f" and parent: "get_inode (fc_meta f) parent \<noteq> None"
    and free: "lookup (fc_meta f) parent name = None"
    and on: "on_meta f (\<lambda>m. create m parent name mode knd uid gid target) = (r, f')"
  shows "core_inv f'"
proof -
  note run = on_meta_run(1) [OF on] and wf = core_invD(1) [OF inv]
  have "meta_wf (fc_meta f')"
    using create_wf [OF wf lookup_None [OF wf free] parent run] by simp
  then show ?thesis by (rule core_inv_meta [OF inv on _ create_revival [OF run]])
qed

lemma absent_Inr: "ensure_absent f parent name = Inr u \<longleftrightarrow> lookup (fc_meta f) parent name = None"
  by (auto simp: ensure_absent_def)

lemma inv_makers:
  assumes inv: "core_inv f" and parent: "get_inode (fc_meta f) parent \<noteq> None"
  shows "core_mkdir f parent name mode uid gid = (r, f') \<Longrightarrow> core_inv f'"
    "core_create_node f parent name mode uid gid = (r, f') \<Longrightarrow> core_inv f'"
    "core_symlink f parent name target uid gid = (r, f') \<Longrightarrow> core_inv f'"
  using inv inv_make [OF inv parent]
  by (auto simp: core_mkdir_def core_create_node_def core_symlink_def absent_Inr split: sum.splits)

lemma inv_link:
  assumes inv: "core_inv f" and parent: "get_inode (fc_meta f) parent \<noteq> None"
    and ln: "core_link f i parent name = (r, f')"
  shows "core_inv f'"
proof (cases "get_inode (fc_meta f) i")
  case None
  with ln inv show ?thesis by (simp add: core_link_def)
next
  case (Some n)
  note wf = core_invD(1) [OF inv]
  obtain q f1 where on: "on_meta f (\<lambda>m. link m parent name i) = (q, f1)" by force
  note run = on_meta_run(1) [OF on]
  have "f' = f \<or> f' = f1 \<and> \<not> is_dir n"
    using ln on Some by (auto simp: core_link_def split: if_splits sum.splits)
  moreover have "core_inv f1" if dir: "\<not> is_dir n"
  proof (rule core_inv_meta [OF inv on])
    have "parent \<le> seq (fc_meta f)" using tables_okD(6) [OF meta_wfD(1) [OF wf]] parent by auto
    with run dir Some wf show "meta_wf (fc_meta f1)"
      by (cases q; cases "sql_insert (dirents (fc_meta f)) (parent, name) i")
        (auto simp: is_dir_def intro: link_wf, auto simp: link_def)
    show "no_revival (fc_meta f) (fc_meta f1)" by (rule link_revival [OF run])
  qed
  ultimately show ?thesis using inv by blast
qed

lemma inv_rmdir:
  assumes inv: "core_inv f" and rm: "core_rmdir f parent name = (r, f')"
  shows "core_inv f'"
proof -
  note wf = core_invD(1) [OF inv]
  obtain q f1 where on: "on_meta f (\<lambda>m. unlink_dirent m parent name) = (q, f1)" by force
  note run = on_meta_run(1) [OF on]
  have "core_inv f1"
    by (rule core_inv_meta [OF inv on _ unlink_revival [OF wf run]])
      (use unlink_dirent_wf [OF wf, of parent name] run in simp)
  moreover have "f' = f \<or> f' = f1"
    using rm on by (auto simp: core_rmdir_def split: if_splits option.splits sum.splits)
  ultimately show ?thesis using inv by blast
qed

lemma inv_setattr:
  assumes inv: "core_inv f" and sa: "core_setattr E f i mode uid gid sz atime mtime = (r, f')"
  shows "core_inv f'"
proof (cases "get_inode (fc_meta f) i")
  case None
  with sa inv show ?thesis by (simp add: core_setattr_def)
next
  case (Some n)
  obtain q f1 where sz: "(case sz of None \<Rightarrow> (Inr (), f)
      | Some k \<Rightarrow> if \<not> is_dir n \<and> k \<noteq> i_size n then on_wb f (\<lambda>w. truncate_path E w i k) else (Inr (), f)) = (q, f1)"
    by force
  have i1: "core_inv f1"
    using sz inv inv_truncate_path(1) [OF inv] by (auto split: option.splits if_splits)
  obtain q2 f2 where on: "on_meta f1 (\<lambda>m. (Inr (), setattr m i mode uid gid None atime mtime)) = (q2, f2)" by force
  note run = on_meta_run(1) [OF on]
  have m2: "fc_meta f2 = setattr (fc_meta f1) i mode uid gid None atime mtime" "q2 = Inr ()" using run by auto
  have "core_inv f2"
  proof (rule core_inv_meta [OF i1 on])
    show "meta_wf (fc_meta f2)" unfolding m2 by (rule setattr_wf [OF core_invD(1) [OF i1]])
    show "no_revival (fc_meta f1) (fc_meta f2)"
      unfolding m2 no_revival_def
      using same_treeD(2,3) [OF setattr_tree [of "fc_meta f1" i mode uid gid None atime mtime]] by simp
  qed
  moreover have "f' = f1 \<or> f' = f2"
    using sa Some on m2 unfolding core_setattr_def Some option.case sz prod.case by (cases q) auto
  ultimately show ?thesis using i1 by blast
qed

lemma inv_open:
  assumes inv: "core_inv f" and op: "core_open E f i flags = (r, f')"
  shows "core_inv f'"
proof (cases "get_inode (fc_meta f) i")
  case None
  with op inv show ?thesis by (simp add: core_open_def)
next
  case (Some n)
  obtain q f1 where tr: "(if flags AND O_TRUNC \<noteq> 0 then on_wb f (\<lambda>w. truncate_path E w i 0) else (Inr (), f)) = (q, f1)"
    by force
  have i1: "core_inv f1" using tr inv inv_truncate_path(1) [OF inv] by (auto split: if_splits)
  obtain q2 f2 where on: "on_wb f1 (\<lambda>w. wb_open E w i (wants_write flags)) = (q2, f2)" by force
  note N = inv_open_new [OF i1 on]
  have "f' = f \<or> f' = f1 \<or> f' = f2 \<or> (\<exists>a. q2 = Inr a \<and> f' = snd (new_fh f2 a))"
    using op unfolding core_open_def Some option.case tr prod.case
    by (cases "is_dir n"; cases q; cases q2) (auto simp: on split: prod.splits)
  with inv i1 N show ?thesis by blast
qed

lemma inv_create:
  assumes inv: "core_inv f" and parent: "get_inode (fc_meta f) parent \<noteq> None"
    and cr: "core_create E f parent name mode flags uid gid = (r, f')"
  shows "core_inv f'"
proof -
  obtain q f1 where nd: "(case lookup (fc_meta f) parent name of
        Some existing \<Rightarrow> if flags AND O_EXCL \<noteq> 0 then (fail EEXIST, f) else (Inr existing, f)
      | None \<Rightarrow> on_meta f (\<lambda>m. create m parent name (S_IFREG OR (mode AND 4095)) KFile uid gid None)) = (q, f1)"
    by force
  have i1: "core_inv f1"
    using nd inv inv_make [OF inv parent] by (auto split: option.splits if_splits)
  show ?thesis
  proof (cases q)
    case (Inl e)
    with cr nd i1 show ?thesis by (simp add: core_create_def)
  next
    case (Inr node)
    obtain q2 f2 where on: "on_wb f1 (\<lambda>w. wb_open E w (i_id node) True) = (q2, f2)" by force
    have "f' = f2 \<or> (\<exists>a. q2 = Inr a \<and> f' = snd (new_fh f2 a))"
      using cr unfolding core_create_def nd prod.case Inr sum.case on
      by (cases q2) (auto split: prod.splits)
    with inv_open_new [OF i1 on] show ?thesis by blast
  qed
qed

lemma inv_release_handle:
  assumes inv: "core_inv f" and fh: "map_of (fc_fh f) fh = Some a"
    and on: "on_wb (f\<lparr>fc_fh := dict_pop (fc_fh f) fh\<rparr>) (\<lambda>w. wb_release E w a) = (q, f1)"
  shows "core_inv f1"
proof -
  let ?f = "f\<lparr>fc_fh := dict_pop (fc_fh f) fh\<rparr>"
  obtain w' where w': "wb_release E (fc_wb f) a = (q, w')" "f1 = ?f\<lparr>fc_wb := w'\<rparr>"
    using on by (auto elim: on_wbE)
  have "handles f = add_mset a (handles ?f)"
    using dict_pop_mset [OF fh core_invD(4) [OF inv]] by (simp add: handles_def)
  then have "held w' (handles ?f)"
    using held_release [OF _ core_invD(2) [OF inv] w'(1)] core_invD(3) [OF inv] by simp
  moreover have "held (fc_wb f) (handles ?f)"
    using core_invD(3) [OF inv] held_less \<open>handles f = add_mset a (handles ?f)\<close> by metis
  moreover have "core_inv ?f"
    using inv calculation(2) by (auto simp: core_inv_def dict_pop_def intro: distinct_map_filter)
  ultimately show ?thesis
    unfolding w'(2)
    by (intro core_inv_wb [OF \<open>core_inv ?f\<close>])
      (use table_release [OF core_invD(2) [OF inv] w'(1)] wb_release_tree [OF w'(1)] in simp_all)
qed

lemma inv_release:
  assumes inv: "core_inv f" and rl: "core_release E f fh = (r, f')"
  shows "core_inv f'"
proof (cases "map_of (fc_fh f) fh")
  case None
  with rl inv show ?thesis by (simp add: core_release_def)
next
  case (Some a)
  obtain q f1 where on: "on_wb (f\<lparr>fc_fh := dict_pop (fc_fh f) fh\<rparr>) (\<lambda>w. wb_release E w a) = (q, f1)" by force
  note i1 = inv_release_handle [OF inv Some on]
  let ?d = "\<lambda>st :: filestate. f1\<lparr>fc_pending := fc_pending f1 - {fs_ino st}\<rparr>"
  have "f' = f1 \<or> (\<exists>st. \<not> is_open f1 (fs_ino st) \<and> drop_file E (?d st) (fs_ino st) = (r, f'))"
  proof (cases "\<exists>st. q = Inr () \<and> w_heap (fc_wb f1) a = Some st \<and> fs_ino st \<in> fc_pending f1 \<and> \<not> is_open f1 (fs_ino st)")
    case True
    then obtain st where "q = Inr ()" "w_heap (fc_wb f1) a = Some st" "fs_ino st \<in> fc_pending f1"
      "\<not> is_open f1 (fs_ino st)" by blast
    then show ?thesis using rl on Some by (intro disjI2 exI [of _ st]) (simp add: core_release_def)
  next
    case False
    then show ?thesis
      using rl on Some by (auto simp: core_release_def split: sum.splits option.splits if_splits)
  qed
  moreover have "core_inv (?d st)" "is_open (?d st) (fs_ino st) = is_open f1 (fs_ino st)" for st
    using i1 by (auto simp: core_inv_def handles_def is_open_def)
  ultimately show ?thesis using i1 inv_drop_file(1) by metis
qed

subsection \<open>Every step\<close>

lemma inv_io:
  assumes inv: "core_inv f"
  shows "core_read E f fh off n = (rb, f') \<Longrightarrow> core_inv f'"
    "core_write E f fh off d = (rn, f') \<Longrightarrow> core_inv f'"
    "core_fsync E f fh = (r, f') \<Longrightarrow> core_inv f'"
    "core_flush E f fh = (r, f') \<Longrightarrow> core_inv f'"
proof -
  note S = inv_state_op [OF inv]
  show "core_inv f'" if "core_read E f fh off n = (rb, f')"
    by (rule inv_on_handle [OF inv that [unfolded core_read_def]], erule S)
      (simp add: read_id wb_read_meta)
  show "core_inv f'" if "core_write E f fh off d = (rn, f')"
    by (rule inv_on_handle [OF inv that [unfolded core_write_def]], erule S)
      (simp add: write_id wb_write_meta)
  have sync: "table_ok w' \<and> held w' (handles f) \<and> same_tree (fc_meta f) (s_meta (w_store w'))"
    if "wb_sync E (fc_wb f) a = (q, w')" for a q w'
    by (rule S [OF that [unfolded wb_sync_def]]) (simp add: flush_id flush_tree)
  show "core_inv f'" if "core_fsync E f fh = (r, f')"
    by (rule inv_on_handle [OF inv that [unfolded core_fsync_def]], erule sync)
  show "core_inv f'" if "core_flush E f fh = (r, f')"
  proof (rule inv_on_handle [OF inv that [unfolded core_flush_def]])
    fix a q w' assume "wb_flush E (fc_wb f) a = (q, w')"
    then have "w' = fc_wb f \<or> wb_sync E (fc_wb f) a = (q, w')"
      by (auto simp: wb_flush_def wb_sync_def split: if_splits)
    then show "table_ok w' \<and> held w' (handles f) \<and> same_tree (fc_meta f) (s_meta (w_store w'))"
      using sync core_invD(2,3) [OF inv] by auto
  qed
qed

lemma inv_reap_flush:
  assumes inv: "core_inv f" and on: "on_wb f (\<lambda>w. reap_flush E w a) = (r, f')"
  shows "core_inv f'"
proof -
  obtain w' where w': "reap_flush E (fc_wb f) a = (r, w')" "f' = f\<lparr>fc_wb := w'\<rparr>"
    by (rule on_wbE [OF on])
  show ?thesis
    unfolding w'(2)
    by (rule core_inv_wb [OF inv table_reap_flush [OF core_invD(2) [OF inv] w'(1)]
          held_reap_flush [OF core_invD(3) [OF inv] w'(1)] reap_flush_tree [OF w'(1)]])
qed

lemma inv_reap_remove: "core_inv f \<Longrightarrow> core_inv (f\<lparr>fc_wb := reap_remove (fc_wb f) a\<rparr>)"
  by (rule core_inv_wb) (simp_all add: table_reap_remove held_reap_remove core_invD)

lemma inv_tick: "core_inv f \<Longrightarrow> core_inv (f\<lparr>fc_wb := (fc_wb f)\<lparr>w_now := t\<rparr>\<rparr>)"
  by (rule core_inv_wb) (auto simp: table_ok_def held_def dest: core_invD(2,3))

lemma core_step_inv: "core_step E x y \<Longrightarrow> core_inv (fst x) \<Longrightarrow> core_inv (fst y)"
  by (induction rule: core_step.induct)
    (auto intro: inv_setattr inv_makers inv_rmdir inv_link inv_unlink inv_rename inv_open inv_create
      inv_io inv_release inv_reap_flush inv_reap_remove inv_tick)

lemma core_reach_inv: "core_reach E x y \<Longrightarrow> core_inv (fst x) \<Longrightarrow> core_inv (fst y)"
  by (induction rule: core_reach.induct) (auto dest: core_step_inv)

lemma new_core_inv:
  assumes "meta_wf (s_meta s)"
  shows "core_inv (new_core (new_wb s delay))"
  using assms by (simp add: core_inv_def new_core_def new_wb_def table_ok_def held_def handles_def)

end
