(* ===== verification/FsData.thy ===== *)
theory FsData
  imports FsSteps
begin

section \<open>What requests do to the files\<close>

text \<open>
  The requests on file data in terms of \<open>mgr_view\<close>, the content each file has for its users:
  a read through a handle returns a slice of it, a write splices into it, and dropping a file
  empties it and touches no other.
\<close>

lemma unlink_nlink:
  assumes "meta_wf m" "sql_select (dirents m) (parent, name) = Some c" "get_inode m c = Some n"
    and "\<not> is_dir n" "unlink_dirent m parent name = (Inr (c', k), m')"
  shows "k = i_nlink n - 1"
  using assms(2-5)
  by (auto simp: unlink_dirent_def Let_def is_dir_def delete_dirent_def get_inode_def select_update
      split: if_splits)

text \<open>A release leaves every object but its own alone, and its own keeps its inode.\<close>

lemma on_state_heap:
  assumes "on_state w a f = (r, w')"
  shows "b \<noteq> a \<Longrightarrow> w_heap w' b = w_heap w b"
    "w_heap w a = Some st \<Longrightarrow> \<exists>st' s s'. f st (w_store w) = (r, st', s') \<and> w_heap w' a = Some st'"
  using assms by (auto simp: on_state_def set_state_def split: option.splits prod.splits)

lemma release_cases:
  assumes rel: "wb_release E w a = (r, w')" and st0: "w_heap w a = Some st0"
  obtains (idle) st' where "w_heap w' = (w_heap w)(a \<mapsto> st')" "fs_ino st' = fs_ino st0"
  | (flushed) w1 w2 st where "w_heap w1 = (w_heap w)(a \<mapsto> st)" "fs_ino st = fs_ino st0"
      "on_state w1 a (flush_locked E) = (r, w2)" "w' = w2 \<or> w' = close_state w2 a"
proof -
  define st where "st = st0\<lparr>fs_refcount := fs_refcount st0 - 1\<rparr>"
  define w0 where "w0 = w\<lparr>w_heap := (w_heap w)(a := Some st)\<rparr>"
  define w1 where "w1 = w0\<lparr>w_states := dict_pop (w_states w0) (fs_ino st)\<rparr>"
  obtain q w2 where on: "on_state w1 a (flush_locked E) = (q, w2)" by force
  have rel': "(if fs_refcount st > 0 then (Inr (), w0)
              else if w_delay w > 0 \<and> fs_dirty st
              then (Inr (), w0\<lparr>w_heap := (w_heap w0)(a := Some (st\<lparr>fs_idle := w_now w\<rparr>))\<rparr>)
              else (case on_state w1 a (flush_locked E) of (Inl e, w2) \<Rightarrow> (Inl e, w2)
                    | (Inr _, w2) \<Rightarrow> (Inr (), close_state w2 a))) = (r, w')"
    using rel unfolding wb_release_def st0 option.case Let_def st_def w0_def w1_def .
  show thesis
  proof (cases "fs_refcount st > 0 \<or> w_delay w > 0 \<and> fs_dirty st")
    case True
    then show thesis
      using rel' idle [of st] idle [of "st\<lparr>fs_idle := w_now w\<rparr>"]
      by (auto simp: st_def w0_def split: if_splits)
  next
    case False
    then have "q = r" "w' = w2 \<or> w' = close_state w2 a" using rel' on by (cases q; auto)+
    with on show thesis by (intro flushed [of w1 st w2]) (simp_all add: w0_def w1_def st_def)
  qed
qed

lemma release_ino:
  assumes rel: "wb_release E w a = (r, w')" and st0: "w_heap w a = Some st0"
  shows "\<exists>st. w_heap w' a = Some st \<and> fs_ino st = fs_ino st0"
  using rel st0
proof (cases rule: release_cases)
  case (flushed w1 w2 st)
  then obtain st' s' where "flush_locked E st (w_store w1) = (r, st', s')" "w_heap w2 a = Some st'"
    using on_state_heap(2) [OF flushed(3), of st] by auto
  with flush_id flushed(2,4) show ?thesis by (force simp: same_ref_def same_id_def close_state_def)
qed simp

lemma release_other:
  assumes rel: "wb_release E w a = (r, w')" and st0: "w_heap w a = Some st0" and b: "b \<noteq> a"
  shows "w_heap w' b = w_heap w b"
  using rel st0
proof (cases rule: release_cases)
  case (flushed w1 w2 st)
  with on_state_heap(1) [OF flushed(3) b] b show ?thesis by (auto simp: close_state_def)
qed (use b in simp)

context blob_backend
begin

lemma core_read_ok:
  assumes ok: "mok (fc_wb f)" and inj: "inj (sha256 E)"
    and fh: "map_of (fc_fh f) fh = Some a" and i: "map_of (w_states (fc_wb f)) i = Some a"
    and rd: "core_read E f fh off n = (r, f')"
  shows "mok (fc_wb f')" "mgr_view content (fc_wb f') = mgr_view content (fc_wb f)"
    "r = Inr x \<Longrightarrow> x = slice (mgr_view content (fc_wb f) i) off (off + n)"
    "fc_fh f' = fc_fh f" "w_states (fc_wb f') = w_states (fc_wb f)"
proof -
  obtain w' where on: "on_state (fc_wb f) a (\<lambda>st s. wb_read E st s n off) = (r, w')"
    and f': "f' = f\<lparr>fc_wb := w'\<rparr>"
    using rd fh by (auto simp: core_read_def on_handle_def get_state_def elim: on_wbE)
  have keep: "sok s' i st' \<and> others content i s s'"
    if "sok s i st" "wb_read E st s n off = (q, st', s')" for st s q st' s'
  proof -
    have fok: "fok s st" "fs_ino st = i" "\<not> fs_closed st" "flushable s st" using that(1) by (simp_all add: state_ok_def)
    note R = wb_read_ok [OF fok(1) inj that(2)] and D = reads_data [OF wb_read_ok(1) [OF fok(1) inj that(2)]]
    have "flushable s' st'"
      using fok(4) read_frame [OF that(2)] R(4,5) D(1,2)
      by (simp add: flushable_def no_cut_def no_stale_def rows_of_def same_file_def)
    with R fok(2,3) show ?thesis using reads_others by (simp add: state_ok_def same_file_def)
  qed
  obtain st st' s' where S: "w_heap (fc_wb f) a = Some st" "sok (fc_store f) i st"
    "wb_read E st (fc_store f) n off = (r, st', s')" "w' = set_state (fc_wb f) a st' s'" "mok w'"
    "mgr_view content w' = (mgr_view content (fc_wb f))(i := vw s' st')"
    "mgr_view content (fc_wb f) i = vw (fc_store f) st"
    by (rule on_state_ok [OF ok i on]) (use keep in blast)+
  have fok: "fok (fc_store f) st" using S(2) by (simp add: state_ok_def)
  note R = wb_read_ok [OF fok inj S(3)]
  show "mok (fc_wb f')" using S(5) by (simp add: f')
  show "mgr_view content (fc_wb f') = mgr_view content (fc_wb f)"
    using S(6,7) R(3) by (simp add: f' fun_eq_iff)
  show "x = slice (mgr_view content (fc_wb f) i) off (off + n)" if "r = Inr x"
    using R(6) [OF that] S(7) by simp
  show "fc_fh f' = fc_fh f" "w_states (fc_wb f') = w_states (fc_wb f)"
    using S(4) by (simp_all add: f' set_state_def)
qed

lemma core_write_ok:
  assumes ok: "mok (fc_wb f)" and inj: "inj (sha256 E)"
    and fh: "map_of (fc_fh f) fh = Some a" and i: "map_of (w_states (fc_wb f)) i = Some a"
    and st: "w_heap (fc_wb f) a = Some st" "no_cut (rows_of (fc_store f) st) st" and d: "d \<noteq> []"
    and wr: "core_write E f fh off d = (Inr k, f')"
  shows "mok (fc_wb f')"
    "mgr_view content (fc_wb f') =
       (mgr_view content (fc_wb f))(i := splice (mgr_view content (fc_wb f) i) off d)"
    "fc_fh f' = fc_fh f" "w_states (fc_wb f') = w_states (fc_wb f)"
    "\<exists>st'. w_heap (fc_wb f') a = Some st' \<and> fs_dirty st' \<and> no_cut (rows_of (fc_store f') st') st'"
proof -
  obtain w' where on: "on_state (fc_wb f) a (\<lambda>st s. wb_write E st s d off) = (Inr k, w')"
    and f': "f' = f\<lparr>fc_wb := w'\<rparr>"
    using wr fh by (auto simp: core_write_def on_handle_def get_state_def elim: on_wbE)
  note W = mgr_write_ok [OF ok inj i st d on]
  show "mok (fc_wb f')"
    "mgr_view content (fc_wb f') =
       (mgr_view content (fc_wb f))(i := splice (mgr_view content (fc_wb f) i) off d)"
    "fc_fh f' = fc_fh f" "w_states (fc_wb f') = w_states (fc_wb f)"
    "\<exists>st'. w_heap (fc_wb f') a = Some st' \<and> fs_dirty st' \<and> no_cut (rows_of (fc_store f') st') st'"
    using W by (auto simp: f')
qed

lemma drop_file_ok:
  assumes ok: "mok (fc_wb f)" and inj: "inj (sha256 E)" and dr: "drop_file E f i = (r, f')"
  shows "r = Inr ()" "mok (fc_wb f')"
    "mgr_view content (fc_wb f') = (mgr_view content (fc_wb f))(i := [])"
    "get_chunks (fc_meta f') i = []" "map_of (w_states (fc_wb f')) i = None"
    "fc_fh f' = fc_fh f" "fc_pending f' = fc_pending f"
    "dirents (fc_meta f') = dirents (fc_meta f)" "inodes (fc_meta f') = inodes (fc_meta f)"
    "others content i (fc_store f) (fc_store f')"
    "j \<noteq> i \<Longrightarrow> map_of (w_states (fc_wb f')) j = map_of (w_states (fc_wb f)) j"
proof -
  let ?w = "discard (fc_wb f) i"
  note D = discard_ok [OF ok, of i]
  obtain q s' where fr: "free_file E (fc_store f) i = (q, s')" by force
  then have f': "f' = f\<lparr>fc_wb := ?w\<lparr>w_store := s'\<rparr>\<rparr>" "r = q"
    using dr by (simp_all add: drop_file_def on_store_def on_wb_def)
  note F = free_file_ok [OF mgr_okD(1) [OF ok] inj fr]
  have same: "s_cs s' = s_cs (fc_store f)" "inodes (s_meta s') = inodes (fc_meta f)"
    "dirents (s_meta s') = dirents (fc_meta f)"
    using F(5) by (simp_all add: only_blobs_iff)
  have chunks: "get_chunks (s_meta s') j = get_chunks (fc_meta f) j" if "j \<noteq> i" for j
    using F(6) [OF that] .
  have oth: "others content i (fc_store f) s'"
    using F(3) same chunks by (simp add: others_def get_inode_def)
  have off: "map_of (w_states ?w) i = None" by (rule D(3))
  have st: "state_ok (sha256 E) content binv s' j st" "vw s' st = vw (fc_store f) st"
    if "j \<noteq> i" "state_ok (sha256 E) content binv (fc_store f) j st" for j st
    using others_state [OF oth F(2) that(1), of st] that(2) by (auto simp: state_ok_def)
  show "mok (fc_wb f')"
  proof (rule mgr_okI)
    fix j a assume j: "map_of (w_states (fc_wb f')) j = Some a"
    then have "j \<noteq> i" using off by (auto simp: f')
    with j mgr_okD(4) [OF D(1), of j a] st D(2)
    show "\<exists>st. w_heap (fc_wb f') a = Some st \<and> sok (fc_store f') j st" by (auto simp: f')
  qed (use F(2) mgr_okD(2,3,5) [OF D(1)] in \<open>simp_all add: f'\<close>)
  show "mgr_view content (fc_wb f') = (mgr_view content (fc_wb f))(i := [])"
  proof
    fix j
    show "mgr_view content (fc_wb f') j = ((mgr_view content (fc_wb f))(i := [])) j"
    proof (cases "j = i")
      case True
      then show ?thesis using off F(3) by (simp add: f' mgr_view_def)
    next
      case False
      have "mgr_view content (fc_wb f') j = mgr_view content ?w j"
      proof (cases "map_of (w_states ?w) j")
        case None
        then show ?thesis using F(3) False by (simp add: mgr_view_def f' D(2))
      next
        case (Some a)
        with mgr_okD(4) [OF D(1) Some] st False show ?thesis by (auto simp: mgr_view_def f' D(2))
      qed
      with D(4) False show ?thesis by simp
    qed
  qed
  show "r = Inr ()" "get_chunks (fc_meta f') i = []" "map_of (w_states (fc_wb f')) i = None"
    "fc_fh f' = fc_fh f" "fc_pending f' = fc_pending f"
    "dirents (fc_meta f') = dirents (fc_meta f)" "inodes (fc_meta f') = inodes (fc_meta f)"
    using F(1,4) off same by (simp_all add: f')
  show "others content i (fc_store f) (fc_store f')" using oth by (simp add: f')
  show "j \<noteq> i \<Longrightarrow> map_of (w_states (fc_wb f')) j = map_of (w_states (fc_wb f)) j"
    by (simp add: f' discard_def close_state_def map_of_dict_pop split: option.split)
qed

subsection \<open>Changing the tree\<close>

text \<open>A method of the index that keeps chunks, blobs and sizes changes no file.\<close>

lemma tree_change_ok:
  fixes f f' :: "'b fs"
  assumes ok: "mok (fc_wb f)" and m': "chunks m' = chunks (fc_meta f)" "blobs m' = blobs (fc_meta f)"
      "\<And>i a n'. map_of (w_states (fc_wb f)) i = Some a \<Longrightarrow> get_inode m' i = Some n' \<Longrightarrow>
         \<exists>n. get_inode (fc_meta f) i = Some n \<and> i_size n' = i_size n"
    and f': "fc_wb f' = (fc_wb f)\<lparr>w_store := (fc_store f)\<lparr>s_meta := m'\<rparr>\<rparr>"
  shows "mok (fc_wb f')" "mgr_view content (fc_wb f') = mgr_view content (fc_wb f)"
proof -
  let ?s = "fc_store f" and ?s' = "(fc_store f)\<lparr>s_meta := m'\<rparr>"
  have blob: "blob_get m' = blob_get (fc_meta f)" by (simp add: blob_get_def m' fun_eq_iff)
  have loc: "loc m' = loc (fc_meta f)" by (simp add: loc_def blob fun_eq_iff)
  have gc: "get_chunks m' = get_chunks (fc_meta f)" by (simp add: get_chunks_def m' fun_eq_iff)
  have bytes: "file_bytes c m' = file_bytes c (fc_meta f)" for c
    by (simp add: file_bytes_def blob_bytes_def gc loc fun_eq_iff)
  then have sb: "sbytes content ?s' = sbytes content ?s" by (simp add: sbytes_def fun_eq_iff)
  have "rc m' = rc (fc_meta f)" "refs m' = refs (fc_meta f)" "counts_ok m' = counts_ok (fc_meta f)"
    by (simp_all add: rc_def refs_def counts_ok_def blob m' fun_eq_iff)
  then have sok': "store_ok (sha256 E) content binv ?s'"
    using mgr_okD(1) [OF ok] by (simp add: store_ok_def blobs_ok_def loc m' gc bytes)
  have st: "state_ok (sha256 E) content binv ?s' i st" "vw ?s' st = vw ?s st"
    if "map_of (w_states (fc_wb f)) i = Some a" "state_ok (sha256 E) content binv ?s i st" for i a st
  proof -
    have "fs_ino st = i" using that(2) by (simp add: state_ok_def)
    then have "i_size n' = length (sbytes content ?s' (fs_ino st))" if "get_inode m' (fs_ino st) = Some n'" for n'
      using m'(3) [OF \<open>map_of (w_states (fc_wb f)) i = Some a\<close>, of n'] that
        \<open>state_ok (sha256 E) content binv ?s i st\<close> by (auto simp: state_ok_def file_ok_def sb)
    then show "state_ok (sha256 E) content binv ?s' i st"
      using that(2) sok' by (auto simp: state_ok_def file_ok_def rows_of_def flushable_def gc sb)
    show "vw ?s' st = vw ?s st" by (simp add: wb_view_def sb)
  qed
  show "mok (fc_wb f')"
  proof (rule mgr_okI)
    fix i a assume "map_of (w_states (fc_wb f')) i = Some a"
    with mgr_okD(4) [OF ok, of i a] st [of i a]
    show "\<exists>st. w_heap (fc_wb f') a = Some st \<and> sok (fc_store f') i st" by (auto simp: f')
  qed (use sok' mgr_okD(2,3,5) [OF ok] in \<open>simp_all add: f'\<close>)
  show "mgr_view content (fc_wb f') = mgr_view content (fc_wb f)"
  proof
    fix i
    show "mgr_view content (fc_wb f') i = mgr_view content (fc_wb f) i"
    proof (cases "map_of (w_states (fc_wb f)) i")
      case (Some a)
      with mgr_okD(4) [OF ok Some] st(2) [OF Some] show ?thesis by (auto simp: mgr_view_def f')
    qed (simp add: mgr_view_def f' sb)
  qed
qed

lemma core_unlink_ok:
  assumes inv: "core_inv f" and ok: "mok (fc_wb f)" and inj: "inj (sha256 E)"
    and n: "lookup (fc_meta f) parent name = Some n" "\<not> is_dir n" "i_nlink n = 1"
    and un: "core_unlink E f parent name = (r, f')"
  shows "r = Inr ()" "mok (fc_wb f')" "lookup (fc_meta f') parent name = None"
    "get_inode (fc_meta f') (i_id n) = None"
    "is_open f (i_id n) \<Longrightarrow> mgr_view content (fc_wb f') = mgr_view content (fc_wb f) \<and>
       i_id n \<in> fc_pending f' \<and> fc_fh f' = fc_fh f \<and> w_states (fc_wb f') = w_states (fc_wb f) \<and>
       get_chunks (fc_meta f') = get_chunks (fc_meta f)"
    "\<not> is_open f (i_id n) \<Longrightarrow> mgr_view content (fc_wb f') = (mgr_view content (fc_wb f))(i_id n := []) \<and>
       get_chunks (fc_meta f') (i_id n) = [] \<and> map_of (w_states (fc_wb f')) (i_id n) = None"
proof -
  let ?i = "i_id n"
  note wf = core_invD(1) [OF inv]
  have id: "sql_select (dirents (fc_meta f)) (parent, name) = Some ?i" "get_inode (fc_meta f) ?i = Some n"
    using n(1) tables_okD(5) [OF meta_wfD(1) [OF wf]] by (auto simp: lookup_def split: option.splits)
  obtain q f1 where on: "on_meta f (\<lambda>m. unlink_dirent m parent name) = (q, f1)" by force
  note run = on_meta_run [OF on]
  have step: "q = Inr (?i, 0) \<and> dirents (fc_meta f1) = sql_delete (dirents (fc_meta f)) (\<lambda>k. k = (parent, name)) \<and>
      chunks (fc_meta f1) = chunks (fc_meta f) \<and> blobs (fc_meta f1) = blobs (fc_meta f) \<and>
      get_inode (fc_meta f1) ?i = None \<and>
      (\<forall>j n'. get_inode (fc_meta f1) j = Some n' \<longrightarrow>
         (\<exists>n. get_inode (fc_meta f) j = Some n \<and> i_size n' = i_size n))"
    using wf
  proof (cases rule: unlink_dirent_cases [of "fc_meta f" parent name])
    case missing
    with id show ?thesis by simp
  next
    case (gone c n0 m3 x)
    have c: "c = ?i" "n0 = n" using gone(1,2) id by auto
    have "i_nlink x = 0"
      using unlink_nlink [OF wf id(1,2) n(2) gone(12)] n(3) c by simp
    moreover have "\<exists>n. get_inode (fc_meta f) j = Some n \<and> i_size n' = i_size n" if "get_inode m3 j = Some n'" for j n'
      using gone(7) [of j] that by (cases "get_inode (fc_meta f) j") auto
    ultimately show ?thesis
      using gone(5,8,9,12) run(1) c
      by (auto simp: delete_inode_def [of m3] get_inode_def select_delete split: if_splits)
  qed
  have fc: "fc_wb f1 = (fc_wb f)\<lparr>w_store := (fc_store f)\<lparr>s_meta := fc_meta f1\<rparr>\<rparr>" "fc_fh f1 = fc_fh f"
    "fc_pending f1 = fc_pending f" using run(2) by (cases f1, simp)+
  note T = tree_change_ok [OF ok _ _ _ fc(1)]
  have ok1: "mok (fc_wb f1)" "mgr_view content (fc_wb f1) = mgr_view content (fc_wb f)"
    using step by (auto intro!: T)
  have states: "w_states (fc_wb f1) = w_states (fc_wb f)" "w_heap (fc_wb f1) = w_heap (fc_wb f)"
    by (subst fc(1), simp)+
  have op: "is_open f1 j = is_open f j" for j by (simp add: is_open_def fc(2) states)
  have fd: "free_or_defer E f1 ?i = (r, f')"
    using un n on step by (simp add: core_unlink_def)
  have gone: "lookup (fc_meta f1) parent name = None"
    using step by (simp add: lookup_def select_delete)
  have all: "r = Inr () \<and> mok (fc_wb f') \<and> lookup (fc_meta f') parent name = None \<and>
    get_inode (fc_meta f') ?i = None \<and>
    (is_open f ?i \<longrightarrow> mgr_view content (fc_wb f') = mgr_view content (fc_wb f) \<and>
       ?i \<in> fc_pending f' \<and> fc_fh f' = fc_fh f \<and> w_states (fc_wb f') = w_states (fc_wb f) \<and>
       get_chunks (fc_meta f') = get_chunks (fc_meta f)) \<and>
    (\<not> is_open f ?i \<longrightarrow> mgr_view content (fc_wb f') = (mgr_view content (fc_wb f))(?i := []) \<and>
       get_chunks (fc_meta f') ?i = [] \<and> map_of (w_states (fc_wb f')) ?i = None)"
  proof (cases "is_open f ?i")
    case True
    then have "r = Inr ()" "f' = f1\<lparr>fc_pending := insert ?i (fc_pending f1)\<rparr>"
      using fd op by (simp_all add: free_or_defer_def)
    with ok1 gone step states fc(2) True show ?thesis by (simp add: get_chunks_def fun_eq_iff)
  next
    case False
    then have "drop_file E f1 ?i = (r, f')" using fd op by (simp add: free_or_defer_def)
    note D = drop_file_ok [OF ok1(1) inj this]
    have "lookup (fc_meta f') parent name = None" "get_inode (fc_meta f') ?i = None"
      using gone step D(8,9) by (simp_all add: lookup_def get_inode_def select_delete)
    with D(1-5) ok1(2) False show ?thesis by simp
  qed
  then show "r = Inr ()" "mok (fc_wb f')" "lookup (fc_meta f') parent name = None"
    "get_inode (fc_meta f') (i_id n) = None"
    "is_open f (i_id n) \<Longrightarrow> mgr_view content (fc_wb f') = mgr_view content (fc_wb f) \<and>
       i_id n \<in> fc_pending f' \<and> fc_fh f' = fc_fh f \<and> w_states (fc_wb f') = w_states (fc_wb f) \<and>
       get_chunks (fc_meta f') = get_chunks (fc_meta f)"
    "\<not> is_open f (i_id n) \<Longrightarrow> mgr_view content (fc_wb f') = (mgr_view content (fc_wb f))(i_id n := []) \<and>
       get_chunks (fc_meta f') (i_id n) = [] \<and> map_of (w_states (fc_wb f')) (i_id n) = None"
    by blast+
qed

subsection \<open>The last handle\<close>

lemma core_release_ok:
  assumes inv: "core_inv f" and ok: "mok (fc_wb f)" and inj: "inj (sha256 E)"
    and fh: "map_of (fc_fh f) fh = Some a" and i: "map_of (w_states (fc_wb f)) i = Some a"
    and rl: "core_release E f fh = (Inr (), f')"
  shows "mok (fc_wb f')" "fc_fh f' = dict_pop (fc_fh f) fh"
    "i \<in> fc_pending f \<Longrightarrow> (\<And>k. k \<noteq> fh \<Longrightarrow> map_of (fc_fh f) k \<noteq> Some a) \<Longrightarrow>
       i \<notin> fc_pending f' \<and> mgr_view content (fc_wb f') = (mgr_view content (fc_wb f))(i := []) \<and>
       get_chunks (fc_meta f') i = [] \<and> map_of (w_states (fc_wb f')) i = None"
    "i \<notin> fc_pending f \<or> (\<exists>k. k \<noteq> fh \<and> map_of (fc_fh f) k = Some a) \<Longrightarrow>
       fc_pending f' = fc_pending f \<and> mgr_view content (fc_wb f') = mgr_view content (fc_wb f)"
proof -
  let ?f = "f\<lparr>fc_fh := dict_pop (fc_fh f) fh\<rparr>"
  obtain st0 where st0: "w_heap (fc_wb f) a = Some st0" "fs_ino st0 = i"
    using mgr_okD(4) [OF ok i] by (auto simp: state_ok_def)
  obtain q w' where rel: "wb_release E (fc_wb f) a = (q, w')" by force
  define f1 where "f1 = ?f\<lparr>fc_wb := w'\<rparr>"
  have on: "on_wb ?f (\<lambda>w. wb_release E w a) = (q, f1)" by (simp add: on_wb_def rel f1_def)
  have q: "q = Inr ()" using rl fh on by (cases q) (auto simp: core_release_def)
  note R = wb_release_ok [OF ok inj i st0(1) rel]
  have R1: "mok w'" "mgr_view content w' = mgr_view content (fc_wb f)" using R(1) [OF q] by auto
  obtain st where st: "w_heap w' a = Some st" "fs_ino st = i"
    using release_ino [OF rel st0(1)] st0(2) by auto
  have heap: "map_option fs_ino (w_heap w' b) = map_option fs_ino (w_heap (fc_wb f) b)" for b
    using release_ino [OF rel st0(1)] release_other [OF rel st0(1), of b] st0 by (cases "b = a") auto
  have others: "is_open f1 i \<longleftrightarrow> (\<exists>k. k \<noteq> fh \<and> map_of (fc_fh f) k = Some a)"
  proof -
    have "map_option fs_ino (w_heap (fc_wb f) b) = Some i \<longleftrightarrow> b = a" if "(k, b) \<in> set (fc_fh f)" for k b
    proof -
      have "b \<in># handles f" using that by (force simp: handles_def)
      then obtain j sj where j: "(j, b) \<in> set (w_states (fc_wb f))" "w_heap (fc_wb f) b = Some sj" "fs_ino sj = j"
        using held_table [OF core_invD(3,2) [OF inv]] by blast
      then have "map_of (w_states (fc_wb f)) j = Some b" using mgr_okD(2) [OF ok] by simp
      with i j(2,3) st0 show ?thesis by auto
    qed
    moreover have "is_open f1 i \<longleftrightarrow>
        (\<exists>(k, b) \<in> set (dict_pop (fc_fh f) fh). map_option fs_ino (w_heap (fc_wb f) b) = Some i)"
      by (auto simp: is_open_def f1_def list_ex_iff heap)
    moreover have "set (dict_pop (fc_fh f) fh) \<subseteq> set (fc_fh f)" by (auto simp: dict_pop_def)
    ultimately have "is_open f1 i \<longleftrightarrow> (\<exists>k. (k, a) \<in> set (dict_pop (fc_fh f) fh))" by fast
    also have "\<dots> \<longleftrightarrow> (\<exists>k. k \<noteq> fh \<and> map_of (fc_fh f) k = Some a)"
      using core_invD(4) [OF inv] by (auto simp: dict_pop_def)
    finally show ?thesis .
  qed
  let ?g = "f1\<lparr>fc_pending := fc_pending f1 - {i}\<rparr>"
  have rest: "(if i \<in> fc_pending f1 \<and> \<not> is_open f1 i then drop_file E ?g i else (Inr (), f1)) = (Inr (), f')"
  proof -
    have "w_heap (fc_wb f1) a = Some st" using st(1) by (simp add: f1_def)
    then show ?thesis using rl fh on q st(2) by (auto simp: core_release_def split: if_splits)
  qed
  have all: "mok (fc_wb f') \<and> fc_fh f' = dict_pop (fc_fh f) fh \<and>
    (i \<in> fc_pending f \<and> \<not> is_open f1 i \<longrightarrow>
       i \<notin> fc_pending f' \<and> mgr_view content (fc_wb f') = (mgr_view content (fc_wb f))(i := []) \<and>
       get_chunks (fc_meta f') i = [] \<and> map_of (w_states (fc_wb f')) i = None) \<and>
    (i \<notin> fc_pending f \<or> is_open f1 i \<longrightarrow>
       fc_pending f' = fc_pending f \<and> mgr_view content (fc_wb f') = mgr_view content (fc_wb f))"
  proof (cases "i \<in> fc_pending f1 \<and> \<not> is_open f1 i")
    case True
    then have dr: "drop_file E ?g i = (Inr (), f')" using rest by simp
    have "mok (fc_wb ?g)" using R1(1) by (simp add: f1_def)
    from drop_file_ok [OF this inj dr] R1(2) True show ?thesis by (simp add: f1_def)
  next
    case False
    with rest have "f' = f1" by (simp split: if_splits)
    with R1 False show ?thesis by (simp add: f1_def)
  qed
  then show "mok (fc_wb f')" "fc_fh f' = dict_pop (fc_fh f) fh" by blast+
  show "i \<in> fc_pending f \<Longrightarrow> (\<And>k. k \<noteq> fh \<Longrightarrow> map_of (fc_fh f) k \<noteq> Some a) \<Longrightarrow>
       i \<notin> fc_pending f' \<and> mgr_view content (fc_wb f') = (mgr_view content (fc_wb f))(i := []) \<and>
       get_chunks (fc_meta f') i = [] \<and> map_of (w_states (fc_wb f')) i = None"
    "i \<notin> fc_pending f \<or> (\<exists>k. k \<noteq> fh \<and> map_of (fc_fh f) k = Some a) \<Longrightarrow>
       fc_pending f' = fc_pending f \<and> mgr_view content (fc_wb f') = mgr_view content (fc_wb f)"
    using all others by blast+
qed

end

end
