(* ===== verification/SessionInv.thy ===== *)
theory SessionInv
  imports FsData
begin

section \<open>The manager during a session\<close>

text \<open>
  The invariant of a mounted filesystem over a backend that answers (\<open>steady\<close>): besides
  \<open>mgr_ok\<close>, the recorded size of every file is that of its stored bytes, no chunk is longer
  than the chunk size, and numbers not given out yet have neither chunks nor a file state. So
  any file can be opened at any time. Each call on file \<open>i\<close> works on that file only
  (\<open>file_local\<close>).
\<close>

definition size_ok :: "('b \<Rightarrow> nat \<Rightarrow> bytes option) \<Rightarrow> 'b store \<Rightarrow> ino \<Rightarrow> bool" where
  "size_ok content s i \<longleftrightarrow>
     (\<forall>n. get_inode (s_meta s) i = Some n \<longrightarrow> i_size n = length (sbytes content s i)) \<and>
     list_all (\<lambda>c. c_len c \<le> s_cs s) (get_chunks (s_meta s) i)"

definition unused_ids :: "'b wb \<Rightarrow> bool" where
  "unused_ids w \<longleftrightarrow>
     (\<forall>i > seq (s_meta (w_store w)). get_chunks (s_meta (w_store w)) i = [] \<and> map_of (w_states w) i = None)"

definition steady ::
    "(bytes \<Rightarrow> sha) \<Rightarrow> ('b \<Rightarrow> nat \<Rightarrow> bytes option) \<Rightarrow> ('b \<Rightarrow> bool) \<Rightarrow> 'b wb \<Rightarrow> bool" where
  "steady hash content binv w \<longleftrightarrow>
     mgr_ok hash content binv w \<and> (\<forall>i. size_ok content (w_store w) i) \<and> unused_ids w"

definition file_local :: "('b \<Rightarrow> nat \<Rightarrow> bytes option) \<Rightarrow> ino \<Rightarrow> 'b wb \<Rightarrow> 'b wb \<Rightarrow> bool" where
  "file_local content i w w' \<longleftrightarrow>
     others content i (w_store w) (w_store w') \<and> tree_kept (w_store w) (w_store w') \<and>
     (\<forall>j. j \<noteq> i \<longrightarrow> map_of (w_states w') j = map_of (w_states w) j)"

text \<open>No truncation of file \<open>i\<close> is waiting to be flushed.\<close>

definition uncut :: "'b wb \<Rightarrow> ino \<Rightarrow> bool" where
  "uncut w i \<longleftrightarrow>
     (case map_of (w_states w) i of
        None \<Rightarrow> True
      | Some a \<Rightarrow> (case w_heap w a of
            None \<Rightarrow> True
          | Some st \<Rightarrow> no_cut (rows_of (w_store w) st) st))"

lemma steadyD:
  assumes "steady hash content binv w"
  shows "mgr_ok hash content binv w" "size_ok content (w_store w) i" "unused_ids w"
  using assms by (simp_all add: steady_def)

lemma file_local_refl [simp]: "file_local content i w w"
  by (simp add: file_local_def)

lemma file_local_trans [trans]:
  "file_local content i w w' \<Longrightarrow> file_local content i w' w'' \<Longrightarrow> file_local content i w w''"
  using others_trans same_tree_trans by (fastforce simp: file_local_def)

lemma file_local_inode: "file_local content i w w' \<Longrightarrow>
    get_inode (s_meta (w_store w')) j = None \<longleftrightarrow> get_inode (s_meta (w_store w)) j = None"
  by (metis file_local_def same_treeD(3))

lemma file_local_seq: "file_local content i w w' \<Longrightarrow> seq (s_meta (w_store w')) = seq (s_meta (w_store w))"
  by (metis file_local_def same_treeD(2))

lemma size_ok_others:
  "others content i s s' \<Longrightarrow> j \<noteq> i \<Longrightarrow> size_ok content s j \<Longrightarrow> size_ok content s' j"
  by (simp add: size_ok_def others_def)

lemma steady_local:
  assumes w: "steady hash content binv w" and loc: "file_local content i w w'"
    and ok: "mgr_ok hash content binv w'" "size_ok content (w_store w') i" "i \<le> seq (s_meta (w_store w))"
  shows "steady hash content binv w'"
proof -
  have seq: "seq (s_meta (w_store w')) = seq (s_meta (w_store w))"
    by (rule file_local_seq [OF loc])
  have "size_ok content (w_store w') j" for j
    using loc ok(2) steadyD(2) [OF w, of j] size_ok_others by (cases "j = i") (auto simp: file_local_def)
  moreover have "unused_ids w'"
    using steadyD(3) [OF w] loc ok(3) by (auto simp: unused_ids_def seq file_local_def others_def)
  ultimately show ?thesis using ok(1) by (simp add: steady_def)
qed

lemma state_size: "state_ok hash content binv s i st \<Longrightarrow> size_ok content s i"
  by (auto simp: state_ok_def file_ok_def size_ok_def rows_of_def)

lemma steady_known:
  assumes "steady hash content binv w" "map_of (w_states w) i = Some a"
  shows "i \<le> seq (s_meta (w_store w))"
  using steadyD(3) [OF assms(1)] assms(2)
  by (cases "i \<le> seq (s_meta (w_store w))") (auto simp: unused_ids_def)

lemma steady_stored:
  assumes "steady hash content binv w" "get_inode (s_meta (w_store w)) i \<noteq> None"
  shows "\<exists>X. stored_as content (w_store w) i X"
  using steadyD(2) [OF assms(1), of i] assms(2) by (auto simp: size_ok_def stored_as_def)

lemma uncutI:
  assumes "\<And>a st. map_of (w_states w) i = Some a \<Longrightarrow> w_heap w a = Some st \<Longrightarrow> no_cut (rows_of (w_store w) st) st"
  shows "uncut w i"
  using assms by (simp add: uncut_def split: option.split)

lemma uncutD:
  "uncut w i \<Longrightarrow> map_of (w_states w) i = Some a \<Longrightarrow> w_heap w a = Some st \<Longrightarrow> no_cut (rows_of (w_store w) st) st"
  by (simp add: uncut_def)

subsection \<open>Calls on one file state\<close>

context blob_backend
begin

abbreviation std :: "'b wb \<Rightarrow> bool" where
  "std \<equiv> steady (sha256 E) content binv"

text \<open>A call on the file state of file \<open>i\<close> that keeps the state well formed.\<close>

lemma on_state_steady:
  assumes w: "std w" and a: "map_of (w_states w) i = Some a" and on: "on_state w a f = (r, w')"
    and f: "\<And>st r st' s'. w_heap w a = Some st \<Longrightarrow> sok (w_store w) i st \<Longrightarrow> f st (w_store w) = (r, st', s') \<Longrightarrow>
      sok s' i st' \<and> others content i (w_store w) s' \<and> tree_kept (w_store w) s'"
  shows "std w'" "file_local content i w w'" "w_states w' = w_states w"
proof -
  obtain st st' s' where S: "w_heap w a = Some st" "sok (w_store w) i st" "f st (w_store w) = (r, st', s')"
    "w' = set_state w a st' s'" "mok w'"
    by (rule on_state_ok [OF steadyD(1) [OF w] a on]) (use f in blast)+
  note F = f [OF S(1-3)]
  show states: "w_states w' = w_states w" using S(4) by (simp add: set_state_def)
  show loc: "file_local content i w w'" using F S(4) by (simp add: file_local_def set_state_def)
  show "std w'"
    by (rule steady_local [OF w loc S(5) _ steady_known [OF w a]])
      (use F S(4) state_size in \<open>auto simp: set_state_def\<close>)
qed

lemma flush_steady:
  assumes w: "std w" and a: "map_of (w_states w) i = Some a" and inj: "inj (sha256 E)"
    and on: "on_state w a (flush_locked E) = (r, w')"
  shows "std w'" "file_local content i w w'"
  using on_state_steady [OF w a on] flush_state(1,2) [OF _ inj] flush_tree by blast+

lemma heap_steady:
  assumes w: "std w" and "mok (w\<lparr>w_heap := h\<rparr>)"
  shows "std (w\<lparr>w_heap := h\<rparr>)"
  using assms by (simp add: steady_def unused_ids_def)

text \<open>A file state leaves the dict.\<close>

lemma pop_steady:
  assumes w: "std w" and ok: "mok w'" and w': "w_states w' = dict_pop (w_states w) i" "w_store w' = w_store w"
  shows "std w'" "file_local content i w w'"
  using steadyD [OF w] ok by (auto simp: steady_def file_local_def unused_ids_def w' map_of_dict_pop)

lemma wb_release_steady:
  assumes w: "std w" and inj: "inj (sha256 E)" and a: "map_of (w_states w) i = Some a"
    and rel: "wb_release E w a = (Inr (), w')"
  shows "std w'" "file_local content i w w'"
proof -
  obtain st0 where st0: "w_heap w a = Some st0" using mgr_okD(4) [OF steadyD(1) [OF w] a] by blast
  note R = wb_release_ok [OF steadyD(1) [OF w] inj a st0 rel]
  define st where "st = st0\<lparr>fs_refcount := fs_refcount st0 - 1\<rparr>"
  define w1 where "w1 = w\<lparr>w_heap := (w_heap w)(a := Some st)\<rparr>"
  have ino: "fs_ino st = i" using mgr_okD(4) [OF steadyD(1) [OF w] a] st0 by (auto simp: state_ok_def st_def)
  have "mok w1" using touch_ok(1) [OF steadyD(1) [OF w] a st0, of st "fs_refcount st0 - 1" 0] by (simp add: w1_def st_def)
  then have w1: "std w1" unfolding w1_def by (rule heap_steady [OF w])
  have w1a: "map_of (w_states w1) i = Some a" "w_states w1 = w_states w" "w_store w1 = w_store w"
    by (simp_all add: w1_def a)
  have rel': "(if fs_refcount st > 0 then (Inr (), w1)
              else if w_delay w > 0 \<and> fs_dirty st
              then (Inr (), w1\<lparr>w_heap := (w_heap w1)(a := Some (st\<lparr>fs_idle := w_now w\<rparr>))\<rparr>)
              else (case on_state (w1\<lparr>w_states := dict_pop (w_states w1) (fs_ino st)\<rparr>) a
                           (flush_locked E) of
                      (Inl e, w2) \<Rightarrow> (Inl e, w2)
                    | (Inr _, w2) \<Rightarrow> (Inr (), close_state w2 a))) = (Inr (), w')"
    using rel unfolding wb_release_def st0 option.case Let_def st_def w1_def .
  have "std w' \<and> file_local content i w w'"
  proof (cases "fs_refcount st > 0 \<or> w_delay w > 0 \<and> fs_dirty st")
    case True
    then obtain h where "w' = w\<lparr>w_heap := h\<rparr>" using rel' by (auto simp: w1_def split: if_splits)
    with heap_steady [OF w] R(1) show ?thesis by (auto simp: file_local_def)
  next
    case False
    obtain q w2 where on: "on_state w1 a (flush_locked E) = (q, w2)" by force
    note F = flush_steady [OF w1 w1a(1) inj on]
    have "w_states w2 = w_states w" using sync_ok(3) [OF steadyD(1) [OF w1] inj w1a(1) on] w1a(2) by simp
    moreover have "on_state (w1\<lparr>w_states := dict_pop (w_states w1) i\<rparr>) a (flush_locked E) =
        (q, w2\<lparr>w_states := dict_pop (w_states w) i\<rparr>)"
      using on w1a(2) by (auto simp: on_state_states)
    then have "w' = close_state (w2\<lparr>w_states := dict_pop (w_states w) i\<rparr>) a"
      using rel' False ino by (cases q) auto
    ultimately have "std w' \<and> file_local content i w2 w'"
      using pop_steady [OF F(1), of w' i] R(1) by (simp add: close_state_def)
    moreover have "file_local content i w w2"
      using F(2) by (simp add: file_local_def w1a(2,3))
    ultimately show ?thesis using file_local_trans by blast
  qed
  then show "std w'" "file_local content i w w'" by blast+
qed

subsection \<open>Opening\<close>

lemma reads_steady:
  assumes w: "std w" and i: "i \<le> seq (s_meta (w_store w))" and ok: "mok w'"
    and rd: "reads (w_store w) (w_store w')" "\<And>j. j \<noteq> i \<Longrightarrow> map_of (w_states w') j = map_of (w_states w) j"
  shows "std w'" "file_local content i w w'"
proof -
  note D = reads_data [OF rd(1)]
  show loc: "file_local content i w w'" using reads_others [OF rd(1)] D(1) rd(2) by (simp add: file_local_def)
  have "size_ok content (w_store w') i" using steadyD(2) [OF w, of i] D by (simp add: size_ok_def)
  from steady_local [OF w loc ok this i] show "std w'" .
qed

lemma wb_open_steady:
  assumes w: "std w" and inj: "inj (sha256 E)" and i: "i \<le> seq (s_meta (w_store w))"
    and known: "map_of (w_states w) i = None \<Longrightarrow> get_inode (s_meta (w_store w)) i \<noteq> None"
    and op: "wb_open E w i fw = (r, w')"
  shows "std w'" "file_local content i w w'" "mgr_view content w' = mgr_view content w"
    "r = Inr a \<Longrightarrow> map_of (w_states w') i = Some a"
    "uncut w i \<Longrightarrow> uncut w' i"
proof -
  have stored: "map_of (w_states w) i = None \<longrightarrow> (\<exists>X. stored_as content (w_store w) i X)"
    using known steady_stored [OF w] by blast
  note O = wb_open_ok [OF steadyD(1) [OF w] inj stored op]
  obtain a1 w2 st2 where S: "map_of (w_states w2) i = Some a1" "w_store w2 = w_store w" "w_heap w2 a1 = Some st2"
    "\<forall>j. j \<noteq> i \<longrightarrow> map_of (w_states w2) j = map_of (w_states w) j"
    "\<exists>n. st2 = (case map_of (w_states w) i of None \<Rightarrow> new_filestate i | Some b \<Rightarrow> the (w_heap w b))\<lparr>fs_refcount := n\<rparr>"
    "(if fw then (case on_state w2 a1 (materialize E) of (Inl e, w3) \<Rightarrow> (Inl e, w3) | (Inr _, w3) \<Rightarrow> (Inr a1, w3))
      else (Inr a1, w2)) = (r, w')"
    by (rule wb_open_split [OF steadyD(1) [OF w] stored op]) (rule that; assumption)
  have dict: "w_states w' = w_states w2"
    using S(6) on_state_dict [of w2 a1 "materialize E"]
    by (cases "on_state w2 a1 (materialize E)") (auto split: if_splits sum.splits)
  from reads_steady [OF w i O(1) O(3)] show "std w'" "file_local content i w w'"
    by (simp_all add: dict S(4))
  show "mgr_view content w' = mgr_view content w" using O(2) .
  show "r = Inr a \<Longrightarrow> map_of (w_states w') i = Some a" using O(4) by blast
  show "uncut w' i" if un: "uncut w i"
  proof (rule uncutI)
    fix a st'
    assume a: "map_of (w_states w') i = Some a" "w_heap w' a = Some st'"
    then have a1: "a = a1" using dict S(1) by simp
    have meta: "rows_of (w_store w') st = rows_of (w_store w) st" for st
      using reads_data(1) [OF O(3)] by (simp add: rows_of_def)
    have cut2: "no_cut (rows_of (w_store w) st2) st2"
    proof (cases "map_of (w_states w) i")
      case None
      then show ?thesis using S(5) by (auto simp: new_filestate_def no_cut_def)
    next
      case (Some b)
      then obtain st where "w_heap w b = Some st" using mgr_okD(4) [OF steadyD(1) [OF w]] by blast
      with Some uncutD [OF un Some this] S(5) show ?thesis by (auto simp: rows_of_def no_cut_def)
    qed
    show "no_cut (rows_of (w_store w') st') st'"
    proof (cases fw)
      case False
      with S(3,6) a a1 cut2 meta show ?thesis by simp
    next
      case True
      obtain q st3 s3 where mt: "materialize E st2 (w_store w2) = (q, st3, s3)" by (metis prod_cases3)
      then have "w' = set_state w2 a1 st3 s3"
        using S(3,6) True by (auto simp: on_state_def split: sum.splits)
      then have st': "st' = st3" using a a1 by (simp add: set_state_def)
      have ino: "fs_ino st3 = fs_ino st2" using materialize_id [OF mt] by (simp add: same_ref_def same_id_def)
      show ?thesis
      proof (cases q)
        case (Inl e)
        then show ?thesis using materialize_fails [of E st2 _ e st3 s3] mt st' by (simp add: no_cut_def)
      next
        case (Inr u)
        with materialize_frame [of E st2 "w_store w2" st3 s3] mt cut2 S(2) meta show ?thesis
          by (simp add: rows_of_def st' ino)
      qed
    qed
  qed
qed

end

end
