(* ===== verification/SessionData.thy ===== *)
theory SessionData
  imports SessionInv WritebackTotal WritebackReap
begin

section \<open>File data during a session\<close>

text \<open>
  Over a backend that answers, each call of the manager on a file keeps the invariant of the
  session, works on that file only, and changes its content as a byte string would.
\<close>

subsection \<open>Calls without effect\<close>

lemma set_state_same: "w_heap w a = Some st \<Longrightarrow> set_state w a st (w_store w) = w"
  by (simp add: set_state_def fun_upd_idem)

text \<open>A file state that was never loaded, of a file that is gone: nothing can be loaded.\<close>

lemma dead_calls:
  assumes "\<not> fs_mat st" "get_inode (s_meta s) (fs_ino st) = None"
  shows "wb_write E st s d n = (Inl AttributeError, st, s)"
    "wb_truncate E st s k = (Inl AttributeError, st, s)"
  using assms by (simp_all add: wb_write_def wb_truncate_def materialize_def)

context reliable_backend
begin

lemma state_live: "sok s i st \<Longrightarrow> fs_mat st \<or> get_inode (s_meta s) i \<noteq> None \<Longrightarrow> live s st"
  by (simp add: state_ok_def live_def)

subsection \<open>Reading and writing\<close>

lemma read_steady:
  assumes w: "std w" and inj: "inj (sha256 E)" and a: "map_of (w_states w) i = Some a"
    and on: "on_state w a (\<lambda>st s. wb_read E st s n off) = (r, w')"
  shows "std w'" "file_local content i w w'" "mgr_view content w' = mgr_view content w"
proof -
  have keep: "sok s' i st' \<and> reads s s' \<and> vw s' st' = vw s st"
    if "sok s i st" "wb_read E st s n off = (q, st', s')" for st s q st' s'
  proof -
    have fok: "fok s st" "fs_ino st = i" "\<not> fs_closed st" "flushable s st" using that(1) by (simp_all add: state_ok_def)
    note R = wb_read_ok [OF fok(1) inj that(2)] and D = reads_data [OF wb_read_ok(1) [OF fok(1) inj that(2)]]
    have "flushable s' st'"
      using fok(4) read_frame [OF that(2)] R(4,5) D(1,2)
      by (simp add: flushable_def no_cut_def no_stale_def rows_of_def same_file_def)
    with R fok(2,3) show ?thesis by (simp add: state_ok_def same_file_def)
  qed
  obtain st st' s' where S: "w_heap w a = Some st" "sok (w_store w) i st"
    "wb_read E st (w_store w) n off = (r, st', s')" "w' = set_state w a st' s'" "mok w'"
    "mgr_view content w' = (mgr_view content w)(i := vw s' st')"
    "mgr_view content w i = vw (w_store w) st"
    by (rule on_state_ok [OF steadyD(1) [OF w] a on]) (use keep reads_others in blast)+
  note K = keep [OF S(2,3)]
  from reads_steady [OF w steady_known [OF w a] S(5)] K S(4) show "std w'" "file_local content i w w'"
    by (simp_all add: set_state_def)
  show "mgr_view content w' = mgr_view content w" using S(6,7) K by (simp add: fun_eq_iff)
qed

lemma write_steady:
  assumes w: "std w" and inj: "inj (sha256 E)" and a: "map_of (w_states w) i = Some a"
    and cut: "uncut w i" and d: "d \<noteq> []"
    and on: "on_state w a (\<lambda>st s. wb_write E st s d off) = (r, w')"
  shows "std w'" "file_local content i w w'"
    "mgr_view content w' = (case r of Inl e \<Rightarrow> mgr_view content w
       | Inr k \<Rightarrow> (mgr_view content w)(i := splice (mgr_view content w i) off d))"
proof -
  obtain st where st: "w_heap w a = Some st" "sok (w_store w) i st"
    using mgr_okD(4) [OF steadyD(1) [OF w] a] by blast
  have fok: "fok (w_store w) st" "fs_ino st = i" using st(2) by (simp_all add: state_ok_def)
  have "std w' \<and> file_local content i w w' \<and>
    mgr_view content w' = (case r of Inl e \<Rightarrow> mgr_view content w
       | Inr k \<Rightarrow> (mgr_view content w)(i := splice (mgr_view content w i) off d))"
  proof (cases "fs_mat st \<or> get_inode (s_meta (w_store w)) i \<noteq> None")
    case False
    then have "wb_write E st (w_store w) d off = (Inl AttributeError, st, w_store w)"
      using dead_calls fok(2) by blast
    then have "r = Inl AttributeError" "w' = w" using on st(1) set_state_same by (auto simp: on_state_def)
    with w show ?thesis by simp
  next
    case True
    from wb_write_returns [OF fok(1) inj state_live [OF st(2) True]]
    obtain st' s' where wr: "wb_write E st (w_store w) d off = (Inr (length d), st', s')" by (metis prod.collapse)
    then have r: "r = Inr (length d)" "w' = set_state w a st' s'" using on st(1) by (auto simp: on_state_def)
    note W = mgr_write_ok [OF steadyD(1) [OF w] inj a st(1) uncutD [OF cut a st(1)] d on [unfolded r(1)]]
    have "reads (w_store w) (w_store w')" using wb_write_ok(1) [OF fok(1) inj d wr] r(2) by (simp add: set_state_def)
    from reads_steady [OF w steady_known [OF w a] W(1) this] W(2,4) r(1) show ?thesis by simp
  qed
  then show "std w'" "file_local content i w w'"
    "mgr_view content w' = (case r of Inl e \<Rightarrow> mgr_view content w
       | Inr k \<Rightarrow> (mgr_view content w)(i := splice (mgr_view content w i) off d))" by blast+
qed

subsection \<open>Flushing and closing\<close>

lemma wb_flush_steady:
  assumes w: "std w" and inj: "inj (sha256 E)" and a: "map_of (w_states w) i = Some a"
    and fl: "wb_flush E w a = (r, w')"
  shows "r = Inr ()" "std w'" "file_local content i w w'" "mgr_view content w' = mgr_view content w"
    "w_states w' = w_states w"
proof -
  note ok = steadyD(1) [OF w]
  have "r = Inr () \<and> std w' \<and> file_local content i w w' \<and> mgr_view content w' = mgr_view content w \<and> w_states w' = w_states w"
  proof (cases "w_delay w > 0")
    case True
    with fl w show ?thesis by (simp add: wb_flush_def)
  next
    case False
    then have on: "on_state w a (flush_locked E) = (r, w')" using fl by (simp add: wb_flush_def)
    with sync_returns [OF ok inj a] flush_steady [OF w a inj on] sync_ok(2,3) [OF ok inj a on] show ?thesis by simp
  qed
  then show "r = Inr ()" "std w'" "file_local content i w w'" "mgr_view content w' = mgr_view content w"
    "w_states w' = w_states w" by blast+
qed

lemma wb_sync_steady:
  assumes w: "std w" and inj: "inj (sha256 E)" and a: "map_of (w_states w) i = Some a"
    and fl: "wb_sync E w a = (r, w')"
  shows "r = Inr ()" "std w'" "file_local content i w w'" "mgr_view content w' = mgr_view content w"
    "sbytes content (w_store w') i = mgr_view content w i"
proof -
  note ok = steadyD(1) [OF w] and on = fl [unfolded wb_sync_def]
  show r: "r = Inr ()" using sync_returns [OF ok inj a] on by simp
  show "std w'" "file_local content i w w'" using flush_steady [OF w a inj on] by blast+
  show "mgr_view content w' = mgr_view content w" "sbytes content (w_store w') i = mgr_view content w i"
    using sync_ok(2,4) [OF ok inj a on] r by blast+
qed

lemma wb_release_returns:
  assumes w: "std w" and inj: "inj (sha256 E)" and a: "map_of (w_states w) i = Some a"
  shows "fst (wb_release E w a) = Inr ()"
proof -
  note ok = steadyD(1) [OF w]
  obtain st0 where st0: "w_heap w a = Some st0" using mgr_okD(4) [OF ok a] by blast
  define st where "st = st0\<lparr>fs_refcount := fs_refcount st0 - 1\<rparr>"
  define w1 where "w1 = w\<lparr>w_heap := (w_heap w)(a := Some st)\<rparr>"
  have w1: "mok w1" "map_of (w_states w1) i = Some a"
    using touch_ok(1) [OF ok a st0, of st "fs_refcount st0 - 1" 0] a by (simp_all add: w1_def st_def)
  obtain w2 where "on_state w1 a (flush_locked E) = (Inr (), w2)"
    using sync_returns [OF w1(1) inj w1(2)] by (metis prod.collapse)
  then have "on_state (w1\<lparr>w_states := dict_pop (w_states w1) (fs_ino st)\<rparr>) a (flush_locked E) =
      (Inr (), w2\<lparr>w_states := dict_pop (w_states w1) (fs_ino st)\<rparr>)" by (auto simp: on_state_states)
  then show ?thesis unfolding wb_release_def st0 option.case Let_def st_def [symmetric] w1_def [symmetric] by simp
qed

lemma wb_release_all:
  assumes w: "std w" and inj: "inj (sha256 E)" and a: "map_of (w_states w) i = Some a"
    and rel: "wb_release E w a = (r, w')"
  shows "r = Inr ()" "std w'" "file_local content i w w'" "mgr_view content w' = mgr_view content w"
proof -
  show r: "r = Inr ()" using wb_release_returns [OF w inj a] rel by simp
  note rel = rel [unfolded r]
  obtain st0 where st0: "w_heap w a = Some st0" using mgr_okD(4) [OF steadyD(1) [OF w] a] by blast
  show "std w'" "file_local content i w w'" using wb_release_steady [OF w inj a rel] by blast+
  show "mgr_view content w' = mgr_view content w"
    using wb_release_ok(1) [OF steadyD(1) [OF w] inj a st0 rel] by blast
qed

subsection \<open>Truncating\<close>

lemma truncate_steady:
  assumes w: "std w" and inj: "inj (sha256 E)" and a: "map_of (w_states w) i = Some a"
    and cut: "uncut w i" and there: "get_inode (s_meta (w_store w)) i \<noteq> None"
    and on: "on_state w a (\<lambda>st s. wb_truncate E st s n) = (r, w')"
  shows "r = Inr ()" "std w'" "file_local content i w w'" "w_states w' = w_states w"
    "mgr_view content w' = (mgr_view content w)(i := resize n (mgr_view content w i))"
proof -
  obtain st where st: "w_heap w a = Some st" "sok (w_store w) i st"
    using mgr_okD(4) [OF steadyD(1) [OF w] a] by blast
  have fok: "fok (w_store w) st" "\<not> fs_closed st" using st(2) by (simp_all add: state_ok_def)
  have "live (w_store w) st" using state_live [OF st(2)] there by blast
  from wb_truncate_returns [OF fok(1) inj this, of n]
  obtain st' s' where tr: "wb_truncate E st (w_store w) n = (Inr (), st', s')" by (metis prod.collapse)
  then have w': "r = Inr ()" "w' = set_state w a st' s'" using on st(1) by (auto simp: on_state_def)
  note T = mgr_truncate_ok [OF steadyD(1) [OF w] inj a st(1) uncutD [OF cut a st(1)] on [unfolded w'(1)]]
  have "reads (w_store w) (w_store w')" using wb_truncate_ok(1) [OF fok(1) inj fok(2) tr] w'(2) by (simp add: set_state_def)
  from reads_steady [OF w steady_known [OF w a] T(1) this] T(2,4) w'(1)
  show "r = Inr ()" "std w'" "file_local content i w w'" "w_states w' = w_states w"
    "mgr_view content w' = (mgr_view content w)(i := resize n (mgr_view content w i))" by simp_all
qed

lemma wb_open_returns:
  assumes w: "std w" and inj: "inj (sha256 E)" and i: "i \<le> seq (s_meta (w_store w))"
    and there: "get_inode (s_meta (w_store w)) i \<noteq> None"
  shows "\<exists>a w'. wb_open E w i fw = (Inr a, w')"
proof -
  obtain r w' where op: "wb_open E w i fw = (r, w')" by force
  have stored: "map_of (w_states w) i = None \<longrightarrow> (\<exists>X. stored_as content (w_store w) i X)"
    using steady_stored [OF w there] by blast
  obtain a1 w2 st2 where S: "map_of (w_states w2) i = Some a1" "w_store w2 = w_store w" "w_heap w2 a1 = Some st2"
    "(if fw then (case on_state w2 a1 (materialize E) of (Inl e, w3) \<Rightarrow> (Inl e, w3) | (Inr _, w3) \<Rightarrow> (Inr a1, w3))
      else (Inr a1, w2)) = (r, w')" "mok w2"
    by (rule wb_open_split [OF steadyD(1) [OF w] stored op]) (rule that; assumption)
  have st2: "sok (w_store w) i st2" using mgr_okD(4) [OF S(5,1)] S(2,3) by auto
  then have "fok (w_store w) st2" by (simp add: state_ok_def)
  from materialize_returns [OF this inj state_live [OF st2]] there S(2-4)
  show ?thesis unfolding op by (auto simp: on_state_def split: if_splits prod.splits)
qed

lemma truncate_path_steady:
  assumes w: "std w" and inj: "inj (sha256 E)" and i: "i \<le> seq (s_meta (w_store w))"
    and there: "get_inode (s_meta (w_store w)) i \<noteq> None" and cut: "uncut w i"
    and tr: "truncate_path E w i n = (r, w')"
  shows "r = Inr ()" "std w'" "file_local content i w w'"
    "mgr_view content w' = (mgr_view content w)(i := resize n (mgr_view content w i))"
proof -
  obtain a w1 where op: "wb_open E w i True = (Inr a, w1)" using wb_open_returns [OF w inj i there] by blast
  note O = wb_open_steady [OF w inj i there op]
  have a1: "map_of (w_states w1) i = Some a" using O(4) by blast
  have there1: "get_inode (s_meta (w_store w1)) i \<noteq> None"
    using there file_local_inode [OF O(2)] by simp
  obtain q2 w2 where on: "on_state w1 a (\<lambda>st s. wb_truncate E st s n) = (q2, w2)" by force
  note T = truncate_steady [OF O(1) inj a1 O(5) [OF cut] there1 on]
  have a2: "map_of (w_states w2) i = Some a" using T(4) a1 by simp
  obtain q3 w3 where fl: "wb_flush E w2 a = (q3, w3)" by force
  note F = wb_flush_steady [OF T(2) inj a2 fl]
  have a3: "map_of (w_states w3) i = Some a" using F(5) a2 by simp
  obtain q4 w4 where rel: "wb_release E w3 a = (q4, w4)" by force
  note R = wb_release_all [OF F(2) inj a3 rel]
  have "r = Inr ()" "w' = w4"
    using tr rel unfolding truncate_path_def op prod.case sum.case on T(1) by (simp_all add: fl F(1) R(1))
  moreover have "file_local content i w w4"
    using O(2) T(3) F(3) R(3) file_local_trans by blast
  ultimately show "r = Inr ()" "std w'" "file_local content i w w'"
    "mgr_view content w' = (mgr_view content w)(i := resize n (mgr_view content w i))"
    using R T F O by simp_all
qed

subsection \<open>The reaper\<close>

lemma reap_loop_steady:
  assumes "std w" "inj (sha256 E)" "idle_states w cands" "reap_loop E w force cands = (r, w')"
  shows "std w' \<and> tree_kept (w_store w) (w_store w') \<and> set (w_states w') \<subseteq> set (w_states w) \<and>
    s_cs (w_store w') = s_cs (w_store w)"
  using assms
proof (induction cands arbitrary: w)
  case (Cons a cands)
  obtain i st0 where a: "map_of (w_states w) i = Some a" "w_heap w a = Some st0"
    by (rule idle_statesE [OF Cons.prems(3) list.set_intros(1)])
  obtain w1 where on: "on_state w a (flush_locked E) = (Inr (), w1)"
    using sync_returns [OF steadyD(1) [OF Cons.prems(1)] Cons.prems(2) a(1)] by (metis prod.collapse)
  then have rf: "reap_flush E w a = (Inr (), w1)" by (simp add: reap_flush_def)
  note F = flush_steady [OF Cons.prems(1) a(1) Cons.prems(2) on]
    and I = idle_flushed(2) [OF steadyD(1) [OF Cons.prems(1)] Cons.prems(2,3) rf]
  let ?w = "reap_remove w1 a"
  have sub: "set (w_states ?w) \<subseteq> set (w_states w)" using I by auto
  have "map_of (w_states ?w) j = None" if "map_of (w_states w1) j = None" for j
    using that sub on_state_dict [OF on] by (auto simp: map_of_eq_None_iff)
  then have "std ?w" using F(1) I by (auto simp: steady_def unused_ids_def)
  from Cons.IH [OF this Cons.prems(2)] I Cons.prems(4) rf sub F(2)
  show ?case by (auto simp: file_local_def others_def intro: same_tree_trans)
qed simp

lemma reap_once_steady:
  assumes w: "std w" and inj: "inj (sha256 E)" and rp: "reap_once E w force = (r, w')"
  shows "std w'" "tree_kept (w_store w) (w_store w')" "set (w_states w') \<subseteq> set (w_states w)"
    "s_cs (w_store w') = s_cs (w_store w)"
  using reap_loop_steady [OF w inj candidates_idle [OF steadyD(1) [OF w]] rp [unfolded reap_once_def]] by blast+

lemma shutdown_steady:
  assumes w: "std w" and inj: "inj (sha256 E)" and sd: "shutdown E w = (r, w')"
  shows "std w'" "tree_kept (w_store w) (w_store w')" "s_cs (w_store w') = s_cs (w_store w)"
proof -
  have "std (idle_all w)" unfolding idle_all_def
    by (rule heap_steady [OF w]) (use idle_all_ok(1) [OF steadyD(1) [OF w]] in \<open>simp add: idle_all_def\<close>)
  from reap_once_steady [OF this inj sd [unfolded shutdown_idle]]
  show "std w'" "tree_kept (w_store w) (w_store w')" "s_cs (w_store w') = s_cs (w_store w)"
    by (simp_all add: idle_all_def)
qed

end

end
