(* ===== verification/SessionCore.thy ===== *)
theory SessionCore
  imports SessionData
begin

section \<open>Requests during a session\<close>

text \<open>
  Every request of \<open>FsCore\<close> keeps the invariant of the session over a backend that answers,
  and changes the content of files as its effect on byte strings says (\<open>tracks\<close>): for every
  inode that has a name, an open handle, or is not given out yet.
\<close>

definition alive :: "'b fs \<Rightarrow> ino \<Rightarrow> bool" where
  "alive f i \<longleftrightarrow>
     get_inode (fc_meta f) i \<noteq> None \<or> i \<in> fc_pending f \<or> is_open f i \<or> seq (fc_meta f) < i"

definition tracks ::
    "('b \<Rightarrow> nat \<Rightarrow> bytes option) \<Rightarrow> 'b fs \<Rightarrow> ((ino \<Rightarrow> bytes) \<Rightarrow> ino \<Rightarrow> bytes) \<Rightarrow> 'b fs \<Rightarrow> bool" where
  "tracks content f eff f' \<longleftrightarrow>
     s_cs (fc_store f') = s_cs (fc_store f) \<and>
     (\<forall>i. alive f' i \<longrightarrow>
        alive f i \<and> mgr_view content (fc_wb f') i = eff (mgr_view content (fc_wb f)) i)"

lemma tracks_refl [simp]: "tracks content f id f"
  by (simp add: tracks_def)

lemma tracks_trans: "tracks content f eff f1 \<Longrightarrow> tracks content f1 id f' \<Longrightarrow> tracks content f eff f'"
  by (simp add: tracks_def)

subsection \<open>Who is alive\<close>

lemma alive_local:
  assumes inv: "core_inv f" "core_inv f'" and loc: "file_local content i (fc_wb f) (fc_wb f')" and i: "alive f i"
    and pend: "fc_pending f' \<subseteq> fc_pending f"
    and hs: "\<And>a. a \<in># handles f' \<Longrightarrow> a \<in># handles f \<or> (i, a) \<in> set (w_states (fc_wb f'))"
    and j: "alive f' j"
  shows "alive f j"
proof (cases "j = i")
  case False
  have seq: "seq (fc_meta f') = seq (fc_meta f)" by (rule file_local_seq [OF loc])
  have "is_open f j" if op: "is_open f' j"
  proof -
    obtain a where a: "a \<in># handles f'" "(j, a) \<in> set (w_states (fc_wb f'))"
      using op unfolding is_open_iff [OF inv(2)] by blast
    have "(i, a) \<notin> set (w_states (fc_wb f'))" using table_addr [OF core_invD(2) [OF inv(2)] a(2)] False by blast
    then have "a \<in># handles f" using hs [OF a(1)] by blast
    moreover have "map_of (w_states (fc_wb f')) j = Some a"
      using a(2) table_okD(1) [OF core_invD(2) [OF inv(2)]] by simp
    then have "(j, a) \<in> set (w_states (fc_wb f))"
      using loc False by (auto simp: file_local_def dest: map_of_SomeD)
    ultimately show ?thesis using is_open_iff [OF inv(1)] by blast
  qed
  with j pend seq file_local_inode [OF loc, of j] show ?thesis by (auto simp: alive_def)
qed (use i in simp)

lemma alive_meta:
  assumes on: "on_meta f op = (r, f')" and rev: "no_revival (fc_meta f) (fc_meta f')" and j: "alive f' j"
  shows "alive f j"
proof -
  have same: "fc_fh f' = fc_fh f" "fc_pending f' = fc_pending f" "w_heap (fc_wb f') = w_heap (fc_wb f)"
    by (subst on_meta_run(2) [OF on], simp)+
  then have "is_open f' j = is_open f j" by (simp add: is_open_def)
  with j rev show ?thesis
    by (cases "seq (fc_meta f) < j") (auto simp: alive_def same no_revival_def)
qed

subsection \<open>Changing the tree\<close>

definition data_kept :: "meta \<Rightarrow> meta \<Rightarrow> bool" where
  "data_kept m m' \<longleftrightarrow>
     chunks m' = chunks m \<and> blobs m' = blobs m \<and>
     (\<forall>i n'. get_inode m' i = Some n' \<longrightarrow>
        (\<exists>n. get_inode m i = Some n \<and> i_size n' = i_size n) \<or> seq m < i \<and> i_size n' = 0)"

lemma data_kept_refl [simp]: "data_kept m m"
  by (simp add: data_kept_def)

lemma data_kept_delete: "data_kept m m' \<Longrightarrow> data_kept m (delete_inode m' c)"
  by (simp add: data_kept_def) (simp add: delete_inode_def)

lemma data_kept_step:
  assumes "data_kept m m1" "chunks m' = chunks m1" "blobs m' = blobs m1"
    and "\<And>i. map_option i_size (get_inode m' i) = map_option i_size (get_inode m1 i)"
  shows "data_kept m m'"
proof -
  have sizes: "\<exists>n. get_inode m1 i = Some n \<and> i_size n' = i_size n" if "get_inode m' i = Some n'" for i n'
    using assms(4) [of i] that by (cases "get_inode m1 i") auto
  have "(\<exists>n. get_inode m i = Some n \<and> i_size n' = i_size n) \<or> seq m < i \<and> i_size n' = 0"
    if g: "get_inode m' i = Some n'" for i n'
  proof -
    obtain n1 where "get_inode m1 i = Some n1" "i_size n' = i_size n1" using sizes [OF g] by blast
    with assms(1) show ?thesis by (auto simp: data_kept_def)
  qed
  with assms(1-3) show ?thesis by (simp add: data_kept_def)
qed

lemma setattr_kept: "data_kept m (setattr m i mode uid gid None atime mtime)"
proof -
  have opt: "i_size (opt_set (\<lambda>v n. n\<lparr>i_mode := v\<rparr>) x n) = i_size n"
    "i_size (opt_set (\<lambda>v n. n\<lparr>i_uid := v\<rparr>) x n) = i_size n" "i_size (opt_set (\<lambda>v n. n\<lparr>i_gid := v\<rparr>) x n) = i_size n"
    "i_size (opt_set (\<lambda>v n. n\<lparr>i_atime := v\<rparr>) y n) = i_size n" "i_size (opt_set (\<lambda>v n. n\<lparr>i_mtime := v\<rparr>) y n) = i_size n"
    "opt_set upd None n = n" for x y n and upd :: "'a \<Rightarrow> inode \<Rightarrow> inode"
    by (simp_all add: opt_set_def split: option.split)
  show ?thesis
    by (rule data_kept_step [OF data_kept_refl])
      (simp_all add: setattr_def option.map_comp comp_def opt)
qed

lemma link_kept: "link m parent name i = (r, m') \<Longrightarrow> data_kept m m'"
  by (rule data_kept_step [OF data_kept_refl])
    (auto simp: link_def get_inode_def select_update option.map_comp comp_def split: option.splits)

lemma create_kept:
  assumes "create m parent name mode knd uid gid target = (r, m')"
  shows "data_kept m m'"
proof -
  define row where "row = \<lparr>i_id = Suc (seq m), i_kind = knd, i_mode = mode, i_uid = uid, i_gid = gid, i_size = 0,
      i_atime = clock m, i_mtime = clock m, i_ctime = clock m,
      i_nlink = (if knd = KDir then 2 else 1), i_target = target\<rparr>"
  define m1 where "m1 = m\<lparr>inodes := inodes m @ [(Suc (seq m), row)], seq := Suc (seq m)\<rparr>"
  have m1: "data_kept m m1"
    by (auto simp: data_kept_def m1_def get_inode_def sql_select_def map_add_def row_def split: option.splits if_splits)
  have "m' = m1 \<or> (\<exists>ds. m' = m1\<lparr>dirents := ds\<rparr>) \<or> (\<exists>ds. m' = add_nlink (m1\<lparr>dirents := ds\<rparr>) parent 1)"
    using assms unfolding create_def Let_def row_def [symmetric] m1_def [symmetric]
    by (auto split: option.splits if_splits)
  moreover have "data_kept m (m1\<lparr>dirents := ds\<rparr>)" for ds
    by (rule data_kept_step [OF m1]) simp_all
  moreover have "data_kept m (add_nlink (m1\<lparr>dirents := ds\<rparr>) parent 1)" for ds
    by (rule data_kept_step [OF m1]) (simp_all add: option.map_comp comp_def, simp_all add: add_nlink_def)
  ultimately show ?thesis using m1 by blast
qed

lemma unlink_kept:
  assumes "meta_wf m" "unlink_dirent m parent name = (r, m')"
  shows "data_kept m m'"
  using assms(1)
proof (cases rule: unlink_dirent_cases [of m parent name])
  case (gone c n m3 q)
  have "data_kept m m3" by (rule data_kept_step [OF data_kept_refl gone(8,9,7)])
  with assms(2) gone(12) data_kept_delete show ?thesis by (auto split: if_splits)
qed (use assms in simp)

lemma rename_kept:
  assumes "meta_wf m" "rename m op oname np nname = (r, m')"
  shows "data_kept m m'"
proof (cases "sql_select (dirents m) (op, oname)")
  case None
  with assms(2) show ?thesis by (simp add: rename_def)
next
  case (Some src)
  obtain sn rep m1 where "get_inode m src = Some sn" and rr: "rename_replace m np nname = (Inr rep, m1)"
    and res: "rename m op oname np nname =
       (Inr rep, let m2 = m1\<lparr>dirents := sql_rekey (dirents m1) (op, oname) (np, nname)\<rparr>
                 in if i_kind sn = KDir \<and> op \<noteq> np
                    then add_nlink (add_nlink m2 op (- 1)) np 1 else m2)"
    by (rule rename_Inr [OF assms(1) Some])
  have m1: "data_kept m m1"
    using assms(1)
  proof (cases rule: rename_replace_cases [of m np nname])
    case (taken c n m3 q)
    have "data_kept m m3" by (rule data_kept_step [OF data_kept_refl taken(8,9,7)])
    with rr taken(12) data_kept_delete show ?thesis by (auto split: if_splits)
  qed (use rr in simp)
  have "chunks m' = chunks m1" "blobs m' = blobs m1"
    using assms(2) res by (auto simp: Let_def add_nlink_def split: if_splits)
  moreover have "map_option i_size (get_inode m' i) = map_option i_size (get_inode m1 i)" for i
    using assms(2) res by (auto simp: Let_def option.map_comp comp_def split: if_splits)
  ultimately show ?thesis by (rule data_kept_step [OF m1])
qed

context reliable_backend
begin

definition ses :: "'b fs \<Rightarrow> bool" where
  "ses f \<longleftrightarrow> core_inv f \<and> std (fc_wb f)"

lemma sesD: "ses f \<Longrightarrow> core_inv f" "ses f \<Longrightarrow> std (fc_wb f)"
  by (simp_all add: ses_def)

abbreviation trk :: "'b fs \<Rightarrow> ((ino \<Rightarrow> bytes) \<Rightarrow> ino \<Rightarrow> bytes) \<Rightarrow> 'b fs \<Rightarrow> bool" where
  "trk \<equiv> tracks content"

lemma meta_steady:
  assumes f: "ses f" and on: "on_meta f op = (r, f')" and inv: "core_inv f'"
    and kept: "data_kept (fc_meta f) (fc_meta f')" and rev: "no_revival (fc_meta f) (fc_meta f')"
  shows "ses f'" "trk f id f'"
proof -
  note w = sesD(2) [OF f]
  have fc: "fc_wb f' = (fc_wb f)\<lparr>w_store := (fc_store f)\<lparr>s_meta := fc_meta f'\<rparr>\<rparr>"
    by (subst on_meta_run(2) [OF on]) simp
  have same: "w_states (fc_wb f') = w_states (fc_wb f)" "s_cs (fc_store f') = s_cs (fc_store f)"
    "s_back (fc_store f') = s_back (fc_store f)" by (subst fc, simp)+
  have tab: "chunks (fc_meta f') = chunks (fc_meta f)" "blobs (fc_meta f') = blobs (fc_meta f)"
    using kept by (simp_all add: data_kept_def)
  have size: "(\<exists>n. get_inode (fc_meta f) i = Some n \<and> i_size n' = i_size n) \<or> seq (fc_meta f) < i \<and> i_size n' = 0"
    if "get_inode (fc_meta f') i = Some n'" for i n'
    using kept that by (simp add: data_kept_def)
  have "\<exists>n. get_inode (fc_meta f) i = Some n \<and> i_size n' = i_size n"
    if "map_of (w_states (fc_wb f)) i = Some a" "get_inode (fc_meta f') i = Some n'" for i a n'
    using size [OF that(2)] steady_known [OF w that(1)] by auto
  note T = tree_change_ok [OF steadyD(1) [OF w] tab this fc]
  have gc: "get_chunks (fc_meta f') = get_chunks (fc_meta f)" by (simp add: get_chunks_def tab fun_eq_iff)
  have bytes: "sbytes content (fc_store f') i = sbytes content (fc_store f) i" for i
    by (simp add: sbytes_def file_bytes_def blob_bytes_def gc loc_def blob_get_def tab same)
  have fresh: "sbytes content (fc_store f) i = []" if "seq (fc_meta f) < i" for i
    using steadyD(3) [OF w] that by (simp add: unused_ids_def sbytes_def file_bytes_def)
  have "size_ok content (fc_store f') i" for i
    using steadyD(2) [OF w, of i] size [of i] fresh [of i] by (auto simp: size_ok_def gc bytes same)
  moreover have "unused_ids (fc_wb f')"
    using steadyD(3) [OF w] rev by (auto simp: unused_ids_def gc same no_revival_def)
  ultimately show "ses f'" using T(1) inv by (simp add: ses_def steady_def)
  show "trk f id f'" using alive_meta [OF on rev] T(2) same(2) by (auto simp: tracks_def)
qed

text \<open>The manager at work on file \<open>i\<close>.\<close>

lemma local_steady:
  assumes f: "ses f" and f': "std (fc_wb f')" "core_inv f'" "file_local content i (fc_wb f) (fc_wb f')"
    and i: "alive f i" and pend: "fc_pending f' \<subseteq> fc_pending f"
    and hs: "\<And>a. a \<in># handles f' \<Longrightarrow> a \<in># handles f \<or> (i, a) \<in> set (w_states (fc_wb f'))"
    and view: "mgr_view content (fc_wb f') = eff (mgr_view content (fc_wb f))"
  shows "ses f'" "trk f eff f'"
  using f' alive_local [OF sesD(1) [OF f] f'(2,3) i pend hs] view by (auto simp: ses_def tracks_def file_local_def others_def)

lemma drop_steady:
  assumes f: "ses f" and gone: "get_inode (fc_meta f) i = None" "i \<le> seq (fc_meta f)" "i \<notin> fc_pending f"
    and closed: "\<not> is_open f i" and dr: "drop_file E f i = (r, f')" and inj: "inj (sha256 E)"
  shows "r = Inr ()" "ses f'" "trk f id f'"
proof -
  note D = drop_file_ok [OF steadyD(1) [OF sesD(2) [OF f]] inj dr] and I = inv_drop_file [OF sesD(1) [OF f] closed dr]
  show "r = Inr ()" using D(1) .
  have loc: "file_local content i (fc_wb f) (fc_wb f')" using D(10,11) I(2) by (simp add: file_local_def)
  have none: "get_inode (fc_meta f') i = None" using file_local_inode [OF loc] gone(1) by simp
  then have "size_ok content (fc_store f') i" using D(4) by (simp add: size_ok_def)
  from steady_local [OF sesD(2) [OF f] loc D(2) this gone(2)] I(1) show f': "ses f'" by (simp add: ses_def)
  have hs: "handles f' = handles f" by (simp add: handles_def D(6))
  have "(i, a) \<notin> set (w_states (fc_wb f'))" for a using D(5) by (force simp: map_of_eq_None_iff)
  then have "\<not> is_open f' i" unfolding is_open_iff [OF I(1)] by blast
  then have dead: "\<not> alive f' i"
    using none gone D(7) same_treeD(2) [OF I(2)] by (simp add: alive_def)
  have "alive f j \<and> mgr_view content (fc_wb f') j = mgr_view content (fc_wb f) j" if j: "alive f' j" for j
  proof -
    have ji: "j \<noteq> i" using dead j by blast
    have "is_open f j" if op: "is_open f' j"
    proof -
      obtain a where a: "a \<in># handles f'" "map_of (w_states (fc_wb f')) j = Some a"
        using op table_okD(1) [OF core_invD(2) [OF I(1)]] unfolding is_open_iff [OF I(1)] by auto
      then have "map_of (w_states (fc_wb f)) j = Some a" using D(11) [OF ji] by simp
      with a(1) hs show ?thesis unfolding is_open_iff [OF sesD(1) [OF f]] by (auto dest: map_of_SomeD)
    qed
    then have "alive f j"
      using j D(7) same_treeD(2) [OF I(2)] file_local_inode [OF loc, of j] by (auto simp: alive_def)
    with D(3) ji show ?thesis by simp
  qed
  moreover have "s_cs (fc_store f') = s_cs (fc_store f)" using loc by (simp add: file_local_def others_def)
  ultimately show "trk f id f'" by (simp add: tracks_def)
qed

lemma free_or_defer_steady:
  assumes f: "ses f" and gone: "get_inode (fc_meta f) i = None" "i \<le> seq (fc_meta f)"
    and pend: "i \<in> fc_pending f \<longrightarrow> is_open f i"
    and fr: "free_or_defer E f i = (r, f')" and inj: "inj (sha256 E)"
  shows "r = Inr ()" "ses f'" "trk f id f'"
proof -
  have "r = Inr () \<and> ses f' \<and> trk f id f'"
  proof (cases "is_open f i")
    case True
    then have f': "r = Inr ()" "f' = f\<lparr>fc_pending := insert i (fc_pending f)\<rparr>" using fr by (simp_all add: free_or_defer_def)
    have "alive f j" if "alive f' j" for j
      using that True by (auto simp: alive_def f' is_open_def)
    moreover have "core_inv f'" by (rule inv_free_or_defer [OF sesD(1) [OF f] gone(2,1) fr])
    ultimately show ?thesis using sesD(2) [OF f] f' by (simp add: ses_def tracks_def)
  next
    case False
    with fr drop_steady [OF f gone _ False _ inj] pend show ?thesis by (simp add: free_or_defer_def)
  qed
  then show "r = Inr ()" "ses f'" "trk f id f'" by blast+
qed

end

end
