(* ===== verification/SessionRequests.thy ===== *)
theory SessionRequests
  imports SessionCore
begin

section \<open>The requests of a session, one by one\<close>

definition ino_at :: "'b fs \<Rightarrow> nat \<Rightarrow> ino option" where
  "ino_at f fh =
     (case map_of (fc_fh f) fh of
        None \<Rightarrow> None
      | Some a \<Rightarrow> map_option fs_ino (w_heap (fc_wb f) a))"

text \<open>The size a \<open>setattr\<close> request sets, if it truncates.\<close>

definition new_size :: "'b fs \<Rightarrow> ino \<Rightarrow> nat option \<Rightarrow> nat option" where
  "new_size f i sz =
     (case get_inode (fc_meta f) i of
        None \<Rightarrow> None
      | Some n \<Rightarrow> (case sz of
            None \<Rightarrow> None
          | Some k \<Rightarrow> if \<not> is_dir n \<and> k \<noteq> i_size n then Some k else None))"

text \<open>An outcome the adapter turns into an answer: no exception but \<open>OSError\<close> with an errno.\<close>

definition tame :: "exn + 'a \<Rightarrow> bool" where
  "tame r =
     (case r of
        Inr x \<Rightarrow> True
      | Inl e \<Rightarrow> (case e of OSError c \<Rightarrow> c \<noteq> None | _ \<Rightarrow> False))"

lemma tame_simps [simp]: "tame (Inr x)" "tame (fail c)"
  by (simp_all add: tame_def)

lemma handle_state:
  assumes inv: "core_inv f" and fh: "map_of (fc_fh f) fh = Some a"
  obtains i where "map_of (w_states (fc_wb f)) i = Some a" "ino_at f fh = Some i" "is_open f i"
proof -
  have a: "a \<in># handles f" using map_of_SomeD [OF fh] by (force simp: handles_def)
  obtain i st where i: "(i, a) \<in> set (w_states (fc_wb f))" "w_heap (fc_wb f) a = Some st" "fs_ino st = i"
    using held_table [OF core_invD(3,2) [OF inv] a] by blast
  then have "map_of (w_states (fc_wb f)) i = Some a" using table_okD(1) [OF core_invD(2) [OF inv]] by simp
  moreover have "ino_at f fh = Some i" using i fh by (simp add: ino_at_def)
  moreover have "is_open f i" unfolding is_open_iff [OF inv] using a i(1) by blast
  ultimately show thesis using that by blast
qed

lemma alive_inode: "get_inode (fc_meta f) i \<noteq> None \<Longrightarrow> alive f i"
  by (simp add: alive_def)

lemma inode_seq: "core_inv f \<Longrightarrow> get_inode (fc_meta f) i \<noteq> None \<Longrightarrow> i \<le> seq (fc_meta f)"
  using tables_okD(6) [OF meta_wfD(1) [OF core_invD(1)]] by blast

context reliable_backend
begin

subsection \<open>Handles\<close>

text \<open>A call on the file state of a handle, with its effect on that file.\<close>

lemma handle_op_steady:
  assumes f: "ses f" and on: "on_handle f fh op = (r, f')" and inv: "core_inv f'"
    and op: "\<And>i a w'. map_of (fc_fh f) fh = Some a \<Longrightarrow> map_of (w_states (fc_wb f)) i = Some a \<Longrightarrow>
      ino_at f fh = Some i \<Longrightarrow> op a (fc_wb f) = (r, w') \<Longrightarrow>
      std w' \<and> file_local content i (fc_wb f) w' \<and> mgr_view content w' = eff i (mgr_view content (fc_wb f))"
  shows "ses f'" "trk f (case ino_at f fh of None \<Rightarrow> id | Some i \<Rightarrow> eff i) f'"
proof -
  have "ses f' \<and> trk f (case ino_at f fh of None \<Rightarrow> id | Some i \<Rightarrow> eff i) f'"
  proof (cases "map_of (fc_fh f) fh")
    case None
    then have "f' = f" "ino_at f fh = None" using on by (simp_all add: on_handle_def get_state_def ino_at_def)
    with f show ?thesis by simp
  next
    case (Some a)
    obtain i where i: "map_of (w_states (fc_wb f)) i = Some a" "ino_at f fh = Some i" "is_open f i"
      by (rule handle_state [OF sesD(1) [OF f] Some])
    obtain w' where w': "op a (fc_wb f) = (r, w')" "f' = f\<lparr>fc_wb := w'\<rparr>"
      using on Some by (auto simp: on_handle_def get_state_def elim: on_wbE)
    note O = op [OF Some i(1,2) w'(1)]
    have "alive f i" using i(3) by (simp add: alive_def)
    from local_steady [OF f _ inv _ this, of "eff i"] O i(2) w'(2) show ?thesis by (simp add: handles_def)
  qed
  then show "ses f'" "trk f (case ino_at f fh of None \<Rightarrow> id | Some i \<Rightarrow> eff i) f'" by blast+
qed

lemma trk_id: "trk f (case x of None \<Rightarrow> id | Some i \<Rightarrow> id) f' = trk f id f'"
  by (simp split: option.split)

lemma handle_quiet_steady:
  assumes f: "ses f" and on: "on_handle f fh op = (r, f')" and inv: "core_inv f'"
    and op: "\<And>i a w'. map_of (w_states (fc_wb f)) i = Some a \<Longrightarrow> op a (fc_wb f) = (r, w') \<Longrightarrow>
      std w' \<and> file_local content i (fc_wb f) w' \<and> mgr_view content w' = mgr_view content (fc_wb f)"
  shows "ses f' \<and> trk f id f'"
  using handle_op_steady [OF f on inv, where eff = "\<lambda>_. id"] op unfolding trk_id by simp

lemma core_read_steady:
  assumes f: "ses f" and inj: "inj (sha256 E)" and rd: "core_read E f fh off n = (r, f')"
  shows "ses f'" "trk f id f'"
    "r = Inr x \<Longrightarrow> \<exists>i. ino_at f fh = Some i \<and> alive f i \<and> x = slice (mgr_view content (fc_wb f) i) off (off + n)"
proof -
  note w = sesD(2) [OF f] and inv = inv_io(1) [OF sesD(1) [OF f] rd]
  show "ses f'" "trk f id f'"
    using handle_quiet_steady [OF f rd [unfolded core_read_def] inv] read_steady [OF w inj] by simp_all
  assume r: "r = Inr x"
  then obtain a where a: "map_of (fc_fh f) fh = Some a"
    using rd by (cases "map_of (fc_fh f) fh") (auto simp: core_read_def on_handle_def get_state_def)
  obtain i where i: "map_of (w_states (fc_wb f)) i = Some a" "ino_at f fh = Some i" "is_open f i"
    by (rule handle_state [OF sesD(1) [OF f] a])
  from core_read_ok(3) [OF steadyD(1) [OF w] inj a i(1) rd r] i(2,3)
  show "\<exists>i. ino_at f fh = Some i \<and> alive f i \<and> x = slice (mgr_view content (fc_wb f) i) off (off + n)"
    by (simp add: alive_def)
qed

lemma core_write_steady:
  assumes f: "ses f" and inj: "inj (sha256 E)" and d: "d \<noteq> []"
    and cut: "\<And>i. ino_at f fh = Some i \<Longrightarrow> uncut (fc_wb f) i"
    and wr: "core_write E f fh off d = (r, f')"
  shows "ses f'" "trk f (case ino_at f fh of None \<Rightarrow> id
    | Some i \<Rightarrow> (case r of Inl e \<Rightarrow> id | Inr k \<Rightarrow> (\<lambda>v. v(i := splice (v i) off d)))) f'"
proof -
  note w = sesD(2) [OF f] and inv = inv_io(2) [OF sesD(1) [OF f] wr]
  let ?eff = "\<lambda>i. case r of Inl e \<Rightarrow> id | Inr k \<Rightarrow> (\<lambda>v. v(i := splice (v i) off d))"
  have K: "std w' \<and> file_local content i (fc_wb f) w' \<and> mgr_view content w' = ?eff i (mgr_view content (fc_wb f))"
    if "map_of (fc_fh f) fh = Some a" "map_of (w_states (fc_wb f)) i = Some a" "ino_at f fh = Some i"
      "on_state (fc_wb f) a (\<lambda>st s. wb_write E st s d off) = (r, w')" for i a w'
    using write_steady [OF w inj that(2) cut [OF that(3)] d that(4)] by (cases r) simp_all
  have H: "ses f' \<and> trk f (case ino_at f fh of None \<Rightarrow> id | Some i \<Rightarrow> ?eff i) f'"
    by (rule conjI; rule handle_op_steady [OF f wr [unfolded core_write_def] inv, where eff = ?eff];
      rule K; assumption)
  then show "ses f'" by (rule conjunct1)
  show "trk f (case ino_at f fh of None \<Rightarrow> id
    | Some i \<Rightarrow> (case r of Inl e \<Rightarrow> id | Inr k \<Rightarrow> (\<lambda>v. v(i := splice (v i) off d)))) f'" by (rule conjunct2 [OF H])
qed

lemma core_flush_steady:
  assumes f: "ses f" and inj: "inj (sha256 E)"
  shows "core_flush E f fh = (r, f') \<Longrightarrow> ses f' \<and> trk f id f'"
    "core_fsync E f fh = (r, f') \<Longrightarrow> ses f' \<and> trk f id f'"
proof -
  note w = sesD(2) [OF f]
  show "ses f' \<and> trk f id f'" if fl: "core_flush E f fh = (r, f')"
    by (rule handle_quiet_steady [OF f fl [unfolded core_flush_def] inv_io(4) [OF sesD(1) [OF f] fl]])
      (use wb_flush_steady(2-4) [OF w inj] in simp)
  show "ses f' \<and> trk f id f'" if fl: "core_fsync E f fh = (r, f')"
    by (rule handle_quiet_steady [OF f fl [unfolded core_fsync_def] inv_io(3) [OF sesD(1) [OF f] fl]])
      (use wb_sync_steady(2-4) [OF w inj] in simp)
qed

subsection \<open>Names\<close>

lemma make_steady:
  assumes f: "ses f" and parent: "get_inode (fc_meta f) parent \<noteq> None"
    and free: "lookup (fc_meta f) parent name = None"
    and on: "on_meta f (\<lambda>m. create m parent name mode knd uid gid target) = (r, f')"
  shows "ses f'" "trk f id f'" "tame r"
  using create_wf [OF core_invD(1) [OF sesD(1) [OF f]] lookup_None [OF core_invD(1) [OF sesD(1) [OF f]] free]
      parent on_meta_run(1) [OF on]]
    meta_steady [OF f on inv_make [OF sesD(1) [OF f] parent free on]
      create_kept [OF on_meta_run(1) [OF on]] create_revival [OF on_meta_run(1) [OF on]]] by auto

lemma makers_steady:
  assumes f: "ses f" and parent: "get_inode (fc_meta f) parent \<noteq> None"
  shows "core_mkdir f parent name mode uid gid = (r, f') \<Longrightarrow> ses f' \<and> trk f id f' \<and> tame r"
    "core_symlink f parent name target uid gid = (r, f') \<Longrightarrow> ses f' \<and> trk f id f' \<and> tame r"
  using f make_steady [OF f parent]
  by (auto simp: core_mkdir_def core_symlink_def ensure_absent_def split: if_splits)

lemma unlink_meta_steady:
  assumes f: "ses f" and on: "on_meta f (\<lambda>m. unlink_dirent m parent name) = (q, f')"
  shows "ses f'" "trk f id f'" "lookup (fc_meta f) parent name = Some n \<Longrightarrow> \<exists>c k. q = Inr (c, k)"
proof -
  note wf = core_invD(1) [OF sesD(1) [OF f]] and run = on_meta_run(1) [OF on]
  show "\<exists>c k. q = Inr (c, k)" if "lookup (fc_meta f) parent name = Some n"
  proof -
    have there: "sql_select (dirents (fc_meta f)) (parent, name) \<noteq> None"
      using that by (auto simp: lookup_def split: option.splits)
    show ?thesis by (rule unlink_dirent_cases [OF wf, of parent name]) (use there run in auto)
  qed
  have "core_inv f'"
    by (rule core_inv_meta [OF sesD(1) [OF f] on _ unlink_revival [OF wf run]])
      (use unlink_dirent_wf [OF wf, of parent name] run in simp)
  from meta_steady [OF f on this unlink_kept [OF wf run] unlink_revival [OF wf run]]
  show "ses f'" "trk f id f'" by blast+
qed

lemma core_rmdir_steady:
  assumes f: "ses f" and rm: "core_rmdir f parent name = (r, f')"
  shows "ses f'" "trk f id f'" "tame r"
proof -
  obtain q f1 where on: "on_meta f (\<lambda>m. unlink_dirent m parent name) = (q, f1)" by force
  note M = unlink_meta_steady [OF f on]
  have "(f' = f \<or> f' = f1) \<and> tame r"
    using rm on M(3) by (auto simp: core_rmdir_def split: if_splits option.splits sum.splits)
  with M(1,2) f show "ses f'" "trk f id f'" "tame r" by auto
qed

lemma core_link_steady:
  assumes f: "ses f" and parent: "get_inode (fc_meta f) parent \<noteq> None" and ln: "core_link f i parent name = (r, f')"
  shows "ses f'" "trk f id f'" "tame r"
proof -
  obtain q f1 where on: "on_meta f (\<lambda>m. link m parent name i) = (q, f1)" by force
  note run = on_meta_run(1) [OF on]
  have "q = Inr ()" if "lookup (fc_meta f) parent name = None"
    using lookup_None [OF core_invD(1) [OF sesD(1) [OF f]] that] run by (auto simp: link_def sql_insert_def)
  then show "tame r"
    using ln on by (auto simp: core_link_def core_getattr_def ensure_absent_def split: if_splits option.splits)
  have "f' = f \<or> f' = f1"
    using ln on by (auto simp: core_link_def split: if_splits option.splits sum.splits)
  moreover have "ses f1 \<and> trk f id f1" if "f' = f1"
    using meta_steady [OF f on _ link_kept [OF run] link_revival [OF run]]
      inv_link [OF sesD(1) [OF f] parent ln] that by simp
  ultimately show "ses f'" "trk f id f'" using f by auto
qed

lemma core_unlink_steady:
  assumes f: "ses f" and inj: "inj (sha256 E)" and un: "core_unlink E f parent name = (r, f')"
  shows "ses f'" "trk f id f'" "tame r"
proof -
  note inv = sesD(1) [OF f] and wf = core_invD(1) [OF sesD(1) [OF f]]
  obtain q f1 where on: "on_meta f (\<lambda>m. unlink_dirent m parent name) = (q, f1)" by force
  note M = unlink_meta_steady [OF f on] and run = on_meta_run(1) [OF on]
  have "ses f' \<and> trk f id f' \<and> tame r"
  proof (cases "\<exists>n c k. lookup (fc_meta f) parent name = Some n \<and> \<not> is_dir n \<and> q = Inr (c, k) \<and> k \<le> 0")
    case False
    then have "(f' = f \<or> f' = f1) \<and> tame r"
      using un on M(3) by (auto simp: core_unlink_def split: if_splits option.splits sum.splits)
    with M(1,2) f show ?thesis by auto
  next
    case True
    then obtain n c k where n: "lookup (fc_meta f) parent name = Some n" "\<not> is_dir n" "q = Inr (c, k)" "k \<le> 0" by blast
    have id: "sql_select (dirents (fc_meta f)) (parent, name) = Some (i_id n)" "get_inode (fc_meta f) (i_id n) \<noteq> None"
      using n(1) tables_okD(5) [OF meta_wfD(1) [OF wf]] by (auto simp: lookup_def split: option.splits)
    have gone: "get_inode (fc_meta f1) (i_id n) = None" "seq (fc_meta f) \<le> seq (fc_meta f1)"
      using unlink_gone [OF wf id(1)] run n(3,4) unlink_revival [OF wf run] by (auto simp: no_revival_def)
    have "i_id n \<notin> fc_pending f" using core_invD(6) [OF inv] id(2) by auto
    then have "i_id n \<notin> fc_pending f1" by (subst on_meta_run(2) [OF on]) simp
    moreover have "free_or_defer E f1 (i_id n) = (r, f')" using un n on by (simp add: core_unlink_def)
    ultimately have "ses f' \<and> trk f1 id f' \<and> r = Inr ()"
      using free_or_defer_steady [OF M(1) gone(1) _ _ _ inj] inode_seq [OF inv id(2)] gone(2) by simp
    with M(2) tracks_trans show ?thesis by auto
  qed
  then show "ses f'" "trk f id f'" "tame r" by blast+
qed

lemma core_rename_steady:
  assumes f: "ses f" and inj: "inj (sha256 E)" and new: "get_inode (fc_meta f) newp \<noteq> None"
    and rn: "core_rename E f oldp oldname newp newname = (r, f')"
  shows "ses f'" "trk f id f'" "tame r"
proof -
  note inv = sesD(1) [OF f] and wf = core_invD(1) [OF sesD(1) [OF f]]
  obtain q f1 where on: "on_meta f (\<lambda>m. rename m oldp oldname newp newname) = (q, f1)" by force
  note run = on_meta_run(1) [OF on]
  have "core_inv f1"
    by (rule core_inv_meta [OF inv on _ rename_revival [OF wf run]])
      (use rename_wf [OF wf inode_seq [OF inv new], of oldp oldname newname] run in simp)
  note M = meta_steady [OF f on this rename_kept [OF wf run] rename_revival [OF wf run]]
  have "\<exists>x. q = Inr x" if "lookup (fc_meta f) oldp oldname \<noteq> None"
  proof -
    obtain src where src: "sql_select (dirents (fc_meta f)) (oldp, oldname) = Some src"
      using \<open>lookup (fc_meta f) oldp oldname \<noteq> None\<close> by (auto simp: lookup_def split: option.splits)
    show ?thesis by (rule rename_Inr [OF wf src, of newp newname]) (use run in auto)
  qed
  moreover have "ses f' \<and> trk f1 id f' \<and> r = Inr ()" if c: "q = Inr (Some c)" "free_or_defer E f1 c = (r, f')" for c
  proof -
    note run = run [unfolded c(1)]
    obtain src where src: "sql_select (dirents (fc_meta f)) (oldp, oldname) = Some src"
      using run by (auto simp: rename_def split: option.splits)
    note gone = rename_gone [OF wf src run]
    have "c \<notin> fc_pending f" using core_invD(6) [OF inv] gone by auto
    then have "c \<notin> fc_pending f1" by (subst on_meta_run(2) [OF on]) simp
    moreover have "c \<le> seq (fc_meta f1)" using rename_revival [OF wf run] gone by (simp add: no_revival_def)
    ultimately show ?thesis using free_or_defer_steady [OF M(1) _ _ _ c(2) inj] gone by simp
  qed
  ultimately have F: "ses f' \<and> trk f1 id f' \<and> r = Inr () \<or> (f' = f \<or> f' = f1) \<and> tame r"
    using rn on by (auto simp: core_rename_def split: if_splits option.splits sum.splits)
  then show "ses f'" "trk f id f'" "tame r" using f M tracks_trans by auto
qed

subsection \<open>Opening, creating, truncating\<close>

lemma truncated_steady:
  assumes f: "ses f" and inj: "inj (sha256 E)" and there: "get_inode (fc_meta f) i \<noteq> None"
    and cut: "uncut (fc_wb f) i" and on: "on_wb f (\<lambda>w. truncate_path E w i n) = (r, f')"
  shows "r = Inr ()" "ses f'" "trk f (\<lambda>v. v(i := resize n (v i))) f'"
    "get_inode (fc_meta f') j = None \<longleftrightarrow> get_inode (fc_meta f) j = None"
proof -
  obtain w' where w': "truncate_path E (fc_wb f) i n = (r, w')" "f' = f\<lparr>fc_wb := w'\<rparr>" by (rule on_wbE [OF on])
  note T = truncate_path_steady [OF sesD(2) [OF f] inj inode_seq [OF sesD(1) [OF f] there] there cut w'(1)]
  note L = local_steady [OF f _ inv_truncate_path(1) [OF sesD(1) [OF f] on] _ alive_inode [OF there],
      where eff = "\<lambda>v. v(i := resize n (v i))"]
  show "r = Inr ()" using T(1) .
  show "ses f'" "trk f (\<lambda>v. v(i := resize n (v i))) f'" using L T(2-4) by (simp_all add: w'(2) handles_def)
  show "get_inode (fc_meta f') j = None \<longleftrightarrow> get_inode (fc_meta f) j = None"
    using file_local_inode [OF T(3)] by (simp add: w'(2))
qed

lemma opened_steady:
  assumes f: "ses f" and inj: "inj (sha256 E)" and there: "get_inode (fc_meta f) i \<noteq> None"
    and on: "on_wb f (\<lambda>w. wb_open E w i fw) = (q, f1)"
  shows "\<exists>a. q = Inr a \<and> ses (snd (new_fh f1 a)) \<and> trk f id (snd (new_fh f1 a))"
proof -
  note w = sesD(2) [OF f] and seq = inode_seq [OF sesD(1) [OF f] there]
  obtain w' where w': "wb_open E (fc_wb f) i fw = (q, w')" "f1 = f\<lparr>fc_wb := w'\<rparr>" by (rule on_wbE [OF on])
  obtain a where q: "q = Inr a" using wb_open_returns [OF w inj seq there, of fw] w'(1) by auto
  note O = wb_open_steady [OF w inj seq there w'(1)]
  let ?f = "snd (new_fh f1 a)"
  have fields: "fc_wb ?f = w'" "fc_pending ?f = fc_pending f"
    "fc_fh ?f = dict_pop (fc_fh f) (fc_seq f) @ [(fc_seq f, a)]" by (simp_all add: new_fh_def w'(2))
  have "(i, a) \<in> set (w_states w')" using map_of_SomeD [OF O(4) [OF q]] .
  then have hs: "b \<in># handles f \<or> (i, b) \<in> set (w_states (fc_wb ?f))" if "b \<in># handles ?f" for b
    using that by (auto simp: handles_def fields dict_pop_def)
  from local_steady [OF f _ inv_open_new(2) [OF sesD(1) [OF f] on q] _ alive_inode [OF there] _ hs, of id] O(1-3) fields q
  show ?thesis by simp
qed

lemma core_open_steady:
  assumes f: "ses f" and inj: "inj (sha256 E)" and op: "core_open E f i flags = (r, f')"
    and cut: "flags AND O_TRUNC \<noteq> 0 \<Longrightarrow> uncut (fc_wb f) i"
  shows "ses f'" "trk f (case r of Inl e \<Rightarrow> id
    | Inr fh \<Rightarrow> if flags AND O_TRUNC \<noteq> 0 then (\<lambda>v. v(i := [])) else id) f'" "tame r"
proof -
  let ?eff = "if flags AND O_TRUNC \<noteq> 0 then (\<lambda>v. v(i := [])) else id"
  have "ses f' \<and> trk f (case r of Inl e \<Rightarrow> id | Inr fh \<Rightarrow> ?eff) f' \<and> tame r"
  proof (cases "\<exists>n. get_inode (fc_meta f) i = Some n \<and> \<not> is_dir n")
    case False
    then have "f' = f" "\<exists>c. r = fail c" using op by (auto simp: core_open_def split: option.splits if_splits)
    with f show ?thesis by auto
  next
    case True
    then obtain n where n: "get_inode (fc_meta f) i = Some n" "\<not> is_dir n" by blast
    obtain q f1 where tr: "(if flags AND O_TRUNC \<noteq> 0 then on_wb f (\<lambda>w. truncate_path E w i 0) else (Inr (), f)) = (q, f1)"
      by force
    have T: "q = Inr () \<and> ses f1 \<and> trk f ?eff f1 \<and> get_inode (fc_meta f1) i \<noteq> None"
    proof (cases "flags AND O_TRUNC \<noteq> 0")
      case True
      with truncated_steady [OF f inj _ cut [OF True], of 0 q f1] tr n show ?thesis
        by (simp add: resize_def zeros_def)
    next
      case False
      with tr f n show ?thesis by auto
    qed
    obtain q2 f2 where on: "on_wb f1 (\<lambda>w. wb_open E w i (wants_write flags)) = (q2, f2)" by force
    obtain a where a: "q2 = Inr a" "ses (snd (new_fh f2 a))" "trk f1 id (snd (new_fh f2 a))"
      using opened_steady [OF _ inj _ on] T by blast
    have "f' = snd (new_fh f2 a)" "r = Inr (fst (new_fh f2 a))"
      using op n T a(1) on unfolding core_open_def n(1) option.case tr prod.case
      by (simp_all split: prod.splits)
    with a T tracks_trans show ?thesis by auto
  qed
  then show "ses f'" "trk f (case r of Inl e \<Rightarrow> id | Inr fh \<Rightarrow> ?eff) f'" "tame r" by blast+
qed

lemma core_create_steady:
  assumes f: "ses f" and inj: "inj (sha256 E)" and parent: "get_inode (fc_meta f) parent \<noteq> None"
    and cr: "core_create E f parent name mode flags uid gid = (r, f')"
  shows "ses f'" "trk f id f'" "tame r"
proof -
  note inv = sesD(1) [OF f] and wf = core_invD(1) [OF sesD(1) [OF f]]
  obtain q f1 where nd: "(case lookup (fc_meta f) parent name of
        Some existing \<Rightarrow> if flags AND O_EXCL \<noteq> 0 then (fail EEXIST, f) else (Inr existing, f)
      | None \<Rightarrow> on_meta f (\<lambda>m. create m parent name (S_IFREG OR (mode AND 4095)) KFile uid gid None)) = (q, f1)"
    by force
  have N: "ses f1 \<and> trk f id f1 \<and> (\<forall>node. q = Inr node \<longrightarrow> get_inode (fc_meta f1) (i_id node) \<noteq> None) \<and> tame q"
  proof (cases "lookup (fc_meta f) parent name")
    case (Some n)
    then have "get_inode (fc_meta f) (i_id n) \<noteq> None"
      using tables_okD(5) [OF meta_wfD(1) [OF wf]] by (auto simp: lookup_def split: option.splits)
    with Some nd f show ?thesis by (auto split: if_splits)
  next
    case None
    then have on: "on_meta f (\<lambda>m. create m parent name (S_IFREG OR (mode AND 4095)) KFile uid gid None) = (q, f1)"
      using nd by simp
    note M = make_steady [OF f parent None on]
    obtain n where n: "q = Inr n" "get_inode (fc_meta f1) (Suc (seq (fc_meta f))) = Some n"
      using create_wf [OF wf lookup_None [OF wf None] parent on_meta_run(1) [OF on]] by blast
    then have "get_inode (fc_meta f1) (i_id n) \<noteq> None"
      using tables_okD(5) [OF meta_wfD(1) [OF core_invD(1) [OF sesD(1) [OF M(1)]]] n(2)] by simp
    with M n show ?thesis by simp
  qed
  have "ses f' \<and> trk f id f' \<and> tame r"
  proof (cases q)
    case (Inl e)
    with cr nd N show ?thesis by (auto simp: core_create_def tame_def)
  next
    case (Inr node)
    obtain q2 f2 where on: "on_wb f1 (\<lambda>w. wb_open E w (i_id node) True) = (q2, f2)" by force
    obtain a where a: "q2 = Inr a" "ses (snd (new_fh f2 a))" "trk f1 id (snd (new_fh f2 a))"
      using opened_steady [OF _ inj _ on] N Inr by blast
    have "f' = snd (new_fh f2 a) \<and> tame r"
      using cr a(1) unfolding core_create_def nd prod.case Inr sum.case on by (auto split: prod.splits)
    with a N tracks_trans show ?thesis by auto
  qed
  then show "ses f'" "trk f id f'" "tame r" by blast+
qed

lemma core_setattr_steady:
  assumes f: "ses f" and inj: "inj (sha256 E)" and sa: "core_setattr E f i mode uid gid sz atime mtime = (r, f')"
    and cut: "new_size f i sz \<noteq> None \<Longrightarrow> uncut (fc_wb f) i"
  shows "ses f'" "trk f (case new_size f i sz of None \<Rightarrow> id | Some k \<Rightarrow> (\<lambda>v. v(i := resize k (v i)))) f'" "tame r"
proof -
  let ?eff = "case new_size f i sz of None \<Rightarrow> id | Some k \<Rightarrow> (\<lambda>v. v(i := resize k (v i)))"
  have "ses f' \<and> trk f ?eff f' \<and> tame r"
  proof (cases "get_inode (fc_meta f) i")
    case None
    then have "f' = f" "new_size f i sz = None" "r = fail ENOENT" using sa by (simp_all add: core_setattr_def new_size_def)
    with f show ?thesis by simp
  next
    case (Some n)
    obtain q f1 where step: "(case sz of None \<Rightarrow> (Inr (), f)
        | Some k \<Rightarrow> if \<not> is_dir n \<and> k \<noteq> i_size n then on_wb f (\<lambda>w. truncate_path E w i k) else (Inr (), f)) = (q, f1)"
      by force
    have T: "q = Inr () \<and> ses f1 \<and> trk f ?eff f1"
    proof (cases "new_size f i sz")
      case None
      then have "q = Inr ()" "f1 = f" using step Some by (auto simp: new_size_def split: option.splits if_splits)
      with f None show ?thesis by simp
    next
      case (Some k)
      then have on: "on_wb f (\<lambda>w. truncate_path E w i k) = (q, f1)"
        using step \<open>get_inode (fc_meta f) i = Some n\<close> by (auto simp: new_size_def split: option.splits if_splits)
      from truncated_steady [OF f inj _ cut on] Some \<open>get_inode (fc_meta f) i = Some n\<close> show ?thesis by simp
    qed
    obtain q2 f2 where on: "on_meta f1 (\<lambda>m. (Inr (), setattr m i mode uid gid None atime mtime)) = (q2, f2)" by force
    note run = on_meta_run(1) [OF on]
    have m2: "fc_meta f2 = setattr (fc_meta f1) i mode uid gid None atime mtime" "q2 = Inr ()" using run by auto
    have rev: "no_revival (fc_meta f1) (fc_meta f2)"
      unfolding m2 no_revival_def
      using same_treeD(2,3) [OF setattr_tree [of "fc_meta f1" i mode uid gid None atime mtime]] by simp
    have f1: "ses f1" using T by blast
    have "core_inv f2"
      by (rule core_inv_meta [OF sesD(1) [OF f1] on _ rev])
        (unfold m2, rule setattr_wf [OF core_invD(1) [OF sesD(1) [OF f1]]])
    note M = meta_steady [OF f1 on this _ rev]
    have "f' = f2" "r = core_getattr f2 i"
      using sa T m2 on unfolding core_setattr_def Some option.case step prod.case by auto
    then have "tame r" by (simp add: core_getattr_def split: option.split)
    have kept: "data_kept (fc_meta f1) (fc_meta f2)" unfolding m2 by (rule setattr_kept)
    have "ses f2" "trk f1 id f2" using M [OF kept] by blast+
    moreover have "trk f ?eff f2" by (rule tracks_trans [OF _ \<open>trk f1 id f2\<close>]) (use T in blast)
    ultimately show ?thesis using \<open>f' = f2\<close> \<open>tame r\<close> by simp
  qed
  then show "ses f'" "trk f ?eff f'" "tame r" by blast+
qed

subsection \<open>Closing\<close>

lemma core_release_steady:
  assumes f: "ses f" and inj: "inj (sha256 E)" and rl: "core_release E f fh = (r, f')"
  shows "ses f'" "trk f id f'" "r = Inr ()"
proof -
  have "ses f' \<and> trk f id f' \<and> r = Inr ()"
  proof (cases "map_of (fc_fh f) fh")
    case None
    with rl f show ?thesis by (simp add: core_release_def)
  next
    case (Some a)
    note inv = sesD(1) [OF f] and w = sesD(2) [OF f]
    obtain i where i: "map_of (w_states (fc_wb f)) i = Some a" "ino_at f fh = Some i" "is_open f i"
      by (rule handle_state [OF inv Some])
    let ?f = "f\<lparr>fc_fh := dict_pop (fc_fh f) fh\<rparr>"
    obtain q w1 where rel: "wb_release E (fc_wb f) a = (q, w1)" by force
    note R = wb_release_all [OF w inj i(1) rel]
    define f1 where "f1 = ?f\<lparr>fc_wb := w1\<rparr>"
    have on: "on_wb ?f (\<lambda>w. wb_release E w a) = (q, f1)" by (simp add: on_wb_def rel f1_def)
    have "alive f i" using i(3) by (simp add: alive_def)
    moreover have "b \<in># handles f" if "b \<in># handles f1" for b
      using that by (auto simp: handles_def f1_def dict_pop_def)
    ultimately have F1: "ses f1" "trk f id f1"
      using local_steady [OF f _ inv_release_handle [OF inv Some on], of i id] R(2-4) by (auto simp: f1_def)
    obtain st0 where st0: "w_heap (fc_wb f) a = Some st0" "fs_ino st0 = i"
      using i(2) Some by (auto simp: ino_at_def)
    obtain st where st: "w_heap w1 a = Some st" "fs_ino st = i" using release_ino [OF rel st0(1)] st0(2) by auto
    let ?g = "f1\<lparr>fc_pending := fc_pending f1 - {i}\<rparr>"
    have rest: "(if i \<in> fc_pending f1 \<and> \<not> is_open f1 i then drop_file E ?g i else (Inr (), f1)) = (r, f')"
    proof (cases "i \<in> fc_pending f1 \<and> \<not> is_open f1 i")
      case True
      with rl Some on R(1) st show ?thesis by (simp add: core_release_def f1_def)
    next
      case False
      with rl Some on R(1) st show ?thesis by (auto simp: core_release_def f1_def)
    qed
    show ?thesis
    proof (cases "i \<in> fc_pending f1 \<and> \<not> is_open f1 i")
      case False
      with rest F1 show ?thesis by auto
    next
      case True
      have g: "ses ?g" using F1(1) by (auto simp: ses_def core_inv_def handles_def)
      have closed: "\<not> is_open ?g i" using True by (simp add: is_open_def)
      have dr: "drop_file E ?g i = (r, f')" using rest True by simp
      have "get_inode (fc_meta ?g) i = None" "i \<le> seq (fc_meta ?g)" "i \<notin> fc_pending ?g"
        using core_invD(6) [OF sesD(1) [OF F1(1)], of i] True by simp_all
      from drop_steady [OF g this closed dr inj] have "ses f' \<and> trk ?g id f' \<and> r = Inr ()" by blast
      moreover have "trk f1 id ?g" by (auto simp: tracks_def alive_def is_open_def)
      ultimately show ?thesis using F1(2) tracks_trans by blast
    qed
  qed
  then show "ses f'" "trk f id f'" "r = Inr ()" by blast+
qed

subsection \<open>The reaper\<close>

lemma core_reap_steady:
  assumes f: "ses f" and inj: "inj (sha256 E)" and rp: "on_wb f (\<lambda>w. reap_once E w False) = (r, f')"
    and inv: "core_inv f'"
  shows "ses f'" "trk f id f'"
proof -
  note w = sesD(2) [OF f]
  obtain w' where w': "reap_once E (fc_wb f) False = (r, w')" "f' = f\<lparr>fc_wb := w'\<rparr>" by (rule on_wbE [OF rp])
  note R = reap_once_steady [OF w inj w'(1)] and V = reap_once_ok(3) [OF steadyD(1) [OF w] inj w'(1)]
  show "ses f'" using R(1) inv by (simp add: ses_def w'(2))
  have "is_open f j" if "is_open f' j" for j
    using that R(3) unfolding is_open_iff [OF inv] is_open_iff [OF sesD(1) [OF f]] by (auto simp: w'(2) handles_def)
  then have "alive f j" if "alive f' j" for j
    using that same_treeD(2,3) [OF R(2)] by (auto simp: alive_def w'(2))
  with V R(4) show "trk f id f'" by (simp add: tracks_def w'(2))
qed

end

end
