(* ===== verification/Mount.thy ===== *)
theory Mount
  imports FsCore
begin

section \<open>The FUSE adapter (tgfs/mount.py)\<close>

text \<open>
  The translation between pyfuse3's requests and \<open>FsCore\<close>: \<open>OSError\<close>s become FUSE errors, an
  inode becomes a block of attributes. Any other exception escapes to the FUSE loop. Names are
  byte strings throughout: \<open>fsdecode\<close> and \<open>fsencode\<close> are inverse to each other. Times are
  reals, so the rounding of \<open>float\<close> is not modelled.
\<close>

datatype fuse_exn = FuseError errno | Escaped exn

text \<open>\<open>_call\<close>: \<open>e.errno or errno.EIO\<close>. \<open>ConnectionError\<close> is an \<open>OSError\<close> without an errno.\<close>

definition fuse_call :: "exn + 'a \<Rightarrow> fuse_exn + 'a" where
  "fuse_call r =
     (case r of
        Inr x \<Rightarrow> Inr x
      | Inl e \<Rightarrow>
          (case e of
             OSError c \<Rightarrow> Inl (FuseError (case c of Some k \<Rightarrow> k | None \<Rightarrow> EIO))
           | ConnectionError \<Rightarrow> Inl (FuseError EIO)
           | _ \<Rightarrow> Inl (Escaped e)))"

text \<open>Call a method of the core and translate its result.\<close>

definition mnt_call :: "(exn + 'a) \<times> 'b fs \<Rightarrow> ('a \<Rightarrow> 'r) \<Rightarrow> (fuse_exn + 'r) \<times> 'b fs" where
  "mnt_call rf g =
     (case rf of (r, f) \<Rightarrow> (case fuse_call r of Inl e \<Rightarrow> (Inl e, f) | Inr x \<Rightarrow> (Inr (g x), f)))"

subsection \<open>Attributes\<close>

record attributes =
  st_ino :: ino
  st_mode :: int
  st_nlink :: int
  st_uid :: int
  st_gid :: int
  st_rdev :: int
  st_size :: nat
  st_blksize :: nat
  st_blocks :: nat
  st_atime_ns :: int
  st_mtime_ns :: int
  st_ctime_ns :: int
  st_generation :: int
  st_entry_timeout :: real
  st_attr_timeout :: real

definition ATTR_TIMEOUT :: real where "ATTR_TIMEOUT = 5"

text \<open>\<open>int(t * 1e9)\<close> cuts towards zero.\<close>

definition to_ns :: "time \<Rightarrow> int" where
  "to_ns t = (if t < 0 then \<lceil>t * 10 ^ 9\<rceil> else \<lfloor>t * 10 ^ 9\<rfloor>)"

definition from_ns :: "int \<Rightarrow> time" where
  "from_ns ns = real_of_int ns / 10 ^ 9"

definition mnt_attr :: "inode \<Rightarrow> attributes" where
  "mnt_attr n =
     \<lparr>st_ino = i_id n, st_mode = i_mode n, st_nlink = i_nlink n, st_uid = i_uid n, st_gid = i_gid n,
      st_rdev = 0,
      st_size = (if is_link n then (case i_target n of Some t \<Rightarrow> length t | None \<Rightarrow> i_size n)
                 else i_size n),
      st_blksize = 4096, st_blocks = (i_size n + 511) div 512,
      st_atime_ns = to_ns (i_atime n), st_mtime_ns = to_ns (i_mtime n), st_ctime_ns = to_ns (i_ctime n),
      st_generation = 0, st_entry_timeout = ATTR_TIMEOUT, st_attr_timeout = ATTR_TIMEOUT\<rparr>"

subsection \<open>Requests on metadata\<close>

definition mnt_getattr :: "'b fs \<Rightarrow> ino \<Rightarrow> fuse_exn + attributes" where
  "mnt_getattr f i = fst (mnt_call (core_getattr f i, f) mnt_attr)"

definition mnt_lookup :: "'b fs \<Rightarrow> ino \<Rightarrow> string \<Rightarrow> fuse_exn + attributes" where
  "mnt_lookup f parent nm =
     (if nm = ''.'' then mnt_getattr f parent
      else if nm = ''..'' then mnt_getattr f parent
      else fst (mnt_call (core_lookup f parent nm, f) mnt_attr))"

text \<open>Which fields a \<open>setattr\<close> request updates, with their new values.\<close>

record setattr_fields =
  u_mode :: "int option"
  u_uid :: "int option"
  u_gid :: "int option"
  u_size :: "nat option"
  u_atime :: "int option"
  u_atime_now :: bool
  u_mtime :: "int option"
  u_mtime_now :: bool

definition field_time :: "int option \<Rightarrow> bool \<Rightarrow> time \<Rightarrow> time option" where
  "field_time ns now t =
     (case ns of Some k \<Rightarrow> Some (from_ns k) | None \<Rightarrow> if now then Some t else None)"

definition mnt_setattr :: "'b env \<Rightarrow> 'b fs \<Rightarrow> ino \<Rightarrow> setattr_fields \<Rightarrow> (fuse_exn + attributes) \<times> 'b fs" where
  "mnt_setattr E f i u =
     mnt_call
       (core_setattr E f i (u_mode u) (u_uid u) (u_gid u) (u_size u)
          (field_time (u_atime u) (u_atime_now u) (clock (fc_meta f)))
          (field_time (u_mtime u) (u_mtime_now u) (clock (fc_meta f))))
       mnt_attr"

text \<open>\<open>forget\<close> takes the inodes with their lookup counts and keeps no account of them.\<close>

definition mnt_forget :: "'b fs \<Rightarrow> (ino \<times> nat) list \<Rightarrow> (fuse_exn + unit) \<times> 'b fs" where
  "mnt_forget f inode_list = (Inr (), f)"

subsection \<open>Directories\<close>

definition mnt_opendir :: "'b fs \<Rightarrow> ino \<Rightarrow> fuse_exn + ino" where
  "mnt_opendir f i = fst (mnt_call (core_getattr f i, f) (\<lambda>_. i))"

text \<open>
  \<open>readdir_reply\<close> is pyfuse3's: it adds an entry to the kernel's buffer, the \<open>token\<close>, and
  answers whether there was room. An entry that did not fit is not in the buffer.
\<close>

fun readdir_loop ::
    "('t \<Rightarrow> string \<Rightarrow> attributes \<Rightarrow> nat \<Rightarrow> bool \<times> 't) \<Rightarrow> 'b fs \<Rightarrow> nat \<Rightarrow> nat \<Rightarrow> (string \<times> ino) list \<Rightarrow> 't \<Rightarrow>
     (fuse_exn + unit) \<times> 't" where
  "readdir_loop reply f start i [] tok = (Inr (), tok)"
| "readdir_loop reply f start i ((name, child) # es) tok =
     (let nid = i + 1
      in if nid \<le> start then readdir_loop reply f start (i + 1) es tok
         else (case mnt_getattr f child of
                 Inl e \<Rightarrow> (Inl e, tok)
               | Inr a \<Rightarrow>
                   (case reply tok name a nid of
                      (ok, tok1) \<Rightarrow>
                        if \<not> ok then (Inr (), tok1)
                        else readdir_loop reply f start (i + 1) es tok1)))"

definition mnt_readdir ::
    "('t \<Rightarrow> string \<Rightarrow> attributes \<Rightarrow> nat \<Rightarrow> bool \<times> 't) \<Rightarrow> 'b fs \<Rightarrow> ino \<Rightarrow> nat \<Rightarrow> 't \<Rightarrow> (fuse_exn + unit) \<times> 't" where
  "mnt_readdir reply f fh start tok =
     (case fuse_call (core_readdir f fh) of
        Inl e \<Rightarrow> (Inl e, tok)
      | Inr entries \<Rightarrow> readdir_loop reply f start 0 entries tok)"

definition mnt_releasedir :: "'b fs \<Rightarrow> ino \<Rightarrow> (fuse_exn + unit) \<times> 'b fs" where
  "mnt_releasedir f fh = (Inr (), f)"

definition mnt_mkdir :: "'b fs \<Rightarrow> ino \<Rightarrow> string \<Rightarrow> int \<Rightarrow> int \<Rightarrow> int \<Rightarrow> (fuse_exn + attributes) \<times> 'b fs" where
  "mnt_mkdir f parent name mode uid gid = mnt_call (core_mkdir f parent name mode uid gid) mnt_attr"

definition mnt_rmdir :: "'b fs \<Rightarrow> ino \<Rightarrow> string \<Rightarrow> (fuse_exn + unit) \<times> 'b fs" where
  "mnt_rmdir f parent name = mnt_call (core_rmdir f parent name) id"

subsection \<open>Files\<close>

definition mnt_create ::
    "'b env \<Rightarrow> 'b fs \<Rightarrow> ino \<Rightarrow> string \<Rightarrow> int \<Rightarrow> int \<Rightarrow> int \<Rightarrow> int \<Rightarrow> (fuse_exn + nat \<times> attributes) \<times> 'b fs" where
  "mnt_create E f parent name mode flags uid gid =
     mnt_call (core_create E f parent name mode flags uid gid) (\<lambda>(fh, node). (fh, mnt_attr node))"

definition mnt_open :: "'b env \<Rightarrow> 'b fs \<Rightarrow> ino \<Rightarrow> int \<Rightarrow> (fuse_exn + nat) \<times> 'b fs" where
  "mnt_open E f i flags = mnt_call (core_open E f i flags) id"

definition mnt_read :: "'b env \<Rightarrow> 'b fs \<Rightarrow> nat \<Rightarrow> nat \<Rightarrow> nat \<Rightarrow> (fuse_exn + bytes) \<times> 'b fs" where
  "mnt_read E f fh off sz = mnt_call (core_read E f fh off sz) id"

definition mnt_write :: "'b env \<Rightarrow> 'b fs \<Rightarrow> nat \<Rightarrow> nat \<Rightarrow> bytes \<Rightarrow> (fuse_exn + nat) \<times> 'b fs" where
  "mnt_write E f fh off buf = mnt_call (core_write E f fh off buf) id"

definition mnt_flush :: "'b env \<Rightarrow> 'b fs \<Rightarrow> nat \<Rightarrow> (fuse_exn + unit) \<times> 'b fs" where
  "mnt_flush E f fh = mnt_call (core_flush E f fh) id"

definition mnt_fsync :: "'b env \<Rightarrow> 'b fs \<Rightarrow> nat \<Rightarrow> (fuse_exn + unit) \<times> 'b fs" where
  "mnt_fsync E f fh = mnt_call (core_fsync E f fh) id"

definition mnt_release :: "'b env \<Rightarrow> 'b fs \<Rightarrow> nat \<Rightarrow> (fuse_exn + unit) \<times> 'b fs" where
  "mnt_release E f fh = mnt_call (core_release E f fh) id"

definition mnt_unlink :: "'b env \<Rightarrow> 'b fs \<Rightarrow> ino \<Rightarrow> string \<Rightarrow> (fuse_exn + unit) \<times> 'b fs" where
  "mnt_unlink E f parent name = mnt_call (core_unlink E f parent name) id"

text \<open>The flags of the request (\<open>RENAME_NOREPLACE\<close>, \<open>RENAME_EXCHANGE\<close>) are not looked at.\<close>

definition mnt_rename ::
    "'b env \<Rightarrow> 'b fs \<Rightarrow> ino \<Rightarrow> string \<Rightarrow> ino \<Rightarrow> string \<Rightarrow> int \<Rightarrow> (fuse_exn + unit) \<times> 'b fs" where
  "mnt_rename E f oldp oldname newp newname flags =
     mnt_call (core_rename E f oldp oldname newp newname) id"

subsection \<open>Links\<close>

definition mnt_symlink ::
    "'b fs \<Rightarrow> ino \<Rightarrow> string \<Rightarrow> string \<Rightarrow> int \<Rightarrow> int \<Rightarrow> (fuse_exn + attributes) \<times> 'b fs" where
  "mnt_symlink f parent name target uid gid =
     mnt_call (core_symlink f parent name target uid gid) mnt_attr"

definition mnt_readlink :: "'b fs \<Rightarrow> ino \<Rightarrow> fuse_exn + string" where
  "mnt_readlink f i = fuse_call (core_readlink f i)"

definition mnt_link :: "'b fs \<Rightarrow> ino \<Rightarrow> ino \<Rightarrow> string \<Rightarrow> (fuse_exn + attributes) \<times> 'b fs" where
  "mnt_link f i new_parent new_name = mnt_call (core_link f i new_parent new_name) mnt_attr"

definition mnt_access :: "'b fs \<Rightarrow> ino \<Rightarrow> int \<Rightarrow> bool" where
  "mnt_access f i mode = True"

definition mnt_statfs :: statfs where
  "mnt_statfs = core_statfs"

subsection \<open>Building and unmounting\<close>

text \<open>
  \<open>build_core\<close>, from an opened database, a connected backend and an opened cache; \<open>cleanup\<close>
  logs what the final flush raises and goes on.
\<close>

record fsconfig =
  cfg_chunk_size :: nat
  cfg_upload_workers :: nat
  cfg_readahead :: nat
  cfg_delay :: time

definition build_core :: "fsconfig \<Rightarrow> meta \<Rightarrow> 'b \<Rightarrow> readcache \<Rightarrow> 'b fs" where
  "build_core c m b cache =
     new_core (new_wb (new_store m b (cfg_chunk_size c) (Some cache) (cfg_upload_workers c) (cfg_readahead c))
       (cfg_delay c))"

definition mnt_cleanup :: "'b env \<Rightarrow> 'b fs \<Rightarrow> 'b store" where
  "mnt_cleanup E f = w_store (snd (shutdown E (fc_wb f)))"

subsection \<open>A mount from beginning to end\<close>

text \<open>
  The requests of the kernel, with the identity of the caller where \<open>ctx\<close> is looked at, and
  the answers. \<open>pyfuse3.main\<close> calls one method for each request.
\<close>

datatype 't request =
    RqLookup ino string
  | RqGetattr ino
  | RqSetattr ino setattr_fields
  | RqForget "(ino \<times> nat) list"
  | RqOpendir ino
  | RqReaddir ino nat 't
  | RqReleasedir ino
  | RqMkdir ino string int int int
  | RqRmdir ino string
  | RqCreate ino string int int int int
  | RqOpen ino int
  | RqRead nat nat nat
  | RqWrite nat nat bytes
  | RqFlush nat
  | RqFsync nat
  | RqRelease nat
  | RqUnlink ino string
  | RqRename ino string ino string int
  | RqSymlink ino string string int int
  | RqReadlink ino
  | RqLink ino ino string
  | RqAccess ino int
  | RqStatfs

datatype 't reply =
    Done
  | Attrs attributes
  | Dir ino
  | Entries 't
  | Handle nat
  | Created nat attributes
  | Data bytes
  | Wrote nat
  | Target string
  | Allowed bool
  | Stats statfs
  | Refused errno

definition answer :: "('a \<Rightarrow> 't reply) \<Rightarrow> (fuse_exn + 'a) \<times> 'b fs \<Rightarrow> (fuse_exn + 't reply) \<times> 'b fs" where
  "answer g rf = (map_sum id g (fst rf), snd rf)"

fun mnt_serve ::
    "('t \<Rightarrow> string \<Rightarrow> attributes \<Rightarrow> nat \<Rightarrow> bool \<times> 't) \<Rightarrow> 'b env \<Rightarrow> 'b fs \<Rightarrow> 't request \<Rightarrow>
     (fuse_exn + 't reply) \<times> 'b fs" where
  "mnt_serve reply E f (RqLookup p name) = answer Attrs (mnt_lookup f p name, f)"
| "mnt_serve reply E f (RqGetattr i) = answer Attrs (mnt_getattr f i, f)"
| "mnt_serve reply E f (RqSetattr i u) = answer Attrs (mnt_setattr E f i u)"
| "mnt_serve reply E f (RqForget is) = answer (\<lambda>_. Done) (mnt_forget f is)"
| "mnt_serve reply E f (RqOpendir i) = answer Dir (mnt_opendir f i, f)"
| "mnt_serve reply E f (RqReaddir fh start tok) =
     (case mnt_readdir reply f fh start tok of (r, tok1) \<Rightarrow> answer (\<lambda>_. Entries tok1) (r, f))"
| "mnt_serve reply E f (RqReleasedir fh) = answer (\<lambda>_. Done) (mnt_releasedir f fh)"
| "mnt_serve reply E f (RqMkdir p name mode uid gid) = answer Attrs (mnt_mkdir f p name mode uid gid)"
| "mnt_serve reply E f (RqRmdir p name) = answer (\<lambda>_. Done) (mnt_rmdir f p name)"
| "mnt_serve reply E f (RqCreate p name mode flags uid gid) =
     answer (\<lambda>(fh, a). Created fh a) (mnt_create E f p name mode flags uid gid)"
| "mnt_serve reply E f (RqOpen i flags) = answer Handle (mnt_open E f i flags)"
| "mnt_serve reply E f (RqRead fh off n) = answer Data (mnt_read E f fh off n)"
| "mnt_serve reply E f (RqWrite fh off d) = answer Wrote (mnt_write E f fh off d)"
| "mnt_serve reply E f (RqFlush fh) = answer (\<lambda>_. Done) (mnt_flush E f fh)"
| "mnt_serve reply E f (RqFsync fh) = answer (\<lambda>_. Done) (mnt_fsync E f fh)"
| "mnt_serve reply E f (RqRelease fh) = answer (\<lambda>_. Done) (mnt_release E f fh)"
| "mnt_serve reply E f (RqUnlink p name) = answer (\<lambda>_. Done) (mnt_unlink E f p name)"
| "mnt_serve reply E f (RqRename p name q name2 flags) =
     answer (\<lambda>_. Done) (mnt_rename E f p name q name2 flags)"
| "mnt_serve reply E f (RqSymlink p name target uid gid) =
     answer Attrs (mnt_symlink f p name target uid gid)"
| "mnt_serve reply E f (RqReadlink i) = answer Target (mnt_readlink f i, f)"
| "mnt_serve reply E f (RqLink i p name) = answer Attrs (mnt_link f i p name)"
| "mnt_serve reply E f (RqAccess i mode) = answer Allowed (Inr (mnt_access f i mode), f)"
| "mnt_serve reply E f RqStatfs = answer Stats (Inr mnt_statfs, f)"

text \<open>
  What happens while the filesystem is mounted: requests, passes of the reaper's thread (whose
  exceptions are logged) and time. A FUSE error is an answer; any other exception of a request
  ends \<open>pyfuse3.main\<close>. When the events are used up the kernel has unmounted or an interrupt has
  come, which is the same to \<open>mount\<close>.
\<close>

datatype 't event = Serve "'t request" | Reap | Wait time time

fun serve_loop ::
    "('t \<Rightarrow> string \<Rightarrow> attributes \<Rightarrow> nat \<Rightarrow> bool \<times> 't) \<Rightarrow> 'b env \<Rightarrow> 'b fs \<Rightarrow> 't event list \<Rightarrow>
     (exn + unit) \<times> 't reply list \<times> 'b fs" where
  "serve_loop reply E f [] = (Inr (), [], f)"
| "serve_loop reply E f (Wait t u # evs) =
     serve_loop reply E
       (snd (on_meta (f\<lparr>fc_wb := (fc_wb f)\<lparr>w_now := t\<rparr>\<rparr>) (\<lambda>m. (Inr (), m\<lparr>clock := u\<rparr>)))) evs"
| "serve_loop reply E f (Reap # evs) = serve_loop reply E (snd (on_wb f (\<lambda>w. reap_once E w False))) evs"
| "serve_loop reply E f (Serve rq # evs) =
     (case mnt_serve reply E f rq of
        (Inl (Escaped e), f1) \<Rightarrow> (Inl e, [], f1)
      | (Inl (FuseError c), f1) \<Rightarrow>
          (case serve_loop reply E f1 evs of (r, as, f2) \<Rightarrow> (r, Refused c # as, f2))
      | (Inr a, f1) \<Rightarrow>
          (case serve_loop reply E f1 evs of (r, as, f2) \<Rightarrow> (r, a # as, f2)))"

text \<open>\<open>mount\<close>: the exit code, or what \<open>trio.run\<close> raised; the cleanup has run in both cases.\<close>

definition mount ::
    "('t \<Rightarrow> string \<Rightarrow> attributes \<Rightarrow> nat \<Rightarrow> bool \<times> 't) \<Rightarrow> 'b env \<Rightarrow> fsconfig \<Rightarrow> meta \<Rightarrow> 'b \<Rightarrow> readcache \<Rightarrow>
     't event list \<Rightarrow> (exn + int) \<times> 't reply list \<times> 'b store" where
  "mount reply E c m b cache evs =
     (case serve_loop reply E (build_core c m b cache) evs of
        (r, as, f) \<Rightarrow> (map_sum id (\<lambda>_. 0) r, as, mnt_cleanup E f))"

end
