(* ===== verification/SessionMount.thy ===== *)
theory SessionMount
  imports SessionRequests Mount
begin

section \<open>A mounted filesystem as a map of byte strings\<close>

text \<open>
  The specification of a mount: the content of every file is a byte string (\<open>ino \<Rightarrow> bytes\<close>); a
  write splices, a truncation resizes, nothing else changes a file (\<open>rq_effect\<close>); a read
  answers with a range of it and the attributes of a file report its length (\<open>reply_ok\<close>). The
  requests covered (\<open>rq_safe\<close>): the kernel names only parents it has looked up, writes are not
  empty, and a file is not written, nor cut again, while an earlier truncation of it is not
  flushed yet (then the code can bring back old bytes).
\<close>

definition rq_safe :: "'b fs \<Rightarrow> 't request \<Rightarrow> bool" where
  "rq_safe f rq =
     (case rq of
        RqMkdir p name mode uid gid \<Rightarrow> get_inode (fc_meta f) p \<noteq> None
      | RqCreate p name mode flags uid gid \<Rightarrow> get_inode (fc_meta f) p \<noteq> None
      | RqSymlink p name target uid gid \<Rightarrow> get_inode (fc_meta f) p \<noteq> None
      | RqLink i p name \<Rightarrow> get_inode (fc_meta f) p \<noteq> None
      | RqRename p name q name2 flags \<Rightarrow> get_inode (fc_meta f) q \<noteq> None
      | RqWrite fh off d \<Rightarrow>
          d \<noteq> [] \<and> (case ino_at f fh of None \<Rightarrow> True | Some i \<Rightarrow> uncut (fc_wb f) i)
      | RqOpen i flags \<Rightarrow> flags AND O_TRUNC = 0 \<or> uncut (fc_wb f) i
      | RqSetattr i u \<Rightarrow> new_size f i (u_size u) = None \<or> uncut (fc_wb f) i
      | _ \<Rightarrow> True)"

definition rq_effect :: "'b fs \<Rightarrow> 't request \<Rightarrow> fuse_exn + 't reply \<Rightarrow> (ino \<Rightarrow> bytes) \<Rightarrow> ino \<Rightarrow> bytes" where
  "rq_effect f rq r =
     (case rq of
        RqWrite fh off d \<Rightarrow>
          (case ino_at f fh of
             None \<Rightarrow> id
           | Some i \<Rightarrow> (case r of Inl e \<Rightarrow> id | Inr a \<Rightarrow> \<lambda>v. v(i := splice (v i) off d)))
      | RqOpen i flags \<Rightarrow>
          (case r of Inl e \<Rightarrow> id | Inr a \<Rightarrow> if flags AND O_TRUNC \<noteq> 0 then (\<lambda>v. v(i := [])) else id)
      | RqSetattr i u \<Rightarrow>
          (case new_size f i (u_size u) of None \<Rightarrow> id | Some k \<Rightarrow> \<lambda>v. v(i := resize k (v i)))
      | _ \<Rightarrow> id)"

definition attr_ok :: "'b fs \<Rightarrow> (ino \<Rightarrow> bytes) \<Rightarrow> attributes \<Rightarrow> bool" where
  "attr_ok f v a \<longleftrightarrow>
     (case get_inode (fc_meta f) (st_ino a) of
        None \<Rightarrow> False
      | Some n \<Rightarrow> i_kind n \<noteq> KFile \<or> st_size a = length (v (st_ino a)))"

definition reply_ok :: "'b fs \<Rightarrow> (ino \<Rightarrow> bytes) \<Rightarrow> 't request \<Rightarrow> 't reply \<Rightarrow> bool" where
  "reply_ok f v rq a =
     (case rq of
        RqRead fh off n \<Rightarrow>
          (case ino_at f fh of None \<Rightarrow> False | Some i \<Rightarrow> a = Data (slice (v i) off (off + n)))
      | RqWrite fh off d \<Rightarrow> a = Wrote (length d)
      | RqGetattr i \<Rightarrow> (case a of Attrs x \<Rightarrow> attr_ok f v x | _ \<Rightarrow> False)
      | RqLookup p name \<Rightarrow> (case a of Attrs x \<Rightarrow> attr_ok f v x | _ \<Rightarrow> False)
      | _ \<Rightarrow> True)"

subsection \<open>A session\<close>

definition tick :: "'b fs \<Rightarrow> time \<Rightarrow> time \<Rightarrow> 'b fs" where
  "tick f t u = snd (on_meta (f\<lparr>fc_wb := (fc_wb f)\<lparr>w_now := t\<rparr>\<rparr>) (\<lambda>m. (Inr (), m\<lparr>clock := u\<rparr>)))"

definition reap :: "'b env \<Rightarrow> 'b fs \<Rightarrow> 'b fs" where
  "reap E f = snd (on_wb f (\<lambda>w. reap_once E w False))"

text \<open>
  \<open>session_all P\<close>: every request satisfies \<open>P\<close> in the state it meets. \<open>session_files\<close>: the specification
  run beside the code. \<open>session_ok\<close>: every answer is the one the specification gives.
\<close>

fun session_all ::
    "('b fs \<Rightarrow> 't request \<Rightarrow> bool) \<Rightarrow> ('t \<Rightarrow> string \<Rightarrow> attributes \<Rightarrow> nat \<Rightarrow> bool \<times> 't) \<Rightarrow> 'b env \<Rightarrow>
     'b fs \<Rightarrow> 't event list \<Rightarrow> bool" where
  "session_all P reply E f [] = True"
| "session_all P reply E f (Wait t u # evs) = session_all P reply E (tick f t u) evs"
| "session_all P reply E f (Reap # evs) = session_all P reply E (reap E f) evs"
| "session_all P reply E f (Serve rq # evs) =
     (P f rq \<and>
      (case mnt_serve reply E f rq of
         (Inl (Escaped e), f1) \<Rightarrow> True
       | (_, f1) \<Rightarrow> session_all P reply E f1 evs))"

fun session_files ::
    "('t \<Rightarrow> string \<Rightarrow> attributes \<Rightarrow> nat \<Rightarrow> bool \<times> 't) \<Rightarrow> 'b env \<Rightarrow> 'b fs \<Rightarrow> 't event list \<Rightarrow>
     (ino \<Rightarrow> bytes) \<Rightarrow> ino \<Rightarrow> bytes" where
  "session_files reply E f [] v = v"
| "session_files reply E f (Wait t u # evs) v = session_files reply E (tick f t u) evs v"
| "session_files reply E f (Reap # evs) v = session_files reply E (reap E f) evs v"
| "session_files reply E f (Serve rq # evs) v =
     (case mnt_serve reply E f rq of
        (Inl (Escaped e), f1) \<Rightarrow> rq_effect f rq (Inl (Escaped e)) v
      | (r, f1) \<Rightarrow> session_files reply E f1 evs (rq_effect f rq r v))"

fun session_ok ::
    "('t \<Rightarrow> string \<Rightarrow> attributes \<Rightarrow> nat \<Rightarrow> bool \<times> 't) \<Rightarrow> 'b env \<Rightarrow> 'b fs \<Rightarrow> 't event list \<Rightarrow>
     (ino \<Rightarrow> bytes) \<Rightarrow> bool" where
  "session_ok reply E f [] v = True"
| "session_ok reply E f (Wait t u # evs) v = session_ok reply E (tick f t u) evs v"
| "session_ok reply E f (Reap # evs) v = session_ok reply E (reap E f) evs v"
| "session_ok reply E f (Serve rq # evs) v =
     (case mnt_serve reply E f rq of
        (Inl (Escaped e), f1) \<Rightarrow> True
      | (Inl (FuseError c), f1) \<Rightarrow> session_ok reply E f1 evs (rq_effect f rq (Inl (FuseError c)) v)
      | (Inr a, f1) \<Rightarrow> reply_ok f v rq a \<and> session_ok reply E f1 evs (rq_effect f rq (Inr a) v))"

subsection \<open>Answers\<close>

lemma fuse_call_simps [simp]:
  "fuse_call (Inr x) = Inr x" "(fuse_call r = Inr x) = (r = Inr x)" "(Inr x = fuse_call r) = (r = Inr x)"
  by (auto simp: fuse_call_def split: sum.splits exn.splits)

lemma answered: "map_sum id h (fuse_call r) = Inr a \<longleftrightarrow> (\<exists>x. r = Inr x \<and> a = h x)"
  by (cases "fuse_call r") (auto simp: fuse_call_def split: sum.splits exn.splits)

lemma answer_call: "answer h (mnt_call rf g) = (map_sum id (\<lambda>x. h (g x)) (fuse_call (fst rf)), snd rf)"
  by (cases rf; cases "fuse_call (fst rf)") (simp_all add: answer_def mnt_call_def)

lemma write_length: "wb_write E st s d n = (Inr k, st', s') \<Longrightarrow> k = length d"
  by (auto simp: wb_write_def Let_def split: prod.splits sum.splits if_splits)

lemma core_write_length: "core_write E f fh off d = (Inr k, f') \<Longrightarrow> k = length d"
  by (auto simp: core_write_def on_handle_def on_wb_def on_state_def get_state_def
      split: prod.splits sum.splits option.splits dest: write_length)

lemma meta_wf_clock: "meta_wf m \<Longrightarrow> meta_wf (m\<lparr>clock := t\<rparr>)"
  by (simp add: meta_wf_def tables_ok_def nlink_balanced_def ino_is_dir_def want_nlink_def
      links_to_def subdirs_def)

subsection \<open>The specification beside the code\<close>

definition agree :: "('b \<Rightarrow> nat \<Rightarrow> bytes option) \<Rightarrow> 'b fs \<Rightarrow> (ino \<Rightarrow> bytes) \<Rightarrow> bool" where
  "agree content f v \<longleftrightarrow> (\<forall>i. alive f i \<longrightarrow> mgr_view content (fc_wb f) i = v i)"

lemma agreeD: "agree content f v \<Longrightarrow> alive f i \<Longrightarrow> mgr_view content (fc_wb f) i = v i"
  by (simp add: agree_def)

lemma rq_effect_local: "u i = v i \<Longrightarrow> rq_effect f rq r u i = rq_effect f rq r v i"
  by (simp add: rq_effect_def split: request.split option.split sum.split)

lemma agree_step:
  assumes "agree content f v" "tracks content f (rq_effect g rq r) f'"
  shows "agree content f' (rq_effect g rq r v)"
  using assms rq_effect_local [of "mgr_view content (fc_wb f)" _ v g rq r]
  by (simp add: agree_def tracks_def)

lemma agree_quiet: "agree content f v \<Longrightarrow> tracks content f id f' \<Longrightarrow> agree content f' v"
  by (simp add: agree_def tracks_def)

text \<open>The size in the attributes of a regular file is the length of what a reader sees.\<close>

lemma attr_size:
  assumes size: "size_ok content (fc_store f) i" and n: "get_inode (fc_meta f) i = Some n" "i_id n = i"
    and ino: "\<And>a st. map_of (w_states (fc_wb f)) i = Some a \<Longrightarrow> w_heap (fc_wb f) a = Some st \<Longrightarrow> fs_ino st = i"
    and v: "agree content f v"
  shows "attr_ok f v (mnt_attr (core_live f n))"
proof (cases "i_kind n = KFile")
  case False
  then show ?thesis using n by (simp add: attr_ok_def mnt_attr_def core_live_def)
next
  case True
  have size: "i_size n = length (sbytes content (fc_store f) i)" using size n(1) by (simp add: size_ok_def)
  have "i_size (core_live f n) = length (mgr_view content (fc_wb f) i)"
  proof (cases "\<exists>a st. map_of (w_states (fc_wb f)) i = Some a \<and> w_heap (fc_wb f) a = Some st")
    case False
    with True n(2) size show ?thesis
      by (auto simp: core_live_def live_size_def mgr_view_def split: option.splits)
  next
    case st: True
    then obtain a st where st: "map_of (w_states (fc_wb f)) i = Some a" "w_heap (fc_wb f) a = Some st" by blast
    note ino = ino [OF st]
    show ?thesis
    proof (cases "fs_mat st")
      case mat: True
      with True st n(2) ino show ?thesis
        by (simp add: core_live_def live_size_def mgr_view_def wb_view_def length_file_view)
    next
      case False
      with True st n(2) ino size show ?thesis
        by (simp add: core_live_def live_size_def mgr_view_def wb_view_def file_view_def)
    qed
  qed
  moreover have "i_id (core_live f n) = i" "is_link (core_live f n) = False"
    using n(2) True by (simp_all add: core_live_def is_link_def split: option.splits)
  moreover have "mgr_view content (fc_wb f) i = v i" using agreeD [OF v alive_inode] n(1) by simp
  ultimately show ?thesis using n True by (simp add: attr_ok_def mnt_attr_def)
qed

context reliable_backend
begin

lemma known_ino:
  assumes "std w" "map_of (w_states w) i = Some a" "w_heap w a = Some st"
  shows "fs_ino st = i"
  using mgr_okD(4) [OF steadyD(1) [OF assms(1)] assms(2)] assms(3) by (auto simp: state_ok_def)

lemma getattr_ok:
  assumes f: "ses f" and v: "agree content f v" and g: "core_getattr f i = Inr n"
  shows "attr_ok f v (mnt_attr n)"
proof -
  obtain m where m: "get_inode (fc_meta f) i = Some m" "n = core_live f m"
    using g by (auto simp: core_getattr_def split: option.splits)
  have "i_id m = i" using tables_okD(5) [OF meta_wfD(1) [OF core_invD(1) [OF sesD(1) [OF f]]] m(1)] by simp
  from attr_size [OF steadyD(2) [OF sesD(2) [OF f]] m(1) this known_ino [OF sesD(2) [OF f]] v] m(2)
  show ?thesis by simp
qed

lemma lookup_getattr:
  assumes f: "ses f" and l: "core_lookup f p name = Inr n"
  shows "\<exists>i. core_getattr f i = Inr n"
proof -
  obtain i m where m: "get_inode (fc_meta f) i = Some m" "n = core_live f m"
    using l by (auto simp: core_lookup_def lookup_def split: option.splits)
  then show ?thesis by (intro exI [of _ i]) (simp add: core_getattr_def)
qed

subsection \<open>Every request follows the specification\<close>

lemma serve_reply:
  assumes f: "ses f" and inj: "inj (sha256 E)" and v: "agree content f v"
    and sv: "mnt_serve reply E f rq = (Inr a, f')"
  shows "reply_ok f v rq a"
proof (cases rq)
  case (RqRead fh off n)
  obtain q f1 where rd: "core_read E f fh off n = (q, f1)" by force
  then obtain x where x: "q = Inr x" "a = Data x"
    using sv RqRead by (auto simp: answer_call answered mnt_read_def)
  from core_read_steady(3) [OF f inj rd x(1)] agreeD [OF v] x(2) RqRead show ?thesis
    by (auto simp: reply_ok_def)
next
  case (RqWrite fh off d)
  obtain q f1 where wr: "core_write E f fh off d = (q, f1)" by force
  then obtain k where k: "q = Inr k" "a = Wrote k"
    using sv RqWrite by (auto simp: answer_call answered mnt_write_def)
  from core_write_length [OF wr [unfolded k(1)]] k(2) RqWrite show ?thesis by (simp add: reply_ok_def)
next
  case (RqGetattr i)
  then obtain n where "core_getattr f i = Inr n" "a = Attrs (mnt_attr n)"
    using sv by (auto simp: mnt_getattr_def answer_def mnt_call_def split: sum.splits)
  with getattr_ok [OF f v] RqGetattr show ?thesis by (simp add: reply_ok_def)
next
  case (RqLookup p name)
  then obtain n where "core_getattr f p = Inr n \<or> core_lookup f p name = Inr n" "a = Attrs (mnt_attr n)"
    using sv by (auto simp: mnt_lookup_def mnt_getattr_def answer_def mnt_call_def split: sum.splits if_splits)
  moreover from this(1) obtain i where "core_getattr f i = Inr n" using lookup_getattr [OF f] by blast
  ultimately have "core_getattr f i = Inr n" "a = Attrs (mnt_attr n)" by blast+
  with getattr_ok [OF f v] RqLookup show ?thesis by (simp add: reply_ok_def)
qed (simp_all add: reply_ok_def)

lemma serve_steady:
  assumes f: "ses f" and inj: "inj (sha256 E)" and safe: "rq_safe f rq"
    and sv: "mnt_serve reply E f rq = (r, f')"
  shows "ses f' \<and> trk f (rq_effect f rq r) f'"
proof (cases rq)
  case (RqSetattr i u)
  let ?at = "field_time (u_atime u) (u_atime_now u) (clock (fc_meta f))"
    and ?mt = "field_time (u_mtime u) (u_mtime_now u) (clock (fc_meta f))"
  obtain q f1 where sa: "core_setattr E f i (u_mode u) (u_uid u) (u_gid u) (u_size u) ?at ?mt = (q, f1)" by force
  then have "f' = f1" using sv RqSetattr by (simp add: answer_call mnt_setattr_def)
  have cut: "new_size f i (u_size u) \<noteq> None \<Longrightarrow> uncut (fc_wb f) i"
    using safe RqSetattr by (auto simp: rq_safe_def)
  from core_setattr_steady [OF f inj sa cut] show ?thesis
    using RqSetattr \<open>f' = f1\<close> by (simp add: rq_effect_def)
next
  case (RqCreate p name mode flags uid gid)
  obtain q f1 where cr: "core_create E f p name mode flags uid gid = (q, f1)" "f' = f1"
    using sv RqCreate by (cases "core_create E f p name mode flags uid gid") (auto simp: answer_call mnt_create_def)
  from core_create_steady [OF f inj _ cr(1)] safe RqCreate cr(2) show ?thesis
    by (simp add: rq_safe_def rq_effect_def)
next
  case (RqOpen i flags)
  obtain q f1 where op: "core_open E f i flags = (q, f1)" by force
  then have r: "r = map_sum id Handle (fuse_call q)" "f' = f1"
    using sv RqOpen by (auto simp: answer_call mnt_open_def)
  have "rq_effect f rq r = (case q of Inl e \<Rightarrow> id
      | Inr fh \<Rightarrow> if flags AND O_TRUNC \<noteq> 0 then (\<lambda>v. v(i := [])) else id)"
    unfolding r RqOpen by (cases q) (auto simp: rq_effect_def answered split: sum.split)
  moreover have cut: "flags AND O_TRUNC \<noteq> 0 \<Longrightarrow> uncut (fc_wb f) i"
    using safe RqOpen by (auto simp: rq_safe_def)
  ultimately show ?thesis using core_open_steady [OF f inj op cut] r(2) RqOpen by simp
next
  case (RqRead fh off n)
  with core_read_steady(1,2) [OF f inj] sv show ?thesis
    by (cases "core_read E f fh off n") (auto simp: answer_call mnt_read_def rq_effect_def)
next
  case (RqWrite fh off d)
  obtain q f1 where wr: "core_write E f fh off d = (q, f1)" by force
  then have r: "r = map_sum id Wrote (fuse_call q)" "f' = f1"
    using sv RqWrite by (auto simp: answer_call mnt_write_def)
  have "rq_effect f rq r = (case ino_at f fh of None \<Rightarrow> id
      | Some i \<Rightarrow> (case q of Inl e \<Rightarrow> id | Inr k \<Rightarrow> (\<lambda>v. v(i := splice (v i) off d))))"
    unfolding r RqWrite by (cases q) (auto simp: rq_effect_def answered split: sum.split option.split)
  moreover have "d \<noteq> []" "\<And>i. ino_at f fh = Some i \<Longrightarrow> uncut (fc_wb f) i"
    using safe RqWrite by (simp_all add: rq_safe_def split: option.splits)
  ultimately show ?thesis using core_write_steady [OF f inj _ _ wr] r(2) by simp
next
  case (RqFlush fh)
  with core_flush_steady(1) [OF f inj] sv show ?thesis
    by (cases "core_flush E f fh") (auto simp: answer_call mnt_flush_def rq_effect_def)
next
  case (RqFsync fh)
  with core_flush_steady(2) [OF f inj] sv show ?thesis
    by (cases "core_fsync E f fh") (auto simp: answer_call mnt_fsync_def rq_effect_def)
next
  case (RqRelease fh)
  with core_release_steady [OF f inj] sv show ?thesis
    by (cases "core_release E f fh") (auto simp: answer_call mnt_release_def rq_effect_def)
next
  case (RqUnlink p name)
  with core_unlink_steady [OF f inj] sv show ?thesis
    by (cases "core_unlink E f p name") (auto simp: answer_call mnt_unlink_def rq_effect_def)
next
  case (RqRename p name q name2 flags)
  with core_rename_steady [OF f inj] safe sv show ?thesis
    by (cases "core_rename E f p name q name2") (auto simp: answer_call mnt_rename_def rq_effect_def rq_safe_def)
next
  case (RqMkdir p name mode uid gid)
  with makers_steady(1) [OF f] safe sv show ?thesis
    by (cases "core_mkdir f p name mode uid gid") (auto simp: answer_call mnt_mkdir_def rq_effect_def rq_safe_def)
next
  case (RqSymlink p name target uid gid)
  with makers_steady(2) [OF f] safe sv show ?thesis
    by (cases "core_symlink f p name target uid gid")
      (auto simp: answer_call mnt_symlink_def rq_effect_def rq_safe_def)
next
  case (RqRmdir p name)
  with core_rmdir_steady [OF f] sv show ?thesis
    by (cases "core_rmdir f p name") (auto simp: answer_call mnt_rmdir_def rq_effect_def)
next
  case (RqLink i p name)
  with core_link_steady [OF f] safe sv show ?thesis
    by (cases "core_link f i p name") (auto simp: answer_call mnt_link_def rq_effect_def rq_safe_def)
next
  case (RqReaddir fh start tok)
  with f sv show ?thesis
    by (cases "mnt_readdir reply f fh start tok") (auto simp: answer_def rq_effect_def)
qed (use f sv in \<open>auto simp: answer_def rq_effect_def mnt_forget_def mnt_releasedir_def\<close>)

subsection \<open>Time and the reaper\<close>

lemma tick_steady:
  assumes f: "ses f"
  shows "ses (tick f t u) \<and> trk f id (tick f t u)"
proof -
  let ?f = "f\<lparr>fc_wb := (fc_wb f)\<lparr>w_now := t\<rparr>\<rparr>"
  have g: "ses ?f"
    using f inv_tick by (auto simp: ses_def steady_def mgr_ok_def unused_ids_def)
  have "mgr_view content (fc_wb ?f) = mgr_view content (fc_wb f)"
    by (simp add: mgr_view_def fun_eq_iff split: option.split)
  moreover have "alive ?f = alive f" by (simp add: alive_def is_open_def fun_eq_iff)
  ultimately have "trk f id ?f" by (simp add: tracks_def)
  obtain f' where on: "on_meta ?f (\<lambda>m. (Inr (), m\<lparr>clock := u\<rparr>)) = (Inr (), f')"
    by (simp add: on_meta_def on_store_def on_wb_def)
  have m: "fc_meta f' = (fc_meta ?f)\<lparr>clock := u\<rparr>" using on_meta_run(1) [OF on] by simp
  have rev: "no_revival (fc_meta ?f) (fc_meta f')" unfolding m by (simp add: no_revival_def)
  have "meta_wf ((fc_meta ?f)\<lparr>clock := u\<rparr>)" by (rule meta_wf_clock [OF core_invD(1) [OF sesD(1) [OF g]]])
  then have inv: "core_inv f'" using core_inv_meta [OF sesD(1) [OF g] on _ rev] m by simp
  have "data_kept (fc_meta ?f) (fc_meta f')" unfolding m by (simp add: data_kept_def)
  from meta_steady [OF g on inv this rev] have "ses f'" "trk ?f id f'" .
  moreover have "tick f t u = f'" by (simp add: tick_def on)
  ultimately show ?thesis using tracks_trans [OF \<open>trk f id ?f\<close>] by simp
qed

lemma inv_reap_loop:
  assumes "core_inv f" "reap_loop E (fc_wb f) force cands = (r, w')"
  shows "core_inv (f\<lparr>fc_wb := w'\<rparr>)"
  using assms
proof (induction cands arbitrary: f)
  case Nil
  then show ?case by auto
next
  case (Cons a cands)
  obtain q w1 where rf: "reap_flush E (fc_wb f) a = (q, w1)" by force
  let ?f = "f\<lparr>fc_wb := w1\<rparr>"
  have inv1: "core_inv ?f" by (rule inv_reap_flush [OF Cons.prems(1), of E a q]) (simp add: on_wb_def rf)
  note inv2 = inv_reap_remove [OF inv1, of a]
  show ?case using Cons.prems(2) rf inv1 Cons.IH [OF inv1] Cons.IH [OF inv2]
    by (simp split: sum.splits if_splits)
qed

lemma reap_steady:
  assumes f: "ses f" and inj: "inj (sha256 E)"
  shows "ses (reap E f) \<and> trk f id (reap E f)"
proof -
  obtain r w' where rp: "reap_once E (fc_wb f) False = (r, w')" by force
  then have on: "on_wb f (\<lambda>w. reap_once E w False) = (r, f\<lparr>fc_wb := w'\<rparr>)" by (simp add: on_wb_def)
  have "core_inv (f\<lparr>fc_wb := w'\<rparr>)"
    using inv_reap_loop [OF sesD(1) [OF f]] rp by (simp add: reap_once_def)
  from core_reap_steady [OF f inj on this] on show ?thesis by (simp add: reap_def)
qed

subsection \<open>Whole sessions\<close>

lemma serve_loop_steady:
  assumes "ses f" "inj (sha256 E)" "session_all rq_safe reply E f evs" "agree content f v"
    and "serve_loop reply E f evs = (r, as, f')"
  shows "ses f' \<and> agree content f' (session_files reply E f evs v) \<and> session_ok reply E f evs v \<and>
    s_cs (fc_store f') = s_cs (fc_store f)"
  using assms
proof (induction evs arbitrary: f v as)
  case Nil
  then show ?case by simp
next
  case (Cons ev evs)
  note f = Cons.prems(1) and inj = Cons.prems(2) and v = Cons.prems(4)
  show ?case
  proof (cases ev)
    case (Wait t u)
    with Cons.prems Cons.IH [OF _ inj, of "tick f t u" v as] tick_steady [OF f] agree_quiet [OF v]
    show ?thesis by (simp add: tick_def [symmetric] tracks_def)
  next
    case Reap
    with Cons.prems Cons.IH [OF _ inj, of "reap E f" v as] reap_steady [OF f inj] agree_quiet [OF v]
    show ?thesis by (simp add: reap_def [symmetric] tracks_def)
  next
    case (Serve rq)
    obtain q f1 where sv: "mnt_serve reply E f rq = (q, f1)" by force
    have safe: "rq_safe f rq" using Cons.prems(3) Serve by simp
    note S = serve_steady [OF f inj safe sv]
    have A: "agree content f1 (rq_effect f rq q v)" using agree_step [OF v] S by blast
    have R: "reply_ok f v rq a" if "q = Inr a" for a using serve_reply [OF f inj v] sv that by simp
    show ?thesis
    proof (cases "\<exists>e. q = Inl (Escaped e)")
      case True
      with Cons.prems Serve sv S A show ?thesis by (auto simp: tracks_def)
    next
      case False
      obtain as2 where rest: "serve_loop reply E f1 evs = (r, as2, f')"
        using Cons.prems(5) Serve sv False by (auto split: sum.splits fuse_exn.splits prod.splits)
      have "session_all rq_safe reply E f1 evs"
        using Cons.prems(3) Serve sv False by (auto split: sum.splits fuse_exn.splits)
      from Cons.IH [OF conjunct1 [OF S] inj this A rest] Serve sv False R S
      show ?thesis by (auto simp: tracks_def split: sum.splits fuse_exn.splits)
    qed
  qed
qed

end

subsection \<open>Mounting, unmounting, mounting again\<close>

text \<open>A store nobody works on: what an unmounted filesystem leaves and a mount starts from.\<close>

definition at_rest ::
    "(bytes \<Rightarrow> sha) \<Rightarrow> ('b \<Rightarrow> nat \<Rightarrow> bytes option) \<Rightarrow> ('b \<Rightarrow> bool) \<Rightarrow> 'b store \<Rightarrow> bool" where
  "at_rest hash content binv s \<longleftrightarrow>
     meta_wf (s_meta s) \<and> store_ok hash content binv s \<and> (\<forall>i. size_ok content s i) \<and>
     (\<forall>i > seq (s_meta s). get_chunks (s_meta s) i = [])"

lemma at_restD:
  assumes "at_rest hash content binv s"
  shows "meta_wf (s_meta s)" "store_ok hash content binv s" "size_ok content s i"
    "seq (s_meta s) < i \<Longrightarrow> get_chunks (s_meta s) i = []"
  using assms by (auto simp: at_rest_def)

lemma build_core_store:
  "s_meta (fc_store (build_core c m b cache)) = m" "s_back (fc_store (build_core c m b cache)) = b"
  "s_cs (fc_store (build_core c m b cache)) = cfg_chunk_size c"
  "s_cache (fc_store (build_core c m b cache)) = Some cache"
  "w_states (fc_wb (build_core c m b cache)) = []"
  by (simp_all add: build_core_def new_core_def new_wb_def new_store_def)

text \<open>The chunk size may grow between two mounts; any sound cache directory will do.\<close>

lemma build_core_at_rest:
  assumes s: "at_rest hash content binv s" and cs: "s_cs s \<le> cfg_chunk_size c" and cache: "rc_ok hash cache"
  shows "at_rest hash content binv (fc_store (build_core c (s_meta s) (s_back s) cache))"
    "sbytes content (fc_store (build_core c (s_meta s) (s_back s) cache)) = sbytes content s"
proof -
  let ?s = "fc_store (build_core c (s_meta s) (s_back s) cache)"
  note B = build_core_store [of c "s_meta s" "s_back s" cache]
  show bytes: "sbytes content ?s = sbytes content s" by (simp add: sbytes_def B fun_eq_iff)
  have "0 < cfg_chunk_size c" using store_okD(3) [OF at_restD(2) [OF s]] cs by simp
  then have "store_ok hash content binv ?s"
    using at_restD(2) [OF s] cache by (simp add: store_ok_def B cache_ok_def)
  moreover have "size_ok content ?s i" for i
    using at_restD(3) [OF s, of i] cs unfolding size_ok_def bytes B by (auto simp: list_all_iff)
  ultimately show "at_rest hash content binv ?s" using s by (simp add: at_rest_def B)
qed

lemma rc_open_ok:
  assumes "keyed files" "list_all (\<lambda>(sh, d). hash d = sh) files"
  shows "rc_ok hash (rc_open cap files)"
proof -
  have "map_of (map (\<lambda>(s, d). (s, length d)) files) sh = map_option length (map_of files sh)" for sh
    by (induction files) auto
  moreover have "hash d = sh" if "map_of files sh = Some d" for sh d
    using assms(2) map_of_SomeD [OF that] by (auto simp: list_all_iff)
  moreover have "keyed (map (\<lambda>(s, d). (s, length d)) files)"
    using assms(1) by (simp add: keyed_def comp_def case_prod_beta)
  moreover have "(\<Sum>(s, d) \<leftarrow> files. int (length d)) = (\<Sum>(s, z) \<leftarrow> map (\<lambda>(s, d). (s, length d)) files. int z)"
    by (induction files) auto
  ultimately show ?thesis
    using assms(1) by (simp add: rc_ok_def rc_wf_def rc_coherent_def rc_open_def sql_select_def)
qed

context reliable_backend
begin

lemma build_core_ses:
  assumes "at_rest (sha256 E) content binv (fc_store (build_core c m b cache))"
  shows "ses (build_core c m b cache)"
    "agree content (build_core c m b cache) (sbytes content (fc_store (build_core c m b cache)))"
proof -
  let ?s = "fc_store (build_core c m b cache)"
  define s where "s = ?s"
  have f: "build_core c m b cache = new_core (new_wb s (cfg_delay c))"
    by (simp add: build_core_def new_core_def new_wb_def s_def)
  note s = assms [folded s_def]
  have "std (new_wb s (cfg_delay c))"
    using s new_wb_ok [OF at_restD(2) [OF s], of "cfg_delay c"]
    by (simp add: steady_def unused_ids_def at_rest_def new_wb_def)
  then show "ses (build_core c m b cache)"
    using new_core_inv [OF at_restD(1) [OF s], of "cfg_delay c"] unfolding f ses_def by (simp add: new_core_def)
  have "mgr_view content (fc_wb (build_core c m b cache)) = sbytes content ?s"
    by (simp add: fun_eq_iff mgr_view_def build_core_store)
  then show "agree content (build_core c m b cache) (sbytes content ?s)" by (simp add: agree_def)
qed

lemma cleanup_at_rest:
  assumes f: "ses f" and inj: "inj (sha256 E)" and v: "agree content f v"
  shows "at_rest (sha256 E) content binv (mnt_cleanup E f)"
    "same_tree (fc_meta f) (s_meta (mnt_cleanup E f))" "s_cs (mnt_cleanup E f) = s_cs (fc_store f)"
    "get_inode (s_meta (mnt_cleanup E f)) i \<noteq> None \<or> seq (s_meta (mnt_cleanup E f)) < i \<Longrightarrow>
       sbytes content (mnt_cleanup E f) i = v i"
proof -
  note w = sesD(2) [OF f]
  obtain w' where sd: "shutdown E (fc_wb f) = (Inr (), w')"
    using shutdown_returns [OF steadyD(1) [OF w] inj] by (metis prod.collapse)
  have s: "mnt_cleanup E f = w_store w'" by (simp add: mnt_cleanup_def sd)
  note S = shutdown_steady [OF w inj sd] and V = shutdown_ok [OF steadyD(1) [OF w] inj sd]
  show tree: "same_tree (fc_meta f) (s_meta (mnt_cleanup E f))" using S(2) s by simp
  show "at_rest (sha256 E) content binv (mnt_cleanup E f)"
    using steadyD [OF S(1)] mgr_okD(1) [OF steadyD(1) [OF S(1)]]
      same_tree_wf [OF tree core_invD(1) [OF sesD(1) [OF f]]] by (simp add: at_rest_def s unused_ids_def)
  show "s_cs (mnt_cleanup E f) = s_cs (fc_store f)" using S(3) s by simp
  show "sbytes content (mnt_cleanup E f) i = v i"
    if "get_inode (s_meta (mnt_cleanup E f)) i \<noteq> None \<or> seq (s_meta (mnt_cleanup E f)) < i"
  proof -
    have "alive f i" using that same_treeD(2,3) [OF tree] by (auto simp: alive_def)
    with V(3) agreeD [OF v] s show ?thesis by simp
  qed
qed

end

end
