(* ===== verification/SessionErrors.thy ===== *)
theory SessionErrors
  imports SessionMount
begin

section \<open>What can end a mount\<close>

text \<open>
  Over a backend that answers, every request ends with an answer or with an errno, except one: a
  write through a handle opened for reading to a file that lost its last name before its content
  was loaded (\<open>_materialize\<close> looks up the inode, which is gone). \<open>rq_loaded\<close> excludes it; a file
  opened for writing is loaded by the open.
\<close>

definition rq_loaded :: "'b fs \<Rightarrow> 't request \<Rightarrow> bool" where
  "rq_loaded f rq =
     (case rq of
        RqWrite fh off d \<Rightarrow>
          (case map_of (fc_fh f) fh of
             None \<Rightarrow> True
           | Some a \<Rightarrow> (case w_heap (fc_wb f) a of
                 None \<Rightarrow> True
               | Some st \<Rightarrow> fs_mat st \<or> get_inode (fc_meta f) (fs_ino st) \<noteq> None))
      | _ \<Rightarrow> True)"

lemma fuse_call_tame: "tame r \<Longrightarrow> fuse_call r \<noteq> Inl (Escaped e)"
  by (auto simp: tame_def fuse_call_def split: sum.splits exn.splits)

lemma answer_tame:
  assumes "tame (fst rf)" "answer h (mnt_call rf g) = (r, f')"
  shows "r \<noteq> Inl (Escaped e)"
  using fuse_call_tame [OF assms(1), of e] assms(2)
  by (cases "fuse_call (fst rf)") (auto simp: answer_call)

lemma core_getattr_tame [simp]: "tame (core_getattr f i)"
  by (simp add: core_getattr_def split: option.split)

lemma core_lookup_tame [simp]: "tame (core_lookup f p name)"
  by (simp add: core_lookup_def split: option.split)

lemma mnt_getattr_tame: "mnt_getattr f i \<noteq> Inl (Escaped e)"
  using fuse_call_tame [OF core_getattr_tame, of f i e]
  by (auto simp: mnt_getattr_def mnt_call_def split: sum.split)

lemma mnt_lookup_tame: "mnt_lookup f p name \<noteq> Inl (Escaped e)"
  using fuse_call_tame [OF core_lookup_tame, of f p name e] mnt_getattr_tame [of f p e]
  by (auto simp: mnt_lookup_def mnt_call_def split: sum.split)

lemma readdir_loop_tame: "fst (readdir_loop reply f start k es tok) \<noteq> Inl (Escaped e)"
proof (induction es arbitrary: k tok)
  case (Cons en es)
  obtain name child where en: "en = (name, child)" by force
  show ?case using Cons.IH mnt_getattr_tame [of f child e]
    by (auto simp: en Let_def split: sum.split prod.split)
qed simp

lemma mnt_readdir_tame: "fst (mnt_readdir reply f fh start tok) \<noteq> Inl (Escaped e)"
proof -
  have "tame (core_readdir f fh)" by (simp add: core_readdir_def split: option.split)
  from fuse_call_tame [OF this, of e] readdir_loop_tame [of reply f start 0 _ tok e] show ?thesis
    by (auto simp: mnt_readdir_def split: sum.split)
qed

lemma mnt_readlink_tame: "mnt_readlink f i \<noteq> Inl (Escaped e)"
  unfolding mnt_readlink_def by (rule fuse_call_tame) (simp add: core_readlink_def split: option.split)

lemma answer_pure: "q \<noteq> Inl (Escaped e) \<Longrightarrow> answer h (q, f) = (r, f') \<Longrightarrow> r \<noteq> Inl (Escaped e)"
  by (cases q) (auto simp: answer_def)

lemma on_handle_tame:
  assumes "on_handle f fh op = (r, f')"
    and "\<And>a w'. map_of (fc_fh f) fh = Some a \<Longrightarrow> op a (fc_wb f) = (r, w') \<Longrightarrow> tame r"
  shows "tame r"
  using assms by (cases "map_of (fc_fh f) fh") (auto simp: on_handle_def get_state_def elim: on_wbE)

context reliable_backend
begin

lemma open_state:
  assumes f: "ses f" and fh: "map_of (fc_fh f) fh = Some a"
  obtains i st where "map_of (w_states (fc_wb f)) i = Some a" "w_heap (fc_wb f) a = Some st"
    "sok (fc_store f) i st"
proof -
  obtain i where i: "map_of (w_states (fc_wb f)) i = Some a" by (rule handle_state [OF sesD(1) [OF f] fh])
  with mgr_okD(4) [OF steadyD(1) [OF sesD(2) [OF f]] i] that show thesis by blast
qed

lemma io_tame:
  assumes f: "ses f" and inj: "inj (sha256 E)"
  shows "core_read E f fh off n = (r1, f1) \<Longrightarrow> tame r1"
    "core_flush E f fh = (r2, f2) \<Longrightarrow> tame r2"
    "core_fsync E f fh = (r3, f3) \<Longrightarrow> tame r3"
proof -
  note w = sesD(2) [OF f]
  show "tame r1" if "core_read E f fh off n = (r1, f1)"
  proof (rule on_handle_tame [OF that [unfolded core_read_def]])
    fix a w' assume a: "map_of (fc_fh f) fh = Some a"
      and on: "on_state (fc_wb f) a (\<lambda>st s. wb_read E st s n off) = (r1, w')"
    obtain i st where st: "w_heap (fc_wb f) a = Some st" "sok (fc_store f) i st" by (rule open_state [OF f a])
    have fok: "fok (fc_store f) st" "\<not> fs_closed st" using st(2) by (simp_all add: state_ok_def)
    have "\<exists>d. fst (wb_read E st (fc_store f) n off) = Inr d"
    proof (cases "fs_mat st")
      case True
      then show ?thesis using wb_read_returns [OF fok(1) inj] fok(2) by (simp add: live_def)
    next
      case False
      with read_range_returns [OF fokD(1) [OF fok(1)] inj, of "fs_ino st" off n] show ?thesis
        by (auto simp: wb_read_def split: prod.splits)
    qed
    with on st(1) show "tame r1" by (auto simp: on_state_def split: prod.splits)
  qed
  show "tame r2" if "core_flush E f fh = (r2, f2)"
  proof (rule on_handle_tame [OF that [unfolded core_flush_def]])
    fix a w' assume a: "map_of (fc_fh f) fh = Some a" and fl: "wb_flush E (fc_wb f) a = (r2, w')"
    obtain i where "map_of (w_states (fc_wb f)) i = Some a" by (rule open_state [OF f a])
    from wb_flush_steady(1) [OF w inj this fl] show "tame r2" by simp
  qed
  show "tame r3" if "core_fsync E f fh = (r3, f3)"
  proof (rule on_handle_tame [OF that [unfolded core_fsync_def]])
    fix a w' assume a: "map_of (fc_fh f) fh = Some a" and sy: "wb_sync E (fc_wb f) a = (r3, w')"
    obtain i where "map_of (w_states (fc_wb f)) i = Some a" by (rule open_state [OF f a])
    from wb_sync_steady(1) [OF w inj this sy] show "tame r3" by simp
  qed
qed

lemma write_tame:
  assumes f: "ses f" and inj: "inj (sha256 E)" and loaded: "rq_loaded f (RqWrite fh off d)"
    and wr: "core_write E f fh off d = (r, f')"
  shows "tame r"
proof (rule on_handle_tame [OF wr [unfolded core_write_def]])
  fix a w' assume a: "map_of (fc_fh f) fh = Some a"
    and on: "on_state (fc_wb f) a (\<lambda>st s. wb_write E st s d off) = (r, w')"
  obtain i st where st: "w_heap (fc_wb f) a = Some st" "sok (fc_store f) i st" by (rule open_state [OF f a])
  have "live (fc_store f) st" using st loaded a by (simp add: live_def state_ok_def rq_loaded_def)
  moreover have "fok (fc_store f) st" using st(2) by (simp add: state_ok_def)
  ultimately have "fst (wb_write E st (fc_store f) d off) = Inr (length d)"
    using wb_write_returns [OF _ inj] by blast
  with on st(1) show "tame r" by (auto simp: on_state_def split: prod.splits)
qed

lemma serve_tame:
  assumes f: "ses f" and inj: "inj (sha256 E)" and safe: "rq_safe f rq" and loaded: "rq_loaded f rq"
    and sv: "mnt_serve reply E f rq = (r, f')"
  shows "r \<noteq> Inl (Escaped e)"
proof (cases rq)
  case (RqLookup p name)
  then show ?thesis using sv answer_pure [OF mnt_lookup_tame] by simp
next
  case (RqGetattr i)
  then show ?thesis using sv answer_pure [OF mnt_getattr_tame] by simp
next
  case (RqSetattr i u)
  have cut: "new_size f i (u_size u) \<noteq> None \<Longrightarrow> uncut (fc_wb f) i"
    using safe RqSetattr by (auto simp: rq_safe_def)
  have "tame (fst (core_setattr E f i (u_mode u) (u_uid u) (u_gid u) (u_size u) ta tm))" for ta tm
    by (rule core_setattr_steady(3) [OF f inj prod.collapse [symmetric] cut])
  from answer_tame [OF this] sv RqSetattr show ?thesis by (simp add: mnt_setattr_def)
next
  case (RqOpendir i)
  have "mnt_opendir f i \<noteq> Inl (Escaped e)"
    using fuse_call_tame [OF core_getattr_tame, of f i e] by (auto simp: mnt_opendir_def mnt_call_def split: sum.split)
  from answer_pure [OF this] sv RqOpendir show ?thesis by simp
next
  case (RqReaddir fh start tok)
  show ?thesis
    using sv answer_pure [OF mnt_readdir_tame [of reply f fh start tok e, simplified]] RqReaddir
    by (cases "mnt_readdir reply f fh start tok") (auto simp: answer_def)
next
  case (RqMkdir p name mode uid gid)
  have "tame (fst (core_mkdir f p name mode uid gid))"
    using makers_steady(1) [OF f _ prod.collapse [symmetric]] safe RqMkdir by (simp add: rq_safe_def)
  from answer_tame [OF this] sv RqMkdir show ?thesis by (simp add: mnt_mkdir_def)
next
  case (RqRmdir p name)
  from answer_tame [OF core_rmdir_steady(3) [OF f prod.collapse [symmetric]]] sv RqRmdir
  show ?thesis by (simp add: mnt_rmdir_def)
next
  case (RqCreate p name mode flags uid gid)
  have "tame (fst (core_create E f p name mode flags uid gid))"
    using core_create_steady(3) [OF f inj _ prod.collapse [symmetric]] safe RqCreate by (simp add: rq_safe_def)
  from answer_tame [OF this] sv RqCreate show ?thesis by (simp add: mnt_create_def)
next
  case (RqOpen i flags)
  have cut: "flags AND O_TRUNC \<noteq> 0 \<Longrightarrow> uncut (fc_wb f) i" using safe RqOpen by (auto simp: rq_safe_def)
  from answer_tame [OF core_open_steady(3) [OF f inj prod.collapse [symmetric] cut]] sv RqOpen
  show ?thesis by (simp add: mnt_open_def)
next
  case (RqRead fh off n)
  from answer_tame [OF io_tame(1) [OF f inj prod.collapse [symmetric]]] sv RqRead
  show ?thesis by (simp add: mnt_read_def)
next
  case (RqWrite fh off d)
  from answer_tame [OF write_tame [OF f inj loaded [unfolded RqWrite] prod.collapse [symmetric]]] sv RqWrite
  show ?thesis by (simp add: mnt_write_def)
next
  case (RqFlush fh)
  from answer_tame [OF io_tame(2) [OF f inj prod.collapse [symmetric]]] sv RqFlush
  show ?thesis by (simp add: mnt_flush_def)
next
  case (RqFsync fh)
  from answer_tame [OF io_tame(3) [OF f inj prod.collapse [symmetric]]] sv RqFsync
  show ?thesis by (simp add: mnt_fsync_def)
next
  case (RqRelease fh)
  have "tame (fst (core_release E f fh))" using core_release_steady(3) [OF f inj prod.collapse [symmetric]] by simp
  from answer_tame [OF this] sv RqRelease show ?thesis by (simp add: mnt_release_def)
next
  case (RqUnlink p name)
  from answer_tame [OF core_unlink_steady(3) [OF f inj prod.collapse [symmetric]]] sv RqUnlink
  show ?thesis by (simp add: mnt_unlink_def)
next
  case (RqRename p name q name2 flags)
  have "tame (fst (core_rename E f p name q name2))"
    using core_rename_steady(3) [OF f inj _ prod.collapse [symmetric]] safe RqRename by (simp add: rq_safe_def)
  from answer_tame [OF this] sv RqRename show ?thesis by (simp add: mnt_rename_def)
next
  case (RqSymlink p name target uid gid)
  have "tame (fst (core_symlink f p name target uid gid))"
    using makers_steady(2) [OF f _ prod.collapse [symmetric]] safe RqSymlink by (simp add: rq_safe_def)
  from answer_tame [OF this] sv RqSymlink show ?thesis by (simp add: mnt_symlink_def)
next
  case (RqReadlink i)
  from answer_pure [OF mnt_readlink_tame] sv RqReadlink show ?thesis by simp
next
  case (RqLink i p name)
  have "tame (fst (core_link f i p name))"
    using core_link_steady(3) [OF f _ prod.collapse [symmetric]] safe RqLink by (simp add: rq_safe_def)
  from answer_tame [OF this] sv RqLink show ?thesis by (simp add: mnt_link_def)
qed (use sv in \<open>auto simp: answer_def mnt_forget_def mnt_releasedir_def\<close>)

lemma serve_loop_returns:
  assumes "ses f" "inj (sha256 E)" "session_all rq_safe reply E f evs" "session_all rq_loaded reply E f evs"
  shows "fst (serve_loop reply E f evs) = Inr ()"
  using assms
proof (induction evs arbitrary: f)
  case (Cons ev evs)
  note f = Cons.prems(1) and inj = Cons.prems(2)
  show ?case
  proof (cases ev)
    case (Wait t u)
    with Cons.prems Cons.IH [OF _ inj, of "tick f t u"] tick_steady [OF f] show ?thesis
      by (simp add: tick_def [symmetric])
  next
    case Reap
    with Cons.prems Cons.IH [OF _ inj, of "reap E f"] reap_steady [OF f inj] show ?thesis
      by (simp add: reap_def [symmetric])
  next
    case (Serve rq)
    obtain q f1 where sv: "mnt_serve reply E f rq = (q, f1)" by force
    have safe: "rq_safe f rq" "rq_loaded f rq" using Cons.prems(3,4) Serve by simp_all
    have q: "q \<noteq> Inl (Escaped e)" for e by (rule serve_tame [OF f inj safe sv])
    have rest: "session_all rq_safe reply E f1 evs" "session_all rq_loaded reply E f1 evs"
      using Cons.prems(3,4) Serve sv q by (auto split: sum.splits fuse_exn.splits)
    have "ses f1" using serve_steady [OF f inj safe(1) sv] by blast
    from Cons.IH [OF this inj rest] Serve sv q show ?thesis
      by (auto split: sum.splits fuse_exn.splits prod.splits)
  qed
qed simp

end

end
