(* ===== verification/StoreProps.thy ===== *)
theory StoreProps
  imports StoreRead
begin

section \<open>Properties of the store\<close>

text \<open>
  The contract of the store over the in-memory backend, with any pattern of refused uploads
  and lost downloads (\<open>boom_env\<close>), by the interpretations of \<open>blob_backend\<close> and
  \<open>reliable_backend\<close>. The witnesses run on \<open>demo_store\<close>: a new database, an empty backend,
  chunks of two bytes.
\<close>

lemma new_meta_tables [simp]: "chunks (new_meta t u g) = []" "blobs (new_meta t u g) = []"
  by (simp_all add: new_meta_def ensure_root_def sql_select_def)

lemma new_store_ok:
  assumes "0 < cs" "cache_ok hash cache"
  shows "store_ok hash mem_content mem_inv (new_store (new_meta t u g) mem_new cs cache w ra)"
  using assms mem_inv_new
  by (auto simp: store_ok_def new_store_def blobs_ok_def counts_ok_def loc_def rc_def refs_def
      blob_get_def sql_select_def sql_count_def get_chunks_def file_bytes_def mem_content_def mem_new_def)

lemma boom_never: "boom_env (\<lambda>_. False) (\<lambda>_. False) hash = mem_env hash"
  by (simp add: boom_env_def mem_env_def boom_upload_def [abs_def] lossy_download_def [abs_def])

lemma put_target_None: "sz \<le> length S \<Longrightarrow> put_target cs None rows D S sz (take sz S)"
  by (auto simp: put_target_def is_clean_def slice_def drop_take min_def)

definition demo_store :: "membackend store" where
  "demo_store = new_store (new_meta 0 1000 1000) mem_new 2 None 1 0"

definition demo_data :: bytes where
  "demo_data = [1, 2, 3, 4, 1, 2, 5]"

definition demo_file :: pyfile where
  "demo_file = \<lparr>f_data = demo_data, f_pos = 0\<rparr>"

lemma demo_file_simps [simp]: "f_data demo_file = demo_data" "f_pos demo_file = 0" "length demo_data = 7"
  by (simp_all add: demo_file_def demo_data_def)

lemma demo_ok: "store_ok byte_digest mem_content mem_inv demo_store"
  unfolding demo_store_def by (rule new_store_ok) (simp_all add: cache_ok_def)

lemma demo_target: "put_target (s_cs demo_store) None (get_chunks (s_meta demo_store) i)
    (sbytes mem_content demo_store i) (f_data demo_file) (length demo_data) demo_data"
  using put_target_None [of 7 demo_data] by simp

subsection \<open>Writing\<close>

text \<open>C3: \<open>put_file\<close> refines a write of the abstract file: when it returns, inode \<open>i\<close> holds
  exactly the content \<open>X\<close> that the source and the clean chunks stand for, its recorded size
  is that of \<open>X\<close>, every other file has the bytes it had, and the store's invariant (counts,
  rows, blobs) holds again, whichever uploads were refused on the way.\<close>

theorem put_file_stores:
  assumes "inj hash" "store_ok hash mem_content mem_inv s"
    and "f_pos src = 0" "length X \<le> length (f_data src)"
    and "put_target (s_cs s) dirty (get_chunks (s_meta s) i) (sbytes mem_content s i)
           (f_data src) (length X) X"
    and "put_file (boom_env refuse lost hash) s i src (length X) dirty = (Inr (), src', s')"
  shows "store_ok hash mem_content mem_inv s' \<and>
    sbytes mem_content s' = (sbytes mem_content s)(i := X) \<and>
    map_option i_size (get_inode (s_meta s') i) =
      map_option (\<lambda>_. length X) (get_inode (s_meta s) i) \<and>
    (\<forall>j. j \<noteq> i \<longrightarrow> get_inode (s_meta s') j = get_inode (s_meta s) j)"
proof -
  note P = boom.put_file_ok [where hash = hash, simplified, OF assms(2,1,3,4,5,6)]
  then have "inodes (s_meta s') = inodes (set_size (s_meta s) i (length X))"
    by (simp add: only_blobs_iff set_size_def)
  with P(2,3) show ?thesis
    by (auto simp: get_inode_def set_size_def select_update option.map_comp comp_def)
qed

theorem put_file_stores_witness:
  "\<exists>src' s'. put_file (boom_env (\<lambda>_. False) (\<lambda>_. False) byte_digest) demo_store 1 demo_file 7 None
      = (Inr (), src', s') \<and> sbytes mem_content s' 1 = demo_data"
proof -
  obtain r src' s' where put: "put_file (boom_env (\<lambda>_. False) (\<lambda>_. False) byte_digest)
      demo_store 1 demo_file 7 None = (r, src', s')" by (metis prod_cases3)
  have "fst (put_file (mem_env byte_digest) demo_store 1 demo_file 7 None) = Inr ()"
    by code_simp
  with put have "r = Inr ()" by (simp add: boom_never)
  with put_file_stores [OF byte_digest_inj demo_ok _ _ demo_target, of "\<lambda>_. False" "\<lambda>_. False" 1 src' s'] put
  show ?thesis by simp
qed









subsection \<open>Reading\<close>

text \<open>C5: Reads are right: whatever the cache holds, whichever downloads fail, if \<open>read_range\<close>
  returns then the result is exactly the requested slice of the file, short at its end, and
  no file has changed; if it raises, nothing has changed either.\<close>

theorem read_range_slice:
  assumes "inj hash" "store_ok hash mem_content mem_inv s"
    and "read_range (boom_env refuse lost hash) s i off n = (r, s')"
  shows "store_ok hash mem_content mem_inv s' \<and> s_meta s' = s_meta s \<and>
    sbytes mem_content s' = sbytes mem_content s \<and>
    (case r of Inl _ \<Rightarrow> True | Inr out \<Rightarrow> out = slice (sbytes mem_content s i) off (off + n))"
  using boom.read_range_ok [where hash = hash, simplified, OF assms(2,1,3)] same_data_bytes [of mem_content s s']
  by (auto simp: boom.reads_def same_data_def split: sum.splits)

theorem read_range_slice_witness:
  "\<exists>r s'. read_range (boom_env (\<lambda>_. False) (\<lambda>_. True) byte_digest) demo_store 1 0 5 = (r, s') \<and>
      s_meta s' = s_meta demo_store"
  using read_range_slice [OF byte_digest_inj demo_ok]
  by (cases "read_range (boom_env (\<lambda>_. False) (\<lambda>_. True) byte_digest) demo_store 1 0 5") blast

text \<open>C7: Round trip: what \<open>put_file\<close> stored, \<open>read_range\<close> returns: over a backend that answers,
  a read of any range of the file written gives that slice of the content.\<close>

theorem put_then_read:
  assumes "inj hash" "store_ok hash mem_content mem_inv s"
    and "f_pos src = 0" "length X \<le> length (f_data src)"
    and "put_target (s_cs s) dirty (get_chunks (s_meta s) i) (sbytes mem_content s i)
           (f_data src) (length X) X"
    and "put_file (mem_env hash) s i src (length X) dirty = (r, src', s')"
  shows "fst (read_range (mem_env hash) s' i off n) = Inr (slice X off (off + n))"
proof -
  have "r = Inr ()"
    using mem.put_file_returns [where hash = hash, simplified, OF assms(2,1,3,4,5)] assms(6) by simp
  note P = mem.put_file_ok [where hash = hash, simplified, OF assms(2,1,3,4,5,6)]
  obtain out s2 where rd: "read_range (mem_env hash) s' i off n = (Inr out, s2)"
    using mem.read_range_returns [where hash = hash, simplified, OF P(2) assms(1), of i off n]
    by (metis prod.collapse)
  with mem.read_range_ok(2) [where hash = hash, simplified, OF P(2) assms(1) rd] P(3) \<open>r = Inr ()\<close>
  show ?thesis by simp
qed

theorem put_then_read_witness:
  "\<exists>r src' s'. put_file (mem_env byte_digest) demo_store 1 demo_file 7 None = (r, src', s') \<and>
     fst (read_range (mem_env byte_digest) s' 1 1 4) = Inr [2, 3, 4, 1]"
proof -
  obtain r src' s' where put: "put_file (mem_env byte_digest) demo_store 1 demo_file 7 None = (r, src', s')"
    by (metis prod_cases3)
  moreover have "slice demo_data 1 (1 + 4) = [2, 3, 4, 1]" by (simp add: demo_data_def slice_def)
  ultimately show ?thesis
    using put_then_read [OF byte_digest_inj demo_ok _ _ demo_target, of 1 r src' s' 1 4] by simp
qed

end
