(* ===== verification/WritebackProps.thy ===== *)
theory WritebackProps
  imports WritebackTotal StoreProps
begin

section \<open>Properties of the writeback manager: one file\<close>

text \<open>
  What a file state promises, over the in-memory backend, and the three situations in which
  the code does not keep the promise. \<open>demo_disk\<close> is a database with one empty file, inode 2,
  and \<open>demo_stored\<close> the same after seven bytes were stored in it in chunks of two.
\<close>

definition demo_fs :: meta where
  "demo_fs = snd (create (new_meta 0 1000 1000) 1 ''f'' 33188 KFile 1000 1000 None)"

definition demo_disk :: "membackend store" where
  "demo_disk = new_store demo_fs mem_new 2 None 1 0"

definition demo_stored :: "membackend store" where
  "demo_stored = snd (snd (put_file (mem_env byte_digest) demo_disk 2 demo_file 7 None))"

lemma demo_disk_ok: "store_ok byte_digest mem_content mem_inv demo_disk" "stored_as mem_content demo_disk 2 []"
proof -
  have t: "chunks demo_fs = []" "blobs demo_fs = []" by code_simp+
  then show "store_ok byte_digest mem_content mem_inv demo_disk"
    using mem_inv_new
    by (auto simp: store_ok_def demo_disk_def new_store_def blobs_ok_def counts_ok_def loc_def rc_def refs_def
        blob_get_def sql_select_def sql_count_def get_chunks_def file_bytes_def mem_content_def mem_new_def
        cache_ok_def)
  show "stored_as mem_content demo_disk 2 []"
    unfolding stored_as_def by (intro conjI) code_simp+
qed

lemma demo_stored_ok: "store_ok byte_digest mem_content mem_inv demo_stored" "stored_as mem_content demo_stored 2 demo_data"
proof -
  obtain r src' where put: "put_file (mem_env byte_digest) demo_disk 2 demo_file 7 None = (r, src', demo_stored)"
    by (metis demo_stored_def prod.collapse)
  have tgt: "put_target (s_cs demo_disk) None (get_chunks (s_meta demo_disk) 2)
      (sbytes mem_content demo_disk 2) (f_data demo_file) (length demo_data) demo_data"
    using put_target_None [of 7 demo_data] by simp
  show "store_ok byte_digest mem_content mem_inv demo_stored"
    by (rule mem.put_file_ok(2) [where hash = byte_digest, simplified, OF demo_disk_ok(1) byte_digest_inj _ _ tgt])
      (use put in simp_all)
  show "stored_as mem_content demo_stored 2 demo_data"
    unfolding stored_as_def by (intro conjI) code_simp+
qed

subsection \<open>A sequence of operations\<close>



text \<open>C20: Over a backend that answers, every such sequence runs to its end: no call raises, whatever
  the operations, offsets and lengths, and its reads give what the byte string model gives.\<close>

theorem file_session_returns:
  assumes "inj hash" "store_ok hash mem_content mem_inv s" "stored_as mem_content s i X"
    and "safe_ops Whole ops"
  shows "fst (run_ops (mem_env hash) ops (new_filestate i) s) = Inr (fst (byte_ops ops (X, X)))"
proof -
  note F = mem.fresh_ok [where hash = hash, simplified, OF assms(2,3)]
  have "live s (new_filestate i)"
    using assms(3) by (auto simp: live_def stored_as_def new_filestate_def)
  from mem.run_ops_returns [where hash = hash, simplified, OF F(1) assms(1) this assms(4) F(3)]
  obtain out st' s' where run: "run_ops (mem_env hash) ops (new_filestate i) s = (Inr out, st', s')" by blast
  with mem.run_ops_ok [where hash = hash, simplified, OF F(1) assms(1) F(4) assms(4) F(3) run] F
  show ?thesis by (auto simp: new_filestate_def)
qed

theorem file_session_returns_witness:
  "fst (run_ops (mem_env byte_digest) [FTruncate 9, FRead 4 5, FWrite [8] 12, FRead 3 10] (new_filestate 2) demo_stored) =
     Inr [[2, 5, 0, 0], [0, 0, 8]]"
proof -
  let ?ops = "[FTruncate 9, FRead 4 5, FWrite [8] 12, FRead 3 10]"
  have "fst (byte_ops ?ops (demo_data, demo_data)) = [[2, 5, 0, 0], [0, 0, 8]]" by code_simp
  then show ?thesis
    using file_session_returns [OF byte_digest_inj demo_stored_ok, of ?ops] by simp
qed

subsection \<open>Single operations\<close>

text \<open>
  The file states these are about: \<open>file_ok\<close> holds of a new handle (\<open>demo_state_ok\<close>) and, by
  the lemmas of \<open>WritebackSession\<close>, after any operation that returned.
\<close>

lemma demo_state_ok: "file_ok byte_digest mem_content mem_inv demo_stored (new_filestate 2)"
  by (rule boom.fresh_ok(1) [where hash = byte_digest, simplified, OF demo_stored_ok])

lemma demo_state_simps: "\<not> fs_closed (new_filestate i)" "\<not> fs_mat (new_filestate i)" "fs_ino (new_filestate i) = i"
  by (simp_all add: new_filestate_def)

lemma demo_state_view: "wb_view mem_content demo_stored (new_filestate 2) = demo_data"
  by (rule boom.fresh_ok(2) [where hash = byte_digest, simplified, OF demo_stored_ok])

text \<open>\<open>write\<close> that returns has changed the content by splicing the data in at the offset, with
  zeros up to it when it lies beyond the end; the store (index, blobs, every file as stored)
  is as before, and the state is ready for the next operation.\<close>

lemma wb_write_splices:
  assumes "inj hash" "file_ok hash mem_content mem_inv s st" "d \<noteq> []"
    and "wb_write (boom_env refuse lost hash) st s d a = (Inr n, st', s')"
  shows "n = length d \<and> wb_view mem_content s' st' = splice (wb_view mem_content s st) a d \<and>
    fs_dirty st' \<and> file_ok hash mem_content mem_inv s' st' \<and>
    s_meta s' = s_meta s \<and> sbytes mem_content s' = sbytes mem_content s"
  using boom.wb_write_ok [where hash = hash, simplified, OF assms(2,1,3,4)]
    boom.reads_data [where hash = hash and s = s and s' = s', simplified] by blast

lemma wb_write_splices_witness:
  "\<exists>st' s'. wb_write (boom_env (\<lambda>_. False) (\<lambda>_. False) byte_digest) (new_filestate 2) demo_stored [9] 8 = (Inr 1, st', s') \<and>
     wb_view mem_content s' st' = [1, 2, 3, 4, 1, 2, 5, 0, 9]"
proof -
  obtain r st' s' where run: "wb_write (boom_env (\<lambda>_. False) (\<lambda>_. False) byte_digest) (new_filestate 2)
      demo_stored [9] 8 = (r, st', s')" by (metis prod_cases3)
  have "fst (wb_write (mem_env byte_digest) (new_filestate 2) demo_stored [9] 8) = Inr 1" by code_simp
  with run have "r = Inr 1" by (simp add: boom_never)
  moreover have "splice demo_data 8 [9] = [1, 2, 3, 4, 1, 2, 5, 0, 9]" by code_simp
  ultimately show ?thesis
    using wb_write_splices [OF byte_digest_inj demo_state_ok _ run [unfolded \<open>r = Inr 1\<close>]] run
    by (simp add: demo_state_view)
qed

text \<open>C21: A \<open>flush\<close> that fails loses nothing: when \<open>_flush_locked\<close> raises, index, blobs and every
  stored file are as before, the file state still has all its content, is still dirty, and
  can be flushed again.\<close>

theorem flush_failure_keeps:
  assumes "inj hash" "file_ok hash mem_content mem_inv s st" "\<not> fs_closed st"
    and "fs_mat st \<longrightarrow> no_stale (s_cs s) (rows_of s st) st"
    and "flush_locked (boom_env refuse lost hash) st s = (Inl e, st', s')"
  shows "sbytes mem_content s' = sbytes mem_content s \<and> mem_content (s_back s') = mem_content (s_back s) \<and>
    chunks (s_meta s') = chunks (s_meta s) \<and> blob_get (s_meta s') = blob_get (s_meta s) \<and>
    wb_view mem_content s' st' = wb_view mem_content s st \<and> fs_dirty st' = fs_dirty st \<and>
    file_ok hash mem_content mem_inv s' st'"
proof -
  note L = boom.flush_ok [where hash = hash, simplified, OF assms(2,1,3,4,5)]
  from L(5) have u: "unchanged mem_content s s' \<and> fs_dirty st' = fs_dirty st" by simp
  then have "chunks (s_meta s') = chunks (s_meta s)" by (simp add: unchanged_def only_blobs_iff)
  with u unchanged_bytes [of mem_content s s'] L(1,2) show ?thesis by (auto simp: unchanged_def)
qed

theorem flush_failure_keeps_witness:
  "\<exists>st s st' s'. run_ops (mem_env byte_digest) [FWrite [9, 9] 0] (new_filestate 2) demo_stored = (Inr [], st, s) \<and>
     flush_locked (boom_env (\<lambda>_. True) (\<lambda>_. False) byte_digest) st s = (Inl RuntimeError, st', s') \<and>
     sbytes mem_content s' = sbytes mem_content s"
proof -
  let ?w = "run_ops (mem_env byte_digest) [FWrite [9, 9] 0] (new_filestate 2) demo_stored"
  obtain r st s where w: "?w = (r, st, s)" by (metis prod_cases3)
  obtain q st' s' where fl: "flush_locked (boom_env (\<lambda>_. True) (\<lambda>_. False) byte_digest) st s = (q, st', s')"
    by (metis prod_cases3)
  have "fst ?w = Inr []" by code_simp
  with w have r: "r = Inr []" by simp
  have "fst (case ?w of (_, st, s) \<Rightarrow> flush_locked (boom_env (\<lambda>_. True) (\<lambda>_. False) byte_digest) st s) = Inl RuntimeError"
    by code_simp
  with w fl have q: "q = Inl RuntimeError" by simp
  note F = boom.fresh_ok [where hash = byte_digest, simplified, OF demo_stored_ok]
  have safe: "safe_ops Whole [FWrite [9, 9] 0]" by simp
  obtain u where one: "run_op (mem_env byte_digest) (FWrite [9, 9] 0) (new_filestate 2) demo_stored = (Inr u, st, s)"
    using w r by (auto split: prod.splits sum.splits)
  note A = mem.run_op_ok [where hash = byte_digest, simplified, OF F(1) byte_digest_inj F(4) safe F(3) one]
  have "fs_mat st \<longrightarrow> no_stale (s_cs s) (rows_of s st) st"
    using A no_cut_stale by (auto simp: next_cut_def sess_inv_def)
  with flush_failure_keeps [OF byte_digest_inj _ _ _ fl [unfolded q]] A F(4) w r q fl
  show ?thesis by (simp add: same_file_def)
qed

subsection \<open>Where the promise is not kept\<close>


text \<open>A write that raises may leave the state wrong: \<open>_prepare\<close> marks the chunks the write
  covers as loaded before it downloads the one it covers in part. When that download fails,
  nothing is written, but the covered chunk now reads as zeros through the handle although
  every download works again; the stored bytes were \<open>[1, 2, 3, 4, 1, 2, 5]\<close>.\<close>

lemma failed_write_hides_chunk:
  "\<exists>st s. run_ops (boom_env (\<lambda>_. False) (\<lambda>h. h = 1) byte_digest) [FWrite [9, 9, 9] 1] (new_filestate 2) demo_stored =
       (Inl ConnectionError, st, s) \<and>
     sbytes mem_content s 2 = demo_data \<and>
     fst (wb_read (mem_env byte_digest) st s 7 0) = Inr [1, 2, 0, 0, 1, 2, 5]"
proof -
  let ?run = "run_ops (boom_env (\<lambda>_. False) (\<lambda>h. h = 1) byte_digest) [FWrite [9, 9, 9] 1] (new_filestate 2) demo_stored"
  have "fst ?run = Inl ConnectionError" "sbytes mem_content (snd (snd ?run)) 2 = demo_data"
    "fst (case ?run of (_, st, s) \<Rightarrow> wb_read (mem_env byte_digest) st s 7 0) = Inr [1, 2, 0, 0, 1, 2, 5]"
    by code_simp+
  then show ?thesis by (cases ?run) auto
qed

text \<open>\<open>stored_as\<close> asks for chunks no longer than the chunk size, and \<open>_materialize\<close> needs it: its
  test for files stored with another chunk size lets a file of a single longer chunk pass.
  Seven bytes stored with chunk size 8 and opened with chunk size 4 lose the first six when
  the last is overwritten.\<close>

theorem long_chunk_zeroed:
  "\<exists>st s. run_ops (mem_env byte_digest) [FWrite [9] 6, FFlush] (new_filestate 2)
       ((snd (snd (put_file (mem_env byte_digest) (demo_disk\<lparr>s_cs := 8\<rparr>) 2 demo_file 7 None)))\<lparr>s_cs := 4\<rparr>) =
       (Inr [], st, s) \<and>
     sbytes mem_content s 2 = [0, 0, 0, 0, 0, 0, 9]"
proof -
  let ?run = "run_ops (mem_env byte_digest) [FWrite [9] 6, FFlush] (new_filestate 2)
       ((snd (snd (put_file (mem_env byte_digest) (demo_disk\<lparr>s_cs := 8\<rparr>) 2 demo_file 7 None)))\<lparr>s_cs := 4\<rparr>)"
  have "fst ?run = Inr []" "sbytes mem_content (snd (snd ?run)) 2 = [0, 0, 0, 0, 0, 0, 9]" by code_simp+
  then show ?thesis by (metis prod.collapse)
qed

end
