(* ===== verification/ManagerProps.thy ===== *)
theory ManagerProps
  imports WritebackSteps WritebackProps
begin

section \<open>Properties of the writeback manager: all files\<close>

text \<open>
  What the manager promises for every file at once, over the in-memory backend, and the runs
  in which written data is lost. \<open>demo_wb\<close> is a manager over \<open>demo_stored\<close>.
\<close>

definition demo_wb :: "time \<Rightarrow> membackend wb" where
  "demo_wb delay = new_wb demo_stored delay"

lemma demo_wb_ok: "mgr_ok byte_digest mem_content mem_inv (demo_wb delay)"
  unfolding demo_wb_def by (rule new_wb_ok [OF demo_stored_ok(1)])

lemma demo_wb_view: "mgr_view mem_content (demo_wb delay) 2 = demo_data"
  using demo_stored_ok(2) by (simp add: demo_wb_def stored_as_def)

lemma demo_wb_states [simp]: "w_states (demo_wb delay) = []" "w_store (demo_wb delay) = demo_stored"
  by (simp_all add: demo_wb_def new_wb_def)

text \<open>The file opened for writing, and its first byte overwritten: \<open>[9, 2, 3, 4, 1, 2, 5]\<close>, not stored yet.\<close>

definition demo_open :: "time \<Rightarrow> membackend wb" where
  "demo_open delay = snd (wb_open (mem_env byte_digest) (demo_wb delay) 2 True)"

definition demo_dirty :: "time \<Rightarrow> membackend wb" where
  "demo_dirty delay = snd (on_state (demo_open delay) 0 (\<lambda>st s. wb_write (mem_env byte_digest) st s [9] 0))"

lemma demo_dirty_ok:
  assumes "delay = 0 \<or> delay = 5"
  shows "mgr_ok byte_digest mem_content mem_inv (demo_dirty delay)" "map_of (w_states (demo_dirty delay)) 2 = Some 0"
    "mgr_view mem_content (demo_dirty delay) 2 = [9, 2, 3, 4, 1, 2, 5]" "w_delay (demo_dirty delay) = delay"
proof -
  have r1: "fst (wb_open (mem_env byte_digest) (demo_wb delay) 2 True) = Inr 0"
    using assms by (elim disjE; simp; code_simp)
  then have op: "wb_open (mem_env byte_digest) (demo_wb delay) 2 True = (Inr 0, demo_open delay)"
    by (metis demo_open_def prod.collapse)
  have known: "map_of (w_states (demo_wb delay)) 2 = None \<longrightarrow> (\<exists>X. stored_as mem_content (w_store (demo_wb delay)) 2 X)"
    using demo_stored_ok(2) by auto
  note O = mem.wb_open_ok [where hash = byte_digest, simplified, OF demo_wb_ok byte_digest_inj known op]
  have a: "map_of (w_states (demo_open delay)) 2 = Some 0" using O(4) by simp
  have heap: "(case w_heap (demo_open delay) 0 of None \<Rightarrow> False
      | Some st \<Rightarrow> no_cut (rows_of (w_store (demo_open delay)) st) st)"
    using assms by (elim disjE; simp; code_simp)
  then obtain st where st: "w_heap (demo_open delay) 0 = Some st" "no_cut (rows_of (w_store (demo_open delay)) st) st"
    by (auto split: option.splits)
  have "fst (on_state (demo_open delay) 0 (\<lambda>st s. wb_write (mem_env byte_digest) st s [9] 0)) = Inr 1"
    using assms by (elim disjE; simp; code_simp)
  then have wr: "on_state (demo_open delay) 0 (\<lambda>st s. wb_write (mem_env byte_digest) st s [9] 0) = (Inr 1, demo_dirty delay)"
    by (metis demo_dirty_def prod.collapse)
  note W = mem.mgr_write_ok [where hash = byte_digest, simplified, OF O(1) byte_digest_inj a st _ wr, simplified]
  show "mgr_ok byte_digest mem_content mem_inv (demo_dirty delay)" "map_of (w_states (demo_dirty delay)) 2 = Some 0"
    using W(1,4) a by simp_all
  have "mgr_view mem_content (demo_open delay) 2 = demo_data" using O(2) demo_wb_view by simp
  moreover have "splice demo_data 0 [9] = [9, 2, 3, 4, 1, 2, 5]" by code_simp
  ultimately show "mgr_view mem_content (demo_dirty delay) 2 = [9, 2, 3, 4, 1, 2, 5]" using W(2) by simp
  show "w_delay (demo_dirty delay) = delay" using assms by (elim disjE; simp; code_simp)
qed

text \<open>\<open>open\<close> gives every handle of a file the same state: the one in the dict, or a new one. It
  counts the handle, loads nothing into what a user sees (every file of the manager has the
  content it had), and keeps the manager's invariant.\<close>

lemma open_shares_state:
  assumes "inj hash" "mgr_ok hash mem_content mem_inv w"
    and "map_of (w_states w) i = None \<longrightarrow> (\<exists>X. stored_as mem_content (w_store w) i X)"
    and "wb_open (boom_env refuse lost hash) w i fw = (Inr a, w')"
  shows "a = (case map_of (w_states w) i of Some b \<Rightarrow> b | None \<Rightarrow> w_next w) \<and>
    map_of (w_states w') i = Some a \<and> mgr_view mem_content w' = mgr_view mem_content w \<and>
    mgr_ok hash mem_content mem_inv w' \<and>
    (\<exists>st. w_heap w' a = Some st \<and> (fw \<longrightarrow> fs_mat st) \<and>
       fs_refcount st = (case map_of (w_states w) i of None \<Rightarrow> 0 | Some a0 \<Rightarrow>
             (case w_heap w a0 of None \<Rightarrow> 0 | Some st0 \<Rightarrow> fs_refcount st0)) + 1)"
  using boom.wb_open_ok [where hash = hash, simplified, OF assms(2,1,3,4)] by blast

lemma open_shares_state_witness:
  "\<exists>w'. wb_open (boom_env (\<lambda>_. False) (\<lambda>_. False) byte_digest) (demo_wb 0) 2 False = (Inr 0, w') \<and>
     mgr_view mem_content w' 2 = demo_data"
proof -
  have "stored_as mem_content demo_stored 2 demo_data" by (rule demo_stored_ok)
  then have known: "map_of (w_states (demo_wb 0)) 2 = None \<longrightarrow> (\<exists>X. stored_as mem_content (w_store (demo_wb 0)) 2 X)"
    by auto
  obtain w' where op: "wb_open (boom_env (\<lambda>_. False) (\<lambda>_. False) byte_digest) (demo_wb 0) 2 False = (Inr 0, w')"
    by (simp add: wb_open_def Let_def) (simp add: demo_wb_def new_wb_def)
  from open_shares_state [OF byte_digest_inj demo_wb_ok known op] demo_wb_view [of 0] op show ?thesis by auto
qed



text \<open>A release that fails to flush loses the written data for good: \<open>release\<close> has taken the
  state out of the dict before it flushes, so when the upload raises, the store still has
  the old bytes and no later call, not even the final flush at unmount, finds the state.\<close>

lemma failed_release_drops_data:
  assumes "inj hash" "mgr_ok hash mem_content mem_inv w" "map_of (w_states w) i = Some a"
    and "wb_release (boom_env refuse lost hash) w a = (Inl e, w')"
  shows "map_of (w_states w') i = None \<and> sbytes mem_content (w_store w') = sbytes mem_content (w_store w) \<and>
    mgr_view mem_content w' i = sbytes mem_content (w_store w) i"
proof -
  obtain st where st: "w_heap w a = Some st" using mgr_okD(4) [OF assms(2,3)] by blast
  note R = boom.wb_release_ok [where hash = hash, simplified, OF assms(2,1,3) st assms(4)]
  from R(3) show ?thesis by (simp add: mgr_view_def)
qed

lemma failed_release_drops_data_witness:
  "\<exists>w'. wb_release (boom_env (\<lambda>_. True) (\<lambda>_. False) byte_digest) (demo_dirty 0) 0 = (Inl RuntimeError, w') \<and>
     mgr_view mem_content (demo_dirty 0) 2 = [9, 2, 3, 4, 1, 2, 5] \<and> mgr_view mem_content w' 2 = demo_data"
proof -
  let ?rel = "wb_release (boom_env (\<lambda>_. True) (\<lambda>_. False) byte_digest) (demo_dirty 0) 0"
  have "fst ?rel = Inl RuntimeError" by code_simp
  then obtain w' where rel: "?rel = (Inl RuntimeError, w')" by (metis prod.collapse)
  have "sbytes mem_content (w_store (demo_dirty 0)) 2 = demo_data" by code_simp
  with failed_release_drops_data [OF byte_digest_inj demo_dirty_ok(1,2) rel] rel demo_dirty_ok(3)
  show ?thesis by auto
qed





text \<open>C23: Over a backend that answers, \<open>shutdown\<close> returns.\<close>

theorem shutdown_completes:
  assumes "inj hash" "mgr_ok hash mem_content mem_inv w"
  shows "fst (shutdown (mem_env hash) w) = Inr ()"
  by (rule mem.shutdown_returns [where hash = hash, simplified, OF assms(2,1)])

theorem shutdown_completes_witness:
  "fst (shutdown (mem_env byte_digest) (demo_wb 5)) = Inr ()"
  by (rule shutdown_completes [OF byte_digest_inj demo_wb_ok])

text \<open>An unmount gives up at the first file it cannot store: \<open>shutdown\<close> re-raises, and the files
  after it stay unflushed although their uploads would succeed. Here a second file was
  written too; the upload of the first one's chunk is refused.\<close>

theorem shutdown_stops_at_failure:
  "\<exists>w w'. wb_open (mem_env byte_digest) (demo_dirty 5) 1 True = (Inr 1, w) \<and>
     (case on_state w 1 (\<lambda>st s. wb_write (mem_env byte_digest) st s [7] 0) of (r, w1) \<Rightarrow>
        r = Inr 1 \<and> shutdown (boom_env (\<lambda>d. d = [9, 2]) (\<lambda>_. False) byte_digest) w1 = (Inl RuntimeError, w') \<and>
        mgr_view mem_content w1 1 = [7] \<and> sbytes mem_content (w_store w') 1 = [] \<and>
        map_of (w_states w') 1 = Some 1)"
proof -
  let ?op = "wb_open (mem_env byte_digest) (demo_dirty 5) 1 True"
  let ?wr = "on_state (snd ?op) 1 (\<lambda>st s. wb_write (mem_env byte_digest) st s [7] 0)"
  let ?sd = "shutdown (boom_env (\<lambda>d. d = [9, 2]) (\<lambda>_. False) byte_digest) (snd ?wr)"
  have "fst ?op = Inr 1" "fst ?wr = Inr 1" "fst ?sd = Inl RuntimeError" "mgr_view mem_content (snd ?wr) 1 = [7]"
    "sbytes mem_content (w_store (snd ?sd)) 1 = []" "map_of (w_states (snd ?sd)) 1 = Some 1" by code_simp+
  then show ?thesis
    by (intro exI [of _ "snd ?op"] exI [of _ "snd ?sd"]) (auto simp: prod_eq_iff split: prod.splits)
qed

subsection \<open>Interleavings\<close>

text \<open>C26: In every interleaving of calls and reaper steps, failing ones included, the dict is sound:
  an inode has at most one state and a state one inode, it is the state of that inode, and
  its temporary file is open.\<close>

theorem reachable_table_sound:
  assumes "wb_reach E (new_wb s delay, Resting) (w, p)" "(i, a) \<in> set (w_states w)"
  shows "\<exists>st. w_heap w a = Some st \<and> fs_ino st = i \<and> \<not> fs_closed st \<and>
    (\<forall>j b. (j, b) \<in> set (w_states w) \<longrightarrow> (j = i \<longleftrightarrow> b = a))"
proof -
  have "table_ok (new_wb s delay)" by (simp add: table_ok_def new_wb_def)
  with wb_reach_table [OF assms(1)] have ok: "table_ok w" by simp
  obtain st where "w_heap w a = Some st" "fs_ino st = i" "\<not> fs_closed st"
    using table_okD(3) [OF ok assms(2)] by blast
  moreover have "j = i \<longleftrightarrow> b = a" if "(j, b) \<in> set (w_states w)" for j b
    using table_addr [OF ok, of j a i] table_okD(1) [OF ok] assms(2) that
    by (auto simp: distinct_map dest: inj_onD [where x = "(i, a)" and y = "(j, b)"])
  ultimately show ?thesis by blast
qed

text \<open>The run of the race: the reaper has flushed the file and is about to drop it.\<close>

definition race_start :: "membackend wb" where
  "race_start = snd (reap_flush (mem_env byte_digest)
     ((snd (wb_release (mem_env byte_digest) (demo_dirty 5) 0))\<lparr>w_now := 10\<rparr>) 0)"

lemma race_start_reach: "wb_reach (mem_env byte_digest) (demo_wb 5, Resting) (race_start, Flushed 0 [])"
proof -
  let ?E = "mem_env byte_digest" and ?w = "snd (wb_release (mem_env byte_digest) (demo_dirty 5) 0)"
  have s1: "wb_step ?E (demo_wb 5, Resting) (demo_open 5, Resting)"
    unfolding demo_open_def by (rule wb_step.Open) (rule prod.collapse [symmetric])
  have s2: "wb_step ?E (demo_open 5, Resting) (demo_dirty 5, Resting)"
    unfolding demo_dirty_def by (rule wb_step.Write) (rule prod.collapse [symmetric])
  have s3: "wb_step ?E (demo_dirty 5, Resting) (?w, Resting)"
    by (rule wb_step.Release) (rule prod.collapse [symmetric])
  have "w_now ?w = 0" by code_simp
  then have s4: "wb_step ?E (?w, Resting) (?w\<lparr>w_now := 10\<rparr>, Resting)" using wb_step.Tick [of ?E ?w Resting 10] by simp
  have "reap_candidates (?w\<lparr>w_now := 10\<rparr>) False = [0]" by code_simp
  then have s5: "wb_step ?E (?w\<lparr>w_now := 10\<rparr>, Resting) (?w\<lparr>w_now := 10\<rparr>, Scanning [0])"
    using wb_step.Scan [of ?E "?w\<lparr>w_now := 10\<rparr>"] by simp
  have "fst (reap_flush ?E (?w\<lparr>w_now := 10\<rparr>) 0) = Inr ()" by code_simp
  then have s6: "wb_step ?E (?w\<lparr>w_now := 10\<rparr>, Scanning [0]) (race_start, Flushed 0 [])"
    unfolding race_start_def by (intro wb_step.FlushOne) (metis prod.collapse)
  show ?thesis
    by (rule wb_reach.Step [OF wb_reach.Step [OF wb_reach.Step [OF wb_reach.Step [OF wb_reach.Step [OF
        wb_reach.Step [OF wb_reach.Start s1] s2] s3] s4] s5] s6])
qed

theorem reachable_table_sound_witness:
  "\<exists>st. w_heap race_start 0 = Some st \<and> fs_ino st = 2 \<and> \<not> fs_closed st"
proof -
  have "(2, 0) \<in> set (w_states race_start)" by code_simp
  from reachable_table_sound [OF race_start_reach [unfolded demo_wb_def] this] show ?thesis by blast
qed

text \<open>The reaper can throw away an acknowledged write. It flushes a file, lets go of the locks,
  and then drops the state if no handle is open, without looking at \<open>dirty\<close> again: a file
  opened, written and closed in between is closed with its data.\<close>

lemma reaper_drops_write:
  "wb_reach (mem_env byte_digest) (demo_wb 5, Resting) (race_start, Flushed 0 []) \<and>
   (\<exists>w1 w2 w3. wb_open (mem_env byte_digest) race_start 2 True = (Inr 0, w1) \<and>
      on_state w1 0 (\<lambda>st s. wb_write (mem_env byte_digest) st s [8] 0) = (Inr 1, w2) \<and>
      wb_release (mem_env byte_digest) w2 0 = (Inr (), w3) \<and>
      mgr_view mem_content w3 2 = [8, 2, 3, 4, 1, 2, 5] \<and>
      wb_step (mem_env byte_digest) (w3, Flushed 0 []) (reap_remove w3 0, Scanning []) \<and>
      w_states (reap_remove w3 0) = [] \<and>
      mgr_view mem_content (reap_remove w3 0) 2 = [9, 2, 3, 4, 1, 2, 5])"
proof -
  let ?op = "wb_open (mem_env byte_digest) race_start 2 True"
  let ?wr = "on_state (snd ?op) 0 (\<lambda>st s. wb_write (mem_env byte_digest) st s [8] 0)"
  let ?re = "wb_release (mem_env byte_digest) (snd ?wr) 0"
  have "fst ?op = Inr 0" "fst ?wr = Inr 1" "fst ?re = Inr ()" "mgr_view mem_content (snd ?re) 2 = [8, 2, 3, 4, 1, 2, 5]"
    "w_states (reap_remove (snd ?re) 0) = []"
    "mgr_view mem_content (reap_remove (snd ?re) 0) 2 = [9, 2, 3, 4, 1, 2, 5]" by code_simp+
  with race_start_reach wb_step.Remove show ?thesis
    by (intro conjI exI [of _ "snd ?op"] exI [of _ "snd ?wr"] exI [of _ "snd ?re"]) (simp_all add: prod_eq_iff)
qed

end
