(* ===== verification/FsProps.thy ===== *)
theory FsProps
  imports FsData ManagerProps
begin

section \<open>Properties of the filesystem core\<close>

text \<open>
  What the kernel sees, over the in-memory backend. \<open>demo_core\<close> is a freshly mounted
  filesystem whose root holds one file, inode 2 with seven bytes, and \<open>demo_handle\<close> the same
  after an \<open>open\<close> of it for reading and writing, which returned handle 1.
\<close>

definition demo_core :: "time \<Rightarrow> membackend fs" where
  "demo_core delay = new_core (demo_wb delay)"

definition demo_handle :: "time \<Rightarrow> membackend fs" where
  "demo_handle delay = snd (core_open (mem_env byte_digest) (demo_core delay) 2 O_RDWR)"

lemma demo_stored_wf: "meta_wf (s_meta demo_stored)"
proof -
  obtain r src' where put: "put_file (mem_env byte_digest) demo_disk 2 demo_file 7 None = (r, src', demo_stored)"
    by (metis demo_stored_def prod.collapse)
  have "sql_select (dirents (new_meta 0 1000 1000)) (1, ''f'') = None"
    "get_inode (new_meta 0 1000 1000) 1 \<noteq> None" by code_simp+
  from create_wf [OF new_meta_wf this] have "meta_wf demo_fs" by (metis demo_fs_def prod.collapse)
  then have "meta_wf (s_meta demo_disk)" by (simp add: demo_disk_def new_store_def)
  from same_tree_wf [OF put_file_tree [OF put] this] show ?thesis .
qed

lemma demo_core_inv: "core_inv (demo_core delay)"
  unfolding demo_core_def demo_wb_def by (rule new_core_inv [OF demo_stored_wf])

lemma demo_handle_ok:
  assumes "delay = 0 \<or> delay = 5"
  shows "core_reach (mem_env byte_digest) (demo_core delay, Resting) (demo_handle delay, Resting)"
    "core_inv (demo_handle delay)" "mgr_ok byte_digest mem_content mem_inv (fc_wb (demo_handle delay))"
    "map_of (fc_fh (demo_handle delay)) 1 = Some 0" "map_of (w_states (fc_wb (demo_handle delay))) 2 = Some 0"
    "mgr_view mem_content (fc_wb (demo_handle delay)) 2 = demo_data"
    "\<exists>st. w_heap (fc_wb (demo_handle delay)) 0 = Some st \<and> no_cut (rows_of (fc_store (demo_handle delay)) st) st"
    "fc_wb (demo_handle delay) = demo_open delay"
proof -
  let ?E = "mem_env byte_digest"
  have fst: "fst (core_open ?E (demo_core delay) 2 O_RDWR) = Inr 1"
    using assms by (elim disjE; simp; code_simp)
  then have op: "core_open ?E (demo_core delay) 2 O_RDWR = (Inr 1, demo_handle delay)"
    by (metis demo_handle_def prod.collapse)
  show "core_reach ?E (demo_core delay, Resting) (demo_handle delay, Resting)"
    by (rule core_reach.Step [OF core_reach.Start core_step.Open [OF op]])
  then show "core_inv (demo_handle delay)" using core_reach_inv demo_core_inv by force
  have r1: "wb_open ?E (demo_wb delay) 2 True = (Inr 0, demo_open delay)"
  proof -
    have "fst (wb_open ?E (demo_wb delay) 2 True) = Inr 0" using assms by (elim disjE; simp; code_simp)
    then show ?thesis by (metis demo_open_def prod.collapse)
  qed
  show wb: "fc_wb (demo_handle delay) = demo_open delay"
  proof -
    have n: "\<not> (O_RDWR AND O_TRUNC \<noteq> 0)" "wants_write O_RDWR" by code_simp+
    have "(case get_inode (fc_meta (demo_core delay)) 2 of None \<Rightarrow> False | Some n \<Rightarrow> \<not> is_dir n)"
      using assms by (elim disjE; simp; code_simp)
    then obtain n2 where "get_inode (fc_meta (demo_core delay)) 2 = Some n2" "\<not> is_dir n2"
      by (auto split: option.splits)
    with n r1 show ?thesis
      by (simp add: demo_handle_def core_open_def on_wb_def new_fh_def demo_core_def new_core_def)
  qed
  show "map_of (fc_fh (demo_handle delay)) 1 = Some 0"
    "\<exists>st. w_heap (fc_wb (demo_handle delay)) 0 = Some st \<and> no_cut (rows_of (fc_store (demo_handle delay)) st) st"
  proof -
    show "map_of (fc_fh (demo_handle delay)) 1 = Some 0" using assms by (elim disjE; simp; code_simp)
    have "(case w_heap (demo_open delay) 0 of None \<Rightarrow> False
        | Some st \<Rightarrow> no_cut (rows_of (w_store (demo_open delay)) st) st)"
      using assms by (elim disjE; simp; code_simp)
    then show "\<exists>st. w_heap (fc_wb (demo_handle delay)) 0 = Some st \<and> no_cut (rows_of (fc_store (demo_handle delay)) st) st"
      unfolding wb by (auto split: option.splits)
  qed
  have known: "map_of (w_states (demo_wb delay)) 2 = None \<longrightarrow> (\<exists>X. stored_as mem_content (w_store (demo_wb delay)) 2 X)"
    using demo_stored_ok(2) by auto
  note O = mem.wb_open_ok [where hash = byte_digest, simplified, OF demo_wb_ok byte_digest_inj known r1]
  show "mgr_ok byte_digest mem_content mem_inv (fc_wb (demo_handle delay))"
    "map_of (w_states (fc_wb (demo_handle delay))) 2 = Some 0"
    "mgr_view mem_content (fc_wb (demo_handle delay)) 2 = demo_data"
    unfolding wb using O(1,2,4) demo_wb_view by simp_all
qed

subsection \<open>Any sequence of requests\<close>

text \<open>C28: Whatever sequence of requests the kernel sends, whichever of them fail and however the
  reaper runs between them, the index stays well formed; every open handle has a file state
  with its temporary file open, the one in the dict for its inode, so two handles of a file
  share one state and the reaper never closes a file in use; and the files waiting for their
  last close are gone from the index.\<close>

theorem requests_keep_invariant:
  assumes "meta_wf (s_meta s)" "core_reach E (new_core (new_wb s delay), Resting) (f, p)"
  shows "meta_wf (fc_meta f) \<and>
    (\<forall>fh a. map_of (fc_fh f) fh = Some a \<longrightarrow>
       (\<exists>st. w_heap (fc_wb f) a = Some st \<and> \<not> fs_closed st \<and>
          map_of (w_states (fc_wb f)) (fs_ino st) = Some a)) \<and>
    (\<forall>i \<in> fc_pending f. get_inode (fc_meta f) i = None)"
proof -
  have inv: "core_inv f" using core_reach_inv [OF assms(2)] new_core_inv [OF assms(1)] by simp
  have "\<exists>st. w_heap (fc_wb f) a = Some st \<and> \<not> fs_closed st \<and> map_of (w_states (fc_wb f)) (fs_ino st) = Some a"
    if "map_of (fc_fh f) fh = Some a" for fh a
  proof -
    have "a \<in># handles f" using map_of_SomeD [OF that] by (force simp: handles_def)
    with held_table [OF core_invD(3,2) [OF inv]] table_okD(1) [OF core_invD(2) [OF inv]] show ?thesis
      by (metis map_of_is_SomeI)
  qed
  with core_invD(1,6) [OF inv] show ?thesis by blast
qed

theorem requests_keep_invariant_witness:
  "\<exists>st. w_heap (fc_wb (demo_handle 5)) 0 = Some st \<and> \<not> fs_closed st"
  using requests_keep_invariant [OF demo_stored_wf
      demo_handle_ok(1) [of 5, simplified, unfolded demo_core_def demo_wb_def]] demo_handle_ok(4) [of 5]
  by blast

text \<open>C29: A write through a handle is seen by every handle of the file, at once and before any
  flush: the next read, of any range through any handle of the same state, returns exactly
  that range of the old content with the written bytes spliced in. No other file changes.\<close>

theorem write_then_read:
  assumes "inj hash" "mgr_ok hash mem_content mem_inv (fc_wb f)"
    and "map_of (fc_fh f) fh = Some a" "map_of (fc_fh f) fh2 = Some a"
    and "map_of (w_states (fc_wb f)) i = Some a" "w_heap (fc_wb f) a = Some st"
    and "no_cut (rows_of (fc_store f) st) st" "d \<noteq> []"
    and "core_write (boom_env refuse lost hash) f fh off d = (Inr k, f1)"
    and "core_read (boom_env refuse lost hash) f1 fh2 p n = (Inr x, f2)"
  shows "x = slice (splice (mgr_view mem_content (fc_wb f) i) off d) p (p + n) \<and>
    mgr_view mem_content (fc_wb f2) =
      (mgr_view mem_content (fc_wb f))(i := splice (mgr_view mem_content (fc_wb f) i) off d) \<and>
    mgr_ok hash mem_content mem_inv (fc_wb f2)"
proof -
  note W = boom.core_write_ok [where hash = hash, simplified, OF assms(2,1,3,5-9)]
  have "map_of (fc_fh f1) fh2 = Some a" "map_of (w_states (fc_wb f1)) i = Some a"
    using W(3,4) assms(4,5) by simp_all
  note R = boom.core_read_ok [where hash = hash, simplified, OF W(1) assms(1) this assms(10)]
  from R(1,2,3) W(2) show ?thesis by simp
qed

theorem write_then_read_witness:
  "\<exists>f1 f2. core_write (boom_env (\<lambda>_. False) (\<lambda>_. False) byte_digest) (demo_handle 5) 1 8 [9] = (Inr 1, f1) \<and>
     core_read (boom_env (\<lambda>_. False) (\<lambda>_. False) byte_digest) f1 1 5 10 = (Inr [2, 5, 0, 9], f2)"
proof -
  let ?E = "boom_env (\<lambda>_. False) (\<lambda>_. False) byte_digest"
  obtain st where st: "w_heap (fc_wb (demo_handle 5)) 0 = Some st"
    "no_cut (rows_of (fc_store (demo_handle 5)) st) st" using demo_handle_ok(7) [of 5] by auto
  let ?wr = "core_write (mem_env byte_digest) (demo_handle 5) 1 8 [9]"
  have "fst ?wr = Inr 1" "fst (core_read (mem_env byte_digest) (snd ?wr) 1 5 10) = Inr [2, 5, 0, 9]"
    by code_simp+
  then obtain f1 f2 x where run: "core_write ?E (demo_handle 5) 1 8 [9] = (Inr 1, f1)"
    "core_read ?E f1 1 5 10 = (Inr x, f2)" by (metis boom_never prod.collapse)
  have "slice (splice demo_data 8 [9]) 5 (5 + 10) = [2, 5, 0, 9]" by code_simp
  with write_then_read [OF byte_digest_inj demo_handle_ok(3) demo_handle_ok(4) demo_handle_ok(4)
      demo_handle_ok(5) st _ run] run demo_handle_ok(6) [of 5]
  show ?thesis by auto
qed

subsection \<open>Removing files\<close>


lemma demo_unlink_pre:
  "lookup (fc_meta (demo_handle 0)) 1 ''f'' =
     Some (the (lookup (fc_meta (demo_handle 0)) 1 ''f''))"
  "\<not> is_dir (the (lookup (fc_meta (demo_handle 0)) 1 ''f''))"
  "i_nlink (the (lookup (fc_meta (demo_handle 0)) 1 ''f'')) = 1"
  "i_id (the (lookup (fc_meta (demo_handle 0)) 1 ''f'')) = 2"
  "is_open (demo_handle 0) 2"
  by code_simp+


text \<open>C31: When the last handle of an unlinked file is closed and \<open>release\<close> returns, the file is freed:
  it has no chunks, no file state and no content any more, and it is not waiting any longer.
  While another handle is open nothing is freed. No other file changes.\<close>

theorem last_close_frees:
  assumes "inj hash" "core_inv f" "mgr_ok hash mem_content mem_inv (fc_wb f)"
    and "map_of (fc_fh f) fh = Some a" "map_of (w_states (fc_wb f)) i = Some a" "i \<in> fc_pending f"
    and "core_release (boom_env refuse lost hash) f fh = (Inr (), f')"
  shows "map_of (fc_fh f') fh = None \<and>
    (if \<exists>k. k \<noteq> fh \<and> map_of (fc_fh f) k = Some a
     then mgr_view mem_content (fc_wb f') = mgr_view mem_content (fc_wb f) \<and> i \<in> fc_pending f'
     else mgr_view mem_content (fc_wb f') = (mgr_view mem_content (fc_wb f))(i := []) \<and>
       get_chunks (fc_meta f') i = [] \<and> map_of (w_states (fc_wb f')) i = None \<and> i \<notin> fc_pending f')"
proof -
  note R = boom.core_release_ok [where hash = hash, simplified, OF assms(2,3,1,4,5,7)]
  have "map_of (fc_fh f') fh = None" using R(2) by (simp add: map_of_dict_pop)
  with R(3,4) assms(6) show ?thesis by auto
qed

definition demo_unlinked :: "membackend fs" where
  "demo_unlinked = snd (core_unlink (mem_env byte_digest) (demo_handle 0) 1 ''f'')"

lemma demo_unlinked_ok:
  "core_inv demo_unlinked" "mgr_ok byte_digest mem_content mem_inv (fc_wb demo_unlinked)"
  "map_of (fc_fh demo_unlinked) 1 = Some 0" "map_of (w_states (fc_wb demo_unlinked)) 2 = Some 0"
  "2 \<in> fc_pending demo_unlinked" "fc_fh demo_unlinked = [(1, 0)]"
proof -
  obtain r where un: "core_unlink (mem_env byte_digest) (demo_handle 0) 1 ''f'' = (r, demo_unlinked)"
    by (metis demo_unlinked_def prod.collapse)
  show "core_inv demo_unlinked" by (rule inv_unlink [OF demo_handle_ok(2) un]) simp
  have "is_open (demo_handle 0) (i_id (the (lookup (fc_meta (demo_handle 0)) 1 ''f'')))"
    using demo_unlink_pre(4,5) by simp
  with mem.core_unlink_ok [where hash = byte_digest, simplified, OF demo_handle_ok(2,3) byte_digest_inj
      demo_unlink_pre(1-3) un]
  show "mgr_ok byte_digest mem_content mem_inv (fc_wb demo_unlinked)"
    "map_of (fc_fh demo_unlinked) 1 = Some 0" "map_of (w_states (fc_wb demo_unlinked)) 2 = Some 0"
    "2 \<in> fc_pending demo_unlinked"
    using demo_handle_ok(4,5) [of 0] demo_unlink_pre(4) by simp_all
  show "fc_fh demo_unlinked = [(1, 0)]" by code_simp
qed

theorem last_close_frees_witness:
  "\<exists>f'. core_release (boom_env (\<lambda>_. False) (\<lambda>_. False) byte_digest) demo_unlinked 1 = (Inr (), f') \<and>
     mgr_view mem_content (fc_wb f') 2 = [] \<and> get_chunks (fc_meta f') 2 = []"
proof -
  have "fst (core_release (mem_env byte_digest) demo_unlinked 1) = Inr ()" by code_simp
  then obtain f' where rl: "core_release (boom_env (\<lambda>_. False) (\<lambda>_. False) byte_digest) demo_unlinked 1 = (Inr (), f')"
    by (metis boom_never prod.collapse)
  have only: "\<not> (\<exists>k. k \<noteq> 1 \<and> map_of (fc_fh demo_unlinked) k = Some 0)" by (simp add: demo_unlinked_ok(6))
  from last_close_frees [OF byte_digest_inj demo_unlinked_ok(1-5) rl, unfolded if_not_P [OF only]] rl
  show ?thesis by simp
qed

text \<open>A last close that fails leaks the unlinked file: \<open>release\<close> forgets the handle first and frees
  only after the flush, so when the upload of unflushed bytes is refused (bytes nobody can
  read any more), the chunks stay stored for an inode that no longer exists, and no later
  request frees them.\<close>

lemma failed_close_leaks_file:
  "\<exists>f1 f2 f3. core_write (mem_env byte_digest) (demo_handle 0) 1 0 [9] = (Inr 1, f1) \<and>
     core_unlink (mem_env byte_digest) f1 1 ''f'' = (Inr (), f2) \<and>
     core_release (boom_env (\<lambda>_. True) (\<lambda>_. False) byte_digest) f2 1 = (Inl RuntimeError, f3) \<and>
     fc_fh f3 = [] \<and> w_states (fc_wb f3) = [] \<and> get_inode (fc_meta f3) 2 = None \<and>
     length (get_chunks (fc_meta f3) 2) = 4 \<and> 2 \<in> fc_pending f3 \<and>
     core_release (mem_env byte_digest) f3 1 = (Inr (), f3)"
proof -
  let ?f1 = "core_write (mem_env byte_digest) (demo_handle 0) 1 0 [9]"
  let ?f2 = "core_unlink (mem_env byte_digest) (snd ?f1) 1 ''f''"
  let ?f3 = "core_release (boom_env (\<lambda>_. True) (\<lambda>_. False) byte_digest) (snd ?f2) 1"
  have "fst ?f1 = Inr 1" "fst ?f2 = Inr ()" "fst ?f3 = Inl RuntimeError" "fc_fh (snd ?f3) = []"
    "w_states (fc_wb (snd ?f3)) = []" "map_option i_id (get_inode (fc_meta (snd ?f3)) 2) = None"
    "length (get_chunks (fc_meta (snd ?f3)) 2) = 4" "2 \<in> fc_pending (snd ?f3)" by code_simp+
  moreover from this have "core_release (mem_env byte_digest) (snd ?f3) 1 = (Inr (), snd ?f3)"
    by (simp add: core_release_def)
  ultimately show ?thesis
    by (intro exI [of _ "snd ?f1"] exI [of _ "snd ?f2"] exI [of _ "snd ?f3"]) (simp add: prod_eq_iff)
qed

subsection \<open>Attributes\<close>

text \<open>\<open>setattr\<close> ignores a truncation to the size that is stored: it compares the new size with the
  one in the index, not with the size unflushed writes have given the file. Here a file of
  seven stored bytes has grown to nine; \<open>ftruncate\<close> to seven reports success and leaves nine.\<close>

lemma setattr_ignores_unflushed_size:
  "\<exists>f1 f2 n. core_write (mem_env byte_digest) (demo_handle 5) 1 7 [9, 9] = (Inr 2, f1) \<and>
     core_setattr (mem_env byte_digest) f1 2 None None None (Some 7) None None = (Inr n, f2) \<and>
     i_size n = 9 \<and> mgr_view mem_content (fc_wb f2) 2 = demo_data @ [9, 9]"
proof -
  let ?f1 = "core_write (mem_env byte_digest) (demo_handle 5) 1 7 [9, 9]"
  let ?f2 = "core_setattr (mem_env byte_digest) (snd ?f1) 2 None None None (Some 7) None None"
  have "fst ?f1 = Inr 2" "mgr_view mem_content (fc_wb (snd ?f2)) 2 = demo_data @ [9, 9]"
    "(case fst ?f2 of Inl e \<Rightarrow> False | Inr n \<Rightarrow> i_size n = 9)" by code_simp+
  moreover from this(3) obtain n where "fst ?f2 = Inr n" "i_size n = 9" by (auto split: sum.splits)
  ultimately show ?thesis
    by (intro exI [of _ "snd ?f1"] exI [of _ "snd ?f2"] exI [of _ n]) (simp add: prod_eq_iff)
qed

subsection \<open>Errors\<close>




end
