(* ===== verification/MountProps.thy ===== *)
theory MountProps
  imports Mount FsProps
begin

section \<open>Properties of the adapter\<close>

text \<open>
  How the kernel lists a directory: it calls \<open>readdir\<close> with a buffer of some size, and again
  with the id of the last entry it got, until it has enough. \<open>list_pages\<close> is this
  conversation for a list of buffer sizes, counted in entries.
\<close>

type_synonym page = "nat \<times> (string \<times> ino \<times> nat) list"

definition page_reply :: "page \<Rightarrow> string \<Rightarrow> attributes \<Rightarrow> nat \<Rightarrow> bool \<times> page" where
  "page_reply pg name a nid =
     (case pg of (room, out) \<Rightarrow>
        if length out < room then (True, (room, out @ [(name, st_ino a, nid)])) else (False, pg))"

fun list_pages :: "'b fs \<Rightarrow> ino \<Rightarrow> nat list \<Rightarrow> nat \<Rightarrow> fuse_exn + (string \<times> ino \<times> nat) list" where
  "list_pages f i [] start = Inr []"
| "list_pages f i (room # rooms) start =
     (case mnt_readdir page_reply f i start (room, []) of
        (Inl e, _) \<Rightarrow> Inl e
      | (Inr _, (_, out)) \<Rightarrow>
          (case list_pages f i rooms (if out = [] then start else snd (snd (last out))) of
             Inl e \<Rightarrow> Inl e
           | Inr rest \<Rightarrow> Inr (out @ rest)))"

text \<open>The entries with their ids, the first of which is \<open>k + 1\<close>.\<close>

fun numbered :: "nat \<Rightarrow> (string \<times> ino) list \<Rightarrow> (string \<times> ino \<times> nat) list" where
  "numbered k [] = []"
| "numbered k ((name, c) # es) = (name, c, k + 1) # numbered (k + 1) es"

lemma length_numbered [simp]: "length (numbered k es) = length es"
  by (induction k es rule: numbered.induct) auto

lemma numbered_id: "j < length es \<Longrightarrow> snd (snd (numbered k es ! j)) = k + j + 1"
  by (induction k es arbitrary: j rule: numbered.induct) (auto simp: nth_Cons split: nat.split)

lemma getattr_child:
  assumes "meta_wf (fc_meta f)" "get_inode (fc_meta f) c \<noteq> None"
  shows "\<exists>a. mnt_getattr f c = Inr a \<and> st_ino a = c"
proof -
  obtain n where n: "get_inode (fc_meta f) c = Some n" using assms(2) by blast
  then have "i_id (core_live f n) = c"
    using tables_okD(5) [OF meta_wfD(1) [OF assms(1)] n] by (simp add: core_live_def split: option.split)
  with n show ?thesis
    by (simp add: mnt_getattr_def mnt_call_def fuse_call_def core_getattr_def mnt_attr_def)
qed

lemma readdir_loop_page:
  assumes wf: "meta_wf (fc_meta f)" and es: "\<forall>(name, c) \<in> set es. get_inode (fc_meta f) c \<noteq> None"
    and room: "length out \<le> room"
  shows "readdir_loop page_reply f start k es (room, out) =
    (Inr (), (room, out @ take (room - length out) (drop (start - k) (numbered k es))))"
  using es room
proof (induction es arbitrary: k out)
  case (Cons e es)
  obtain name c where e: "e = (name, c)" by force
  show ?case
  proof (cases "k + 1 \<le> start")
    case True
    then have "start - k = Suc (start - (k + 1))" by simp
    with True Cons e show ?thesis by simp
  next
    case False
    obtain a where a: "mnt_getattr f c = Inr a" "st_ino a = c"
      using getattr_child [OF wf, of c] Cons.prems(1) e by auto
    show ?thesis
    proof (cases "length out < room")
      case True
      then have "readdir_loop page_reply f start k (e # es) (room, out) =
          readdir_loop page_reply f start (k + 1) es (room, out @ [(name, c, k + 1)])"
        using False a e by (simp add: page_reply_def)
      also have "\<dots> = (Inr (), (room, (out @ [(name, c, k + 1)]) @
          take (room - length (out @ [(name, c, k + 1)])) (drop (start - (k + 1)) (numbered (k + 1) es))))"
        by (rule Cons.IH) (use Cons.prems True in auto)
      finally show ?thesis using False True e by (simp add: take_Cons' Suc_diff_Suc)
    next
      case full: False
      with Cons.prems(2) have "length out = room" by simp
      with False a e show ?thesis by (simp add: page_reply_def)
    qed
  qed
qed simp

lemma readdir_children:
  assumes "meta_wf m" "(name, c) \<in> set (readdir m i)"
  shows "get_inode m c \<noteq> None"
proof -
  note t = meta_wfD(1) [OF assms(1)]
  have "((i, name), c) \<in> set (dirents m)" using assms(2) by (auto simp: readdir_def split: if_splits)
  then have "sql_select (dirents m) (i, name) = Some c"
    using select_Some_mem [OF tables_okD(2) [OF t]] by blast
  then show ?thesis using tables_okD(7) [OF t] by blast
qed

lemma list_pages_from:
  assumes "meta_wf (fc_meta f)" "ino_is_dir (fc_meta f) i"
  shows "list_pages f i rooms start =
    Inr (take (sum_list rooms) (drop start (numbered 0 (readdir (fc_meta f) i))))"
proof -
  let ?es = "readdir (fc_meta f) i"
  have rd: "core_readdir f i = Inr ?es"
    using assms(2) by (auto simp: core_readdir_def ino_is_dir_def is_dir_def split: option.splits)
  have es: "\<forall>(name, c) \<in> set ?es. get_inode (fc_meta f) c \<noteq> None"
    using readdir_children [OF assms(1)] by blast
  have page: "mnt_readdir page_reply f i start (room, []) =
      (Inr (), (room, take room (drop start (numbered 0 ?es))))" for start room
    using readdir_loop_page [OF assms(1) es, of "[]" room start 0]
    by (simp add: mnt_readdir_def rd fuse_call_def)
  show ?thesis
  proof (induction rooms arbitrary: start)
    case (Cons room rooms)
    let ?all = "numbered 0 ?es" and ?out = "take room (drop start (numbered 0 ?es))"
    have nxt: "(if ?out = [] then start else snd (snd (last ?out))) = start + length ?out"
    proof (cases "?out = []")
      case False
      then obtain j where j: "length ?out = Suc j" by (cases "length ?out") auto
      then have "j < room" "start + j < length ?es" by auto
      then have "?out ! j = ?all ! (start + j)" by simp
      moreover have "last ?out = ?out ! j" using False j by (simp add: last_conv_nth del: length_take)
      ultimately have "snd (snd (last ?out)) = start + j + 1"
        using numbered_id [of "start + j" ?es 0] \<open>start + j < length ?es\<close> by simp
      with False j show ?thesis by simp
    qed auto
    have "take (sum_list rooms) (drop (start + length ?out) ?all) =
        take (sum_list rooms) (drop room (drop start ?all))"
      by (cases "room \<le> length (drop start ?all)") (auto simp: add.commute)
    then have "?out @ take (sum_list rooms) (drop (start + length ?out) ?all) =
        take (room + sum_list rooms) (drop start ?all)"
      by (simp add: take_add)
    with Cons [of "start + length ?out"] nxt show ?case
      by (simp add: page del: length_take length_drop)
  qed simp
qed

text \<open>C39: Listing a directory that does not change gives every entry exactly once and in order, with
  its inode, however the entries are split over buffers; a listing never fails.\<close>

theorem listing_complete:
  assumes "meta_wf (fc_meta f)" "ino_is_dir (fc_meta f) i"
  shows "list_pages f i rooms 0 = Inr (take (sum_list rooms) (numbered 0 (readdir (fc_meta f) i)))"
  by (simp add: list_pages_from [OF assms])

theorem listing_complete_witness:
  "list_pages (demo_core 0) 1 [1, 1, 1] 0 = Inr [(''f'', 2, 1)]"
proof -
  have "ino_is_dir (fc_meta (demo_core 0)) 1" by code_simp
  moreover have "take 3 (numbered 0 (readdir (fc_meta (demo_core 0)) 1)) = [(''f'', 2, 1)]" by code_simp
  ultimately show ?thesis
    using listing_complete [OF core_invD(1) [OF demo_core_inv], of 0 1 "[1, 1, 1]"] by (simp add: numeral_3_eq_3)
qed

text \<open>
  The id of an entry is its position in the directory. When the kernel lists a directory in
  several pages and an entry of the first page is removed in between, as \<open>rm -r\<close> does, the
  entries move up and the next page skips one: of the files \<open>a\<close>, \<open>b\<close> and \<open>f\<close> below, \<open>b\<close> is never
  listed although it exists all the time.
\<close>

definition demo_many :: "membackend fs" where
  "demo_many = snd (core_create_node (snd (core_create_node (demo_core 0) 1 ''a'' 420 0 0)) 1 ''b'' 420 0 0)"

lemma demo_many_inv: "core_inv demo_many"
proof -
  let ?f = "core_create_node (demo_core 0) 1 ''a'' 420 0 0"
  have "core_inv (snd ?f)"
    by (rule inv_makers(2) [OF demo_core_inv _ prod.collapse [symmetric]]) code_simp
  then show ?thesis
    unfolding demo_many_def
    by (rule inv_makers(2) [OF _ _ prod.collapse [symmetric]]) code_simp
qed

lemma removal_skips_entry:
  "list_pages demo_many 1 [1] 0 = Inr [(''a'', 3, 1)] \<and>
   (\<exists>f'. core_unlink (mem_env byte_digest) demo_many 1 ''a'' = (Inr (), f') \<and>
      list_pages f' 1 [9] 1 = Inr [(''f'', 2, 2)] \<and> map_option i_id (lookup (fc_meta f') 1 ''b'') = Some 4)"
proof -
  let ?un = "core_unlink (mem_env byte_digest) demo_many 1 ''a''"
  have un: "?un = (Inr (), snd ?un)"
  proof -
    have "fst ?un = Inr ()" by code_simp
    then show ?thesis by (metis prod.collapse)
  qed
  have rd: "ino_is_dir (fc_meta demo_many) 1" "readdir (fc_meta demo_many) 1 = [(''a'', 3), (''b'', 4), (''f'', 2)]"
    "ino_is_dir (fc_meta (snd ?un)) 1" "readdir (fc_meta (snd ?un)) 1 = [(''b'', 4), (''f'', 2)]"
    "map_option i_id (lookup (fc_meta (snd ?un)) 1 ''b'') = Some 4" by code_simp+
  have wf: "meta_wf (fc_meta demo_many)" "meta_wf (fc_meta (snd ?un))"
    using core_invD(1) demo_many_inv inv_unlink [OF demo_many_inv un] by blast+
  have "list_pages demo_many 1 [1] 0 = Inr [(''a'', 3, 1)]"
    unfolding list_pages_from [OF wf(1) rd(1)] rd(2) by simp
  moreover have "list_pages (snd ?un) 1 [9] 1 = Inr [(''f'', 2, 2)]"
    unfolding list_pages_from [OF wf(2) rd(3)] rd(4) by simp
  ultimately show ?thesis using un rd(5) by blast
qed

end
