(* ===== verification/SessionProps.thy ===== *)
theory SessionProps
  imports SessionErrors MountProps
begin

section \<open>Properties of whole mounts\<close>


definition demo_config :: "nat \<Rightarrow> fsconfig" where
  "demo_config cs = \<lparr>cfg_chunk_size = cs, cfg_upload_workers = 1, cfg_readahead = 0, cfg_delay = 5\<rparr>"

definition demo_events :: "page event list" where
  "demo_events =
     [Serve (RqCreate 1 ''f'' 420 O_RDWR 1000 1000), Serve (RqWrite 1 0 [1, 2, 3]), Serve (RqWrite 1 1 [7]),
      Serve (RqRead 1 0 9), Serve (RqRelease 1), Wait 10 10, Reap]"

definition demo_mount :: "(exn + int) \<times> page reply list \<times> membackend store" where
  "demo_mount =
     mount page_reply (mem_env byte_digest) (demo_config 2) (new_meta 0 1000 1000) mem_new (rc_open 0 []) demo_events"




subsection \<open>A mount behaves as a map of byte strings\<close>








subsection \<open>What ends a mount\<close>



text \<open>
  The excluded request does end the mount: a file is opened for reading, unlinked, and then
  written through that handle. \<open>get_inode\<close> finds nothing and the \<open>AttributeError\<close> reaches the
  FUSE loop. (An open for writing loads the content at once, and the Linux VFS does not pass on
  a write through a handle opened for reading.)
\<close>

lemma unlinked_write_ends_mount:
  "fst (mount page_reply (mem_env byte_digest) (demo_config 4) (s_meta (snd (snd demo_mount)))
      (s_back (snd (snd demo_mount))) (rc_open 0 [])
      [Serve (RqOpen 2 0), Serve (RqUnlink 1 ''f''), Serve (RqWrite 1 0 [9])]) = Inl AttributeError"
  by code_simp

text \<open>
  The set of pending unlinks is not stored: a file that is open and unlinked when the
  filesystem is unmounted keeps its chunks and its blobs, without an inode.
\<close>

lemma unmount_keeps_unlinked:
  "let s = snd (snd (mount page_reply (mem_env byte_digest) (demo_config 4) (s_meta (snd (snd demo_mount)))
      (s_back (snd (snd demo_mount))) (rc_open 0 []) [Serve (RqOpen 2 0), Serve (RqUnlink 1 ''f'')]))
   in map_option i_id (get_inode (s_meta s) 2) = None \<and> length (get_chunks (s_meta s) 2) = 2 \<and>
      length (mb_blobs (s_back s)) = 2"
  by code_simp

end
