(* ===== verification/StoreIter.thy ===== *)
theory StoreIter
  imports WritebackProps
begin

section \<open>Chunks in order, with downloads ahead (Store.iter_chunks)\<close>

text \<open>
  \<open>iter_chunks\<close> keeps a window of downloads it has submitted and yields the oldest when the
  window is full, so it is up to \<open>download_workers\<close> chunks ahead of its consumer. A task runs
  when it is submitted; its outcome waits in the window as a value, an exception included. The
  result is the list of chunks yielded, with the exception that ended the iteration, if any.
  The consumer (\<open>_load\<close>) only writes to its temporary file, so it cannot see the difference
  to reading one chunk after the other, which is how \<open>Writeback.load_loop\<close> has it.
\<close>

fun iter_drain :: "(exn + bytes) list \<Rightarrow> bytes list \<times> (exn + unit)" where
  "iter_drain [] = ([], Inr ())"
| "iter_drain (Inl e # window) = ([], Inl e)"
| "iter_drain (Inr d # window) = (case iter_drain window of (ds, r) \<Rightarrow> (d # ds, r))"

fun iter_loop ::
    "'b env \<Rightarrow> 'b store \<Rightarrow> nat \<Rightarrow> (exn + bytes) list \<Rightarrow> sha list \<Rightarrow> bytes list \<times> (exn + unit) \<times> 'b store" where
  "iter_loop E s n window [] = (case iter_drain window of (ds, r) \<Rightarrow> (ds, r, s))"
| "iter_loop E s n window (sh # shas) =
     (case read_chunk E s sh None of
        (q, s1) \<Rightarrow>
          (let window1 = window @ [q]
           in if length window1 \<ge> n
              then (case hd window1 of
                      Inl e \<Rightarrow> ([], Inl e, s1)
                    | Inr d \<Rightarrow>
                        (case iter_loop E s1 n (tl window1) shas of
                           (ds, r, s2) \<Rightarrow> (d # ds, r, s2)))
              else iter_loop E s1 n window1 shas))"

definition iter_chunks :: "'b env \<Rightarrow> 'b store \<Rightarrow> nat \<Rightarrow> sha list \<Rightarrow> bytes list \<times> (exn + unit) \<times> 'b store" where
  "iter_chunks E s download_workers shas = iter_loop E s (max 1 download_workers) [] shas"

subsection \<open>Reading one after the other\<close>

fun read_in_turn :: "'b env \<Rightarrow> 'b store \<Rightarrow> sha list \<Rightarrow> bytes list \<times> (exn + unit) \<times> 'b store" where
  "read_in_turn E s [] = ([], Inr (), s)"
| "read_in_turn E s (sh # shas) =
     (case read_chunk E s sh None of
        (Inl e, s1) \<Rightarrow> ([], Inl e, s1)
      | (Inr d, s1) \<Rightarrow> (case read_in_turn E s1 shas of (ds, r, s2) \<Rightarrow> (d # ds, r, s2)))"

text \<open>What is in the window comes first.\<close>

lemma drain_append:
  "iter_drain (window @ rest) =
     (case iter_drain window of
        (ds, Inl e) \<Rightarrow> (ds, Inl e)
      | (ds, Inr _) \<Rightarrow> (case iter_drain rest of (es, r) \<Rightarrow> (ds @ es, r)))"
  by (induction window rule: iter_drain.induct) (auto split: prod.splits sum.splits)

lemma iter_loop_in_turn:
  assumes "iter_loop E s n window shas = (ds, r, s')" "read_in_turn E s shas = (es, q, t)"
  shows "(ds, r) =
      (case iter_drain window of (xs, Inl e) \<Rightarrow> (xs, Inl e) | (xs, Inr _) \<Rightarrow> (xs @ es, q)) \<and>
    (r = Inr () \<longrightarrow> s' = t)"
  using assms
proof (induction shas arbitrary: s window ds r s' es q t)
  case Nil
  then show ?case by (auto split: prod.splits sum.splits)
next
  case (Cons sh shas)
  obtain p s1 where rd: "read_chunk E s sh None = (p, s1)" by force
  obtain es1 q1 t1 where turn: "read_in_turn E s1 shas = (es1, q1, t1)" by (metis prod_cases3)
  have seq: "(es, q) = (case p of Inl e \<Rightarrow> ([], Inl e) | Inr d \<Rightarrow> (d # es1, q1))" "\<forall>d. p = Inr d \<longrightarrow> t = t1"
    using Cons.prems(2) rd turn by (auto split: sum.splits)
  show ?case
  proof (cases "length (window @ [p]) \<ge> n")
    case False
    then have "iter_loop E s1 n (window @ [p]) shas = (ds, r, s')" using Cons.prems(1) rd by (simp add: Let_def)
    from Cons.IH [OF this turn] seq show ?thesis
      by (cases p; cases "iter_drain window"; cases "snd (iter_drain window)")
        (auto simp: drain_append split: prod.splits sum.splits)
  next
    case full: True
    obtain x window1 where w: "window @ [p] = x # window1" by (cases window) auto
    have step: "(case x of Inl e \<Rightarrow> ([], Inl e, s1)
        | Inr d \<Rightarrow> (case iter_loop E s1 n window1 shas of (ds, r, s2) \<Rightarrow> (d # ds, r, s2))) = (ds, r, s')"
      using Cons.prems(1) full unfolding iter_loop.simps rd prod.case Let_def w list.sel by simp
    have drain: "iter_drain (x # window1) =
        (case iter_drain window of (ys, Inl e) \<Rightarrow> (ys, Inl e)
         | (ys, Inr _) \<Rightarrow> (case iter_drain [p] of (zs, u) \<Rightarrow> (ys @ zs, u)))"
      unfolding w [symmetric] by (rule drain_append)
    show ?thesis
    proof (cases x)
      case (Inl e)
      then have "ds = []" "r = Inl e" using step by simp_all
      with drain Inl seq show ?thesis
        by (cases p; cases "iter_drain window"; cases "snd (iter_drain window)") (auto split: sum.splits)
    next
      case (Inr d)
      obtain ds1 r1 where it: "iter_loop E s1 n window1 shas = (ds1, r1, s')" "ds = d # ds1" "r = r1"
        using step Inr by (auto split: prod.splits)
      from Cons.IH [OF it(1) turn] it(2,3) drain Inr seq show ?thesis
        by (cases p; cases "iter_drain window"; cases "snd (iter_drain window)"; cases "iter_drain window1";
            cases "snd (iter_drain window1)") (auto split: sum.splits)
    qed
  qed
qed

subsection \<open>The consumer\<close>

definition put_chunk :: "filestate \<Rightarrow> nat \<times> bytes \<Rightarrow> filestate" where
  "put_chunk st p =
     (case p of (i, d) \<Rightarrow>
        st\<lparr>fs_file := f_write (f_seek (fs_file st) (fst (fs_base st ! i))) d,
           fs_loaded := insert i (fs_loaded st)\<rparr>)"

lemma put_chunk_keeps [simp]: "fs_base (put_chunk st p) = fs_base st" "fs_closed (put_chunk st p) = fs_closed st"
  by (cases p; simp add: put_chunk_def)+

lemma load_loop_in_turn:
  assumes "\<not> fs_closed st" "read_in_turn E s (map (\<lambda>i. snd (snd (fs_base st ! i))) need) = (ds, q, t)"
  shows "load_loop E st s need = (q, foldl put_chunk st (zip need ds), t)"
  using assms
proof (induction need arbitrary: st s ds)
  case (Cons i need)
  obtain off len sh where b: "fs_base st ! i = (off, len, sh)" by (metis prod_cases3)
  obtain p s1 where rd: "read_chunk E s sh None = (p, s1)" by force
  show ?case
  proof (cases p)
    case (Inl e)
    with Cons.prems b rd show ?thesis by simp
  next
    case (Inr d)
    let ?st = "put_chunk st (i, d)"
    obtain ds1 where rest: "read_in_turn E s1 (map (\<lambda>i. snd (snd (fs_base ?st ! i))) need) = (ds1, q, t)" "ds = d # ds1"
      using Cons.prems(2) b rd Inr by (auto split: prod.splits)
    have "load_loop E st s (i # need) = load_loop E ?st s1 need"
      using b rd Inr Cons.prems(1) by (simp add: put_chunk_def)
    with Cons.IH [OF _ rest(1)] rest(2) Cons.prems(1) show ?thesis by simp
  qed
qed simp

text \<open>C6: Loading the missing chunks of an open file through \<open>iter_chunks\<close>, with any number of downloads
  ahead, is the same as reading them one after the other: the same chunks reach the temporary
  file in the same order, an error comes at the same chunk, and when there is none the cache and
  the backend end up the same.\<close>

theorem load_with_lookahead:
  assumes "\<not> fs_closed st"
    and "iter_chunks E s workers (map (\<lambda>i. snd (snd (fs_base st ! i))) need) = (ds, r, s')"
    and "load_loop E st s need = (q, st', t)"
  shows "q = r \<and> st' = foldl put_chunk st (zip need ds) \<and> (r = Inr () \<longrightarrow> t = s')"
proof -
  obtain es p u where turn: "read_in_turn E s (map (\<lambda>i. snd (snd (fs_base st ! i))) need) = (es, p, u)"
    by (metis prod_cases3)
  from iter_loop_in_turn [OF assms(2) [unfolded iter_chunks_def] turn] have "ds = es" "r = p" "r = Inr () \<longrightarrow> s' = u"
    by simp_all
  with load_loop_in_turn [OF assms(1) turn] assms(3) show ?thesis by auto
qed

definition demo_unloaded :: filestate where
  "demo_unloaded = (new_filestate 2)\<lparr>fs_base := map base_of (get_chunks (s_meta demo_stored) 2)\<rparr>"

theorem load_with_lookahead_witness:
  "\<exists>st' t. load_loop (mem_env byte_digest) demo_unloaded demo_stored [0, 1, 2, 3] = (Inr (), st', t) \<and>
     f_data (fs_file st') = demo_data \<and>
     iter_chunks (mem_env byte_digest) demo_stored 2 (map (\<lambda>i. snd (snd (fs_base demo_unloaded ! i))) [0, 1, 2, 3]) =
       ([[1, 2], [3, 4], [1, 2], [5]], Inr (), t)"
proof -
  let ?E = "mem_env byte_digest" and ?need = "[0, 1, 2, 3]"
  let ?it = "iter_chunks ?E demo_stored 2 (map (\<lambda>i. snd (snd (fs_base demo_unloaded ! i))) ?need)"
  obtain ds r s' where it: "?it = (ds, r, s')" by (metis prod_cases3)
  obtain q st' t where ld: "load_loop ?E demo_unloaded demo_stored ?need = (q, st', t)" by (metis prod_cases3)
  have "\<not> fs_closed demo_unloaded" by code_simp
  note L = load_with_lookahead [OF this it ld]
  have "fst ?it = [[1, 2], [3, 4], [1, 2], [5]]" "fst (snd ?it) = Inr ()" by code_simp+
  then have d: "ds = [[1, 2], [3, 4], [1, 2], [5]]" "r = Inr ()" using it by (metis fst_conv, metis fst_conv snd_conv)
  have "f_data (fs_file (foldl put_chunk demo_unloaded (zip ?need [[1, 2], [3, 4], [1, 2], [5]]))) = demo_data"
    by code_simp
  with L it ld d show ?thesis by auto
qed

end
