(* ===== verification/StoreRace.thy ===== *)
theory StoreRace
  imports StoreProps
begin

section \<open>Concurrent uploads and releases (Store._upload_blob and Store._release)\<close>

text \<open>
  Several threads take and drop references to blobs at once: the pool of \<open>put_file\<close>, and other
  files being written or freed. A thread does one of three things without interruption: a
  critical section under \<open>_blob_lock\<close>, an upload, or a delete. Its state says what it does next
  and what it carries; a schedule is the list of the threads in the order in which they run.
\<close>

datatype blob_task =
    Wants sha bytes
  | Uploading sha bytes
  | Uploaded sha nat nat
  | Dropping sha nat
  | Holds sha
  | Deleting nat
  | Finished
  | Failed exn
  | LostRef exn sha

text \<open>
  The check for a known blob and the reference to it (\<open>put_file\<close>); the upload; its registration,
  or a reference to the blob another thread registered first, and the delete of our copy
  (\<open>_upload_blob\<close>); the release of the reference and the delete of the last one's message
  (\<open>_release\<close>). A delete of our copy that raises ends the upload with an exception after it has
  taken its reference: \<open>put_file\<close> takes it for one that never registered.
\<close>

fun blob_step :: "'b env \<Rightarrow> blob_task \<Rightarrow> 'b store \<Rightarrow> blob_task \<times> 'b store" where
  "blob_step E (Wants sh d) s =
     (if blob_get (s_meta s) sh = None then (Uploading sh d, s)
      else (Holds sh, s\<lparr>s_meta := blob_incref (s_meta s) sh\<rparr>))"
| "blob_step E (Uploading sh d) s =
     (case upload E (s_back s) d of
        (Inl e, b) \<Rightarrow> (Failed e, s\<lparr>s_back := b\<rparr>)
      | (Inr h, b) \<Rightarrow> (Uploaded sh h (length d), s\<lparr>s_back := b\<rparr>))"
| "blob_step E (Uploaded sh h n) s =
     (if blob_get (s_meta s) sh = None
      then (case blob_create (s_meta s) sh h n of
              (Inl e, m) \<Rightarrow> (Failed e, s\<lparr>s_meta := m\<rparr>)
            | (Inr _, m) \<Rightarrow> (Holds sh, s\<lparr>s_meta := m\<rparr>))
      else (Dropping sh h, s\<lparr>s_meta := blob_incref (s_meta s) sh\<rparr>))"
| "blob_step E (Dropping sh h) s =
     (case delete E (s_back s) h of
        (Inl e, b) \<Rightarrow> (LostRef e sh, s\<lparr>s_back := b\<rparr>)
      | (Inr _, b) \<Rightarrow> (Holds sh, s\<lparr>s_back := b\<rparr>))"
| "blob_step E (Holds sh) s =
     (case blob_decref (s_meta s) sh of
        (None, m) \<Rightarrow> (Finished, s\<lparr>s_meta := m\<rparr>)
      | (Some h, m) \<Rightarrow> (Deleting h, s\<lparr>s_meta := m\<rparr>))"
| "blob_step E (Deleting h) s =
     (case delete E (s_back s) h of
        (Inl e, b) \<Rightarrow> (Failed e, s\<lparr>s_back := b\<rparr>)
      | (Inr _, b) \<Rightarrow> (Finished, s\<lparr>s_back := b\<rparr>))"
| "blob_step E w s = (w, s)"

fun race_run :: "'b env \<Rightarrow> nat list \<Rightarrow> blob_task list \<Rightarrow> 'b store \<Rightarrow> blob_task list \<times> 'b store" where
  "race_run E [] ws s = (ws, s)"
| "race_run E (i # sched) ws s =
     (if i < length ws
      then (case blob_step E (ws ! i) s of (w, s1) \<Rightarrow> race_run E sched (ws[i := w]) s1)
      else race_run E sched ws s)"

text \<open>A thread that is not interrupted does what the sequential definitions of \<open>Store\<close> say.\<close>

lemma upload_alone:
  assumes "blob_get (s_meta s) sh = None"
  shows "snd (race_run E [0, 0] [Uploading sh d] s) = snd (upload_blob E s sh d)"
  using assms
  by (auto simp: upload_blob_def blob_create_def split: prod.split sum.split option.split)

lemma upload_alone_known:
  assumes "blob_get (s_meta s) sh \<noteq> None"
  shows "snd (race_run E [0, 0, 0] [Uploading sh d] s) = snd (upload_blob E s sh d)"
  using assms by (auto simp: upload_blob_def split: prod.split sum.split)

lemma release_alone: "snd (race_run E [0, 0] [Holds sh] s) = snd (release_blob E s sh)"
  by (auto simp: release_blob_def split: prod.split sum.split option.split)

subsection \<open>What the threads hold and carry\<close>

definition holding :: "blob_task \<Rightarrow> sha \<Rightarrow> nat" where
  "holding w sh = (case w of Dropping s _ \<Rightarrow> of_bool (s = sh) | Holds s \<Rightarrow> of_bool (s = sh)
     | LostRef _ s \<Rightarrow> of_bool (s = sh) | _ \<Rightarrow> 0)"

definition carries :: "blob_task \<Rightarrow> nat list" where
  "carries w = (case w of Uploaded _ h _ \<Rightarrow> [h] | Dropping _ h \<Rightarrow> [h] | Deleting h \<Rightarrow> [h] | _ \<Rightarrow> [])"

definition held :: "blob_task list \<Rightarrow> sha \<Rightarrow> nat" where
  "held ws sh = sum_list (map (\<lambda>w. holding w sh) ws)"

definition carried :: "blob_task list \<Rightarrow> nat list" where
  "carried ws = concat (map carries ws)"

definition stored :: "(bytes \<Rightarrow> sha) \<Rightarrow> (nat \<Rightarrow> bytes option) \<Rightarrow> sha \<Rightarrow> nat \<Rightarrow> nat \<Rightarrow> bool" where
  "stored hash cont sh h n \<longleftrightarrow> (\<exists>d. cont h = Some d \<and> hash d = sh \<and> length d = n)"

definition task_ok :: "(bytes \<Rightarrow> sha) \<Rightarrow> (nat \<Rightarrow> bytes option) \<Rightarrow> blob_task \<Rightarrow> bool" where
  "task_ok hash cont w =
     (case w of Wants sh d \<Rightarrow> hash d = sh | Uploading sh d \<Rightarrow> hash d = sh
      | Uploaded sh h n \<Rightarrow> stored hash cont sh h n | _ \<Rightarrow> True)"

text \<open>
  The messages: those of the index are where it says, no two rows share one, and a message that
  a thread carries is nobody else's. Then the counts.
\<close>

definition place_ok ::
    "(bytes \<Rightarrow> sha) \<Rightarrow> (nat \<Rightarrow> bytes option) \<Rightarrow> (sha \<Rightarrow> (nat \<times> nat) option) \<Rightarrow> blob_task list \<Rightarrow> bool" where
  "place_ok hash cont L ws \<longleftrightarrow>
     (\<forall>sh h n. L sh = Some (h, n) \<longrightarrow> stored hash cont sh h n \<and> h \<notin> set (carried ws)) \<and>
     (\<forall>sh sh' h n n'. L sh = Some (h, n) \<longrightarrow> L sh' = Some (h, n') \<longrightarrow> sh = sh') \<and>
     distinct (carried ws) \<and> (\<forall>h \<in> set (carried ws). cont h \<noteq> None) \<and>
     (\<forall>w \<in> set ws. task_ok hash cont w)"

definition race_ok ::
    "(bytes \<Rightarrow> sha) \<Rightarrow> (nat \<Rightarrow> bytes option) \<Rightarrow> (sha \<Rightarrow> nat) \<Rightarrow> blob_task list \<Rightarrow> meta \<Rightarrow> bool" where
  "race_ok hash cont base ws m \<longleftrightarrow>
     counts_ok m \<and> (\<forall>sh. rc m sh = base sh + held ws sh) \<and> place_ok hash cont (loc m) ws"

text \<open>No message is left over.\<close>

definition no_orphan :: "(nat \<Rightarrow> bytes option) \<Rightarrow> blob_task list \<Rightarrow> meta \<Rightarrow> bool" where
  "no_orphan cont ws m \<longleftrightarrow> (\<forall>h d. cont h = Some d \<longrightarrow> h \<in> set (carried ws) \<or> (\<exists>sh n. loc m sh = Some (h, n)))"

lemma held_split: "held (us @ w # vs) sh = held (us @ vs) sh + holding w sh"
  by (simp add: held_def)

lemma carried_split: "carried (us @ w # vs) = carried us @ carries w @ carried vs"
  by (simp add: carried_def)

lemma placeD:
  assumes "place_ok hash cont L ws"
  shows "L sh = Some (h, n) \<Longrightarrow> stored hash cont sh h n" "L sh = Some (h, n) \<Longrightarrow> h \<notin> set (carried ws)"
    and "L sh = Some (h, n) \<Longrightarrow> L sh' = Some (h, n') \<Longrightarrow> sh = sh'"
    and "distinct (carried ws)" "h \<in> set (carried ws) \<Longrightarrow> cont h \<noteq> None"
    and "w \<in> set ws \<Longrightarrow> task_ok hash cont w"
  using assms unfolding place_ok_def by blast+

lemma stored_keeps:
  assumes "stored hash cont sh h n" "cont(x := None) \<subseteq>\<^sub>m cont'" "h \<noteq> x"
  shows "stored hash cont' sh h n"
proof -
  obtain d where d: "cont h = Some d" "hash d = sh" "length d = n" using assms(1) by (auto simp: stored_def)
  have "cont' h = Some d" using assms(2,3) d(1) by (force simp: map_le_def dom_def)
  with d show ?thesis by (auto simp: stored_def)
qed

lemma stored_mono: "stored hash cont sh h n \<Longrightarrow> cont \<subseteq>\<^sub>m cont' \<Longrightarrow> stored hash cont' sh h n"
  by (force simp: stored_def map_le_def dom_def)

lemma task_ok_keeps:
  assumes "task_ok hash cont w"
    and "\<And>sh h n. h \<in> set (carries w) \<Longrightarrow> stored hash cont sh h n \<Longrightarrow> stored hash cont' sh h n"
  shows "task_ok hash cont' w"
  using assms by (cases w) (auto simp: task_ok_def carries_def)

subsection \<open>The steps on the messages\<close>

text \<open>A message no thread but this one carries, and no row names, may go.\<close>

lemma place_delete:
  assumes p: "place_ok hash cont L (us @ w # vs)" and w: "carries w = [h]"
    and keep: "cont(h := None) \<subseteq>\<^sub>m cont'" and w': "carries w' = []" "task_ok hash cont' w'"
  shows "place_ok hash cont' L (us @ w' # vs)"
proof -
  note P = placeD [OF p, unfolded carried_split w]
  have other: "h \<notin> set (carries v)" if "v \<in> set us \<union> set vs" for v
    using P(4) that by (auto simp: carried_def)
  have "task_ok hash cont' v" if "v \<in> set us \<union> set vs" for v
  proof (rule task_ok_keeps [of hash cont])
    show "task_ok hash cont v" using P(6) [of v] that by auto
    show "stored hash cont' sh x n" if "x \<in> set (carries v)" "stored hash cont sh x n" for sh x n
      using stored_keeps [OF that(2) keep] other [OF \<open>v \<in> set us \<union> set vs\<close>] that(1) by blast
  qed
  moreover have "cont' x \<noteq> None" if "x \<in> set (carried us) \<union> set (carried vs)" for x
  proof -
    have "x \<noteq> h" "cont x \<noteq> None" using P(4) P(5) [of x] that by auto
    then show ?thesis using keep by (force simp: map_le_def dom_def)
  qed
  moreover have "stored hash cont' sh x n" if "L sh = Some (x, n)" for sh x n
    using P(2) [OF that] stored_keeps [OF P(1) [OF that] keep] by auto
  ultimately show ?thesis
    using P(2,3,4) w' unfolding place_ok_def carried_split by (auto simp: w')
qed

text \<open>A new message comes in.\<close>

lemma place_upload:
  assumes p: "place_ok hash cont L (us @ w # vs)" and w: "carries w = []"
    and new: "cont h = None" "cont' h = Some d" "cont \<subseteq>\<^sub>m cont'"
    and w': "carries w' = [h]" "task_ok hash cont' w'"
  shows "place_ok hash cont' L (us @ w' # vs)"
proof -
  note P = placeD [OF p, unfolded carried_split w]
  have "task_ok hash cont' v" if "v \<in> set us \<union> set vs" for v
    by (rule task_ok_keeps [of hash cont]) (use P(6) [of v] that stored_mono [OF _ new(3)] in auto)
  moreover have "cont' x \<noteq> None" if "x \<in> set (carried us) \<union> set (carried vs)" for x
    using P(5) [of x] that new(3) by (force simp: map_le_def dom_def)
  moreover have "h \<notin> set (carried us) \<union> set (carried vs)" using P(5) [of h] new(1) by auto
  moreover have "x \<noteq> h" if "L sh = Some (x, n)" for sh x n
    using P(1) [OF that] new(1) by (auto simp: stored_def)
  ultimately show ?thesis
    using P(1,2,3,4) stored_mono [OF _ new(3)] w' new(2) unfolding place_ok_def carried_split
    by (auto simp: w')
qed

text \<open>Nothing moves.\<close>

lemma place_same:
  assumes p: "place_ok hash cont L (us @ w # vs)" and c: "cont \<subseteq>\<^sub>m cont'"
    and w': "carries w' = carries w" "task_ok hash cont' w'"
  shows "place_ok hash cont' L (us @ w' # vs)"
proof -
  note P = placeD [OF p]
  have "task_ok hash cont' v" if "v \<in> set us \<union> set vs" for v
    by (rule task_ok_keeps [of hash cont]) (use P(6) [of v] that stored_mono [OF _ c] in auto)
  moreover have "cont' x \<noteq> None" if "x \<in> set (carried (us @ w # vs))" for x
    using P(5) [OF that] c by (force simp: map_le_def dom_def)
  moreover have "carried (us @ w' # vs) = carried (us @ w # vs)" by (simp add: carried_split w')
  ultimately show ?thesis
    using P(1-4) stored_mono [OF _ c] w'(2) unfolding place_ok_def by auto
qed

text \<open>A carried message becomes that of a row, or the message of a deleted row is carried.\<close>

lemma place_register:
  assumes p: "place_ok hash cont L (us @ Uploaded sh h n # vs)" and new: "L sh = None"
  shows "place_ok hash cont (L(sh \<mapsto> (h, n))) (us @ Holds sh # vs)"
proof -
  note P = placeD [OF p, unfolded carried_split]
  have st: "stored hash cont sh h n" using P(6) [of "Uploaded sh h n"] by (simp add: task_ok_def)
  have free: "L j \<noteq> Some (h, k)" for j k using P(2) [of j h k] by (auto simp: carries_def)
  have "h \<notin> set (carried us) \<union> set (carried vs)" using P(4) by (auto simp: carries_def)
  then show ?thesis
    using P st free unfolding place_ok_def carried_split
    by (auto simp: carries_def task_ok_def split: if_splits)
qed

lemma place_unregister:
  assumes p: "place_ok hash cont L (us @ Holds sh # vs)" and row: "L sh = Some (h, n)"
  shows "place_ok hash cont (L(sh := None)) (us @ Deleting h # vs)"
proof -
  note P = placeD [OF p, unfolded carried_split]
  have "h \<notin> set (carried us) \<union> set (carried vs)" using P(2) [OF row] by (auto simp: carries_def)
  moreover have "cont h \<noteq> None" using P(1) [OF row] by (auto simp: stored_def)
  moreover have "x \<noteq> h" if "L j = Some (x, k)" "j \<noteq> sh" for j x k using P(3) [OF row, of j k] that by blast
  ultimately show ?thesis
    using P unfolding place_ok_def carried_split
    by (auto simp: carries_def task_ok_def split: if_splits)
qed

subsection \<open>Every schedule keeps the invariant\<close>

lemma loc_create:
  assumes "blob_get m sh = None" "blob_create m sh h n = (r, m')"
  shows "r = Inr () \<and> loc m' = (loc m)(sh \<mapsto> (h, n)) \<and> (\<forall>j. rc m' j = rc m j + of_bool (j = sh)) \<and>
    (counts_ok m \<longrightarrow> counts_ok m')"
proof -
  define b where "b = \<lparr>b_handle = h, b_len = n, b_refcount = 1\<rparr>"
  have m': "r = Inr ()" "m' = m\<lparr>blobs := blobs m @ [(sh, b)]\<rparr>"
    using assms by (auto simp: blob_create_def sql_insert_def blob_get_def b_def)
  have get: "blob_get m' j = (if j = sh then Some b else blob_get m j)" for j
    using assms(1) by (simp add: blob_get_def m' select_append_new)
  have "counts_ok m'" if "counts_ok m"
  proof -
    have "keyed (blobs m')" using that assms(1) by (simp add: m' counts_ok_def keyed_append_new blob_get_def)
    then show ?thesis using that by (auto simp: counts_ok_def get b_def)
  qed
  then show ?thesis using assms(1) m'(1) by (auto simp: loc_def rc_def get b_def fun_eq_iff)
qed

text \<open>A step of one thread among others.\<close>

context faulty_backend
begin

lemma blob_step_ok:
  assumes inv: "binv (s_back s)"
    and ok: "race_ok (sha256 E) (content (s_back s)) base (us @ w # vs) (s_meta s)"
    and step: "blob_step E w s = (w', s')"
  shows "binv (s_back s') \<and> race_ok (sha256 E) (content (s_back s')) base (us @ w' # vs) (s_meta s')"
proof -
  note R = ok [unfolded race_ok_def held_split]
  have c: "counts_ok (s_meta s)" and cnt: "\<And>j. rc (s_meta s) j = base j + held (us @ vs) j + holding w j"
    and p: "place_ok (sha256 E) (content (s_back s)) (loc (s_meta s)) (us @ w # vs)"
    using R by (auto simp: add.assoc)
  have wok: "task_ok (sha256 E) (content (s_back s)) w" using placeD(6) [OF p, of w] by simp
  have known: "blob_get (s_meta s) j \<noteq> None \<longleftrightarrow> 0 < rc (s_meta s) j" for j using rc_pos_iff [OF c] by simp
  show ?thesis
  proof (cases w)
    case w: (Wants sh d)
    show ?thesis
    proof (cases "blob_get (s_meta s) sh")
      case None
      with step w have "w' = Uploading sh d" "s' = s" by auto
      with w wok inv c cnt place_same [OF p map_le_refl, of w'] show ?thesis
        by (simp add: race_ok_def held_split carries_def task_ok_def holding_def)
    next
      case (Some b)
      with step w have s': "w' = Holds sh" "s' = s\<lparr>s_meta := blob_incref (s_meta s) sh\<rparr>" by auto
      have "rc (blob_incref (s_meta s) sh) j = base j + held (us @ vs) j + holding w' j" for j
        using ref_index.cnt_inc [OF c, of sh j] known [of sh] cnt [of j] Some w
        by (auto simp: holding_def s')
      with s' w inv counts_ok_incref [OF c] place_same [OF p map_le_refl, of w'] show ?thesis
        by (simp add: race_ok_def held_split carries_def task_ok_def)
    qed
  next
    case w: (Uploading sh d)
    obtain q b where u: "upload E (s_back s) d = (q, b)" by force
    show ?thesis
    proof (cases q)
      case (Inl e)
      with step w u have s': "w' = Failed e" "s' = s\<lparr>s_back := b\<rparr>" by auto
      note U = upload_raises [OF inv u [unfolded Inl]]
      with s' w c cnt place_same [OF p, of "content b" w'] show ?thesis
        by (simp add: race_ok_def held_split carries_def task_ok_def holding_def)
    next
      case (Inr h)
      with step w u have s': "w' = Uploaded sh h (length d)" "s' = s\<lparr>s_back := b\<rparr>" by auto
      note U = upload_new [OF inv u [unfolded Inr]]
      have "task_ok (sha256 E) (content b) w'" using U wok w by (auto simp: task_ok_def s' stored_def)
      with U s' w c cnt place_upload [OF p, of h "content b" d w'] show ?thesis
        by (simp add: race_ok_def held_split carries_def holding_def)
    qed
  next
    case w: (Uploaded sh h n)
    show ?thesis
    proof (cases "blob_get (s_meta s) sh")
      case None
      obtain r m where cr: "blob_create (s_meta s) sh h n = (r, m)" by force
      note C = loc_create [OF None cr]
      with step w None cr have s': "w' = Holds sh" "s' = s\<lparr>s_meta := m\<rparr>" by auto
      have "loc (s_meta s) sh = None" using None by (simp add: loc_None_iff)
      from place_register [OF p [unfolded w] this] C s' w inv c cnt show ?thesis
        by (simp add: race_ok_def held_split holding_def)
    next
      case (Some b)
      with step w have s': "w' = Dropping sh h" "s' = s\<lparr>s_meta := blob_incref (s_meta s) sh\<rparr>" by auto
      have "rc (blob_incref (s_meta s) sh) j = base j + held (us @ vs) j + holding w' j" for j
        using ref_index.cnt_inc [OF c, of sh j] known [of sh] cnt [of j] Some w
        by (auto simp: holding_def s')
      with s' w inv counts_ok_incref [OF c] place_same [OF p map_le_refl, of w'] show ?thesis
        by (simp add: race_ok_def held_split carries_def task_ok_def)
    qed
  next
    case w: (Dropping sh h)
    obtain q b where u: "delete E (s_back s) h = (q, b)" by force
    note D = delete_any [OF inv u]
    have "w' = (case q of Inl e \<Rightarrow> LostRef e sh | Inr _ \<Rightarrow> Holds sh)" and s': "s' = s\<lparr>s_back := b\<rparr>"
      using step w u by (auto split: sum.splits)
    then have "carries w' = []" "task_ok (sha256 E) (content b) w'" "\<And>j. holding w' j = holding w j"
      using w by (auto simp: carries_def task_ok_def holding_def split: sum.split)
    with D s' w c cnt place_delete [OF p, of h "content b" w'] show ?thesis
      by (simp add: race_ok_def held_split carries_def)
  next
    case w: (Holds sh)
    have pos: "0 < rc (s_meta s) sh" using cnt [of sh] w by (simp add: holding_def)
    obtain q m where u: "blob_decref (s_meta s) sh = (q, m)" by force
    have m: "counts_ok m" "\<And>j. rc m j = rc (s_meta s) j - of_bool (j = sh)"
      "loc m = (if rc (s_meta s) sh \<le> 1 then (loc (s_meta s))(sh := None) else loc (s_meta s))"
      using counts_ok_decref [OF c, of sh] ref_index.cnt_dec [OF c, of sh] loc_decref [OF c, of sh] u
      by (auto simp: fun_eq_iff)
    have cnt': "rc m j = base j + held (us @ vs) j" for j
      using m(2) [of j] cnt [of j] w by (auto simp: holding_def)
    show ?thesis
    proof (cases q)
      case None
      then have "1 < rc (s_meta s) sh" using decref_handle(2) [of "s_meta s" sh] u known [of sh] pos by auto
      moreover have s': "w' = Finished" "s' = s\<lparr>s_meta := m\<rparr>" using step w u None by auto
      ultimately show ?thesis using w inv m cnt' place_same [OF p map_le_refl, of w']
        by (simp add: race_ok_def held_split carries_def task_ok_def holding_def)
    next
      case (Some h)
      then obtain n where "rc (s_meta s) sh \<le> 1" "loc (s_meta s) sh = Some (h, n)"
        using decref_handle(1) [of "s_meta s" sh h] u by auto
      moreover have s': "w' = Deleting h" "s' = s\<lparr>s_meta := m\<rparr>" using step w u Some by auto
      ultimately show ?thesis using inv m cnt' place_unregister [OF p [unfolded w], of h n]
        by (simp add: race_ok_def held_split holding_def)
    qed
  next
    case w: (Deleting h)
    obtain q b where u: "delete E (s_back s) h = (q, b)" by force
    note D = delete_any [OF inv u]
    have "w' = (case q of Inl e \<Rightarrow> Failed e | Inr _ \<Rightarrow> Finished)" and s': "s' = s\<lparr>s_back := b\<rparr>"
      using step w u by (auto split: sum.splits)
    then have "carries w' = []" "task_ok (sha256 E) (content b) w'" "\<And>j. holding w' j = holding w j"
      using w by (auto simp: carries_def task_ok_def holding_def split: sum.split)
    with D s' w c cnt place_delete [OF p, of h "content b" w'] show ?thesis
      by (simp add: race_ok_def held_split carries_def)
  qed (use assms in auto)
qed

lemma race_run_ok:
  assumes "binv (s_back s)" "race_ok (sha256 E) (content (s_back s)) base ws (s_meta s)"
    and "race_run E sched ws s = (ws', s')"
  shows "binv (s_back s') \<and> race_ok (sha256 E) (content (s_back s')) base ws' (s_meta s')"
  using assms
proof (induction sched arbitrary: ws s)
  case (Cons i sched)
  show ?case
  proof (cases "i < length ws")
    case False
    with Cons show ?thesis by simp
  next
    case True
    obtain w s1 where st: "blob_step E (ws ! i) s = (w, s1)" by force
    have ws: "ws = take i ws @ ws ! i # drop (Suc i) ws" by (rule id_take_nth_drop [OF True])
    have "binv (s_back s1) \<and>
      race_ok (sha256 E) (content (s_back s1)) base (take i ws @ w # drop (Suc i) ws) (s_meta s1)"
      using blob_step_ok [OF Cons.prems(1) _ st] Cons.prems(2) ws by metis
    then show ?thesis using Cons.IH [of s1 "ws[i := w]"] Cons.prems(3) True st
      by (simp add: upd_conv_take_nth_drop)
  qed
qed simp

end

text \<open>Over a backend whose deletes do not fail, no message is left over either.\<close>

context blob_backend
begin

lemma no_orphan_same:
  "no_orphan cont (us @ w # vs) m \<Longrightarrow> carries w' = carries w \<Longrightarrow> loc m' = loc m \<Longrightarrow> no_orphan cont (us @ w' # vs) m'"
  by (simp add: no_orphan_def carried_split)

lemma blob_step_no_orphan:
  assumes inv: "binv (s_back s)"
    and ok: "race_ok (sha256 E) (content (s_back s)) base (us @ w # vs) (s_meta s)"
    and no: "no_orphan (content (s_back s)) (us @ w # vs) (s_meta s)"
    and step: "blob_step E w s = (w', s')"
  shows "no_orphan (content (s_back s')) (us @ w' # vs) (s_meta s')"
proof (cases w)
  case (Wants sh d)
  then show ?thesis using step no_orphan_same [OF no, of w'] by (auto simp: carries_def split: if_splits)
next
  case w: (Uploading sh d)
  show ?thesis using inv
  proof (cases rule: upload_cases [where d = d])
    case (ok h b')
    then show ?thesis using no step w by (auto simp: no_orphan_def carried_split carries_def) blast
  next
    case (fail e b')
    then show ?thesis using step w no_orphan_same [OF no, of w'] by (auto simp: carries_def)
  qed
next
  case w: (Uploaded sh h n)
  show ?thesis
  proof (cases "blob_get (s_meta s) sh")
    case None
    obtain r m where cr: "blob_create (s_meta s) sh h n = (r, m)" by force
    have "w' = Holds sh" "s' = s\<lparr>s_meta := m\<rparr>" "loc m = (loc (s_meta s))(sh \<mapsto> (h, n))"
      using loc_create [OF None cr] step w None cr by auto
    moreover have "loc (s_meta s) sh = None" using None by (simp add: loc_None_iff)
    ultimately show ?thesis using no w
      by (auto simp: no_orphan_def carried_split carries_def fun_upd_def) (metis option.distinct(1))+
  next
    case Some
    then show ?thesis using step w no_orphan_same [OF no, of w'] by (auto simp: carries_def)
  qed
next
  case w: (Dropping sh h)
  obtain b where "delete E (s_back s) h = (Inr (), b)" "content b = (content (s_back s))(h := None)"
    using delete_spec [OF inv, of h] by blast
  then show ?thesis using no step w by (auto simp: no_orphan_def carried_split carries_def split: if_splits) blast
next
  case w: (Holds sh)
  have c: "counts_ok (s_meta s)" using ok by (simp add: race_ok_def)
  obtain q m where u: "blob_decref (s_meta s) sh = (q, m)" by force
  have l: "loc m j = (if j = sh \<and> rc (s_meta s) sh \<le> 1 then None else loc (s_meta s) j)" for j
    using loc_decref [OF c, of sh j] u by simp
  show ?thesis
  proof (cases q)
    case None
    then have "blob_get (s_meta s) sh = None \<or> 1 < rc (s_meta s) sh"
      using decref_handle(2) [of "s_meta s" sh] u by simp
    then have "loc m = loc (s_meta s)" using loc_None_iff [of "s_meta s" sh] by (auto simp: fun_eq_iff l)
    then show ?thesis using step w u None no_orphan_same [OF no, of w' m] by (auto simp: carries_def)
  next
    case (Some h)
    then obtain n where n: "loc (s_meta s) sh = Some (h, n)"
      using decref_handle(1) [of "s_meta s" sh h] u by auto
    have "x = h \<or> (\<exists>j k. loc m j = Some (x, k))" if "loc (s_meta s) j = Some (x, k)" for x j k
      using that n by (cases "j = sh") (auto simp: l)
    then show ?thesis using no step w u Some
      by (auto simp: no_orphan_def carried_split carries_def) metis
  qed
next
  case w: (Deleting h)
  obtain b where "delete E (s_back s) h = (Inr (), b)" "content b = (content (s_back s))(h := None)"
    using delete_spec [OF inv, of h] by blast
  then show ?thesis using no step w by (auto simp: no_orphan_def carried_split carries_def split: if_splits) blast
qed (use no step in auto)

lemma race_run_no_orphan:
  assumes "binv (s_back s)" "race_ok (sha256 E) (content (s_back s)) base ws (s_meta s)"
    and "no_orphan (content (s_back s)) ws (s_meta s)" "race_run E sched ws s = (ws', s')"
  shows "no_orphan (content (s_back s')) ws' (s_meta s')"
  using assms
proof (induction sched arbitrary: ws s)
  case (Cons i sched)
  show ?case
  proof (cases "i < length ws")
    case False
    with Cons show ?thesis by simp
  next
    case True
    obtain w s1 where st: "blob_step E (ws ! i) s = (w, s1)" by force
    have ws: "ws = take i ws @ ws ! i # drop (Suc i) ws" by (rule id_take_nth_drop [OF True])
    have ok: "race_ok (sha256 E) (content (s_back s)) base (take i ws @ ws ! i # drop (Suc i) ws) (s_meta s)"
      using Cons.prems(2) ws by metis
    have no: "no_orphan (content (s_back s)) (take i ws @ ws ! i # drop (Suc i) ws) (s_meta s)"
      using Cons.prems(3) ws by metis
    note one = faulty.blob_step_ok [OF Cons.prems(1) ok st] blob_step_no_orphan [OF Cons.prems(1) ok no st]
    show ?thesis using Cons.IH [of s1 "ws[i := w]"] one Cons.prems(4) True st
      by (simp add: upd_conv_take_nth_drop)
  qed
qed simp

end

lemma blobs_ok_race:
  assumes "carried ws = []" "\<And>w. w \<in> set ws \<Longrightarrow> task_ok hash cont w"
  shows "blobs_ok hash cont m (\<lambda>sh. base sh + held ws sh) \<longleftrightarrow> race_ok hash cont base ws m \<and> no_orphan cont ws m"
proof -
  have "rc m = (\<lambda>sh. base sh + held ws sh) \<longleftrightarrow> (\<forall>sh. rc m sh = base sh + held ws sh)" by (simp add: fun_eq_iff)
  then show ?thesis
    using assms unfolding blobs_ok_def race_ok_def no_orphan_def place_ok_def stored_def by simp
qed

text \<open>C11: However the uploads, registrations and releases of any number of threads interleave, over a
  backend where any transfer may fail: the count of every blob is the number of references that
  rows (\<open>base\<close>) and threads hold, and a blob that anybody holds is in the backend with its bytes.
  When deletes do not fail and no thread is in the middle of one, the backend holds exactly the
  registered blobs, each once, so the race of two writers for a new blob leaves one copy.\<close>

theorem concurrent_blobs_consistent:
  assumes "faulty_backend E content binv" "binv (s_back s0)"
    and "\<And>w. w \<in> set ws0 \<Longrightarrow> (\<exists>d. w = Wants (sha256 E d) d) \<or> (\<exists>sh. w = Holds sh)"
    and "blobs_ok (sha256 E) (content (s_back s0)) (s_meta s0) (\<lambda>sh. base sh + held ws0 sh)"
    and "race_run E sched ws0 s0 = (ws, s)"
  shows "(\<forall>sh. rc (s_meta s) sh = base sh + held ws sh) \<and>
    (\<forall>sh. 0 < base sh + held ws sh \<longrightarrow>
       (\<exists>h n. loc (s_meta s) sh = Some (h, n) \<and> stored (sha256 E) (content (s_back s)) sh h n)) \<and>
    (blob_backend E content binv \<longrightarrow> carried ws = [] \<longrightarrow>
       blobs_ok (sha256 E) (content (s_back s)) (s_meta s) (\<lambda>sh. base sh + held ws sh))"
proof -
  have w0: "carries w = []" "task_ok (sha256 E) cont w" if "w \<in> set ws0" for w cont
    using assms(3) [OF that] by (auto simp: carries_def task_ok_def)
  have "carried ws0 = []" using w0(1) by (simp add: carried_def)
  note start = blobs_ok_race [OF this w0(2), THEN iffD1, OF _ assms(4)]
  have fin: "race_ok (sha256 E) (content (s_back s)) base ws (s_meta s)"
    using faulty_backend.race_run_ok [OF assms(1,2) _ assms(5), of base] start by blast
  then have cnt: "rc (s_meta s) sh = base sh + held ws sh" for sh by (simp add: race_ok_def)
  moreover have "\<exists>h n. loc (s_meta s) sh = Some (h, n) \<and> stored (sha256 E) (content (s_back s)) sh h n"
    if "0 < base sh + held ws sh" for sh
  proof -
    have "blob_get (s_meta s) sh \<noteq> None" using rc_pos_iff [of "s_meta s" sh] fin cnt [of sh] that by (simp add: race_ok_def)
    then obtain h n where l: "loc (s_meta s) sh = Some (h, n)" by (auto simp: loc_def)
    then show ?thesis using placeD(1) [of "sha256 E" "content (s_back s)" "loc (s_meta s)" ws] fin
      by (auto simp: race_ok_def)
  qed
  moreover have "blobs_ok (sha256 E) (content (s_back s)) (s_meta s) (\<lambda>sh. base sh + held ws sh)"
    if "blob_backend E content binv" "carried ws = []"
  proof -
    have "no_orphan (content (s_back s)) ws (s_meta s)"
      using blob_backend.race_run_no_orphan [OF that(1) assms(2) _ _ assms(5), of base] start by blast
    moreover have "task_ok (sha256 E) (content (s_back s)) w" if "w \<in> set ws" for w
      using placeD(6) [of "sha256 E" "content (s_back s)" "loc (s_meta s)" ws w] fin that by (simp add: race_ok_def)
    ultimately show ?thesis using blobs_ok_race [OF that(2), of "sha256 E" "content (s_back s)" "s_meta s" base] fin by blast
  qed
  ultimately show ?thesis by blast
qed

text \<open>Two writers of the same new chunk: both upload, the second finds the first's row.\<close>

definition two_writers :: "blob_task list" where
  "two_writers = [Wants (byte_digest [7]) [7], Wants (byte_digest [7]) [7]]"

lemmas race_eval = numeral_2_eq_2 two_writers_def blob_get_def blob_create_def blob_incref_def
  blob_decref_def sql_select_def sql_insert_def sql_update_def sql_delete_def rc_def new_store_def

theorem concurrent_blobs_consistent_witness:
  "\<exists>s sh. race_run (mem_env byte_digest) [0, 1, 0, 1, 1, 0, 0] two_writers demo_store = ([Holds sh, Holds sh], s) \<and>
      rc (s_meta s) sh = 2 \<and> blobs_ok byte_digest (mem_content (s_back s)) (s_meta s) (held [Holds sh, Holds sh])"
proof -
  let ?sh = "byte_digest [7]"
  obtain s where run: "race_run (mem_env byte_digest) [0, 1, 0, 1, 1, 0, 0] two_writers demo_store =
      ([Holds ?sh, Holds ?sh], s)"
    by (simp add: race_eval demo_store_def mem_upload_def mem_delete_def mem_new_def Let_def)
  have start: "blobs_ok byte_digest (mem_content (s_back demo_store)) (s_meta demo_store) (\<lambda>sh. 0 + held two_writers sh)"
    using demo_ok by (simp add: store_ok_def held_def two_writers_def holding_def refs_def [abs_def] demo_store_def new_store_def sql_count_def)
  have ws: "(\<exists>d. w = Wants (byte_digest d) d) \<or> (\<exists>sh. w = Holds sh)" if "w \<in> set two_writers" for w
    using that by (auto simp: two_writers_def)
  have inv: "mem_inv (s_back demo_store)" by (simp add: demo_store_def new_store_def mem_inv_new)
  note res = concurrent_blobs_consistent [OF mem.faulty.faulty_backend_axioms, where hash1 = byte_digest, simplified, OF inv ws start run]
  have "rc (s_meta s) ?sh = 2" using res by (simp add: held_def holding_def)
  moreover have "blobs_ok byte_digest (mem_content (s_back s)) (s_meta s) (held [Holds ?sh, Holds ?sh])"
    using res mem.blob_backend_axioms [of byte_digest] by (simp add: carried_def carries_def)
  ultimately show ?thesis using run by blast
qed

text \<open>
  When the delete of the second copy fails, the upload raises although it has counted its
  reference. \<open>put_file\<close> skips the release of an upload that raised (``never registered''), so
  after the other writer has let go the row stays, with a reference that nobody will release.
\<close>

definition no_delete_env :: "nat env" where
  "no_delete_env = \<lparr>upload = (\<lambda>n _. (Inr n, n + 1)), download = (\<lambda>n _. (Inl ConnectionError, n)),
     delete = (\<lambda>n _. (Inl ConnectionError, n)), sha256 = byte_digest\<rparr>"

lemma failed_copy_delete_keeps_reference:
  "\<exists>s. race_run no_delete_env [0, 1, 0, 1, 1, 0, 0, 1] two_writers (new_store (new_meta 0 0 0) 0 2 None 1 0) =
      ([LostRef ConnectionError (byte_digest [7]), Finished], s) \<and> rc (s_meta s) (byte_digest [7]) = 1"
  by (simp add: race_eval no_delete_env_def)

end
