(* ===== verification/FastTransfer.thy ===== *)
theory FastTransfer
  imports Prelude
begin

section \<open>Parallel part transfer (tgfs/fasttransfer.py)\<close>

text \<open>
  A large blob is moved in parts of 512 KiB over several connections at once. The network is a
  parameter: what a request answers, how Telethon makes a connection, and how time passes while a
  task sleeps, over an arbitrary state. The tasks of one transfer share one iterator over the
  part numbers; their interleaving is a schedule, the list of the workers in the order in
  which they get to run.
\<close>

definition PART :: nat where "PART = 512 * 1024"
definition BIG_FILE :: nat where "BIG_FILE = 10 * 1024 * 1024"
definition MAX_PARTS :: nat where "MAX_PARTS = 8000"
definition PART_RETRIES :: nat where "PART_RETRIES = 4"

datatype file_reply = FileBytes bytes | CdnRedirect

text \<open>
  The requests the code sends, by their arguments: \<open>GetFile\<close> with a location, an offset and a
  limit, and \<open>SaveBigFilePart\<close>, which answers a bool. A location is a number.
\<close>

record ('c, 'n) net =
  n_home :: nat
  n_exported :: "nat \<Rightarrow> 'n \<Rightarrow> (exn + 'c) \<times> 'n"
  n_connect :: "'n \<Rightarrow> (exn + 'c) \<times> 'n"
  n_disconnect :: "'c \<Rightarrow> 'n \<Rightarrow> 'n"
  n_sleep :: "nat \<Rightarrow> 'n \<Rightarrow> 'n"
  n_get :: "'c \<Rightarrow> nat \<Rightarrow> nat \<Rightarrow> nat \<Rightarrow> 'n \<Rightarrow> (exn + file_reply) \<times> 'n"
  n_save :: "'c \<Rightarrow> nat \<Rightarrow> nat \<Rightarrow> nat \<Rightarrow> bytes \<Rightarrow> 'n \<Rightarrow> (exn + bool) \<times> 'n"
  n_random :: "'n \<Rightarrow> nat \<times> 'n"

subsection \<open>The pool of connections\<close>

record 'c pool =
  sp_dc :: nat
  sp_size :: nat
  sp_senders :: "'c list"

text \<open>
  \<open>_make\<close>: Telethon exports the authorization to another data center (\<open>n_exported\<close>); at the home
  data center a new connection uses the account's own key (\<open>n_connect\<close>).
\<close>

definition pool_make :: "('c, 'n) net \<Rightarrow> nat \<Rightarrow> 'n \<Rightarrow> (exn + 'c) \<times> 'n" where
  "pool_make N dc n = (if dc \<noteq> n_home N then n_exported N dc n else n_connect N n)"

text \<open>\<open>get\<close>: connections made before one fails stay in the pool.\<close>

fun pool_fill :: "('c, 'n) net \<Rightarrow> nat \<Rightarrow> 'c pool \<Rightarrow> 'n \<Rightarrow> (exn + 'c list) \<times> 'c pool \<times> 'n" where
  "pool_fill N 0 p n = (Inr (sp_senders p), p, n)"
| "pool_fill N (Suc k) p n =
     (case pool_make N (sp_dc p) n of
        (Inl e, n1) \<Rightarrow> (Inl e, p, n1)
      | (Inr c, n1) \<Rightarrow> pool_fill N k (p\<lparr>sp_senders := sp_senders p @ [c]\<rparr>) n1)"

definition pool_get :: "('c, 'n) net \<Rightarrow> 'c pool \<Rightarrow> 'n \<Rightarrow> (exn + 'c list) \<times> 'c pool \<times> 'n" where
  "pool_get N p n = pool_fill N (sp_size p - length (sp_senders p)) p n"

text \<open>\<open>reset\<close>: what a disconnect raises is dropped.\<close>

definition pool_reset :: "('c, 'n) net \<Rightarrow> 'c pool \<Rightarrow> 'n \<Rightarrow> 'c pool \<times> 'n" where
  "pool_reset N p n = (p\<lparr>sp_senders := []\<rparr>, fold (n_disconnect N) (sp_senders p) n)"

subsection \<open>One request\<close>

definition net_error :: "exn \<Rightarrow> bool" where
  "net_error e = (case e of ConnectionError \<Rightarrow> True | OSError _ \<Rightarrow> True | _ \<Rightarrow> False)"

text \<open>
  \<open>for attempt in range(_PART_RETRIES)\<close>; the last argument counts the attempts left. A flood
  wait uses up an attempt too.
\<close>

fun call_loop :: "(nat \<Rightarrow> 'n \<Rightarrow> 'n) \<Rightarrow> ('n \<Rightarrow> (exn + 'a) \<times> 'n) \<Rightarrow> 'n \<Rightarrow> nat \<Rightarrow> (exn + 'a) \<times> 'n" where
  "call_loop sleep send n 0 = (Inl ConnectionError, n)"
| "call_loop sleep send n (Suc left) =
     (case send n of
        (Inr x, n1) \<Rightarrow> (Inr x, n1)
      | (Inl e, n1) \<Rightarrow>
          (case e of
             FloodWait secs \<Rightarrow> call_loop sleep send (sleep (secs + 1) n1) left
           | _ \<Rightarrow> if net_error e
                  then (if left = 0 then (Inl e, n1)
                        else call_loop sleep send
                               (sleep (min (2 ^ (PART_RETRIES - Suc left)) 8) n1) left)
                  else (Inl e, n1)))"

definition part_call :: "('c, 'n) net \<Rightarrow> ('n \<Rightarrow> (exn + 'a) \<times> 'n) \<Rightarrow> 'n \<Rightarrow> (exn + 'a) \<times> 'n" where
  "part_call N send n = call_loop (n_sleep N) send n PART_RETRIES"

subsection \<open>All parts\<close>

text \<open>
  A worker asks the shared iterator for the next number, runs \<open>do_part\<close> on it, and ends when
  the iterator is empty. When a part raises, the tasks are cancelled.
\<close>

datatype worker = Ready | Sending nat | Ended

type_synonym 's parts = "nat \<times> worker list \<times> 's"

definition part_step :: "nat \<Rightarrow> (nat \<Rightarrow> nat \<Rightarrow> 's \<Rightarrow> (exn + unit) \<times> 's) \<Rightarrow> nat \<Rightarrow> 's parts \<Rightarrow> (unit, 's parts) res" where
  "part_step cnt do_part w st =
     (case st of (nxt, ws, s) \<Rightarrow>
        if w \<ge> length ws then (Inr (), st)
        else (case ws ! w of
                Ended \<Rightarrow> (Inr (), st)
              | Ready \<Rightarrow> if nxt < cnt then (Inr (), (nxt + 1, ws[w := Sending nxt], s))
                         else (Inr (), (nxt, ws[w := Ended], s))
              | Sending i \<Rightarrow>
                  (case do_part w i s of
                     (Inl e, s1) \<Rightarrow> (Inl e, (nxt, ws, s1))
                   | (Inr _, s1) \<Rightarrow> (Inr (), (nxt, ws[w := Ready], s1)))))"

fun part_steps :: "nat \<Rightarrow> (nat \<Rightarrow> nat \<Rightarrow> 's \<Rightarrow> (exn + unit) \<times> 's) \<Rightarrow> nat list \<Rightarrow> 's parts \<Rightarrow> (unit, 's parts) res" where
  "part_steps cnt do_part [] st = (Inr (), st)"
| "part_steps cnt do_part (w # sched) st =
     (case part_step cnt do_part w st of
        (Inl e, st1) \<Rightarrow> (Inl e, st1)
      | (Inr _, st1) \<Rightarrow> part_steps cnt do_part sched st1)"

definition all_ended :: "worker list \<Rightarrow> bool" where
  "all_ended ws = list_all (\<lambda>w. w = Ended) ws"

text \<open>
  \<open>gather\<close> waits for every task: a schedule that does not bring all workers to their end is
  not a run of it, and has no result.
\<close>

definition run_parts ::
    "('c, 'n) net \<Rightarrow> 'c pool \<Rightarrow> nat \<Rightarrow> ('c \<Rightarrow> nat \<Rightarrow> 's \<times> 'n \<Rightarrow> (exn + unit) \<times> 's \<times> 'n) \<Rightarrow> nat list \<Rightarrow>
     's \<times> 'n \<Rightarrow> ((exn + unit) \<times> 'c pool \<times> 's \<times> 'n) option" where
  "run_parts N p cnt do_part sched sn =
     (case sn of (s, n) \<Rightarrow>
       (case pool_get N p n of
          (Inl e, p1, n1) \<Rightarrow> Some (Inl e, p1, s, n1)
        | (Inr senders, p1, n1) \<Rightarrow>
            (case part_steps cnt (\<lambda>w i. do_part (senders ! w) i) sched
                    (0, replicate (length senders) Ready, (s, n1)) of
               (Inl e, (_, _, (s2, n2))) \<Rightarrow>
                 (case pool_reset N p1 n2 of (p2, n3) \<Rightarrow> Some (Inl e, p2, s2, n3))
             | (Inr _, (_, ws, (s2, n2))) \<Rightarrow>
                 if all_ended ws then Some (Inr (), p1, s2, n2) else None)))"

subsection \<open>Upload and download\<close>

definition part_count :: "nat \<Rightarrow> nat" where
  "part_count n = (n + PART - 1) div PART"

text \<open>\<open>InputFileBig(file_id, count, name)\<close>, without the name.\<close>

type_synonym big_file = "nat \<times> nat"

definition upload_part ::
    "('c, 'n) net \<Rightarrow> nat \<Rightarrow> bytes \<Rightarrow> 'c \<Rightarrow> nat \<Rightarrow> unit \<times> 'n \<Rightarrow> (exn + unit) \<times> unit \<times> 'n" where
  "upload_part N file_id d c i sn =
     (case part_call N (n_save N c file_id i (part_count (length d)) (slice d (i * PART) ((i + 1) * PART)))
             (snd sn) of
        (Inl e, n1) \<Rightarrow> (Inl e, (), n1)
      | (Inr ok, n1) \<Rightarrow> if \<not> ok then (Inl RuntimeError, (), n1) else (Inr (), (), n1))"

definition upload_big ::
    "('c, 'n) net \<Rightarrow> 'c pool \<Rightarrow> bytes \<Rightarrow> nat list \<Rightarrow> 'n \<Rightarrow> ((exn + big_file) \<times> 'c pool \<times> 'n) option" where
  "upload_big N p d sched n =
     (let count = part_count (length d)
      in if count > MAX_PARTS then Some (Inl ValueError, p, n)
         else (case n_random N n of
                 (file_id, n1) \<Rightarrow>
                   (case run_parts N p count (upload_part N file_id d) sched ((), n1) of
                      None \<Rightarrow> None
                    | Some (Inl e, p2, _, n2) \<Rightarrow> Some (Inl e, p2, n2)
                    | Some (Inr _, p2, _, n2) \<Rightarrow> Some (Inr (file_id, count), p2, n2))))"

text \<open>\<open>out[off : off + len(b)] = b\<close>. The location is the one of the message's media.\<close>

definition download_part ::
    "('c, 'n) net \<Rightarrow> nat \<Rightarrow> nat \<Rightarrow> 'c \<Rightarrow> nat \<Rightarrow> bytes \<times> 'n \<Rightarrow> (exn + unit) \<times> bytes \<times> 'n" where
  "download_part N loc sz c i sn =
     (let off = i * PART
      in case part_call N (n_get N c loc off PART) (snd sn) of
           (Inl e, n1) \<Rightarrow> (Inl e, fst sn, n1)
         | (Inr CdnRedirect, n1) \<Rightarrow> (Inl RuntimeError, fst sn, n1)
         | (Inr (FileBytes b), n1) \<Rightarrow>
             (let want = min PART (sz - off)
              in if length b \<noteq> want then (Inl (OSError None), fst sn, n1)
                 else (Inr (), take off (fst sn) @ b @ drop (off + length b) (fst sn), n1)))"

definition download_doc ::
    "('c, 'n) net \<Rightarrow> 'c pool \<Rightarrow> nat option \<times> nat \<Rightarrow> nat \<Rightarrow> nat list \<Rightarrow> 'n \<Rightarrow> ((exn + bytes) \<times> 'c pool \<times> 'n) option" where
  "download_doc N p place sz sched n =
     (let (dc_id, loc) = place
      in if dc_id \<noteq> None \<and> dc_id \<noteq> Some (sp_dc p) then Some (Inl RuntimeError, p, n)
      else if sz \<le> 0 then Some (Inr [], p, n)
      else (case run_parts N p (part_count sz) (download_part N loc sz) sched (zeros sz, n) of
              None \<Rightarrow> None
            | Some (Inl e, p2, _, n2) \<Rightarrow> Some (Inl e, p2, n2)
            | Some (Inr _, p2, out, n2) \<Rightarrow> Some (Inr out, p2, n2)))"

end
