(* ===== verification/Telegram.thy ===== *)
theory Telegram
  imports FastTransfer "HOL-Library.AList"
begin

section \<open>The Telegram backend (tgfs/telegram.py)\<close>

text \<open>
  Blobs as document messages of one channel. Telethon's client is a parameter: a record of the
  calls the code makes, over the state of the outside world, which also decides the schedule
  of a parallel transfer. A coroutine that may never finish has an option as its result.
  Strings are ASCII here, so \<open>lower\<close> maps the 26 capital letters.
\<close>

definition MAX_RETRIES :: nat where "MAX_RETRIES = 5"
definition MIB :: nat where "MIB = 1024 * 1024"
definition LIMIT_PREMIUM :: nat where "LIMIT_PREMIUM = 4000 * MIB"
definition LIMIT_FREE :: nat where "LIMIT_FREE = 1950 * MIB"

record entity =
  e_id :: int
  e_username :: "string option"
  e_title :: "string option"

record dialog =
  d_is_channel :: bool
  d_id :: int
  d_entity :: entity

text \<open>
  A message: whether it has media, its document's data center and size, and the location of
  the media, as Telethon's \<open>get_input_location\<close> gives it.
\<close>

record message =
  m_id :: nat
  m_media :: bool
  m_document :: "(nat \<times> nat) option"
  m_location :: nat

datatype channel = ChanId int | ChanName string

datatype upload_file = Stream bytes | Big nat nat

record ('c, 'n) client =
  t_connect :: "'n \<Rightarrow> (exn + unit) \<times> 'n"
  t_authorized :: "'n \<Rightarrow> (exn + bool) \<times> 'n"
  t_premium :: "'n \<Rightarrow> (exn + bool) \<times> 'n"
  t_get_entity :: "channel \<Rightarrow> 'n \<Rightarrow> (exn + entity) \<times> 'n"
  t_dialogs :: "'n \<Rightarrow> (exn + dialog list) \<times> 'n"
  t_send_file :: "entity \<Rightarrow> upload_file \<Rightarrow> 'n \<Rightarrow> (exn + nat) \<times> 'n"
  t_get_message :: "entity \<Rightarrow> nat \<Rightarrow> 'n \<Rightarrow> (exn + message option) \<times> 'n"
  t_download_media :: "message \<Rightarrow> 'n \<Rightarrow> (exn + bytes) \<times> 'n"
  t_delete_messages :: "entity \<Rightarrow> nat \<Rightarrow> 'n \<Rightarrow> (exn + unit) \<times> 'n"
  t_disconnect :: "'n \<Rightarrow> 'n"
  t_schedule :: "'n \<Rightarrow> nat list"
  t_net :: "('c, 'n) net"

record ('c, 'n) tg =
  tg_client :: "('c, 'n) client option"
  tg_entity :: entity
  tg_pools :: "(nat \<times> 'c pool) list"
  tg_premium :: bool
  tg_conns :: nat
  tg_world :: 'n

subsection \<open>The retry helper\<close>

text \<open>
  \<open>_with_retry\<close>: a flood wait is waited out any number of times, a network error (every
  \<open>OSError\<close>, a missing blob included) at most four times.
\<close>

text \<open>The \<open>except\<close> clauses: how long to sleep and the new count of attempts, if it is retried.\<close>

definition retry_after :: "exn + 'a \<Rightarrow> nat \<Rightarrow> (nat \<times> nat) option" where
  "retry_after r attempt =
     (case r of
        Inr _ \<Rightarrow> None
      | Inl e \<Rightarrow>
          (case e of
             FloodWait secs \<Rightarrow> Some (secs + 1, attempt)
           | _ \<Rightarrow>
               if net_error e
               then (if attempt + 1 \<ge> MAX_RETRIES then None
                     else Some (min (2 ^ (attempt + 1)) 30, attempt + 1))
               else None))"

partial_function (option) with_retry ::
    "('s \<Rightarrow> ((exn + 'a) \<times> 's) option) \<Rightarrow> (nat \<Rightarrow> 's \<Rightarrow> 's) \<Rightarrow> 's \<Rightarrow> nat \<Rightarrow> ((exn + 'a) \<times> 's) option" where
  "with_retry go sleep s attempt =
     Option.bind (go s) (\<lambda>rs.
       case retry_after (fst rs) attempt of
         None \<Rightarrow> Some rs
       | Some ka \<Rightarrow> with_retry go sleep (sleep (fst ka) (snd rs)) (snd ka))"

declare with_retry.simps [code]

subsection \<open>Resolving the storage channel\<close>

fun dec :: "nat \<Rightarrow> string" where
  "dec n = (if n < 10 then [char_of (48 + n)] else dec (n div 10) @ [char_of (48 + n mod 10)])"

declare dec.simps [simp del]

definition undec :: "string \<Rightarrow> exn + nat" where
  "undec s = (if s = [] then Inl ValueError else Inr (foldl (\<lambda>a c. a * 10 + (of_char c - 48)) 0 s))"

definition lower :: "string \<Rightarrow> string" where
  "lower s = map (\<lambda>c. if 65 \<le> (of_char c :: nat) \<and> (of_char c :: nat) \<le> 90
                      then char_of ((of_char c :: nat) + 32) else c) s"

text \<open>The ids a numeric channel may stand for; \<open>int("")\<close> raises.\<close>

definition channel_ids :: "int \<Rightarrow> exn + int set" where
  "channel_ids ch =
     (let raw = nat \<bar>ch\<bar>; s = dec raw
      in if take 3 s = ''100''
         then (case undec (drop 3 s) of Inl e \<Rightarrow> Inl e | Inr k \<Rightarrow> Inr {int raw, int k})
         else Inr {int raw})"

definition title_match :: "string \<Rightarrow> entity \<Rightarrow> bool" where
  "title_match title ent =
     ((case e_username ent of None \<Rightarrow> False
       | Some u \<Rightarrow> u \<noteq> [] \<and> lower u = lower title) \<or> e_title ent = Some title)"

fun scan_dialogs :: "(dialog \<Rightarrow> bool) \<Rightarrow> dialog list \<Rightarrow> exn + entity" where
  "scan_dialogs match [] = Inl RuntimeError"
| "scan_dialogs match (d # ds) =
     (if \<not> d_is_channel d then scan_dialogs match ds
      else if match d then Inr (d_entity d)
      else scan_dialogs match ds)"

definition resolve_channel :: "('c, 'n) client \<Rightarrow> channel \<Rightarrow> 'n \<Rightarrow> (exn + entity) \<times> 'n" where
  "resolve_channel C ch n =
     (case t_get_entity C ch n of
        (Inr ent, n1) \<Rightarrow> (Inr ent, n1)
      | (Inl e, n1) \<Rightarrow>
          if e = ValueError \<or> e = TypeError
          then (case (case ch of
                        ChanId c \<Rightarrow> (case channel_ids c of
                            Inl e' \<Rightarrow> Inl e'
                          | Inr ids \<Rightarrow> Inr (\<lambda>d. e_id (d_entity d) \<in> ids \<or> d_id d = c))
                      | ChanName s \<Rightarrow> Inr (\<lambda>d. title_match (dropWhile (\<lambda>c. c = CHR ''@'') s) (d_entity d))) of
                  Inl e' \<Rightarrow> (Inl e', n1)
                | Inr match \<Rightarrow>
                    (case t_dialogs C n1 of
                       (Inl e', n2) \<Rightarrow> (Inl e', n2)
                     | (Inr ds, n2) \<Rightarrow> (scan_dialogs match ds, n2)))
          else (Inl e, n1))"

subsection \<open>Connecting\<close>

record tgconfig =
  cf_channel :: channel
  cf_chunk_size :: nat
  cf_connections :: int

text \<open>\<open>fast\<close>: whether the module \<open>fasttransfer\<close> could be imported.\<close>

definition pick_conns :: "bool \<Rightarrow> bool \<Rightarrow> int \<Rightarrow> nat" where
  "pick_conns fast premium req =
     (if \<not> fast then 1 else if req > 0 then nat req else if premium then 8 else 4)"

definition tg_connect ::
    "('c, 'n) client \<Rightarrow> bool \<Rightarrow> tgconfig \<Rightarrow> 'n \<Rightarrow> (exn + ('c, 'n) tg) \<times> 'n" where
  "tg_connect C fast cfg n =
     (case t_connect C n of
        (Inl e, n1) \<Rightarrow> (Inl e, n1)
      | (Inr _, n1) \<Rightarrow>
          (case t_authorized C n1 of
             (Inl e, n2) \<Rightarrow> (Inl e, n2)
           | (Inr ok, n2) \<Rightarrow>
               if \<not> ok then (Inl RuntimeError, n2)
               else
                 (case resolve_channel C (cf_channel cfg) n2 of
                    (Inl e, n3) \<Rightarrow> (Inl e, n3)
                  | (Inr ent, n3) \<Rightarrow>
                      (case t_premium C n3 of
                         (Inl e, n4) \<Rightarrow> (Inl e, n4)
                       | (Inr prem, n4) \<Rightarrow>
                           if cf_chunk_size cfg > (if prem then LIMIT_PREMIUM else LIMIT_FREE)
                           then (Inl RuntimeError, n4)
                           else (Inr \<lparr>tg_client = Some C, tg_entity = ent, tg_pools = [],
                                      tg_premium = prem,
                                      tg_conns = pick_conns fast prem (cf_connections cfg),
                                      tg_world = n4\<rparr>, n4)))))"

subsection \<open>Upload, download, delete\<close>

definition get_pool :: "('c, 'n) tg \<Rightarrow> nat \<Rightarrow> 'c pool" where
  "get_pool T dc =
     (case map_of (tg_pools T) dc of
        Some p \<Rightarrow> p
      | None \<Rightarrow> \<lparr>sp_dc = dc, sp_size = tg_conns T, sp_senders = []\<rparr>)"

definition put_pool :: "('c, 'n) tg \<Rightarrow> 'c pool \<Rightarrow> ('c, 'n) tg" where
  "put_pool T p = T\<lparr>tg_pools := AList.update (sp_dc p) p (tg_pools T)\<rparr>"

text \<open>The parallel path; \<open>Inr None\<close> asks for the stock path.\<close>

definition try_big :: "('c, 'n) client \<Rightarrow> bytes \<Rightarrow> ('c, 'n) tg \<Rightarrow> (upload_file option \<times> ('c, 'n) tg) option" where
  "try_big C d T =
     (if tg_conns T > 1 \<and> length d > BIG_FILE
      then (case upload_big (t_net C) (get_pool T (n_home (t_net C))) d (t_schedule C (tg_world T)) (tg_world T) of
              None \<Rightarrow> None
            | Some (Inl e, p, n) \<Rightarrow> Some (None, (put_pool T p)\<lparr>tg_world := n\<rparr>)
            | Some (Inr (fid, cnt), p, n) \<Rightarrow> Some (Some (Big fid cnt), (put_pool T p)\<lparr>tg_world := n\<rparr>))
      else Some (None, T))"

definition upload_go :: "('c, 'n) client \<Rightarrow> bytes \<Rightarrow> ('c, 'n) tg \<Rightarrow> ((exn + nat) \<times> ('c, 'n) tg) option" where
  "upload_go C d T =
     (case try_big C d T of
        None \<Rightarrow> None
      | Some (file, T1) \<Rightarrow>
          (case t_send_file C (tg_entity T1) (case file of Some f \<Rightarrow> f | None \<Rightarrow> Stream d) (tg_world T1) of
             (r, n) \<Rightarrow> Some (r, T1\<lparr>tg_world := n\<rparr>)))"

definition try_parallel :: "('c, 'n) client \<Rightarrow> message \<Rightarrow> ('c, 'n) tg \<Rightarrow> (bytes option \<times> ('c, 'n) tg) option" where
  "try_parallel C msg T =
     (case m_document msg of
        Some (dc, sz) \<Rightarrow>
          if tg_conns T > 1 \<and> sz > 4 * MIB
          then (case download_doc (t_net C) (get_pool T dc) (Some dc, m_location msg) sz (t_schedule C (tg_world T)) (tg_world T) of
                  None \<Rightarrow> None
                | Some (Inl e, p, n) \<Rightarrow> Some (None, (put_pool T p)\<lparr>tg_world := n\<rparr>)
                | Some (Inr d, p, n) \<Rightarrow> Some (Some d, (put_pool T p)\<lparr>tg_world := n\<rparr>))
          else Some (None, T)
      | None \<Rightarrow> Some (None, T))"

definition download_go :: "('c, 'n) client \<Rightarrow> nat \<Rightarrow> ('c, 'n) tg \<Rightarrow> ((exn + bytes) \<times> ('c, 'n) tg) option" where
  "download_go C handle T =
     (case t_get_message C (tg_entity T) handle (tg_world T) of
        (Inl e, n) \<Rightarrow> Some (Inl e, T\<lparr>tg_world := n\<rparr>)
      | (Inr m, n) \<Rightarrow>
          (case m of
             None \<Rightarrow> Some (Inl (OSError None), T\<lparr>tg_world := n\<rparr>)
           | Some msg \<Rightarrow>
               if \<not> m_media msg then Some (Inl (OSError None), T\<lparr>tg_world := n\<rparr>)
               else
                 (case try_parallel C msg (T\<lparr>tg_world := n\<rparr>) of
                    None \<Rightarrow> None
                  | Some (Some d, T1) \<Rightarrow> Some (Inr d, T1)
                  | Some (None, T1) \<Rightarrow>
                      (case t_download_media C msg (tg_world T1) of
                         (r, n1) \<Rightarrow> Some (r, T1\<lparr>tg_world := n1\<rparr>)))))"

definition delete_go :: "('c, 'n) client \<Rightarrow> nat \<Rightarrow> ('c, 'n) tg \<Rightarrow> ((exn + unit) \<times> ('c, 'n) tg) option" where
  "delete_go C handle T =
     (case t_delete_messages C (tg_entity T) handle (tg_world T) of
        (r, n) \<Rightarrow> Some (r, T\<lparr>tg_world := n\<rparr>))"

text \<open>The property \<open>client\<close> raises when not connected, inside the retried coroutine.\<close>

definition tg_retry ::
    "(('c, 'n) client \<Rightarrow> ('c, 'n) tg \<Rightarrow> ((exn + 'a) \<times> ('c, 'n) tg) option) \<Rightarrow> ('c, 'n) tg \<Rightarrow>
     ((exn + 'a) \<times> ('c, 'n) tg) option" where
  "tg_retry go T =
     with_retry
       (\<lambda>T. case tg_client T of None \<Rightarrow> Some (Inl RuntimeError, T) | Some C \<Rightarrow> go C T)
       (\<lambda>k T. case tg_client T of None \<Rightarrow> T | Some C \<Rightarrow> T\<lparr>tg_world := n_sleep (t_net C) k (tg_world T)\<rparr>)
       T 0"

definition tg_upload :: "('c, 'n) tg \<Rightarrow> bytes \<Rightarrow> ((exn + nat) \<times> ('c, 'n) tg) option" where
  "tg_upload T d = tg_retry (\<lambda>C. upload_go C d) T"

definition tg_download :: "('c, 'n) tg \<Rightarrow> nat \<Rightarrow> ((exn + bytes) \<times> ('c, 'n) tg) option" where
  "tg_download T handle = tg_retry (\<lambda>C. download_go C handle) T"

definition tg_delete :: "('c, 'n) tg \<Rightarrow> nat \<Rightarrow> ((exn + unit) \<times> ('c, 'n) tg) option" where
  "tg_delete T handle = tg_retry (\<lambda>C. delete_go C handle) T"

definition tg_close :: "('c, 'n) tg \<Rightarrow> ('c, 'n) tg" where
  "tg_close T =
     (case tg_client T of
        None \<Rightarrow> T
      | Some C \<Rightarrow>
          (let n = fold (\<lambda>(_, p) n. snd (pool_reset (t_net C) p n)) (tg_pools T) (tg_world T)
           in T\<lparr>tg_client := None, tg_pools := [], tg_world := t_disconnect C n\<rparr>))"

end
