(* ===== verification/Config.thy ===== *)
theory Config
  imports Telegram
begin

section \<open>Configuration (tgfs/config.py)\<close>

text \<open>
  Values as the TOML reader or the environment gives them; a TOML float comes with its text, as
  \<open>str\<close> writes it. Floats are rationals, so their rounding is not modelled, and \<open>float(s)\<close> is read
  without exponents, \<open>inf\<close>, \<open>nan\<close> and underscores. Strings are ASCII and paths are strings.
\<close>

datatype cfgval = VNone | VInt int | VNum rat string | VStr string

definition is_digit :: "char \<Rightarrow> bool" where
  "is_digit c \<longleftrightarrow> 48 \<le> (of_char c :: nat) \<and> (of_char c :: nat) \<le> 57"

definition is_space :: "char \<Rightarrow> bool" where
  "is_space c \<longleftrightarrow> (of_char c :: nat) = 32 \<or> 9 \<le> (of_char c :: nat) \<and> (of_char c :: nat) \<le> 13"

definition strip :: "string \<Rightarrow> string" where
  "strip s = rev (dropWhile is_space (rev (dropWhile is_space s)))"

definition digits_value :: "string \<Rightarrow> int" where
  "digits_value s = foldl (\<lambda>a c. a * 10 + (of_char c - 48)) 0 s"

text \<open>\<open>int(s)\<close> of a string: an optional sign and digits, with single underscores between them.\<close>

fun plain_digits :: "string \<Rightarrow> string option" where
  "plain_digits [] = None"
| "plain_digits [c] = (if is_digit c then Some [c] else None)"
| "plain_digits (c # d # cs) =
     (if \<not> is_digit c then None
      else map_option ((#) c) (plain_digits (if d = CHR ''_'' then cs else d # cs)))"

definition split_sign :: "string \<Rightarrow> bool \<times> string" where
  "split_sign s =
     (case s of
        [] \<Rightarrow> (False, s)
      | c # cs \<Rightarrow> if c = CHR ''-'' then (True, cs) else if c = CHR ''+'' then (False, cs) else (False, s))"

definition parse_int :: "string \<Rightarrow> exn + int" where
  "parse_int s =
     (case split_sign (strip s) of
        (neg, ds) \<Rightarrow>
          (case plain_digits ds of
             None \<Rightarrow> Inl ValueError
           | Some cs \<Rightarrow> Inr (if neg then - digits_value cs else digits_value cs)))"

text \<open>\<open>float(s)\<close> of digits and points: at most one point, at least one digit.\<close>

definition parse_decimal :: "string \<Rightarrow> exn + rat" where
  "parse_decimal s =
     (let whole = takeWhile is_digit s; rest = dropWhile is_digit s
      in case rest of
           [] \<Rightarrow> if whole = [] then Inl ValueError else Inr (of_int (digits_value whole))
         | c # fr \<Rightarrow>
             if c \<noteq> CHR ''.'' \<or> \<not> list_all is_digit fr \<or> (whole = [] \<and> fr = []) then Inl ValueError
             else Inr (of_int (digits_value whole) + of_int (digits_value fr) / 10 ^ length fr))"

definition UNITS :: "string \<rightharpoonup> int" where
  "UNITS = map_of [('''', 1), (''b'', 1), (''k'', 1000), (''kb'', 1000), (''kib'', 1024),
     (''m'', 1000 ^ 2), (''mb'', 1000 ^ 2), (''mib'', 1024 ^ 2),
     (''g'', 1000 ^ 3), (''gb'', 1000 ^ 3), (''gib'', 1024 ^ 3)]"

text \<open>\<open>str(v)\<close>, for the values whose text the code looks at.\<close>

definition to_str :: "cfgval \<Rightarrow> string" where
  "to_str v =
     (case v of
        VNone \<Rightarrow> ''None''
      | VStr s \<Rightarrow> s
      | VInt i \<Rightarrow> (if i < 0 then CHR ''-'' # dec (nat (- i)) else dec (nat i))
      | VNum _ s \<Rightarrow> s)"

definition size_char :: "char \<Rightarrow> bool" where
  "size_char c \<longleftrightarrow> is_digit c \<or> c = CHR ''.''"

definition parse_size :: "cfgval \<Rightarrow> exn + int" where
  "parse_size v =
     (case v of
        VInt i \<Rightarrow> Inr i
      | _ \<Rightarrow>
          (let s = filter (\<lambda>c. c \<noteq> CHR '' '') (lower (strip (to_str v)))
           in case UNITS (dropWhile size_char s) of
                None \<Rightarrow> Inl ValueError
              | Some k \<Rightarrow>
                  (case parse_decimal (takeWhile size_char s) of
                     Inl e \<Rightarrow> Inl e
                   | Inr q \<Rightarrow> Inr \<lfloor>q * of_int k\<rfloor>)))"

subsection \<open>Loading\<close>

record config =
  k_api_id :: int
  k_api_hash :: string
  k_session :: string
  k_channel :: cfgval
  k_chunk_size :: int
  k_cache_cap :: int
  k_connections :: int
  k_delay :: rat
  k_upload_workers :: int
  k_download_workers :: int
  k_readahead :: int
  k_meta_db :: string
  k_cache_dir :: string
  k_mount :: string
  k_root :: string

type_synonym section_map = "string \<rightharpoonup> cfgval"

definition is_absolute :: "string \<Rightarrow> bool" where
  "is_absolute p \<longleftrightarrow> take 1 p = ''/''"

text \<open>\<open>root / p\<close>.\<close>

definition path_join :: "string \<Rightarrow> string \<Rightarrow> string" where
  "path_join rdir p = (if is_absolute p then p else rdir @ ''/'' @ p)"

definition cfg_resolve :: "config \<Rightarrow> string \<Rightarrow> string" where
  "cfg_resolve c p = (if is_absolute p then p else path_join (k_root c) p)"

definition upper :: "string \<Rightarrow> string" where
  "upper s = map (\<lambda>c. if 97 \<le> (of_char c :: nat) \<and> (of_char c :: nat) \<le> 122
                      then char_of ((of_char c :: nat) - 32) else c) s"

text \<open>\<open>_env\<close>, over the environment of the process.\<close>

definition env_var :: "(string \<rightharpoonup> string) \<Rightarrow> string \<Rightarrow> string option" where
  "env_var env key = env (''TGFS_'' @ upper key)"

text \<open>\<open>pick\<close>: the environment, else the file, else the default.\<close>

definition pick :: "(string \<rightharpoonup> string) \<Rightarrow> section_map \<Rightarrow> string \<Rightarrow> cfgval \<Rightarrow> cfgval" where
  "pick env sect key dflt =
     (case env_var env key of
        Some s \<Rightarrow> VStr s
      | None \<Rightarrow> (case sect key of Some v \<Rightarrow> v | None \<Rightarrow> dflt))"

definition to_int :: "cfgval \<Rightarrow> exn + int" where
  "to_int v =
     (case v of VNone \<Rightarrow> Inl TypeError | VInt i \<Rightarrow> Inr i | VStr s \<Rightarrow> parse_int s
      | VNum q _ \<Rightarrow> Inr (if q < 0 then \<lceil>q\<rceil> else \<lfloor>q\<rfloor>))"

definition to_float :: "cfgval \<Rightarrow> exn + rat" where
  "to_float v =
     (case v of
        VNone \<Rightarrow> Inl TypeError
      | VInt i \<Rightarrow> Inr (of_int i)
      | VNum q _ \<Rightarrow> Inr q
      | VStr s \<Rightarrow>
          (case split_sign (strip s) of
             (neg, cs) \<Rightarrow> map_sum id (\<lambda>q. if neg then - q else q) (parse_decimal cs)))"

text \<open>A channel given as text with only digits after the leading minus signs is a number.\<close>

definition norm_channel :: "cfgval \<Rightarrow> exn + cfgval" where
  "norm_channel v =
     (case v of
        VStr s \<Rightarrow>
          (let d = dropWhile (\<lambda>c. c = CHR ''-'') s
           in if d \<noteq> [] \<and> list_all is_digit d then map_sum id VInt (parse_int s) else Inr v)
      | _ \<Rightarrow> Inr v)"

definition MAX_CHUNK :: int where "MAX_CHUNK = 4000 * 1024 ^ 2"

definition and_then :: "exn + 'a \<Rightarrow> ('a \<Rightarrow> exn + 'b) \<Rightarrow> exn + 'b" where
  "and_then r g = (case r of Inl e \<Rightarrow> Inl e | Inr x \<Rightarrow> g x)"

text \<open>
  \<open>load\<close>: the parsed file (\<open>None\<close> when there is none) as its three sections, and the directory
  it lies in. The fields are computed in the order of the code, so the first bad one raises.
\<close>

definition load_config ::
    "(string \<rightharpoonup> string) \<Rightarrow> (section_map \<times> section_map \<times> section_map) option \<Rightarrow> string \<Rightarrow> exn + config" where
  "load_config env file rdir =
     (if file = None \<and> \<not> (env_var env ''API_ID'' \<notin> {None, Some []} \<and> env_var env ''API_HASH'' \<notin> {None, Some []})
      then Inl (OSError None)
      else
        (let (tg, st, pa) = (case file of Some f \<Rightarrow> f | None \<Rightarrow> (Map.empty, Map.empty, Map.empty))
         in and_then (norm_channel (pick env tg ''channel'' VNone)) (\<lambda>channel.
            and_then (parse_size (pick env st ''chunk_size'' (VStr ''32MiB''))) (\<lambda>chunk_size.
            if chunk_size > MAX_CHUNK then Inl ValueError
            else
            and_then (to_int (pick env tg ''api_id'' VNone)) (\<lambda>api_id.
            and_then (parse_size (pick env st ''cache_cap'' (VStr ''5GiB''))) (\<lambda>cache_cap.
            and_then (to_int (pick env st ''connections'' (VInt 0))) (\<lambda>connections.
            and_then (to_float (pick env st ''writeback_delay'' (VInt 15))) (\<lambda>delay.
            and_then (to_int (pick env st ''upload_workers'' (VInt 2))) (\<lambda>up.
            and_then (to_int (pick env st ''download_workers'' (VInt 2))) (\<lambda>down.
            and_then (to_int (pick env st ''readahead_chunks'' (VInt 2))) (\<lambda>ra.
            Inr \<lparr>k_api_id = api_id, k_api_hash = to_str (pick env tg ''api_hash'' VNone),
              k_session = path_join rdir (to_str (pick env tg ''session'' (VStr ''tgfs.session''))),
              k_channel = channel, k_chunk_size = chunk_size, k_cache_cap = cache_cap,
              k_connections = connections, k_delay = delay, k_upload_workers = up,
              k_download_workers = down, k_readahead = ra,
              k_meta_db = path_join rdir (to_str (pick env pa ''meta_db'' (VStr ''data/meta.db''))),
              k_cache_dir = path_join rdir (to_str (pick env pa ''cache_dir'' (VStr ''data/cache''))),
              k_mount = path_join rdir (to_str (pick env pa ''mount'' (VStr ''mnt''))),
              k_root = rdir\<rparr>)))))))))))"

subsection \<open>What loading guarantees, and what not\<close>

lemma and_then_Inr: "and_then r g = Inr y \<longleftrightarrow> (\<exists>x. r = Inr x \<and> g x = Inr y)"
  by (cases r) (simp_all add: and_then_def)

lemma loaded_chunk_bound: "load_config env file rdir = Inr c \<Longrightarrow> k_chunk_size c \<le> MAX_CHUNK"
  by (auto simp: load_config_def and_then_Inr Let_def split: if_splits prod.splits)

text \<open>A size of 32MiB is what it says, and a fraction of a unit is cut to whole bytes.\<close>

lemma parse_size_examples:
  "parse_size (VStr ''32MiB'') = Inr (32 * 1024 ^ 2)" "parse_size (VStr ''1.5 KB'') = Inr 1500"
  "parse_size (VStr ''12xb'') = Inl ValueError" "parse_size (VStr '''') = Inl ValueError"
  by code_simp+

text \<open>
  Nothing keeps the chunk size positive: 0 is accepted (a store needs a positive one), and a
  missing \<open>api_hash\<close> becomes the text None.
\<close>

lemma zero_chunk_size_accepted:
  "map_sum id (\<lambda>c. (k_chunk_size c, k_api_hash c))
     (load_config Map.empty (Some ([''api_id'' \<mapsto> VInt 7], [''chunk_size'' \<mapsto> VStr ''0''], Map.empty)) ''/etc'')
   = Inr (0, ''None'')"
  by code_simp

end
