(* ===== verification/TransferProps.thy ===== *)
theory TransferProps
  imports FastTransfer
begin

section \<open>Parallel transfers move the right bytes\<close>

text \<open>
  The shared iterator hands out each part number once, in whatever order the workers run
  (\<open>part_job\<close>: a property of the parts done so far that every part extends holds of all parts
  at the end). Together with what a file server promises (\<open>file_server\<close>), a download that
  returns has the document and an upload that returns has stored the parts of the data, for
  every schedule and every pattern of lost requests and flood waits.
\<close>

subsection \<open>Every part once\<close>

locale part_job =
  fixes cnt :: nat
    and do_part :: "nat \<Rightarrow> nat \<Rightarrow> 's \<Rightarrow> (exn + unit) \<times> 's"
    and R :: "nat set \<Rightarrow> 's \<Rightarrow> bool"
  assumes part_done: "R D s \<Longrightarrow> i < cnt \<Longrightarrow> i \<notin> D \<Longrightarrow> do_part w i s = (Inr (), s') \<Longrightarrow> R (insert i D) s'"
begin

text \<open>The parts done: the ones handed out that no worker is still sending, each by one worker.\<close>

definition sending :: "worker list \<Rightarrow> nat set" where
  "sending ws = {i. Sending i \<in> set ws}"

definition job_inv :: "'s parts \<Rightarrow> bool" where
  "job_inv st = (case st of (nxt, ws, s) \<Rightarrow>
     nxt \<le> cnt \<and> sending ws \<subseteq> {0..<nxt} \<and> (Ended \<in> set ws \<longrightarrow> nxt = cnt) \<and>
     (\<forall>v w i. v < length ws \<longrightarrow> w < length ws \<longrightarrow> ws ! v = Sending i \<longrightarrow> ws ! w = Sending i \<longrightarrow> v = w) \<and>
     R ({0..<nxt} - sending ws) s)"

lemma sending_update:
  assumes "w < length ws" "\<And>v i. v < length ws \<Longrightarrow> ws ! v = Sending i \<Longrightarrow> ws ! w = Sending i \<Longrightarrow> v = w"
  shows "sending (ws[w := x]) =
    (sending ws - {i. ws ! w = Sending i}) \<union> {i. x = Sending i}"
proof (intro set_eqI iffI)
  fix i assume "i \<in> sending (ws[w := x])"
  then obtain v where v: "v < length ws" "ws[w := x] ! v = Sending i"
    by (auto simp: sending_def in_set_conv_nth)
  show "i \<in> (sending ws - {i. ws ! w = Sending i}) \<union> {i. x = Sending i}"
  proof (cases "v = w")
    case True
    with v show ?thesis by simp
  next
    case False
    with v have "ws ! v = Sending i" by simp
    moreover from this v(1) nth_mem [of v ws] have "i \<in> sending ws"
      by (simp only: sending_def mem_Collect_eq length_list_update)
    moreover have "ws ! w \<noteq> Sending i"
      using assms(2) [of v i] v(1) False \<open>ws ! v = Sending i\<close> by auto
    ultimately show ?thesis by simp
  qed
next
  fix i assume i: "i \<in> (sending ws - {i. ws ! w = Sending i}) \<union> {i. x = Sending i}"
  show "i \<in> sending (ws[w := x])"
  proof (cases "x = Sending i")
    case True
    with assms(1) show ?thesis by (auto simp: sending_def set_update_memI)
  next
    case False
    with i obtain v where "v < length ws" "ws ! v = Sending i" "v \<noteq> w"
      by (auto simp: sending_def in_set_conv_nth)
    then have "ws[w := x] ! v = Sending i" by simp
    with \<open>v < length ws\<close> show ?thesis by (auto simp: sending_def in_set_conv_nth)
  qed
qed

lemma step_inv:
  assumes inv: "job_inv st" and step: "part_step cnt do_part w st = (Inr (), st')"
  shows "job_inv st'" "length (fst (snd st')) = length (fst (snd st))"
proof -
  obtain nxt ws s where st: "st = (nxt, ws, s)" by (metis prod_cases3)
  have I: "nxt \<le> cnt" "sending ws \<subseteq> {0..<nxt}" "Ended \<in> set ws \<longrightarrow> nxt = cnt"
    "\<And>v w i. v < length ws \<Longrightarrow> w < length ws \<Longrightarrow> ws ! v = Sending i \<Longrightarrow> ws ! w = Sending i \<Longrightarrow> v = w"
    "R ({0..<nxt} - sending ws) s"
    using inv by (auto simp: st job_inv_def)
  show "length (fst (snd st')) = length (fst (snd st))"
    using step by (auto simp: st part_step_def split: if_splits worker.splits sum.splits prod.splits)
  show "job_inv st'"
  proof (cases "w < length ws")
    case False
    with step inv show ?thesis by (simp add: st part_step_def)
  next
    case w: True
    have mem: "ws ! w \<in> set ws" using w by simp
    note upd = sending_update [OF w I(4) [OF _ w]]
    have ended: "Ended \<in> set (ws[w := x]) \<Longrightarrow> Ended \<in> set ws \<or> x = Ended" for x
      using set_update_subset_insert [of ws w x] by auto
    show ?thesis
    proof (cases "ws ! w")
      case Ended
      with step inv w show ?thesis by (simp add: st part_step_def)
    next
      case Ready
      show ?thesis
      proof (cases "nxt < cnt")
        case True
        then have st': "st' = (nxt + 1, ws[w := Sending nxt], s)"
          using step w Ready by (simp add: st part_step_def)
        have sn: "sending (ws[w := Sending nxt]) = insert nxt (sending ws)"
          using upd [where x = "Sending nxt"] Ready by simp
        have "{0..<nxt + 1} - insert nxt (sending ws) = {0..<nxt} - sending ws" by auto
        moreover have "v = u" if "v < length ws" "u < length ws"
          "ws[w := Sending nxt] ! v = Sending i" "ws[w := Sending nxt] ! u = Sending i" for v u i
        proof -
          have "ws ! k \<noteq> Sending nxt" if "k < length ws" for k
          proof
            assume "ws ! k = Sending nxt"
            with nth_mem [OF that] have "nxt \<in> sending ws" by (simp only: sending_def mem_Collect_eq)
            with I(2) show False by auto
          qed
          with that w I(4) [of v u i] show ?thesis by (auto simp: nth_list_update split: if_splits)
        qed
        ultimately show ?thesis
          using I(2,3,5) True sn ended [where x = "Sending nxt"] by (auto simp: job_inv_def st' atLeast0_lessThan_Suc)
      next
        case False
        then have st': "st' = (nxt, ws[w := Ended], s)"
          using step w Ready by (simp add: st part_step_def)
        have "sending (ws[w := Ended]) = sending ws" using upd [where x = Ended] Ready by simp
        moreover have "v = u" if "v < length ws" "u < length ws"
          "ws[w := Ended] ! v = Sending i" "ws[w := Ended] ! u = Sending i" for v u i
          using that w I(4) [of v u i] by (auto simp: nth_list_update split: if_splits)
        ultimately show ?thesis using I False by (auto simp: job_inv_def st')
      qed
    next
      case (Sending i)
      obtain s1 where dp: "do_part w i s = (Inr (), s1)" and st': "st' = (nxt, ws[w := Ready], s1)"
        using step w Sending by (auto simp: st part_step_def split: sum.splits prod.splits)
      have i: "i \<in> sending ws" "i < nxt" using mem Sending I(2) by (auto simp: sending_def)
      have sn: "sending (ws[w := Ready]) = sending ws - {i}" using upd [where x = Ready] Sending by auto
      have "R (insert i ({0..<nxt} - sending ws)) s1"
        by (rule part_done [OF I(5) _ _ dp]) (use i I(1) in auto)
      moreover have "insert i ({0..<nxt} - sending ws) = {0..<nxt} - (sending ws - {i})" using i by auto
      moreover have "v = u" if "v < length ws" "u < length ws"
        "ws[w := Ready] ! v = Sending k" "ws[w := Ready] ! u = Sending k" for v u k
        using that w I(4) [of v u k] by (auto simp: nth_list_update split: if_splits)
      ultimately show ?thesis using I(1-3) sn ended [where x = Ready] by (auto simp: job_inv_def st')
    qed
  qed
qed

lemma steps_inv:
  assumes "job_inv st" "part_steps cnt do_part sched st = (Inr (), st')"
  shows "job_inv st' \<and> length (fst (snd st')) = length (fst (snd st))"
  using assms
proof (induction sched arbitrary: st)
  case (Cons w sched)
  obtain st1 where st1: "part_step cnt do_part w st = (Inr (), st1)" "part_steps cnt do_part sched st1 = (Inr (), st')"
    using Cons.prems(2) by (auto split: prod.splits sum.splits)
  with Cons.IH [OF step_inv(1) [OF Cons.prems(1) st1(1)] st1(2)] step_inv(2) [OF Cons.prems(1) st1(1)]
  show ?case by simp
qed simp

lemma all_parts_done:
  assumes start: "R {} s" and k: "0 < k"
    and run: "part_steps cnt do_part sched (0, replicate k Ready, s) = (Inr (), (nxt, ws, s'))"
    and fin: "all_ended ws"
  shows "R {0..<cnt} s'"
proof -
  have "job_inv (0, replicate k Ready, s)"
    using start by (auto simp: job_inv_def sending_def)
  from steps_inv [OF this run] have inv: "job_inv (nxt, ws, s')" and "length ws = k" by auto
  then obtain w where "w \<in> set ws" using k by (cases ws) auto
  with fin have "Ended \<in> set ws" "sending ws = {}" by (auto simp: all_ended_def list_all_iff sending_def)
  moreover from this inv have "nxt = cnt" "R ({0..<nxt} - sending ws) s'"
    unfolding job_inv_def prod.case by blast+
  ultimately show ?thesis by simp
qed

end

subsection \<open>The file server\<close>

lemma call_loop_inv:
  assumes "P n" and sleep: "\<And>k n. P n \<Longrightarrow> P (sleep k n)"
    and send: "\<And>n r n'. P n \<Longrightarrow> send n = (r, n') \<Longrightarrow> P n'"
    and run: "call_loop sleep send n left = (Inr x, n')"
  shows "P n' \<and> (\<exists>n1. P n1 \<and> send n1 = (Inr x, n'))"
  using assms(1) run
proof (induction left arbitrary: n)
  case (Suc left)
  obtain r n1 where one: "send n = (r, n1)" by force
  note P1 = send [OF Suc.prems(1) one]
  show ?case
  proof (cases r)
    case (Inr y)
    with one Suc.prems P1 show ?thesis by auto
  next
    case (Inl e)
    have "\<exists>k. call_loop sleep send (sleep k n1) left = (Inr x, n')"
      using Suc.prems(2) one Inl by (auto split: exn.splits if_splits)
    with Suc.IH [OF sleep [OF P1]] show ?thesis by blast
  qed
qed simp

text \<open>
  What the code relies on: a part that is returned is that range of the document, a part that
  is acknowledged is saved under its number, a request that fails may have had its effect, and
  nothing else changes what the server holds.
\<close>

locale file_server =
  fixes N :: "('c, 'n) net"
    and doc :: "'n \<Rightarrow> nat \<Rightarrow> bytes"
    and saved :: "'n \<Rightarrow> nat \<Rightarrow> nat \<Rightarrow> bytes option"
  assumes get_bytes: "n_get N c loc off k n = (Inr (FileBytes b), n') \<Longrightarrow> b = slice (doc n loc) off (off + k)"
    and get_doc: "n_get N c loc off k n = (r, n') \<Longrightarrow> doc n' = doc n"
    and save_true: "n_save N c fid i cnt b n = (Inr True, n') \<Longrightarrow> saved n' fid i = Some b"
    and save_any: "n_save N c fid i cnt b n = (r', n') \<Longrightarrow>
      saved n' = saved n \<or> saved n' = (saved n)(fid := (saved n fid)(i := Some b))"
    and sleep_keeps: "doc (n_sleep N k n) = doc n" "saved (n_sleep N k n) = saved n"
    and connect_keeps: "n_connect N n = (r'', n') \<Longrightarrow> doc n' = doc n \<and> saved n' = saved n"
    and exported_keeps: "n_exported N dc n = (r'', n') \<Longrightarrow> doc n' = doc n \<and> saved n' = saved n"
begin

lemma make_keeps: "pool_make N dc n = (r, n') \<Longrightarrow> doc n' = doc n \<and> saved n' = saved n"
  using connect_keeps [of n r n'] exported_keeps [of dc n r n'] by (simp add: pool_make_def split: if_splits)

end

locale transfer = file_server N doc saved
  for N :: "('c, 'n) net" and doc :: "'n \<Rightarrow> nat \<Rightarrow> bytes" and saved :: "'n \<Rightarrow> nat \<Rightarrow> nat \<Rightarrow> bytes option" +
  fixes loc :: nat and D :: bytes and senders :: "'c list" and fid :: nat
begin

definition got :: "nat set \<Rightarrow> bytes \<times> 'n \<Rightarrow> bool" where
  "got I sn \<longleftrightarrow> length (fst sn) = length D \<and> doc (snd sn) loc = D \<and>
     (\<forall>p < length D. p div PART \<in> I \<longrightarrow> fst sn ! p = D ! p)"

definition sent :: "nat set \<Rightarrow> unit \<times> 'n \<Rightarrow> bool" where
  "sent I sn \<longleftrightarrow> (\<forall>i \<in> I. saved (snd sn) fid i = Some (slice D (i * PART) ((i + 1) * PART)))"

lemma download_extends:
  assumes got: "got I sn" and i: "i < part_count (length D)"
    and run: "download_part N loc (length D) c i sn = (Inr (), sn')"
  shows "got (insert i I) sn'"
proof -
  let ?off = "i * PART" and ?b = "slice D (i * PART) (i * PART + PART)"
  obtain n1 where call: "part_call N (n_get N c loc ?off PART) (snd sn) = (Inr (FileBytes ?b), n1)"
    and sn': "sn' = (take ?off (fst sn) @ ?b @ drop (?off + length ?b) (fst sn), n1)"
    and doc1: "doc n1 loc = D"
  proof -
    obtain b n1 where b: "part_call N (n_get N c loc ?off PART) (snd sn) = (Inr (FileBytes b), n1)"
      "sn' = (take ?off (fst sn) @ b @ drop (?off + length b) (fst sn), n1)"
      using run by (auto simp: download_part_def Let_def
        split: prod.splits sum.splits file_reply.splits if_splits)
    have "doc n1 loc = D \<and> (\<exists>n0. doc n0 loc = D \<and> n_get N c loc ?off PART n0 = (Inr (FileBytes b), n1))"
      by (rule call_loop_inv [where P = "\<lambda>n. doc n loc = D", OF _ _ _ b(1) [unfolded part_call_def]])
        (use got sleep_keeps get_doc in \<open>auto simp: got_def\<close>)
    with get_bytes that b show thesis by metis
  qed
  have off: "?off < length D"
  proof -
    have "i * PART + PART \<le> part_count (length D) * PART" using i by (metis add.commute mult_Suc Suc_leI mult_le_mono1)
    also have "\<dots> \<le> length D + PART - 1" by (simp add: part_count_def)
    finally show ?thesis by (simp add: PART_def)
  qed
  have "fst sn' ! p = D ! p" if p: "p < length D" "p div PART \<in> insert i I" for p
  proof (cases "?off \<le> p \<and> p < ?off + length ?b")
    case True
    then have "fst sn' ! p = ?b ! (p - ?off)"
      using got p(1) by (auto simp: sn' got_def nth_append)
    moreover have "p - ?off < length ?b" using True by auto
    from slice_nth [OF this] True have "?b ! (p - ?off) = D ! p" by simp
    ultimately show ?thesis by simp
  next
    case False
    then have "fst sn' ! p = fst sn ! p"
      using got p(1) off by (auto simp: sn' got_def nth_append min_def)
    moreover have "p div PART \<noteq> i"
    proof
      assume "p div PART = i"
      then have "?off \<le> p" "p < ?off + PART"
        using div_mult_mod_eq [of p PART] mod_less_divisor [of PART p] by (simp_all add: PART_def)
      with False p(1) show False by auto
    qed
    ultimately show ?thesis using got p by (simp add: got_def)
  qed
  then show ?thesis using got doc1 off by (auto simp: got_def sn')
qed

lemma upload_extends:
  assumes sent: "sent I sn" and run: "upload_part N fid D c i sn = (Inr (), sn')"
  shows "sent (insert i I) sn'"
proof -
  let ?part = "\<lambda>i. slice D (i * PART) ((i + 1) * PART)"
  let ?P = "\<lambda>n. \<forall>j \<in> I. saved n fid j = Some (?part j)"
  obtain n1 where call: "part_call N (n_save N c fid i (part_count (length D)) (?part i)) (snd sn) = (Inr True, n1)"
    and sn': "sn' = ((), n1)"
    using run by (auto simp: upload_part_def split: prod.splits sum.splits if_splits)
  have "?P n1 \<and> (\<exists>n0. ?P n0 \<and> n_save N c fid i (part_count (length D)) (?part i) n0 = (Inr True, n1))"
  proof (rule call_loop_inv [where P = ?P, OF _ _ _ call [unfolded part_call_def]])
    show "?P (snd sn)" using sent by (simp add: sent_def)
    show "?P (n_sleep N k n)" if "?P n" for k n using that sleep_keeps by simp
    show "?P n'" if "?P n" "n_save N c fid i (part_count (length D)) (?part i) n = (r, n')" for n r n'
      using save_any [OF that(2)] that(1) by auto
  qed
  with save_true show ?thesis unfolding sent_def sn' by auto
qed

end

sublocale transfer \<subseteq> down: part_job "part_count (length D)"
    "\<lambda>w i. download_part N loc (length D) (senders ! w) i" got
  by unfold_locales (rule download_extends)

sublocale transfer \<subseteq> up: part_job "part_count (length D)" "\<lambda>w i. upload_part N fid D (senders ! w) i" sent
  by unfold_locales (rule upload_extends)

subsection \<open>Whole transfers\<close>

lemma pool_fill_keeps:
  assumes "\<And>dc n r n'. pool_make N dc n = (r, n') \<Longrightarrow> P n' = P n" "pool_fill N k p n = (r, p', n')"
  shows "P n' = P n \<and> (\<forall>cs. r = Inr cs \<longrightarrow> length cs = length (sp_senders p) + k)"
  using assms(2)
proof (induction k arbitrary: p n)
  case (Suc k)
  obtain q n1 where c: "pool_make N (sp_dc p) n = (q, n1)" by force
  note keep = assms(1) [OF c]
  show ?case
  proof (cases q)
    case (Inl e)
    with c Suc.prems keep show ?thesis by auto
  next
    case (Inr x)
    with c Suc.prems have "pool_fill N k (p\<lparr>sp_senders := sp_senders p @ [x]\<rparr>) n1 = (r, p', n')" by simp
    from Suc.IH [OF this] keep show ?thesis by simp
  qed
qed auto

lemma part_count_pos: "0 < n \<Longrightarrow> 0 < part_count n"
  by (simp add: part_count_def PART_def div_greater_zero_iff)

lemma part_count_covers: "n \<le> part_count n * PART"
proof -
  have "n + PART - 1 = (n + PART - 1) div PART * PART + (n + PART - 1) mod PART" by simp
  moreover have "(n + PART - 1) mod PART < PART" by (simp add: PART_def)
  ultimately show ?thesis unfolding part_count_def by linarith
qed

lemma concat_parts: "concat (map (\<lambda>i. slice D (i * PART) ((i + 1) * PART)) [0..<k]) = take (k * PART) D"
proof (induction k)
  case (Suc k)
  have "take (Suc k * PART) D = take (k * PART) D @ take PART (drop (k * PART) D)"
    by (metis add.commute mult_Suc take_add)
  with Suc show ?case by (simp add: slice_def)
qed simp

text \<open>A run that returns has gone through all parts.\<close>

lemma run_parts_Inr:
  assumes "run_parts N p cnt do_part sched (s, n) = Some (Inr (), p', s', n')"
  obtains senders n1 nxt ws where "pool_get N p n = (Inr senders, p', n1)" "all_ended ws"
    "part_steps cnt (\<lambda>w. do_part (senders ! w)) sched (0, replicate (length senders) Ready, (s, n1)) =
       (Inr (), (nxt, ws, (s', n')))"
  using assms by (auto simp: run_parts_def split: prod.splits sum.splits if_splits)

context transfer
begin

lemma downloaded:
  assumes start: "doc n1 loc = D" and run: "part_steps (part_count (length D)) (\<lambda>w. download_part N loc (length D) (senders ! w)) sched
       (0, replicate (length senders) Ready, (zeros (length D), n1)) = (Inr (), (nxt, ws, (out, n')))"
    and fin: "all_ended ws" "senders \<noteq> []"
  shows "out = D"
proof -
  have "got {} (zeros (length D), n1)" using start by (simp add: got_def)
  from down.all_parts_done [OF this _ run fin(1)] fin(2)
  have got: "got {0..<part_count (length D)} (out, n')" by simp
  have "p div PART < part_count (length D)" if "p < length D" for p
  proof -
    have "p < part_count (length D) * PART" using that part_count_covers [of "length D"] by simp
    then show ?thesis by (simp add: less_mult_imp_div_less)
  qed
  with got show ?thesis by (auto simp: got_def intro!: nth_equalityI)
qed

lemma uploaded:
  assumes run: "part_steps (part_count (length D)) (\<lambda>w. upload_part N fid D (senders ! w)) sched
       (0, replicate (length senders) Ready, ((), n1)) = (Inr (), (nxt, ws, ((), n')))"
    and fin: "all_ended ws" "senders \<noteq> []" and i: "i < part_count (length D)"
  shows "saved n' fid i = Some (slice D (i * PART) ((i + 1) * PART))"
proof -
  have "sent {} ((), n1)" by (simp add: sent_def)
  from up.all_parts_done [OF this _ run fin(1)] fin(2) i show ?thesis by (simp add: sent_def)
qed

end

context file_server
begin

lemma transfer: "transfer N doc saved"
  by unfold_locales

lemma pool_get_keeps:
  assumes got: "pool_get N p n = (Inr senders, p', n')" and sz: "0 < sp_size p"
  shows "doc n' = doc n" "senders \<noteq> []"
proof -
  note fill = got [unfolded pool_get_def]
  have keep: "doc n' = doc n" if "pool_make N dc n = (r, n')" for dc n r n' using make_keeps [OF that] by simp
  have P: "doc n' = doc n \<and> length senders = length (sp_senders p) + (sp_size p - length (sp_senders p))"
    using pool_fill_keeps [where P = doc, OF keep fill] by simp
  then show "doc n' = doc n" by simp
  from P sz show "senders \<noteq> []" by (cases senders) auto
qed

lemma download_is_document:
  assumes dl: "download_doc N p (dc, loc) (length (doc n loc)) sched n = Some (Inr out, p', n')"
    and sz: "0 < sp_size p"
  shows "out = doc n loc"
proof (cases "doc n loc = []")
  case True
  with dl show ?thesis by (auto simp: download_doc_def split: if_splits)
next
  case False
  let ?D = "doc n loc"
  have run: "run_parts N p (part_count (length ?D)) (download_part N loc (length ?D)) sched (zeros (length ?D), n) =
      Some (Inr (), p', out, n')"
    using dl False by (auto simp: download_doc_def split: if_splits option.splits prod.splits sum.splits)
  obtain senders n1 nxt ws where R: "pool_get N p n = (Inr senders, p', n1)" "all_ended ws"
    "part_steps (part_count (length ?D)) (\<lambda>w. download_part N loc (length ?D) (senders ! w)) sched
       (0, replicate (length senders) Ready, (zeros (length ?D), n1)) = (Inr (), (nxt, ws, (out, n')))"
    by (rule run_parts_Inr [OF run])
  note G = pool_get_keeps [OF R(1) sz]
  show ?thesis by (rule transfer.downloaded [OF transfer _ R(3,2) G(2)]) (simp add: G(1))
qed

lemma upload_saves_parts:
  assumes up: "upload_big N p d sched n = Some (Inr (fid, cnt), p', n')" and sz: "0 < sp_size p"
  shows "cnt = part_count (length d)"
    "i < cnt \<Longrightarrow> saved n' fid i = Some (slice d (i * PART) ((i + 1) * PART))"
proof -
  obtain f0 n0 where rnd: "n_random N n = (f0, n0)" by force
  have "part_count (length d) \<le> MAX_PARTS"
  proof (rule ccontr)
    assume "\<not> part_count (length d) \<le> MAX_PARTS"
    with up show False by (simp add: upload_big_def Let_def)
  qed
  then have up': "(case run_parts N p (part_count (length d)) (upload_part N f0 d) sched ((), n0) of
      None \<Rightarrow> None | Some (Inl e, p2, _, n2) \<Rightarrow> Some (Inl e, p2, n2)
    | Some (Inr _, p2, _, n2) \<Rightarrow> Some (Inr (f0, part_count (length d)), p2, n2)) = Some (Inr (fid, cnt), p', n')"
    using up rnd by (simp add: upload_big_def Let_def)
  then have run: "run_parts N p (part_count (length d)) (upload_part N fid d) sched ((), n0) = Some (Inr (), p', (), n')"
    and cnt: "cnt = part_count (length d)"
    by (cases "run_parts N p (part_count (length d)) (upload_part N f0 d) sched ((), n0)";
        auto split: sum.splits)+
  obtain senders n1 nxt ws where R: "pool_get N p n0 = (Inr senders, p', n1)" "all_ended ws"
    "part_steps (part_count (length d)) (\<lambda>w. upload_part N fid d (senders ! w)) sched
       (0, replicate (length senders) Ready, ((), n1)) = (Inr (), (nxt, ws, ((), n')))"
    by (rule run_parts_Inr [OF run])
  note G = pool_get_keeps [OF R(1) sz]
  show "cnt = part_count (length d)" by (rule cnt)
  show "saved n' fid i = Some (slice d (i * PART) ((i + 1) * PART))" if "i < cnt"
    using transfer.uploaded [OF transfer R(3,2) G(2)] that cnt by simp
qed

end

subsection \<open>A server in memory\<close>

text \<open>
  A data center that holds documents by location, and loses or delays as many requests as its list of
  faults says; a saved part takes effect even when the answer is lost.
\<close>

record dcenter =
  dc_doc :: "nat \<Rightarrow> bytes"
  dc_saved :: "nat \<Rightarrow> nat \<Rightarrow> bytes option"
  dc_faults :: "exn list"
  dc_time :: nat

definition mem_net :: "(unit, dcenter) net" where
  "mem_net = \<lparr>n_home = 0, n_exported = (\<lambda>_ n. (Inr (), n)), n_connect = (\<lambda>n. (Inr (), n)), n_disconnect = (\<lambda>_ n. n),
     n_sleep = (\<lambda>k n. n\<lparr>dc_time := dc_time n + k\<rparr>),
     n_get = (\<lambda>_ loc off k n. case dc_faults n of
        e # fs \<Rightarrow> (Inl e, n\<lparr>dc_faults := fs\<rparr>)
      | [] \<Rightarrow> (Inr (FileBytes (slice (dc_doc n loc) off (off + k))), n)),
     n_save = (\<lambda>_ fid i cnt b n.
        (case dc_faults n of
           e # fs \<Rightarrow> (Inl e, n\<lparr>dc_faults := fs, dc_saved := (dc_saved n)(fid := (dc_saved n fid)(i := Some b))\<rparr>)
         | [] \<Rightarrow> (Inr True, n\<lparr>dc_saved := (dc_saved n)(fid := (dc_saved n fid)(i := Some b))\<rparr>))),
     n_random = (\<lambda>n. (dc_time n, n\<lparr>dc_time := dc_time n + 1\<rparr>))\<rparr>"

lemma mem_net_server: "file_server mem_net dc_doc dc_saved"
  by unfold_locales (auto simp: mem_net_def split: list.splits)

interpretation dc: file_server mem_net dc_doc dc_saved
  by (rule mem_net_server)

interpretation dct: transfer mem_net dc_doc dc_saved loc D senders fid for loc D senders fid
  by unfold_locales

definition demo_pool :: "unit pool" where
  "demo_pool = \<lparr>sp_dc = 2, sp_size = 2, sp_senders = []\<rparr>"

definition demo_dc :: dcenter where
  "demo_dc = \<lparr>dc_doc = (\<lambda>loc. if loc = 5 then [1, 2, 3] else []), dc_saved = (\<lambda>_ _. None), dc_faults = [FloodWait 3, ConnectionError], dc_time = 0\<rparr>"

lemma demo_download:
  "\<exists>p' n'. download_doc mem_net demo_pool (Some 2, 5) 3 [1, 0, 1, 1] demo_dc = Some (Inr [1, 2, 3], p', n') \<and> dc_time n' = 6"
proof -
  have c: "part_count 3 = Suc 0" by (simp add: part_count_def PART_def)
  have m: "min PART 3 = 3" "(3 :: nat) \<le> PART" by (simp_all add: PART_def)
  have sl: "slice [1, 2, 3 :: byte] 0 PART = [1, 2, 3]" by (rule slice_full) (simp add: PART_def)
  have two: "replicate 2 Ready = [Ready, Ready]" "PART_RETRIES = Suc (Suc (Suc (Suc 0)))"
    by (simp_all add: numeral_2_eq_2 PART_RETRIES_def)
  have pf: "pool_get mem_net demo_pool demo_dc = (Inr [(), ()], demo_pool\<lparr>sp_senders := [(), ()]\<rparr>, demo_dc)"
    by (simp add: pool_get_def pool_make_def demo_pool_def mem_net_def numeral_2_eq_2)
  show ?thesis
    by (simp add: download_doc_def run_parts_def pf c) 
      (simp add: demo_pool_def demo_dc_def two part_step_def download_part_def part_call_def
        net_error_def all_ended_def m sl mem_net_def Let_def zeros_def)
qed

text \<open>C34: Parallel transfers move the right bytes: against any server that answers a part request with
  that range of the document and saves the parts it acknowledges, a download that returns has
  the document and an upload that returns has saved parts that make up the data, in whatever
  order the workers run and whichever requests are lost, repeated or told to wait.\<close>

theorem parallel_transfer_moves_bytes:
  assumes "file_server N doc saved" "0 < sp_size p"
  shows "(\<forall>dc loc sched n out p' n'.
       download_doc N p (dc, loc) (length (doc n loc)) sched n = Some (Inr out, p', n') \<longrightarrow> out = doc n loc) \<and>
    (\<forall>d sched n fid cnt p' n'. upload_big N p d sched n = Some (Inr (fid, cnt), p', n') \<longrightarrow>
       (\<forall>i < cnt. saved n' fid i \<noteq> None) \<and>
       concat (map (\<lambda>i. case saved n' fid i of Some b \<Rightarrow> b | None \<Rightarrow> []) [0..<cnt]) = d)"
proof (intro conjI allI impI)
  fix dc loc sched n out p' n'
  assume "download_doc N p (dc, loc) (length (doc n loc)) sched n = Some (Inr out, p', n')"
  then show "out = doc n loc" by (rule file_server.download_is_document [OF assms(1) _ assms(2)])
next
  fix d sched n fid cnt p' n'
  assume up: "upload_big N p d sched n = Some (Inr (fid, cnt), p', n')"
  note U = file_server.upload_saves_parts [OF assms(1) up assms(2)]
  show "saved n' fid i \<noteq> None" if "i < cnt" for i using U(2) [OF that] by simp
  have "map (\<lambda>i. case saved n' fid i of Some b \<Rightarrow> b | None \<Rightarrow> []) [0..<cnt] =
      map (\<lambda>i. slice d (i * PART) ((i + 1) * PART)) [0..<cnt]"
    using U(2) by auto
  then have "concat (map (\<lambda>i. case saved n' fid i of Some b \<Rightarrow> b | None \<Rightarrow> []) [0..<cnt]) =
      take (cnt * PART) d" by (simp only: concat_parts)
  then show "concat (map (\<lambda>i. case saved n' fid i of Some b \<Rightarrow> b | None \<Rightarrow> []) [0..<cnt]) = d"
    using part_count_covers [of "length d"] U(1) by simp
qed

theorem parallel_transfer_moves_bytes_witness:
  "\<exists>out p' n'. download_doc mem_net demo_pool (Some 2, 5) 3 [1, 0, 1, 1] demo_dc = Some (Inr out, p', n') \<and>
     out = [1, 2, 3]"
proof -
  have sz: "0 < sp_size demo_pool" and doc: "dc_doc demo_dc 5 = [1, 2, 3]"
    by (simp_all add: demo_pool_def demo_dc_def)
  have len: "length (dc_doc demo_dc 5) = 3" by (simp add: doc)
  obtain x p' n' where run: "download_doc mem_net demo_pool (Some 2, 5) (length (dc_doc demo_dc 5)) [1, 0, 1, 1] demo_dc =
      Some (Inr x, p', n')"
    unfolding len using demo_download by blast
  from conjunct1 [OF parallel_transfer_moves_bytes [OF mem_net_server sz]] run have "x = dc_doc demo_dc 5" by blast
  with run doc show ?thesis unfolding len by blast
qed

end
