(* ===== verification/TelegramProps.thy ===== *)
theory TelegramProps
  imports Telegram TransferProps
begin

section \<open>Properties of the Telegram backend\<close>

text \<open>
  The retry helper against a reference: the coroutine is a queue of outcomes, and the helper's
  answer is read off the queue without its flood waits. \<open>pop_outcome\<close> takes the next outcome;
  an empty queue is a coroutine that never finishes.
\<close>

type_synonym 'a queue = "(exn + 'a) list \<times> nat"

definition pop_outcome :: "'a queue \<Rightarrow> ((exn + 'a) \<times> 'a queue) option" where
  "pop_outcome q = (case fst q of [] \<Rightarrow> None | r # rs \<Rightarrow> Some (r, (rs, snd q)))"

definition queue_sleep :: "nat \<Rightarrow> 'a queue \<Rightarrow> 'a queue" where
  "queue_sleep k q = (fst q, snd q + k)"

definition is_flood :: "exn + 'a \<Rightarrow> bool" where
  "is_flood r = (case r of Inl (FloodWait _) \<Rightarrow> True | _ \<Rightarrow> False)"

definition is_network :: "exn + 'a \<Rightarrow> bool" where
  "is_network r = (case r of Inl e \<Rightarrow> net_error e | Inr _ \<Rightarrow> False)"

text \<open>
  The reference: of the outcomes that are not flood waits, the fifth when the first five are
  all network errors, else the first that is not one.
\<close>

definition retry_outcome :: "nat \<Rightarrow> (exn + 'a) list \<Rightarrow> (exn + 'a) option" where
  "retry_outcome tries rs =
     (let qs = filter (\<lambda>r. \<not> is_flood r) rs; k = length (takeWhile is_network qs)
      in if tries \<le> k then Some (qs ! (tries - 1))
         else if k < length qs then Some (qs ! k) else None)"

lemma net_error_not_flood: "is_network r \<Longrightarrow> \<not> is_flood r"
  by (auto simp: is_network_def is_flood_def net_error_def split: sum.splits exn.splits)

lemma retry_after_cases:
  "retry_after r attempt =
     (if is_flood r then Some ((case r of Inl (FloodWait s) \<Rightarrow> s + 1 | _ \<Rightarrow> 0), attempt)
      else if is_network r
      then (if attempt + 1 \<ge> MAX_RETRIES then None
            else Some (min (2 ^ (attempt + 1)) 30, attempt + 1))
      else None)"
  by (auto simp: retry_after_def is_flood_def is_network_def net_error_def split: sum.split exn.split)

text \<open>C40: The retry helper returns what its reference says for every sequence of outcomes: it waits
  out any number of flood waits, which do not count as attempts, gives up with the error of
  the fifth network failure, and returns any other outcome, a result or another error, at
  once. It does not return exactly when the outcomes run out before that.\<close>

theorem with_retry_outcome:
  "map_option fst (with_retry pop_outcome queue_sleep (rs, t) 0) = retry_outcome MAX_RETRIES rs"
proof -
  have "map_option fst (with_retry pop_outcome queue_sleep (rs, t) a) = retry_outcome (MAX_RETRIES - a) rs"
    if "a < MAX_RETRIES" for a
    using that
  proof (induction rs arbitrary: t a)
    case Nil
    then show ?case
      by (simp add: with_retry.simps pop_outcome_def retry_outcome_def)
  next
    case (Cons r rs)
    have step: "with_retry pop_outcome queue_sleep (r # rs, t) a =
        (case retry_after r a of None \<Rightarrow> Some (r, (rs, t))
         | Some ka \<Rightarrow> with_retry pop_outcome queue_sleep (rs, t + fst ka) (snd ka))"
      by (subst with_retry.simps) (simp add: pop_outcome_def queue_sleep_def split: option.split)
    consider (flood) "is_flood r" | (net) "is_network r" "\<not> is_flood r" | (other) "\<not> is_network r" "\<not> is_flood r"
      by blast
    then show ?case
    proof cases
      case flood
      then have "\<not> is_network r" using net_error_not_flood by blast
      with flood Cons.IH [OF Cons.prems] show ?thesis
        by (simp add: step retry_after_cases retry_outcome_def)
    next
      case net
      show ?thesis
      proof (cases "a + 1 \<ge> MAX_RETRIES")
        case True
        then have "MAX_RETRIES - a = 1" using Cons.prems by simp
        with net True show ?thesis
          by (simp add: step retry_after_cases retry_outcome_def Let_def)
      next
        case False
        then have "MAX_RETRIES - a = Suc (MAX_RETRIES - (a + 1))" "0 < MAX_RETRIES - (a + 1)" by auto
        with net False Cons.IH [of "a + 1"] show ?thesis
          by (simp add: step retry_after_cases retry_outcome_def Let_def)
      qed
    next
      case other
      then show ?thesis using Cons.prems by (simp add: step retry_after_cases retry_outcome_def Let_def)
    qed
  qed
  from this [of 0] show ?thesis by (simp add: MAX_RETRIES_def)
qed

subsection \<open>Ambiguous channel ids\<close>

text \<open>
  A channel id given in raw form may begin with the digits 100. \<open>_resolve_channel\<close> then also
  accepts the id without them, and returns the first dialog that matches: with channels
  1234567 and 1001234567 among the dialogs, asking for the second finds the first.
\<close>

lemma digit_chars: "char_of (48 :: nat) = CHR ''0''" "char_of (49 :: nat) = CHR ''1''"
  by code_simp+

definition demo_dialog :: "int \<Rightarrow> dialog" where
  "demo_dialog i = \<lparr>d_is_channel = True, d_id = - i, d_entity = \<lparr>e_id = i, e_username = None, e_title = None\<rparr>\<rparr>"

lemma ambiguous_channel:
  assumes "t_get_entity C (ChanId 1001234567) n = (Inl ValueError, n1)"
    and "t_dialogs C n1 = (Inr [demo_dialog 1234567, demo_dialog 1001234567], n2)"
  shows "map_sum id e_id (fst (resolve_channel C (ChanId 1001234567) n)) = Inr 1234567"
proof -
  have "channel_ids 1001234567 = Inr {1001234567, 1234567}"
    by (simp add: channel_ids_def dec.simps undec_def digit_chars)
  then show ?thesis
    using assms by (simp add: resolve_channel_def demo_dialog_def)
qed

text \<open>A channel id of just these digits makes the search raise \<open>ValueError\<close>.\<close>

lemma channel_id_100: "channel_ids (- 100) = Inl ValueError"
  by (simp add: channel_ids_def dec.simps undec_def digit_chars)

text \<open>A channel in bot form is found by its raw id.\<close>

lemma bot_form_id: "channel_ids (- 1001234567890) = Inr {1001234567890, 1234567890}"
  by (simp add: channel_ids_def dec.simps undec_def digit_chars)

end
