(* ===== verification/TransferReturns.thy ===== *)
theory TransferReturns
  imports TransferProps
begin

section \<open>Parallel transfers return\<close>

text \<open>
  What a transfer leaves alone (\<open>quiet_net\<close>: a predicate of the outside world that no request
  changes), what it does with its pool, and that it returns under every schedule that lets
  each worker run often enough.
\<close>

definition pool_ok :: "'c pool \<Rightarrow> bool" where
  "pool_ok p \<longleftrightarrow> 0 < sp_size p \<and> length (sp_senders p) \<le> sp_size p"

lemma call_loop_keeps:
  assumes "P n" "\<And>k n. P n \<Longrightarrow> P (sleep k n)" "\<And>n r n'. P n \<Longrightarrow> send n = (r, n') \<Longrightarrow> P n'"
    and "call_loop sleep send n left = (r, n')"
  shows "P n'"
  using assms(1,4)
proof (induction left arbitrary: n)
  case (Suc left)
  obtain q n1 where one: "send n = (q, n1)" by force
  note P1 = assms(3) [OF Suc.prems(1) one]
  show ?case
  proof (cases q)
    case (Inr x)
    with one Suc.prems(2) P1 show ?thesis by simp
  next
    case (Inl e)
    have "n' = n1 \<or> (\<exists>k. call_loop sleep send (sleep k n1) left = (r, n'))"
      using Suc.prems(2) one Inl by (auto split: exn.splits if_splits)
    with P1 Suc.IH [OF assms(2) [OF P1]] show ?thesis by blast
  qed
qed simp

locale quiet_net =
  fixes N :: "('c, 'n) net" and P :: "'n \<Rightarrow> bool"
  assumes connect_quiet: "P n \<Longrightarrow> n_connect N n = (rc, n') \<Longrightarrow> P n'"
    and exported_quiet: "P n \<Longrightarrow> n_exported N dc n = (rc, n') \<Longrightarrow> P n'"
    and disconnect_quiet: "P n \<Longrightarrow> P (n_disconnect N c n)"
    and sleep_quiet: "P n \<Longrightarrow> P (n_sleep N k n)"
    and get_quiet: "P n \<Longrightarrow> n_get N c loc off k n = (rg, n') \<Longrightarrow> P n'"
    and save_quiet: "P n \<Longrightarrow> n_save N c fid i cnt b n = (rs, n') \<Longrightarrow> P n'"
    and random_quiet: "P n \<Longrightarrow> n_random N n = (x, n') \<Longrightarrow> P n'"
begin

lemma make_quiet: "P n \<Longrightarrow> pool_make N dc n = (r, n') \<Longrightarrow> P n'"
proof (cases "dc = n_home N")
  case True
  assume "P n" "pool_make N dc n = (r, n')"
  with True show ?thesis by (intro connect_quiet [of n r n']) (simp_all add: pool_make_def)
next
  case False
  assume "P n" "pool_make N dc n = (r, n')"
  with False show ?thesis by (intro exported_quiet [of n dc r n']) (simp_all add: pool_make_def)
qed

lemma pool_fill_quiet:
  "pool_fill N k p n = (r, p', n') \<Longrightarrow> P n \<Longrightarrow> length (sp_senders p) + k \<le> sp_size p \<Longrightarrow>
     P n' \<and> sp_dc p' = sp_dc p \<and> sp_size p' = sp_size p \<and> length (sp_senders p') \<le> sp_size p \<and>
     (\<forall>cs. r = Inr cs \<longrightarrow> length cs = length (sp_senders p) + k)"
proof (induction k arbitrary: p n)
  case (Suc k)
  obtain q n1 where c: "pool_make N (sp_dc p) n = (q, n1)" by force
  note P1 = make_quiet [OF Suc.prems(2) c]
  show ?case
  proof (cases q)
    case (Inl e)
    with c Suc.prems P1 show ?thesis by auto
  next
    case (Inr x)
    with c Suc.prems(1) have "pool_fill N k (p\<lparr>sp_senders := sp_senders p @ [x]\<rparr>) n1 = (r, p', n')" by simp
    from Suc.IH [OF this P1] Suc.prems(3) show ?thesis by simp
  qed
qed auto

lemma pool_get_quiet:
  assumes "pool_get N p n = (r, p', n')" "P n" "pool_ok p"
  shows "P n'" "sp_dc p' = sp_dc p" "sp_size p' = sp_size p" "pool_ok p'"
    "r = Inr cs \<Longrightarrow> length cs = sp_size p"
proof -
  have len: "length (sp_senders p) + (sp_size p - length (sp_senders p)) = sp_size p"
    using assms(3) by (simp add: pool_ok_def)
  note F = pool_fill_quiet [OF assms(1) [unfolded pool_get_def] assms(2) eq_imp_le [OF len], unfolded len]
  show "P n'" "sp_dc p' = sp_dc p" "sp_size p' = sp_size p" using F by blast+
  show "pool_ok p'" using F assms(3) by (simp add: pool_ok_def)
  show "r = Inr cs \<Longrightarrow> length cs = sp_size p" using F by blast
qed

lemma fold_disconnect: "P n \<Longrightarrow> P (fold (n_disconnect N) cs n)"
  by (induction cs arbitrary: n) (simp_all add: disconnect_quiet)

lemma pool_reset_quiet: "pool_reset N p n = (p', n') \<Longrightarrow> P n \<Longrightarrow> pool_ok p \<Longrightarrow>
    P n' \<and> sp_dc p' = sp_dc p \<and> sp_size p' = sp_size p \<and> pool_ok p'"
  by (auto simp: pool_reset_def pool_ok_def fold_disconnect)

lemma part_steps_quiet:
  assumes part: "\<And>w i sn r s' n'. P (snd sn) \<Longrightarrow> do_part w i sn = (r, s', n') \<Longrightarrow> P n'"
    and "P n" "part_steps cnt do_part sched (nxt, ws, (s, n)) = (r, (nxt', ws', (s', n')))"
  shows "P n'"
  using assms(2,3)
proof (induction sched arbitrary: nxt ws s n)
  case (Cons w sched)
  obtain q nxt1 ws1 s1 n1 where st: "part_step cnt do_part w (nxt, ws, (s, n)) = (q, (nxt1, ws1, (s1, n1)))"
    by (metis prod_cases5)
  have "P n1"
    using st Cons.prems(1) part [of "(s, n)" w]
    by (auto simp: part_step_def split: if_splits worker.splits prod.splits sum.splits)
  with Cons.IH [OF this] st Cons.prems(2) show ?case by (auto split: sum.splits)
qed simp

text \<open>A run keeps the shape of its pool; after an error the pool is empty.\<close>

lemma run_parts_quiet:
  assumes part: "\<And>c i sn r s' n'. P (snd sn) \<Longrightarrow> do_part c i sn = (r, s', n') \<Longrightarrow> P n'"
    and pre: "P n" "pool_ok p" and run: "run_parts N p cnt do_part sched (s, n) = Some (r, p', s', n')"
  shows "P n' \<and> sp_dc p' = sp_dc p \<and> sp_size p' = sp_size p \<and> pool_ok p'"
proof -
  obtain q p1 n1 where get: "pool_get N p n = (q, p1, n1)" by (metis prod_cases3)
  note G = pool_get_quiet [OF get pre]
  show ?thesis
  proof (cases q)
    case (Inl e)
    with run get G show ?thesis by (simp add: run_parts_def)
  next
    case (Inr senders)
    obtain q2 nxt ws s2 n2 where st: "part_steps cnt (\<lambda>w i. do_part (senders ! w) i) sched
        (0, replicate (length senders) Ready, (s, n1)) = (q2, (nxt, ws, (s2, n2)))"
      by (metis prod_cases5)
    have P2: "P n2" by (rule part_steps_quiet [OF part G(1) st])
    obtain p3 n3 where reset: "pool_reset N p1 n2 = (p3, n3)" by force
    from pool_reset_quiet [OF reset P2 G(4)] run get Inr st reset G P2 show ?thesis
      by (auto simp: run_parts_def split: sum.splits if_splits)
  qed
qed

lemma part_call_quiet:
  assumes "part_call N send n = (r, n')" "P n" "\<And>n r n'. P n \<Longrightarrow> send n = (r, n') \<Longrightarrow> P n'"
  shows "P n'"
  using call_loop_keeps [of P n "n_sleep N" send PART_RETRIES r n'] assms sleep_quiet
  by (simp add: part_call_def)

lemma upload_part_quiet:
  assumes "P (snd sn)" "upload_part N fid d c i sn = (r, u, n')"
  shows "P n'"
proof -
  let ?send = "n_save N c fid i (part_count (length d)) (slice d (i * PART) ((i + 1) * PART))"
  obtain q n1 where call: "part_call N ?send (snd sn) = (q, n1)" by force
  have "P n1" using part_call_quiet [OF call assms(1)] save_quiet by blast
  then show ?thesis using assms(2) call by (simp add: upload_part_def split: sum.splits if_splits)
qed

lemma download_part_quiet:
  assumes "P (snd sn)" "download_part N loc sz c i sn = (r, b, n')"
  shows "P n'"
proof -
  obtain q n1 where call: "part_call N (n_get N c loc (i * PART) PART) (snd sn) = (q, n1)" by force
  have "P n1" using part_call_quiet [OF call assms(1)] get_quiet by blast
  then show ?thesis
    using assms(2) call by (simp add: download_part_def Let_def split: sum.splits file_reply.splits if_splits)
qed

lemma upload_big_quiet:
  assumes "upload_big N p d sched n = Some (r, p', n')" "P n" "pool_ok p"
  shows "P n' \<and> sp_dc p' = sp_dc p \<and> sp_size p' = sp_size p \<and> pool_ok p'"
proof (cases "part_count (length d) > MAX_PARTS")
  case True
  with assms show ?thesis by (simp add: upload_big_def)
next
  case False
  obtain fid n1 where rnd: "n_random N n = (fid, n1)" by force
  then obtain q u where "run_parts N p (part_count (length d)) (upload_part N fid d) sched ((), n1) = Some (q, p', u, n')"
    using assms(1) False by (auto simp: upload_big_def Let_def split: option.splits prod.splits sum.splits)
  from run_parts_quiet [OF upload_part_quiet random_quiet [OF assms(2) rnd] assms(3) this] show ?thesis .
qed

lemma download_doc_quiet:
  assumes "download_doc N p place sz sched n = Some (r, p', n')" "P n" "pool_ok p"
  shows "P n' \<and> sp_dc p' = sp_dc p \<and> sp_size p' = sp_size p \<and> pool_ok p'"
proof -
  obtain dc loc where place: "place = (dc, loc)" by force
  consider "p' = p" "n' = n"
    | q u where "run_parts N p (part_count sz) (download_part N loc sz) sched (zeros sz, n) = Some (q, p', u, n')"
    using assms(1) by (auto simp: download_doc_def place split: if_splits option.splits prod.splits sum.splits)
  then show ?thesis
  proof cases
    case 2
    from run_parts_quiet [OF download_part_quiet assms(2,3) 2] show ?thesis .
  qed (use assms in simp)
qed

end

interpretation dcq: quiet_net mem_net "\<lambda>n. dc_doc n = D" for D
  by unfold_locales (auto simp: mem_net_def split: list.splits)

subsection \<open>Fair schedules\<close>

text \<open>
  How many more turns worker \<open>w\<close> may need: two for every part that is still to be handed out,
  one for the part it is sending, one to find the iterator empty.
\<close>

definition turns :: "nat \<Rightarrow> nat \<Rightarrow> 's parts \<Rightarrow> nat" where
  "turns cnt w st = (case st of (nxt, ws, s) \<Rightarrow>
     (case ws ! w of Ended \<Rightarrow> 0 | Ready \<Rightarrow> 2 * (cnt - nxt) + 1 | Sending i \<Rightarrow> 2 * (cnt - nxt) + 2))"

definition fair :: "nat \<Rightarrow> nat \<Rightarrow> nat list \<Rightarrow> bool" where
  "fair k cnt sched \<longleftrightarrow> (\<forall>w < k. 2 * cnt + 1 \<le> count_list sched w)"

lemma turns_step:
  assumes "part_step cnt do_part v st = (Inr (), st')" "w < length (fst (snd st))"
  shows "turns cnt w st' \<le> turns cnt w st - (if v = w then 1 else 0)"
    "length (fst (snd st')) = length (fst (snd st))"
proof -
  obtain nxt ws s where st: "st = (nxt, ws, s)" by (metis prod_cases3)
  show "length (fst (snd st')) = length (fst (snd st))"
    using assms(1) by (auto simp: st part_step_def split: if_splits worker.splits sum.splits prod.splits)
  show "turns cnt w st' \<le> turns cnt w st - (if v = w then 1 else 0)"
  proof (cases "v = w")
    case True
    with assms show ?thesis
      by (auto simp: st part_step_def turns_def split: if_splits worker.splits sum.splits prod.splits)
  next
    case False
    with assms show ?thesis
      by (auto simp: st part_step_def turns_def split: if_splits worker.splits sum.splits prod.splits)
  qed
qed

lemma turns_steps:
  assumes "part_steps cnt do_part sched st = (Inr (), st')" "w < length (fst (snd st))"
  shows "turns cnt w st' \<le> turns cnt w st - count_list sched w \<and>
    length (fst (snd st')) = length (fst (snd st))"
  using assms
proof (induction sched arbitrary: st)
  case (Cons v sched)
  obtain st1 where st1: "part_step cnt do_part v st = (Inr (), st1)" "part_steps cnt do_part sched st1 = (Inr (), st')"
    using Cons.prems(1) by (auto split: prod.splits sum.splits)
  note T = turns_step [OF st1(1) Cons.prems(2)]
  have "turns cnt w st' \<le> turns cnt w st1 - count_list sched w \<and>
      length (fst (snd st')) = length (fst (snd st1))"
    using Cons.IH [OF st1(2)] T(2) Cons.prems(2) by simp
  with T show ?case by (auto split: if_splits)
qed simp

lemma fair_ends:
  assumes "fair k cnt sched" "part_steps cnt do_part sched (0, replicate k Ready, s) = (Inr (), (nxt, ws, s'))"
  shows "all_ended ws"
proof -
  have len: "length ws = k"
  proof (cases k)
    case 0
    have "ws = []" if "part_steps cnt do_part sched (a, [], b) = (Inr (), (nxt, ws, s'))" for a b
      using that by (induction sched arbitrary: a b) (auto simp: part_step_def)
    with assms(2) 0 show ?thesis by simp
  qed (use turns_steps [OF assms(2), of 0] in simp)
  have "ws ! w = Ended" if "w < k" for w
  proof -
    have "turns cnt w (nxt, ws, s') \<le> turns cnt w (0, replicate k Ready, s) - count_list sched w"
      using turns_steps [OF assms(2), of w] that by simp
    also have "\<dots> = 0" using assms(1) that by (simp add: fair_def turns_def)
    finally show ?thesis by (auto simp: turns_def split: worker.splits)
  qed
  then show ?thesis using len by (simp add: all_ended_def list_all_length)
qed

lemma fair_mono: "fair k cnt sched \<Longrightarrow> cnt' \<le> cnt \<Longrightarrow> fair k cnt' sched"
  unfolding fair_def by (meson add_le_mono1 mult_le_mono2 order_trans)

context quiet_net
begin

lemma run_parts_returns:
  assumes "P n" "pool_ok p" "fair (sp_size p) cnt sched"
  shows "run_parts N p cnt do_part sched (s, n) \<noteq> None"
proof -
  obtain q p1 n1 where get: "pool_get N p n = (q, p1, n1)" by (metis prod_cases3)
  note G = pool_get_quiet [OF get assms(1,2)]
  show ?thesis
  proof (cases q)
    case (Inr senders)
    then have "length senders = sp_size p" using G(5) by simp
    obtain q2 nxt ws s2 n2 where st: "part_steps cnt (\<lambda>w i. do_part (senders ! w) i) sched
        (0, replicate (length senders) Ready, (s, n1)) = (q2, (nxt, ws, (s2, n2)))"
      by (metis prod_cases5)
    have "all_ended ws" if "q2 = Inr ()"
      by (rule fair_ends [of "length senders" cnt sched, OF _ st [unfolded that]])
        (use assms(3) \<open>length senders = sp_size p\<close> in simp)
    then show ?thesis using get Inr st by (auto simp: run_parts_def split: prod.split sum.split)
  qed (use get in \<open>simp add: run_parts_def\<close>)
qed

lemma upload_big_returns:
  assumes "P n" "pool_ok p" "fair (sp_size p) MAX_PARTS sched"
  shows "upload_big N p d sched n \<noteq> None"
proof (cases "part_count (length d) > MAX_PARTS")
  case False
  obtain fid n1 where rnd: "n_random N n = (fid, n1)" by force
  have "fair (sp_size p) (part_count (length d)) sched" using fair_mono [OF assms(3)] False by simp
  from run_parts_returns [OF random_quiet [OF assms(1) rnd] assms(2) this, of "upload_part N fid d" "()"]
  obtain q p2 u n2 where "run_parts N p (part_count (length d)) (upload_part N fid d) sched ((), n1) = Some (q, p2, u, n2)"
    by auto
  with rnd show ?thesis by (simp add: upload_big_def Let_def split: sum.split)
qed (simp add: upload_big_def)

lemma download_doc_returns:
  assumes "P n" "pool_ok p" "fair (sp_size p) MAX_PARTS sched" "part_count sz \<le> MAX_PARTS"
  shows "download_doc N p place sz sched n \<noteq> None"
proof -
  obtain dc loc where place: "place = (dc, loc)" by force
  have "fair (sp_size p) (part_count sz) sched" using fair_mono [OF assms(3,4)] .
  from run_parts_returns [OF assms(1,2) this, of "download_part N loc sz" "zeros sz"]
  obtain q p2 u n2 where "run_parts N p (part_count sz) (download_part N loc sz) sched (zeros sz, n) = Some (q, p2, u, n2)"
    by auto
  then show ?thesis by (simp add: download_doc_def place split: sum.split)
qed

end

end
