(* ===== verification/TelegramBackend.thy ===== *)
theory TelegramBackend
  imports TelegramProps TransferReturns Backend
begin

section \<open>The Telegram backend keeps the contract of a backend\<close>

text \<open>
  What the backend relies on of the channel and the client (\<open>telegram_channel\<close>), and that its
  operations then return and keep the contract \<open>faulty_backend\<close>, through retries, flood waits,
  lost answers, and the parallel and the stock path.
\<close>

subsection \<open>Retrying to the end\<close>

text \<open>A flood wait costs patience, of which there is a finite amount.\<close>

definition calm :: "('n \<Rightarrow> nat) \<Rightarrow> exn + 'a \<Rightarrow> 'n \<Rightarrow> 'n \<Rightarrow> bool" where
  "calm patience r n n' \<longleftrightarrow> patience n' \<le> patience n \<and> (is_flood r \<longrightarrow> patience n' < patience n)"

text \<open>
  \<open>go\<close> returns and spends patience on flood waits: then so does the retried call, and its
  answer is the answer of the last attempt, made in a state that the earlier ones led to (\<open>Q\<close>).
\<close>

lemma with_retry_last:
  assumes go: "\<And>s. I s \<Longrightarrow> \<exists>r s'. go s = Some (r, s') \<and> I s' \<and> calm m r s s'"
    and sleep: "\<And>k s. I s \<Longrightarrow> I (sleep k s) \<and> m (sleep k s) \<le> m s \<and> Q s (sleep k s)"
    and fails: "\<And>s e s'. I s \<Longrightarrow> go s = Some (Inl e, s') \<Longrightarrow> Q s s'"
    and refl: "\<And>s. Q s s" and trans: "\<And>s t u. Q s t \<Longrightarrow> Q t u \<Longrightarrow> Q s u"
    and "I s" "a < MAX_RETRIES"
  shows "\<exists>s1 r s'. with_retry go sleep s a = Some (r, s') \<and> I s1 \<and> Q s s1 \<and> go s1 = Some (r, s') \<and> I s'"
  using assms(6,7)
proof (induction "m s + (MAX_RETRIES - a)" arbitrary: s a rule: less_induct)
  case less
  obtain r s1 where one: "go s = Some (r, s1)" "I s1" "calm m r s s1" using go [OF less.prems(1)] by blast
  show ?case
  proof (cases "retry_after r a")
    case None
    then have "with_retry go sleep s a = Some (r, s1)" using one(1) by (subst with_retry.simps) simp
    with one refl less.prems(1) show ?thesis by blast
  next
    case (Some ka)
    obtain k b where ka: "ka = (k, b)" by force
    obtain e where r: "r = Inl e" using Some by (cases r) (auto simp: retry_after_def)
    have b: "b < MAX_RETRIES" "m s1 + (MAX_RETRIES - b) < m s + (MAX_RETRIES - a)"
      using Some less.prems(2) one(3) net_error_not_flood [of r]
      by (auto simp: ka retry_after_cases calm_def split: if_splits)
    let ?s2 = "sleep k s1"
    note S = sleep [OF one(2), of k]
    have "m ?s2 + (MAX_RETRIES - b) < m s + (MAX_RETRIES - a)" using S b(2) by linarith
    from less.hyps [OF this _ b(1)] S obtain s3 r' s' where
      rec: "with_retry go sleep ?s2 b = Some (r', s')" "I s3" "Q ?s2 s3" "go s3 = Some (r', s')" "I s'" by blast
    have "with_retry go sleep s a = Some (r', s')"
      using one(1) Some rec(1) ka by (subst with_retry.simps) simp
    moreover have "Q s s3"
      using fails [OF less.prems(1) one(1) [unfolded r]] S rec(3) trans by blast
    ultimately show ?thesis using rec by blast
  qed
qed

subsection \<open>The channel\<close>

text \<open>
  \<open>msgs\<close> are the documents in the channel by message id. A send that raises may have sent the
  message. The parts of a big file are those the server has saved. \<open>winv\<close> is an invariant of
  the outside world, \<open>patience\<close> a bound of the flood waits still to come.
\<close>

locale telegram_channel = file_server "t_net C" doc saved
  for C :: "('c, 'n) client" and doc :: "'n \<Rightarrow> nat \<Rightarrow> bytes" and saved :: "'n \<Rightarrow> nat \<Rightarrow> nat \<Rightarrow> bytes option" +
  fixes ent :: entity and msgs :: "'n \<Rightarrow> nat \<Rightarrow> bytes option" and winv :: "'n \<Rightarrow> bool"
    and patience :: "'n \<Rightarrow> nat" and conns :: nat
  assumes quiet: "quiet_net (t_net C) (\<lambda>n. winv n \<and> msgs n = M \<and> doc n = D \<and> patience n \<le> k)"
    and send_stream: "winv n \<Longrightarrow> t_send_file C ent (Stream d) n = (Inr h, n') \<Longrightarrow>
      msgs n h = None \<and> msgs n' = (msgs n)(h := Some d)"
    and send_big: "winv n \<Longrightarrow> t_send_file C ent (Big fid cnt) n = (Inr h, n') \<Longrightarrow>
      (\<And>i. i < cnt \<Longrightarrow> saved n fid i = Some (ps i)) \<Longrightarrow>
      msgs n h = None \<and> msgs n' = (msgs n)(h := Some (concat (map ps [0..<cnt])))"
    and send_raises: "winv n \<Longrightarrow> t_send_file C ent f n = (Inl e, n') \<Longrightarrow> msgs n \<subseteq>\<^sub>m msgs n'"
    and send_any: "winv n \<Longrightarrow> t_send_file C ent f n = (r, n') \<Longrightarrow> winv n' \<and> calm patience r n n'"
    and get_message: "winv n \<Longrightarrow> t_get_message C ent h n = (rm, n') \<Longrightarrow>
      winv n' \<and> msgs n' = msgs n \<and> calm patience rm n n'"
    and message_doc: "winv n \<Longrightarrow> t_get_message C ent h n = (Inr (Some m), n') \<Longrightarrow> m_media m \<Longrightarrow>
      msgs n h = Some (doc n' (m_location m)) \<and>
      (\<forall>dc sz. m_document m = Some (dc, sz) \<longrightarrow>
         sz = length (doc n' (m_location m)) \<and> part_count sz \<le> MAX_PARTS)"
    and media: "winv n \<Longrightarrow> t_download_media C m n = (rd, n') \<Longrightarrow>
      winv n' \<and> msgs n' = msgs n \<and> calm patience rd n n' \<and> (\<forall>d. rd = Inr d \<longrightarrow> d = doc n (m_location m))"
    and deletes: "winv n \<Longrightarrow> t_delete_messages C ent h n = (ru, n') \<Longrightarrow>
      winv n' \<and> calm patience ru n n' \<and> (msgs n)(h := None) \<subseteq>\<^sub>m msgs n'"
    and schedule: "fair conns MAX_PARTS (t_schedule C n)"

text \<open>A connected backend whose pools have the size it chose.\<close>

definition tg_ready :: "('c, 'n) client \<Rightarrow> entity \<Rightarrow> nat \<Rightarrow> ('n \<Rightarrow> bool) \<Rightarrow> ('c, 'n) tg \<Rightarrow> bool" where
  "tg_ready C ent conns winv T \<longleftrightarrow>
     tg_client T = Some C \<and> tg_entity T = ent \<and> tg_conns T = conns \<and> winv (tg_world T) \<and>
     (\<forall>(dc, p) \<in> set (tg_pools T). sp_dc p = dc \<and> sp_size p = conns \<and> pool_ok p)"

text \<open>
  The backend as the record of operations the store calls. A call that does not return has no
  value; the contract below includes that every call returns.
\<close>

definition tg_env :: "(bytes \<Rightarrow> sha) \<Rightarrow> ('c, 'n) tg env" where
  "tg_env hash = \<lparr>upload = (\<lambda>T d. the (tg_upload T d)), download = (\<lambda>T h. the (tg_download T h)),
     delete = (\<lambda>T h. the (tg_delete T h)), sha256 = hash\<rparr>"

lemma tg_env_simps [simp]:
  "upload (tg_env hash) T d = the (tg_upload T d)" "download (tg_env hash) T h = the (tg_download T h)"
  "delete (tg_env hash) T h = the (tg_delete T h)" "sha256 (tg_env hash) = hash"
  by (simp_all add: tg_env_def)

lemma tg_readyD:
  assumes "tg_ready C ent conns winv T"
  shows "tg_client T = Some C" "tg_entity T = ent" "tg_conns T = conns" "winv (tg_world T)"
  using assms by (simp_all add: tg_ready_def)

lemma tg_ready_world: "tg_ready C ent conns winv T \<Longrightarrow> winv n \<Longrightarrow> tg_ready C ent conns winv (T\<lparr>tg_world := n\<rparr>)"
  by (simp add: tg_ready_def)

lemma get_pool_ok:
  assumes "tg_ready C ent conns winv T" "1 < conns"
  shows "sp_dc (get_pool T dc) = dc" "sp_size (get_pool T dc) = conns" "pool_ok (get_pool T dc)"
proof -
  have "sp_dc p = dc \<and> sp_size p = conns \<and> pool_ok p" if "map_of (tg_pools T) dc = Some p" for p
    using map_of_SomeD [OF that] assms(1) by (auto simp: tg_ready_def)
  then show "sp_dc (get_pool T dc) = dc" "sp_size (get_pool T dc) = conns" "pool_ok (get_pool T dc)"
    using assms tg_readyD(3) [OF assms(1)] by (auto simp: get_pool_def pool_ok_def split: option.split)
qed

lemma update_set: "set (AList.update k v xs) \<subseteq> insert (k, v) (set xs)"
  by (induction xs) auto

lemma put_pool_ready:
  assumes "tg_ready C ent conns winv T" "sp_size p = conns" "pool_ok p" "winv n"
  shows "tg_ready C ent conns winv ((put_pool T p)\<lparr>tg_world := n\<rparr>)"
  using assms update_set [of "sp_dc p" p "tg_pools T"] by (fastforce simp: tg_ready_def put_pool_def)

subsection \<open>One attempt\<close>

context telegram_channel
begin

abbreviation ready :: "('c, 'n) tg \<Rightarrow> bool" where
  "ready \<equiv> tg_ready C ent conns winv"

lemma try_big_ok:
  assumes T: "ready T"
  shows "\<exists>f T'. try_big C d T = Some (f, T') \<and> ready T' \<and> msgs (tg_world T') = msgs (tg_world T) \<and>
    patience (tg_world T') \<le> patience (tg_world T) \<and>
    (\<forall>u. f = Some u \<longrightarrow> (\<exists>fid cnt. u = Big fid cnt \<and> cnt = part_count (length d) \<and>
       (\<forall>i < cnt. saved (tg_world T') fid i = Some (slice d (i * PART) ((i + 1) * PART)))))"
proof (cases "tg_conns T > 1 \<and> length d > BIG_FILE")
  case False
  have "try_big C d T = Some (None, T)" unfolding try_big_def by (rule if_not_P [OF False])
  with T show ?thesis by simp
next
  case True
  let ?n = "tg_world T" and ?p = "get_pool T (n_home (t_net C))"
  have c: "1 < conns" using True tg_readyD(3) [OF T] by simp
  note G = get_pool_ok [OF T c]
  note Q = quiet [of "msgs ?n" "doc ?n" "patience ?n"]
  have w: "winv ?n \<and> msgs ?n = msgs ?n \<and> doc ?n = doc ?n \<and> patience ?n \<le> patience ?n"
    using tg_readyD(4) [OF T] by simp
  have F: "fair (sp_size ?p) MAX_PARTS (t_schedule C ?n)" using schedule G(2) by simp
  have "upload_big (t_net C) ?p d (t_schedule C ?n) ?n \<noteq> None"
    by (rule quiet_net.upload_big_returns [OF Q w G(3) F])
  then obtain r p' n' where up: "upload_big (t_net C) ?p d (t_schedule C ?n) ?n = Some (r, p', n')"
    by (metis not_None_eq prod_cases3)
  note K = quiet_net.upload_big_quiet [OF Q up w G(3)]
  have T': "ready ((put_pool T p')\<lparr>tg_world := n'\<rparr>)"
    by (rule put_pool_ready [OF T]) (use K G in auto)
  show ?thesis
  proof (cases r)
    case (Inl e)
    with True up K T' show ?thesis by (simp add: try_big_def)
  next
    case (Inr fc)
    obtain fid cnt where fc: "fc = (fid, cnt)" by force
    have "0 < sp_size ?p" using G(3) by (simp add: pool_ok_def)
    note U = upload_saves_parts [OF up [unfolded Inr fc] this]
    from True up Inr fc K T' U show ?thesis by (simp add: try_big_def)
  qed
qed

lemma upload_go_ok:
  assumes T: "ready T"
  shows "\<exists>r T'. upload_go C d T = Some (r, T') \<and> ready T' \<and> calm patience r (tg_world T) (tg_world T') \<and>
    (case r of Inl e \<Rightarrow> msgs (tg_world T) \<subseteq>\<^sub>m msgs (tg_world T')
     | Inr h \<Rightarrow> msgs (tg_world T) h = None \<and> msgs (tg_world T') = (msgs (tg_world T))(h := Some d))"
proof -
  obtain f T1 where B: "try_big C d T = Some (f, T1)" "ready T1" "msgs (tg_world T1) = msgs (tg_world T)"
    "patience (tg_world T1) \<le> patience (tg_world T)"
    "\<And>u. f = Some u \<Longrightarrow> \<exists>fid cnt. u = Big fid cnt \<and> cnt = part_count (length d) \<and>
       (\<forall>i < cnt. saved (tg_world T1) fid i = Some (slice d (i * PART) ((i + 1) * PART)))"
    using try_big_ok [OF T, of d] by blast
  let ?file = "case f of Some f \<Rightarrow> f | None \<Rightarrow> Stream d"
  obtain r n where send: "t_send_file C ent ?file (tg_world T1) = (r, n)" by force
  note w = tg_readyD(4) [OF B(2)]
  note A = send_any [OF w send]
  have go: "upload_go C d T = Some (r, T1\<lparr>tg_world := n\<rparr>)"
    using B(1) send tg_readyD(2) [OF B(2)] by (simp add: upload_go_def)
  moreover have "ready (T1\<lparr>tg_world := n\<rparr>)" by (rule tg_ready_world [OF B(2)]) (simp add: A)
  moreover have "calm patience r (tg_world T) n" using A B(4) unfolding calm_def by linarith
  moreover have "case r of Inl e \<Rightarrow> msgs (tg_world T) \<subseteq>\<^sub>m msgs n
     | Inr h \<Rightarrow> msgs (tg_world T) h = None \<and> msgs n = (msgs (tg_world T))(h := Some d)"
  proof (cases r)
    case (Inl e)
    with send_raises [OF w send [unfolded Inl]] B(3) show ?thesis by simp
  next
    case (Inr h)
    show ?thesis
    proof (cases f)
      case None
      then have "t_send_file C ent (Stream d) (tg_world T1) = (Inr h, n)" using send Inr by simp
      from send_stream [OF w this] Inr B(3) show ?thesis by simp
    next
      case (Some u)
      then obtain fid cnt where u: "u = Big fid cnt" "cnt = part_count (length d)"
        "\<And>i. i < cnt \<Longrightarrow> saved (tg_world T1) fid i = Some (slice d (i * PART) ((i + 1) * PART))"
        using B(5) by blast
      then have "t_send_file C ent (Big fid cnt) (tg_world T1) = (Inr h, n)" using send Inr Some by simp
      note S = send_big [OF w this u(3)]
      have "concat (map (\<lambda>i. slice d (i * PART) ((i + 1) * PART)) [0..<cnt]) = d"
        unfolding concat_parts using part_count_covers [of "length d"] u(2) by simp
      with S Inr B(3) show ?thesis by simp
    qed
  qed
  ultimately show ?thesis by (intro exI [of _ r] exI [of _ "T1\<lparr>tg_world := n\<rparr>"]) (simp split: sum.splits)
qed

lemma try_parallel_ok:
  assumes T: "ready T" and dsz: "\<And>dc sz. m_document m = Some (dc, sz) \<Longrightarrow>
      sz = length (doc (tg_world T) (m_location m)) \<and> part_count sz \<le> MAX_PARTS"
  shows "\<exists>r T'. try_parallel C m T = Some (r, T') \<and> ready T' \<and> msgs (tg_world T') = msgs (tg_world T) \<and>
    doc (tg_world T') = doc (tg_world T) \<and> patience (tg_world T') \<le> patience (tg_world T) \<and>
    (\<forall>d. r = Some d \<longrightarrow> d = doc (tg_world T) (m_location m))"
proof (cases "\<exists>dc sz. m_document m = Some (dc, sz) \<and> tg_conns T > 1 \<and> sz > 4 * MIB")
  case False
  with T show ?thesis by (auto simp: try_parallel_def split: option.split)
next
  case True
  then obtain dc sz where D: "m_document m = Some (dc, sz)" "tg_conns T > 1" "sz > 4 * MIB" by blast
  let ?n = "tg_world T" and ?p = "get_pool T dc"
  have c: "1 < conns" using D(2) tg_readyD(3) [OF T] by simp
  note G = get_pool_ok [OF T c] and L = dsz [OF D(1)]
  note Q = quiet [of "msgs ?n" "doc ?n" "patience ?n"]
  have w: "winv ?n \<and> msgs ?n = msgs ?n \<and> doc ?n = doc ?n \<and> patience ?n \<le> patience ?n"
    using tg_readyD(4) [OF T] by simp
  have F: "fair (sp_size ?p) MAX_PARTS (t_schedule C ?n)" using schedule G(2) by simp
  have "download_doc (t_net C) ?p (Some dc, m_location m) sz (t_schedule C ?n) ?n \<noteq> None"
    by (rule quiet_net.download_doc_returns [OF Q w G(3) F conjunct2 [OF L]])
  then obtain r p' n' where dl: "download_doc (t_net C) ?p (Some dc, m_location m) sz (t_schedule C ?n) ?n = Some (r, p', n')"
    by (metis not_None_eq prod_cases3)
  note K = quiet_net.download_doc_quiet [OF Q dl w G(3)]
  have T': "ready ((put_pool T p')\<lparr>tg_world := n'\<rparr>)"
    by (rule put_pool_ready [OF T]) (use K G in auto)
  have "out = doc ?n (m_location m)" if "r = Inr out" for out
    using download_is_document [of ?p "Some dc" "m_location m" ?n] dl that L G(3) by (simp add: pool_ok_def)
  with D dl K T' show ?thesis by (cases r) (simp_all add: try_parallel_def)
qed

lemma download_go_ok:
  assumes T: "ready T"
  shows "\<exists>r T'. download_go C h T = Some (r, T') \<and> ready T' \<and> calm patience r (tg_world T) (tg_world T') \<and>
    msgs (tg_world T') = msgs (tg_world T) \<and> (\<forall>d. r = Inr d \<longrightarrow> msgs (tg_world T) h = Some d)"
proof -
  let ?n = "tg_world T"
  obtain rm n where get: "t_get_message C ent h ?n = (rm, n)" by force
  note w = tg_readyD(4) [OF T]
  note A = get_message [OF w get]
  have T1: "ready (T\<lparr>tg_world := n\<rparr>)" by (rule tg_ready_world [OF T]) (simp add: A)
  have le: "patience n \<le> patience ?n" using A by (simp add: calm_def)
  consider (err) e where "rm = Inl e" | (none) om where "rm = Inr om" "om = None \<or> (\<exists>m. om = Some m \<and> \<not> m_media m)"
    | (some) m where "rm = Inr (Some m)" "m_media m"
    by (cases rm) (auto, metis not_None_eq)
  then show ?thesis
  proof cases
    case err
    then have "calm patience (Inl e :: exn + bytes) ?n n" using A by (simp add: calm_def is_flood_def)
    with err get A T1 tg_readyD(2) [OF T] show ?thesis by (simp add: download_go_def)
  next
    case none
    have "calm patience (Inl (OSError None) :: exn + bytes) ?n n" using le by (simp add: calm_def is_flood_def)
    with none get A T1 tg_readyD(2) [OF T] show ?thesis by (auto simp: download_go_def split: option.splits)
  next
    case some
    note M = message_doc [OF w get [unfolded some(1)] some(2)]
    obtain r T2 where P: "try_parallel C m (T\<lparr>tg_world := n\<rparr>) = Some (r, T2)" "ready T2"
      "msgs (tg_world T2) = msgs n" "doc (tg_world T2) = doc n" "patience (tg_world T2) \<le> patience n"
      "\<And>d. r = Some d \<Longrightarrow> d = doc n (m_location m)"
      using try_parallel_ok [OF T1, of m] M by auto
    show ?thesis
    proof (cases r)
      case (Some d)
      then have "download_go C h T = Some (Inr d, T2)"
        using get some P(1) tg_readyD(2) [OF T] by (simp add: download_go_def)
      moreover have "calm patience (Inr d :: exn + bytes) ?n (tg_world T2)"
        using le P(5) by (simp add: calm_def is_flood_def)
      ultimately show ?thesis using P(2,3,6) A M Some by auto
    next
      case None
      obtain rd n2 where dl: "t_download_media C m (tg_world T2) = (rd, n2)" by force
      note B = media [OF tg_readyD(4) [OF P(2)] dl]
      have "download_go C h T = Some (rd, T2\<lparr>tg_world := n2\<rparr>)"
        using get some P(1) None dl tg_readyD(2) [OF T] by (simp add: download_go_def)
      moreover have "calm patience rd ?n n2" using B le P(5) unfolding calm_def by linarith
      moreover have "ready (T2\<lparr>tg_world := n2\<rparr>)" by (rule tg_ready_world [OF P(2)]) (simp add: B)
      ultimately show ?thesis using B P(3,4) A M by auto
    qed
  qed
qed

lemma delete_go_ok:
  assumes T: "ready T"
  shows "\<exists>r T'. delete_go C h T = Some (r, T') \<and> ready T' \<and> calm patience r (tg_world T) (tg_world T') \<and>
    (msgs (tg_world T))(h := None) \<subseteq>\<^sub>m msgs (tg_world T')"
proof -
  obtain r n where del: "t_delete_messages C ent h (tg_world T) = (r, n)" by force
  note A = deletes [OF tg_readyD(4) [OF T] del]
  have "ready (T\<lparr>tg_world := n\<rparr>)" by (rule tg_ready_world [OF T]) (simp add: A)
  with del A tg_readyD(2) [OF T] show ?thesis by (simp add: delete_go_def)
qed

subsection \<open>The retried operations\<close>

lemma sleep_ready:
  assumes "ready T"
  shows "ready (T\<lparr>tg_world := n_sleep (t_net C) k (tg_world T)\<rparr>)"
    "msgs (n_sleep (t_net C) k (tg_world T)) = msgs (tg_world T)"
    "patience (n_sleep (t_net C) k (tg_world T)) \<le> patience (tg_world T)"
proof -
  have "winv (tg_world T) \<and> msgs (tg_world T) = msgs (tg_world T) \<and> doc (tg_world T) = doc (tg_world T) \<and>
      patience (tg_world T) \<le> patience (tg_world T)"
    using tg_readyD(4) [OF assms] by simp
  note S = quiet_net.sleep_quiet [OF quiet this, of k]
  show "ready (T\<lparr>tg_world := n_sleep (t_net C) k (tg_world T)\<rparr>)"
    by (rule tg_ready_world [OF assms]) (simp add: S)
  show "msgs (n_sleep (t_net C) k (tg_world T)) = msgs (tg_world T)"
    "patience (n_sleep (t_net C) k (tg_world T)) \<le> patience (tg_world T)"
    using S by simp_all
qed

text \<open>
  \<open>R\<close> relates the channel before and after an attempt that raised: it holds between the call
  and its last attempt.
\<close>

lemma tg_retry_last:
  assumes go: "\<And>T. ready T \<Longrightarrow> \<exists>r T'. go C T = Some (r, T') \<and> ready T' \<and> calm patience r (tg_world T) (tg_world T')"
    and fails: "\<And>T e T'. ready T \<Longrightarrow> go C T = Some (Inl e, T') \<Longrightarrow> R (msgs (tg_world T)) (msgs (tg_world T'))"
    and refl: "\<And>f. R f f" and trans: "\<And>f g h. R f g \<Longrightarrow> R g h \<Longrightarrow> R f h" and T: "ready T"
  shows "\<exists>T1 r T'. tg_retry go T = Some (r, T') \<and> ready T1 \<and> R (msgs (tg_world T)) (msgs (tg_world T1)) \<and>
    go C T1 = Some (r, T') \<and> ready T'"
proof -
  let ?go = "\<lambda>T. case tg_client T of None \<Rightarrow> Some (Inl RuntimeError, T) | Some C \<Rightarrow> go C T"
  let ?sleep = "\<lambda>k T. case tg_client T of None \<Rightarrow> T | Some C \<Rightarrow> T\<lparr>tg_world := n_sleep (t_net C) k (tg_world T)\<rparr>"
  let ?Q = "\<lambda>s t. R (msgs (tg_world s)) (msgs (tg_world t))"
  have is_go: "?go T = go C T" if "ready T" for T using tg_readyD(1) [OF that] by simp
  have "\<exists>s1 r s'. with_retry ?go ?sleep T 0 = Some (r, s') \<and> ready s1 \<and> ?Q T s1 \<and> ?go s1 = Some (r, s') \<and> ready s'"
  proof (rule with_retry_last [where m = "\<lambda>T. patience (tg_world T)"])
    show "\<exists>r T'. ?go T = Some (r, T') \<and> ready T' \<and> calm (\<lambda>T. patience (tg_world T)) r T T'" if "ready T" for T
      using go [OF that] unfolding is_go [OF that] by (simp add: calm_def)
    show "ready (?sleep k T) \<and> patience (tg_world (?sleep k T)) \<le> patience (tg_world T) \<and> ?Q T (?sleep k T)"
      if "ready T" for k T
      using sleep_ready [OF that, of k] tg_readyD(1) [OF that] refl by simp
    show "?Q T T'" if "ready T" "?go T = Some (Inl e, T')" for T e T'
      using that(2) fails [OF that(1), of e T'] unfolding is_go [OF that(1)] by blast
    show "?Q s u" if "?Q s t" "?Q t u" for s t u using trans [OF that] .
  qed (use refl T in \<open>simp_all add: MAX_RETRIES_def\<close>)
  then obtain T1 r T' where L: "with_retry ?go ?sleep T 0 = Some (r, T')" "ready T1" "?Q T T1"
    "?go T1 = Some (r, T')" "ready T'" by blast
  show ?thesis
    by (intro exI [of _ T1] exI [of _ r] exI [of _ T'])
      (simp only: tg_retry_def L is_go [OF L(2), symmetric] simp_thms)
qed

lemma tg_upload_ok:
  assumes "ready T"
  shows "\<exists>r T'. tg_upload T d = Some (r, T') \<and> ready T' \<and> msgs (tg_world T) \<subseteq>\<^sub>m msgs (tg_world T') \<and>
    (\<forall>h. r = Inr h \<longrightarrow> msgs (tg_world T) h = None \<and> msgs (tg_world T') h = Some d)"
proof -
  obtain T1 r T' where U: "tg_retry (\<lambda>C. upload_go C d) T = Some (r, T')" "ready T1"
    "msgs (tg_world T) \<subseteq>\<^sub>m msgs (tg_world T1)" "upload_go C d T1 = Some (r, T')" "ready T'"
  proof -
    have "\<exists>T1 r T'. tg_retry (\<lambda>C. upload_go C d) T = Some (r, T') \<and> ready T1 \<and>
        msgs (tg_world T) \<subseteq>\<^sub>m msgs (tg_world T1) \<and> upload_go C d T1 = Some (r, T') \<and> ready T'"
    proof (rule tg_retry_last [OF _ _ map_le_refl map_le_trans assms])
      show "\<exists>r T'. upload_go C d T = Some (r, T') \<and> ready T' \<and> calm patience r (tg_world T) (tg_world T')"
        if "ready T" for T using upload_go_ok [OF that, of d] by blast
      show "msgs (tg_world T) \<subseteq>\<^sub>m msgs (tg_world T')" if "ready T" "upload_go C d T = Some (Inl e, T')" for T e T'
        using upload_go_ok [OF that(1), of d] that(2) by auto
    qed
    with that show thesis by blast
  qed
  have L: "case r of Inl e \<Rightarrow> msgs (tg_world T1) \<subseteq>\<^sub>m msgs (tg_world T')
     | Inr h \<Rightarrow> msgs (tg_world T1) h = None \<and> msgs (tg_world T') = (msgs (tg_world T1))(h := Some d)"
    using upload_go_ok [OF U(2), of d] U(4) by fastforce
  have "msgs (tg_world T1) \<subseteq>\<^sub>m msgs (tg_world T')" using L by (auto simp: map_le_def split: sum.splits)
  from map_le_trans [OF U(3) this] have le: "msgs (tg_world T) \<subseteq>\<^sub>m msgs (tg_world T')" .
  have "msgs (tg_world T) h = None \<and> msgs (tg_world T') h = Some d" if r: "r = Inr h" for h
  proof -
    from L r have h: "msgs (tg_world T1) h = None" "msgs (tg_world T') h = Some d" by simp_all
    have "msgs (tg_world T) h \<noteq> Some y" for y
      using U(3) h(1) unfolding map_le_def by (metis domI option.distinct(1))
    with h(2) show ?thesis by (cases "msgs (tg_world T) h") auto
  qed
  with U(1,5) le show ?thesis by (auto simp: tg_upload_def)
qed

lemma tg_download_ok:
  assumes "ready T"
  shows "\<exists>r T'. tg_download T h = Some (r, T') \<and> ready T' \<and> msgs (tg_world T') = msgs (tg_world T) \<and>
    (\<forall>d. r = Inr d \<longrightarrow> msgs (tg_world T) h = Some d)"
proof -
  obtain T1 r T' where U: "tg_retry (\<lambda>C. download_go C h) T = Some (r, T')" "ready T1"
    "msgs (tg_world T) = msgs (tg_world T1)" "download_go C h T1 = Some (r, T')" "ready T'"
  proof -
    have "\<exists>T1 r T'. tg_retry (\<lambda>C. download_go C h) T = Some (r, T') \<and> ready T1 \<and>
        msgs (tg_world T) = msgs (tg_world T1) \<and> download_go C h T1 = Some (r, T') \<and> ready T'"
    proof (rule tg_retry_last [OF _ _ HOL.refl HOL.trans assms])
      show "\<exists>r T'. download_go C h T = Some (r, T') \<and> ready T' \<and> calm patience r (tg_world T) (tg_world T')"
        if "ready T" for T using download_go_ok [OF that, of h] by blast
      show "msgs (tg_world T) = msgs (tg_world T')" if "ready T" "download_go C h T = Some (Inl e, T')" for T e T'
        using download_go_ok [OF that(1), of h] that(2) by auto
    qed
    with that show thesis by blast
  qed
  with download_go_ok [OF U(2), of h] show ?thesis by (auto simp: tg_download_def)
qed

lemma tg_delete_ok:
  assumes "ready T"
  shows "\<exists>r T'. tg_delete T h = Some (r, T') \<and> ready T' \<and> (msgs (tg_world T))(h := None) \<subseteq>\<^sub>m msgs (tg_world T')"
proof -
  let ?R = "\<lambda>f g. f(h := None) \<subseteq>\<^sub>m g"
  have refl: "?R f f" for f :: "nat \<Rightarrow> bytes option" by (simp add: map_le_def)
  have trans: "?R f k" if "?R f g" "?R g k" for f g k :: "nat \<Rightarrow> bytes option"
    using that unfolding map_le_def by (metis domI domIff fun_upd_apply)
  obtain T1 r T' where U: "tg_retry (\<lambda>C. delete_go C h) T = Some (r, T')" "ready T1"
    "?R (msgs (tg_world T)) (msgs (tg_world T1))" "delete_go C h T1 = Some (r, T')" "ready T'"
  proof -
    have "\<exists>T1 r T'. tg_retry (\<lambda>C. delete_go C h) T = Some (r, T') \<and> ready T1 \<and>
        ?R (msgs (tg_world T)) (msgs (tg_world T1)) \<and> delete_go C h T1 = Some (r, T') \<and> ready T'"
    proof (rule tg_retry_last [where R = ?R, OF _ _ refl trans assms])
      show "\<exists>r T'. delete_go C h T = Some (r, T') \<and> ready T' \<and> calm patience r (tg_world T) (tg_world T')"
        if "ready T" for T using delete_go_ok [OF that, of h] by blast
      show "?R (msgs (tg_world T)) (msgs (tg_world T'))" if "ready T" "delete_go C h T = Some (Inl e, T')" for T e T'
        using delete_go_ok [OF that(1), of h] that(2) by auto
    qed
    with that show thesis by blast
  qed
  have "?R (msgs (tg_world T1)) (msgs (tg_world T'))" using delete_go_ok [OF U(2), of h] U(4) by fastforce
  from trans [OF U(3) this] U show ?thesis by (simp add: tg_delete_def)
qed

end

sublocale telegram_channel \<subseteq> tgb: faulty_backend "tg_env hash" "\<lambda>T. msgs (tg_world T)" ready for hash
proof unfold_locales
  fix T d h T'
  assume "ready T" "upload (tg_env hash) T d = (Inr h, T')"
  with tg_upload_ok [of T d]
  show "ready T' \<and> msgs (tg_world T) h = None \<and> msgs (tg_world T') h = Some d \<and>
      msgs (tg_world T) \<subseteq>\<^sub>m msgs (tg_world T')" by auto
next
  fix T d e T'
  assume "ready T" "upload (tg_env hash) T d = (Inl e, T')"
  with tg_upload_ok [of T d] show "ready T' \<and> msgs (tg_world T) \<subseteq>\<^sub>m msgs (tg_world T')" by auto
next
  fix T h d T'
  assume "ready T" "download (tg_env hash) T h = (Inr d, T')"
  with tg_download_ok [of T h] show "msgs (tg_world T) h = Some d" by auto
next
  fix T h r T'
  assume "ready T" "download (tg_env hash) T h = (r, T')"
  with tg_download_ok [of T h] show "ready T' \<and> msgs (tg_world T) \<subseteq>\<^sub>m msgs (tg_world T')" by auto
next
  fix T h r T'
  assume "ready T" "delete (tg_env hash) T h = (r, T')"
  with tg_delete_ok [of T h] show "ready T' \<and> (msgs (tg_world T))(h := None) \<subseteq>\<^sub>m msgs (tg_world T')" by auto
qed

context telegram_channel
begin

lemma is_backend: "faulty_backend (tg_env hash) (\<lambda>T. msgs (tg_world T)) ready"
  by (rule tgb.faulty_backend_axioms)

end

end
