(* ===== verification/Commands.thy ===== *)
theory Commands
  imports Config Mount TelegramBackend
begin

section \<open>The command line (tgfs/main.py)\<close>

text \<open>
  The four subcommands, from the namespace \<open>argparse\<close> gives and the settings \<open>load\<close> returned or
  the exception it raised. What is printed is a list of lines of one of the two streams. The
  Telethon client is the parameter of \<open>Telegram\<close>; \<open>start\<close> and \<open>get_me\<close> of the login are two more
  calls of it. Random bytes are a parameter.
\<close>

datatype line = Out string | Err string

datatype command = Login | Channels | Smoke | MountAt "string option" bool

record namespace =
  a_config :: string
  a_verbose :: bool
  a_command :: command

definition show_int :: "int \<Rightarrow> string" where
  "show_int z = to_str (VInt z)"

text \<open>\<open>f"{s:>n}"\<close>.\<close>

definition pad_left :: "nat \<Rightarrow> string \<Rightarrow> string" where
  "pad_left n s = replicate (n - length s) (CHR '' '') @ s"

subsection \<open>login and channels\<close>

definition cmd_login ::
    "exn + config \<Rightarrow> ('n \<Rightarrow> (exn + unit) \<times> 'n) \<Rightarrow> ('n \<Rightarrow> (exn + string option \<times> int) \<times> 'n) \<Rightarrow>
     ('c, 'n) client \<Rightarrow> 'n \<Rightarrow> (exn + int) \<times> line list \<times> 'n" where
  "cmd_login cfg start get_me C n =
     (case cfg of
        Inl e \<Rightarrow> (Inl e, [], n)
      | Inr k \<Rightarrow>
          (case start n of
             (Inl e, n1) \<Rightarrow> (Inl e, [], n1)
           | (Inr _, n1) \<Rightarrow>
               (case get_me n1 of
                  (Inl e, n2) \<Rightarrow> (Inl e, [], n2)
                | (Inr (username, mid), n2) \<Rightarrow>
                    (Inr 0,
                     [Out (''authorized as '' @
                           (case username of
                              None \<Rightarrow> show_int mid
                            | Some u \<Rightarrow> if u = [] then show_int mid else u)),
                      Out (''session saved to '' @ k_session k)],
                     t_disconnect C n2))))"

text \<open>The coroutine \<open>_run\<close>: \<open>None\<close> when the session is not authorized.\<close>

definition channels_run ::
    "('c, 'n) client \<Rightarrow> 'n \<Rightarrow> (exn + (int \<times> string) list option) \<times> line list \<times> 'n" where
  "channels_run C n =
     (case t_connect C n of
        (Inl e, n1) \<Rightarrow> (Inl e, [], n1)
      | (Inr _, n1) \<Rightarrow>
          (case t_authorized C n1 of
             (Inl e, n2) \<Rightarrow> (Inl e, [], t_disconnect C n2)
           | (Inr ok, n2) \<Rightarrow>
               if \<not> ok
               then (Inr None, [Err ''not authorized; run `tgfs login` first''], t_disconnect C n2)
               else (case t_dialogs C n2 of
                       (Inl e, n3) \<Rightarrow> (Inl e, [], t_disconnect C n3)
                     | (Inr ds, n3) \<Rightarrow>
                         (Inr (Some (map (\<lambda>d. (d_id d,
                              case e_title (d_entity d) of None \<Rightarrow> ''?'' | Some t \<Rightarrow> t))
                            (filter d_is_channel ds))), [], t_disconnect C n3))))"

definition channel_row :: "int \<times> string \<Rightarrow> string" where
  "channel_row row = (case row of (cid, title) \<Rightarrow> pad_left 16 (show_int cid) @ ''  '' @ title)"

definition cmd_channels :: "exn + config \<Rightarrow> ('c, 'n) client \<Rightarrow> 'n \<Rightarrow> (exn + int) \<times> line list \<times> 'n" where
  "cmd_channels cfg C n =
     (case cfg of
        Inl e \<Rightarrow> (Inl e, [], n)
      | Inr k \<Rightarrow>
          (case channels_run C n of
             (Inl e, out, n1) \<Rightarrow> (Inl e, out, n1)
           | (Inr None, out, n1) \<Rightarrow> (Inr 1, out, n1)
           | (Inr (Some rows), out, n1) \<Rightarrow>
               (Inr 0,
                out @ Out (pad_left 16 ''id'' @ ''  title'') # map (\<lambda>row. Out (channel_row row)) rows @
                  [Out [], Out ''set the chosen id as `channel` in config.toml''],
                n1)))"

subsection \<open>smoke\<close>

definition smoke_payload :: "bytes \<Rightarrow> bytes" where
  "smoke_payload rnd = map of_char ''tgfs smoke test '' @ rnd"

text \<open>The body of the \<open>try\<close>; the backend is any of the protocol.\<close>

definition smoke_run :: "'b env \<Rightarrow> bytes \<Rightarrow> 'b \<Rightarrow> (exn + int) \<times> line list \<times> 'b" where
  "smoke_run E rnd b =
     (let payload = smoke_payload rnd;
          want = sha256 E payload;
          out0 = [Out (''uploading '' @ dec (length payload) @ '' bytes (sha256='' @ take 12 want @ ''...)'')]
      in case upload E b payload of
           (Inl e, b1) \<Rightarrow> (Inl e, out0, b1)
         | (Inr handle, b1) \<Rightarrow>
             (let out1 = out0 @ [Out (''  -> stored as message id '' @ dec handle)]
              in case download E b1 handle of
                   (Inl e, b2) \<Rightarrow> (Inl e, out1, b2)
                 | (Inr got, b2) \<Rightarrow>
                     (let ok = (sha256 E got = want);
                          out2 = out1 @ [Out (''download round-trip: '' @ (if ok then ''OK'' else ''MISMATCH'') @
                                   '' ('' @ dec (length got) @ '' bytes)'')]
                      in case delete E b2 handle of
                           (Inl e, b3) \<Rightarrow> (Inl e, out2, b3)
                         | (Inr _, b3) \<Rightarrow>
                             (Inr (if ok then 0 else 2), out2 @ [Out ''deleted test message''], b3))))"

text \<open>How \<open>build_core\<close>, \<open>mount\<close> and \<open>TelegramBackend\<close> read the settings.\<close>

definition cfg_channel :: "config \<Rightarrow> channel" where
  "cfg_channel k = (case k_channel k of VInt i \<Rightarrow> ChanId i | v \<Rightarrow> ChanName (to_str v))"

definition cfg_telegram :: "config \<Rightarrow> tgconfig" where
  "cfg_telegram k =
     \<lparr>cf_channel = cfg_channel k, cf_chunk_size = nat (k_chunk_size k), cf_connections = k_connections k\<rparr>"

definition cfg_core :: "config \<Rightarrow> fsconfig" where
  "cfg_core k =
     \<lparr>cfg_chunk_size = nat (k_chunk_size k), cfg_upload_workers = nat (k_upload_workers k),
      cfg_readahead = nat (k_readahead k), cfg_delay = of_rat (k_delay k)\<rparr>"

text \<open>A constructor that raises does so before the \<open>try\<close>; else the backend is closed in any case.\<close>

definition cmd_smoke ::
    "exn + config \<Rightarrow> (bytes \<Rightarrow> sha) \<Rightarrow> ('c, 'n) client \<Rightarrow> bytes \<Rightarrow> 'n \<Rightarrow> (exn + int) \<times> line list \<times> 'n" where
  "cmd_smoke cfg hash C rnd n =
     (case cfg of
        Inl e \<Rightarrow> (Inl e, [], n)
      | Inr k \<Rightarrow>
          (case tg_connect C True (cfg_telegram k) n of
             (Inl e, n1) \<Rightarrow> (Inl e, [], n1)
           | (Inr T, n1) \<Rightarrow>
               (case smoke_run (tg_env hash) rnd T of
                  (r, out, T1) \<Rightarrow> (r, out, tg_world (tg_close T1)))))"

subsection \<open>mount\<close>

text \<open>
  \<open>build_core\<close> connects first; the index and the cache directory are opened from the paths of
  the settings. The cleanup closes the backend after the final flush.
\<close>

definition mount_telegram ::
    "('t \<Rightarrow> string \<Rightarrow> attributes \<Rightarrow> nat \<Rightarrow> bool \<times> 't) \<Rightarrow> (bytes \<Rightarrow> sha) \<Rightarrow> ('c, 'n) client \<Rightarrow>
     (string \<Rightarrow> meta) \<Rightarrow> (string \<Rightarrow> (sha \<times> bytes) list) \<Rightarrow> config \<Rightarrow> 'n \<Rightarrow> 't event list \<Rightarrow>
     (exn + int) \<times> 't reply list \<times> 'n" where
  "mount_telegram reply hash C open_meta cache_files k n evs =
     (case tg_connect C True (cfg_telegram k) n of
        (Inl e, n1) \<Rightarrow> (Inl e, [], n1)
      | (Inr T, n1) \<Rightarrow>
          (case mount reply (tg_env hash) (cfg_core k) (open_meta (k_meta_db k)) T
                  (rc_open (k_cache_cap k) (cache_files (k_cache_dir k))) evs of
             (r, as, s) \<Rightarrow> (r, as, tg_world (tg_close (s_back s)))))"

text \<open>\<open>cmd_mount\<close>: \<open>args.mountpoint or str(cfg.mount)\<close>; \<open>run\<close> mounts at a path.\<close>

definition cmd_mount ::
    "exn + config \<Rightarrow> string option \<Rightarrow> (config \<Rightarrow> string \<Rightarrow> 'n \<Rightarrow> (exn + int) \<times> 'n) \<Rightarrow> 'n \<Rightarrow> (exn + int) \<times> line list \<times> 'n" where
  "cmd_mount cfg mountpoint run n =
     (case cfg of
        Inl e \<Rightarrow> (Inl e, [], n)
      | Inr k \<Rightarrow>
          (let point = (case mountpoint of Some p \<Rightarrow> if p = [] then k_mount k else p | None \<Rightarrow> k_mount k)
           in case run k point n of (r, n1) \<Rightarrow> (r, [], n1)))"

text \<open>\<open>main\<close>: every subcommand loads the settings from the path given.\<close>

definition main_command ::
    "(string \<Rightarrow> exn + config) \<Rightarrow> ('n \<Rightarrow> (exn + unit) \<times> 'n) \<Rightarrow> ('n \<Rightarrow> (exn + string option \<times> int) \<times> 'n) \<Rightarrow>
     (bytes \<Rightarrow> sha) \<Rightarrow> bytes \<Rightarrow> (config \<Rightarrow> string \<Rightarrow> 'n \<Rightarrow> (exn + int) \<times> 'n) \<Rightarrow> ('c, 'n) client \<Rightarrow>
     namespace \<Rightarrow> 'n \<Rightarrow> (exn + int) \<times> line list \<times> 'n" where
  "main_command load_cfg start get_me hash rnd run C args n =
     (let cfg = load_cfg (a_config args)
      in case a_command args of
           Login \<Rightarrow> cmd_login cfg start get_me C n
         | Channels \<Rightarrow> cmd_channels cfg C n
         | Smoke \<Rightarrow> cmd_smoke cfg hash C rnd n
         | MountAt point background \<Rightarrow> cmd_mount cfg point run n)"

end
