(* ===== verification/ChannelProps.thy ===== *)
theory ChannelProps
  imports TelegramBackend
begin

section \<open>Properties of the Telegram backend over a channel\<close>

text \<open>
  A channel held in memory, whose answers may be lost, shows that the laws asked of a channel
  can be met. \<open>tc_faults\<close> says of each request to come what it raises and whether it has its
  effect all the same. A message's media is located by the message's own id.
\<close>

record tcenter =
  tc_msgs :: "nat \<Rightarrow> bytes option"
  tc_saved :: "nat \<Rightarrow> nat \<Rightarrow> bytes option"
  tc_next :: nat
  tc_faults :: "(exn \<times> bool) list"

definition tc_call :: "(tcenter \<Rightarrow> (exn + 'a) \<times> tcenter) \<Rightarrow> tcenter \<Rightarrow> (exn + 'a) \<times> tcenter" where
  "tc_call op n =
     (case tc_faults n of
        [] \<Rightarrow> op n
      | (e, done) # fs \<Rightarrow> (Inl e, (if done then snd (op n) else n)\<lparr>tc_faults := fs\<rparr>))"

definition tc_doc :: "tcenter \<Rightarrow> nat \<Rightarrow> bytes" where
  "tc_doc n loc = (case tc_msgs n loc of Some d \<Rightarrow> d | None \<Rightarrow> [])"

definition tc_post :: "bytes \<Rightarrow> tcenter \<Rightarrow> (exn + nat) \<times> tcenter" where
  "tc_post d n =
     (if part_count (length d) > MAX_PARTS then (Inl RuntimeError, n)
      else (Inr (tc_next n), n\<lparr>tc_msgs := (tc_msgs n)(tc_next n := Some d), tc_next := tc_next n + 1\<rparr>))"

definition tc_bytes :: "upload_file \<Rightarrow> tcenter \<Rightarrow> bytes" where
  "tc_bytes f n =
     (case f of
        Stream d \<Rightarrow> d
      | Big fid cnt \<Rightarrow> concat (map (\<lambda>i. case tc_saved n fid i of Some b \<Rightarrow> b | None \<Rightarrow> []) [0..<cnt]))"

definition tc_net :: "(unit, tcenter) net" where
  "tc_net = \<lparr>n_home = 2, n_exported = (\<lambda>_ n. (Inr (), n)), n_connect = (\<lambda>n. (Inr (), n)), n_disconnect = (\<lambda>_ n. n), n_sleep = (\<lambda>_ n. n),
     n_get = (\<lambda>_ loc off k. tc_call (\<lambda>n. (Inr (FileBytes (slice (tc_doc n loc) off (off + k))), n))),
     n_save = (\<lambda>_ fid i cnt b. tc_call
        (\<lambda>n. (Inr True, n\<lparr>tc_saved := (tc_saved n)(fid := (tc_saved n fid)(i := Some b))\<rparr>))),
     n_random = (\<lambda>n. (0, n))\<rparr>"

definition tc_client :: "nat \<Rightarrow> (unit, tcenter) client" where
  "tc_client conns = \<lparr>t_connect = (\<lambda>n. (Inr (), n)), t_authorized = (\<lambda>n. (Inr True, n)),
     t_premium = (\<lambda>n. (Inr True, n)),
     t_get_entity = (\<lambda>_ n. (Inr \<lparr>e_id = 1, e_username = None, e_title = None\<rparr>, n)),
     t_dialogs = (\<lambda>n. (Inr [], n)),
     t_send_file = (\<lambda>_ f. tc_call (\<lambda>n. tc_post (tc_bytes f n) n)),
     t_get_message = (\<lambda>_ h. tc_call (\<lambda>n. (Inr (map_option
        (\<lambda>d. \<lparr>m_id = h, m_media = True, m_document = Some (2, length d), m_location = h\<rparr>) (tc_msgs n h)), n))),
     t_download_media = (\<lambda>m. tc_call (\<lambda>n. (Inr (tc_doc n (m_location m)), n))),
     t_delete_messages = (\<lambda>_ h. tc_call (\<lambda>n. (Inr (), n\<lparr>tc_msgs := (tc_msgs n)(h := None)\<rparr>))),
     t_disconnect = (\<lambda>n. n), t_schedule = (\<lambda>_. concat (replicate (2 * MAX_PARTS + 1) [0..<conns])), t_net = tc_net\<rparr>"

definition tc_inv :: "tcenter \<Rightarrow> bool" where
  "tc_inv n \<longleftrightarrow> (\<forall>h d. tc_msgs n h = Some d \<longrightarrow> h < tc_next n \<and> part_count (length d) \<le> MAX_PARTS)"

definition tc_patience :: "tcenter \<Rightarrow> nat" where
  "tc_patience n = length (tc_faults n)"

lemma tc_faults_update [simp]:
  "tc_doc (n\<lparr>tc_faults := fs\<rparr>) = tc_doc n" "tc_inv (n\<lparr>tc_faults := fs\<rparr>) = tc_inv n"
  "tc_doc (n\<lparr>tc_saved := sv\<rparr>) = tc_doc n" "tc_inv (n\<lparr>tc_saved := sv\<rparr>) = tc_inv n"
  by (simp_all add: tc_doc_def fun_eq_iff tc_inv_def)

text \<open>A call either answers, or raises with or without its effect and uses up a fault.\<close>

lemma tc_callE:
  assumes "tc_call op n = (r, n')" and ops: "\<And>r m. op n = (r, m) \<Longrightarrow> tc_faults m = tc_faults n"
  obtains (answer) "op n = (r, n')" "tc_patience n' = tc_patience n"
    | (lost) e m where "r = Inl e" "m = n \<or> m = snd (op n)" "n' = m\<lparr>tc_faults := tc_faults n'\<rparr>"
      "tc_patience n' < tc_patience n"
proof (cases "tc_faults n")
  case Nil
  then have "op n = (r, n')" using assms(1) by (simp add: tc_call_def)
  then show thesis using answer ops [of r n'] by (simp add: tc_patience_def)
next
  case (Cons f fs)
  obtain e eff where f: "f = (e, eff)" by force
  with assms(1) Cons have "r = Inl e" "n' = (if eff then snd (op n) else n)\<lparr>tc_faults := fs\<rparr>"
    by (simp_all add: tc_call_def)
  then show thesis
    by (intro lost [of e "if eff then snd (op n) else n"]) (simp_all add: tc_patience_def Cons)
qed

lemma tc_net_server: "file_server tc_net tc_doc tc_saved"
proof unfold_locales
  fix c loc off k n b n'
  assume "n_get tc_net c loc off k n = (Inr (FileBytes b), n')"
  then show "b = slice (tc_doc n loc) off (off + k)"
    by (auto simp: tc_net_def tc_call_def split: list.splits prod.splits if_splits)
next
  fix c loc off k n r n'
  assume "n_get tc_net c loc off k n = (r, n')"
  then show "tc_doc n' = tc_doc n"
    by (auto simp: tc_net_def tc_call_def split: list.splits prod.splits if_splits)
next
  fix c fid i cnt b n n'
  assume "n_save tc_net c fid i cnt b n = (Inr True, n')"
  then show "tc_saved n' fid i = Some b"
    by (auto simp: tc_net_def tc_call_def split: list.splits prod.splits if_splits)
next
  fix c fid i cnt b n r' n'
  assume "n_save tc_net c fid i cnt b n = (r', n')"
  then show "tc_saved n' = tc_saved n \<or> tc_saved n' = (tc_saved n)(fid := (tc_saved n fid)(i := Some b))"
    by (auto simp: tc_net_def tc_call_def split: list.splits prod.splits if_splits)
qed (auto simp: tc_net_def)

lemma tc_net_quiet:
  "quiet_net tc_net (\<lambda>n. tc_inv n \<and> tc_msgs n = M \<and> tc_doc n = D \<and> tc_patience n \<le> k)"
proof unfold_locales
  fix n c loc off l rg n'
  assume P: "tc_inv n \<and> tc_msgs n = M \<and> tc_doc n = D \<and> tc_patience n \<le> k"
    and "n_get tc_net c loc off l n = (rg, n')"
  then show "tc_inv n' \<and> tc_msgs n' = M \<and> tc_doc n' = D \<and> tc_patience n' \<le> k"
    by (auto simp: tc_net_def tc_call_def tc_patience_def split: list.splits prod.splits if_splits)
next
  fix n c fid i cnt b rs n'
  assume P: "tc_inv n \<and> tc_msgs n = M \<and> tc_doc n = D \<and> tc_patience n \<le> k"
    and "n_save tc_net c fid i cnt b n = (rs, n')"
  then show "tc_inv n' \<and> tc_msgs n' = M \<and> tc_doc n' = D \<and> tc_patience n' \<le> k"
    by (auto simp: tc_net_def tc_call_def tc_patience_def split: list.splits prod.splits if_splits)
qed (auto simp: tc_net_def)

interpretation tcq: quiet_net tc_net "\<lambda>n. tc_inv n \<and> tc_msgs n = M \<and> tc_doc n = D \<and> tc_patience n \<le> k" for M D k
  by (rule tc_net_quiet)

lemma count_concat_replicate: "count_list (concat (replicate k xs)) x = k * count_list xs x"
  by (induction k) simp_all

lemma tc_schedule_fair: "fair conns MAX_PARTS (t_schedule (tc_client conns) n)"
proof -
  have "count_list [0..<conns] w = 1" if "w < conns" for w
    using that by (simp add: count_list_eq_length_filter distinct_length_filter)
  then show ?thesis by (simp add: fair_def tc_client_def count_concat_replicate)
qed

subsection \<open>The channel meets the laws\<close>

lemma tc_post_cases:
  assumes "tc_post d n = (r, m)"
  obtains "r = Inl RuntimeError" "m = n"
    | "r = Inr (tc_next n)" "part_count (length d) \<le> MAX_PARTS"
      "m = n\<lparr>tc_msgs := (tc_msgs n)(tc_next n := Some d), tc_next := tc_next n + 1\<rparr>"
  using assms by (auto simp: tc_post_def split: if_splits)

lemma tc_post_frame:
  assumes "tc_post d n = (r, m)" "tc_inv n"
  shows "tc_faults m = tc_faults n" "tc_inv m" "tc_msgs n \<subseteq>\<^sub>m tc_msgs m" "\<not> is_flood r"
    "r = Inr h \<Longrightarrow> tc_msgs n h = None \<and> tc_msgs m = (tc_msgs n)(h := Some d)"
proof -
  have new: "tc_msgs n (tc_next n) = None" using assms(2) by (cases "tc_msgs n (tc_next n)") (auto simp: tc_inv_def)
  show "tc_faults m = tc_faults n" using assms(1) by (rule tc_post_cases) simp_all
  show "tc_inv m" using assms(1) by (rule tc_post_cases) (use assms(2) in \<open>auto simp: tc_inv_def less_Suc_eq\<close>)
  show "tc_msgs n \<subseteq>\<^sub>m tc_msgs m" using assms(1) by (rule tc_post_cases) (use new in \<open>auto simp: map_le_def\<close>)
  show "\<not> is_flood r" using assms(1) by (rule tc_post_cases) (simp_all add: is_flood_def)
  show "r = Inr h \<Longrightarrow> tc_msgs n h = None \<and> tc_msgs m = (tc_msgs n)(h := Some d)"
    using assms(1) by (rule tc_post_cases) (use new in simp_all)
qed

lemma tc_send:
  assumes inv: "tc_inv n" and send: "t_send_file (tc_client conns) ent f n = (r, n')"
  shows "tc_inv n'" "calm tc_patience r n n'" "tc_msgs n \<subseteq>\<^sub>m tc_msgs n'"
    "r = Inr h \<Longrightarrow> tc_msgs n h = None \<and> tc_msgs n' = (tc_msgs n)(h := Some (tc_bytes f n))"
proof -
  let ?op = "\<lambda>n. tc_post (tc_bytes f n) n"
  obtain q m where post: "?op n = (q, m)" by force
  note F = tc_post_frame [OF post inv]
  have call: "tc_call ?op n = (r, n')" using send by (simp add: tc_client_def)
  have "tc_inv n' \<and> calm tc_patience r n n' \<and> tc_msgs n \<subseteq>\<^sub>m tc_msgs n' \<and>
      (\<forall>h. r = Inr h \<longrightarrow> tc_msgs n h = None \<and> tc_msgs n' = (tc_msgs n)(h := Some (tc_bytes f n)))"
    using call
  proof (rule tc_callE)
    show "tc_faults u = tc_faults n" if "?op n = (x, u)" for x u using that post F(1) by simp
  next
    assume "?op n = (r, n')" "tc_patience n' = tc_patience n"
    with post F show ?thesis by (simp add: calm_def)
  next
    fix e u
    assume L: "r = Inl e" "u = n \<or> u = snd (?op n)" "n' = u\<lparr>tc_faults := tc_faults n'\<rparr>"
      "tc_patience n' < tc_patience n"
    have "tc_inv u" "tc_msgs n \<subseteq>\<^sub>m tc_msgs u" using L(2) post F inv by auto
    moreover have "tc_inv n' = tc_inv u" "tc_msgs n' = tc_msgs u"
      by (subst L(3), simp)+
    ultimately show ?thesis using L(1,4) by (simp add: calm_def)
  qed
  then show "tc_inv n'" "calm tc_patience r n n'" "tc_msgs n \<subseteq>\<^sub>m tc_msgs n'"
    "r = Inr h \<Longrightarrow> tc_msgs n h = None \<and> tc_msgs n' = (tc_msgs n)(h := Some (tc_bytes f n))"
    by blast+
qed

lemma tc_read:
  assumes call: "tc_call (\<lambda>n. (Inr (g n), n)) n = (r, n')" and inv: "tc_inv n"
  shows "tc_inv n'" "tc_msgs n' = tc_msgs n" "calm tc_patience r n n'" "r = Inr x \<Longrightarrow> x = g n \<and> n' = n"
  using assms
  by (auto simp: tc_call_def calm_def tc_patience_def is_flood_def split: list.splits prod.splits)

lemma tc_drop:
  assumes del: "t_delete_messages (tc_client conns) ent h n = (r, n')" and inv: "tc_inv n"
  shows "tc_inv n'" "calm tc_patience r n n'" "(tc_msgs n)(h := None) \<subseteq>\<^sub>m tc_msgs n'"
proof -
  have "tc_inv (n\<lparr>tc_msgs := (tc_msgs n)(h := None)\<rparr>)" using inv by (simp add: tc_inv_def)
  then show "tc_inv n'" "calm tc_patience r n n'" "(tc_msgs n)(h := None) \<subseteq>\<^sub>m tc_msgs n'"
    using del inv
    by (auto simp: tc_client_def tc_call_def calm_def tc_patience_def is_flood_def map_le_def
        split: list.splits prod.splits if_splits)
qed

lemma tc_channel: "telegram_channel (tc_client conns) tc_doc tc_saved ent tc_msgs tc_inv tc_patience conns"
proof (intro telegram_channel.intro telegram_channel_axioms.intro)
  show "file_server (t_net (tc_client conns)) tc_doc tc_saved"
    using tc_net_server by (simp add: tc_client_def)
  show "quiet_net (t_net (tc_client conns)) (\<lambda>n. tc_inv n \<and> tc_msgs n = M \<and> tc_doc n = D \<and> tc_patience n \<le> k)" for M D k
    using tc_net_quiet by (simp add: tc_client_def)
  show "fair conns MAX_PARTS (t_schedule (tc_client conns) n)" for n by (rule tc_schedule_fair)
next
  fix n d h n'
  assume "tc_inv n" "t_send_file (tc_client conns) ent (Stream d) n = (Inr h, n')"
  from tc_send(4) [OF this, of h]
  show "tc_msgs n h = None \<and> tc_msgs n' = (tc_msgs n)(h := Some d)" by (simp add: tc_bytes_def)
next
  fix n fid cnt h n' ps
  assume send: "tc_inv n" "t_send_file (tc_client conns) ent (Big fid cnt) n = (Inr h, n')"
    and ps: "\<And>i. i < cnt \<Longrightarrow> tc_saved n fid i = Some (ps i)"
  have "map (\<lambda>i. case tc_saved n fid i of Some b \<Rightarrow> b | None \<Rightarrow> []) [0..<cnt] = map ps [0..<cnt]"
    using ps by simp
  with tc_send(4) [OF send, of h]
  show "tc_msgs n h = None \<and> tc_msgs n' = (tc_msgs n)(h := Some (concat (map ps [0..<cnt])))"
    by (simp add: tc_bytes_def)
next
  fix n f e n'
  assume "tc_inv n" "t_send_file (tc_client conns) ent f n = (Inl e, n')"
  from tc_send(3) [OF this] show "tc_msgs n \<subseteq>\<^sub>m tc_msgs n'" .
next
  fix n f r n'
  assume "tc_inv n" "t_send_file (tc_client conns) ent f n = (r, n')"
  from tc_send(1,2) [OF this] show "tc_inv n' \<and> calm tc_patience r n n'" by blast
next
  fix n h rm n'
  assume "tc_inv n" "t_get_message (tc_client conns) ent h n = (rm, n')"
  with tc_read [of _ n rm n'] show "tc_inv n' \<and> tc_msgs n' = tc_msgs n \<and> calm tc_patience rm n n'"
    by (simp add: tc_client_def)
next
  fix n h m n'
  assume inv: "tc_inv n" and get: "t_get_message (tc_client conns) ent h n = (Inr (Some m), n')"
  from tc_read(4) [OF get [unfolded tc_client_def, simplified] inv]
  obtain d where "tc_msgs n h = Some d" "n' = n"
    "m = \<lparr>m_id = h, m_media = True, m_document = Some (2, length d), m_location = h\<rparr>"
    by (cases "tc_msgs n h") auto
  with inv show "tc_msgs n h = Some (tc_doc n' (m_location m)) \<and>
      (\<forall>dc sz. m_document m = Some (dc, sz) \<longrightarrow> sz = length (tc_doc n' (m_location m)) \<and> part_count sz \<le> MAX_PARTS)"
    by (auto simp: tc_doc_def tc_inv_def)
next
  fix n m rd n'
  assume inv: "tc_inv n" and get: "t_download_media (tc_client conns) m n = (rd, n')"
  from tc_read [OF get [unfolded tc_client_def, simplified] inv]
  show "tc_inv n' \<and> tc_msgs n' = tc_msgs n \<and> calm tc_patience rd n n' \<and> (\<forall>d. rd = Inr d \<longrightarrow> d = tc_doc n (m_location m))"
    by blast
next
  fix n h ru n'
  assume "tc_inv n" "t_delete_messages (tc_client conns) ent h n = (ru, n')"
  with tc_drop [of conns ent h n ru n']
  show "tc_inv n' \<and> calm tc_patience ru n n' \<and> (tc_msgs n)(h := None) \<subseteq>\<^sub>m tc_msgs n'" by blast
qed

interpretation tch: telegram_channel "tc_client conns" tc_doc tc_saved ent tc_msgs tc_inv tc_patience conns for conns ent
  by (rule tc_channel)

subsection \<open>The contract\<close>

text \<open>C35: The Telegram backend is a backend: over any channel that keeps its laws, in which requests may
  fail, be told to wait, or lose their answer, every upload, download and delete returns. An
  upload that returns a handle has stored exactly the data under a fresh handle, by the
  parallel or the stock path; a download that returns data returns what is stored under the
  handle; an operation that raises, and every retry, leaves the other blobs alone.\<close>

theorem telegram_backend_contract:
  assumes "telegram_channel C doc saved ent msgs winv patience conns"
  shows "faulty_backend (tg_env hash) (\<lambda>T. msgs (tg_world T)) (tg_ready C ent conns winv) \<and>
    (\<forall>T d h. tg_ready C ent conns winv T \<longrightarrow>
       tg_upload T d \<noteq> None \<and> tg_download T h \<noteq> None \<and> tg_delete T h \<noteq> None)"
proof -
  have "tg_upload T d \<noteq> None" "tg_download T h \<noteq> None" "tg_delete T h \<noteq> None"
    if "tg_ready C ent conns winv T" for T d h
    using telegram_channel.tg_upload_ok [OF assms that, of d] telegram_channel.tg_download_ok [OF assms that, of h]
      telegram_channel.tg_delete_ok [OF assms that, of h] by force+
  then show ?thesis
    using telegram_channel.is_backend [OF assms] by blast
qed

text \<open>A backend connected to a channel that answers with a flood wait and then loses an answer.\<close>

definition demo_entity :: entity where
  "demo_entity = \<lparr>e_id = 1, e_username = None, e_title = None\<rparr>"

definition demo_tg :: "(exn \<times> bool) list \<Rightarrow> (unit, tcenter) tg" where
  "demo_tg faults = \<lparr>tg_client = Some (tc_client 8), tg_entity = demo_entity, tg_pools = [], tg_premium = True,
     tg_conns = 8, tg_world = \<lparr>tc_msgs = Map.empty, tc_saved = (\<lambda>_. Map.empty), tc_next = 1, tc_faults = faults\<rparr>\<rparr>"

lemma demo_tg_ready: "tg_ready (tc_client 8) demo_entity 8 tc_inv (demo_tg faults)"
  by (simp add: tg_ready_def demo_tg_def tc_inv_def)

lemma telegram_backend_contract_witness:
  "\<exists>r T'. tg_upload (demo_tg [(FloodWait 3, False), (ConnectionError, True)]) [1, 2, 3] = Some (r, T') \<and>
     (case r of Inl e \<Rightarrow> True | Inr h \<Rightarrow> tc_msgs (tg_world T') h = Some [1, 2, 3])"
proof -
  let ?T = "demo_tg [(FloodWait 3, False), (ConnectionError, True)]"
  note K = telegram_backend_contract [OF tc_channel [of 8 demo_entity], of byte_digest]
  obtain r T' where up: "tg_upload ?T [1, 2, 3] = Some (r, T')"
    using K demo_tg_ready by (metis not_None_eq surj_pair)
  have "tc_msgs (tg_world T') h = Some [1, 2, 3]" if "r = Inr h" for h
    using faulty_backend.upload_new [OF conjunct1 [OF K] demo_tg_ready [of "[(FloodWait 3, False), (ConnectionError, True)]"],
        of "[1, 2, 3]" h T'] up that by simp
  with up show ?thesis by (intro exI [of _ r] exI [of _ T']) (simp split: sum.split)
qed

text \<open>
  A lost answer costs a message: the send is repeated and the first message, of which nobody
  knows the id, stays in the channel.
\<close>

lemma lost_answer_duplicates:
  "\<exists>T'. tg_upload (demo_tg [(ConnectionError, True)]) [1, 2, 3] = Some (Inr 2, T') \<and>
     tc_msgs (tg_world T') 1 = Some [1, 2, 3] \<and> tc_msgs (tg_world T') 2 = Some [1, 2, 3]"
proof -
  have pc: "part_count (Suc (Suc (Suc 0))) \<le> MAX_PARTS" by (simp add: part_count_def PART_def MAX_PARTS_def)
  show ?thesis
    unfolding tg_upload_def tg_retry_def
    by (subst with_retry.simps, subst with_retry.simps) (use pc in \<open>simp add: demo_tg_def upload_go_def try_big_def BIG_FILE_def tc_client_def tc_call_def tc_post_def tc_bytes_def
        retry_after_def net_error_def MAX_RETRIES_def tc_net_def\<close>)
qed

end
