(* ===== verification/CommandProps.thy ===== *)
theory CommandProps
  imports Commands ChannelProps WritebackProps
begin

section \<open>Properties of the commands\<close>

subsection \<open>Decimal numerals\<close>

text \<open>The digits of a number cut after the \<open>k\<close> last ones.\<close>

fun last_digits :: "nat \<Rightarrow> nat \<Rightarrow> string" where
  "last_digits 0 n = []"
| "last_digits (Suc k) n = last_digits k (n div 10) @ [char_of (48 + n mod 10)]"

lemma length_last_digits [simp]: "length (last_digits k n) = k"
  by (induction k arbitrary: n) auto

lemma digit_of [simp]:
  fixes k :: nat
  assumes "k < 10"
  shows "(of_char (char_of (48 + k)) :: nat) = 48 + k" "(of_char (char_of (48 + k)) :: int) = 48 + int k"
proof -
  show nat: "(of_char (char_of (48 + k)) :: nat) = 48 + k" using assms by simp
  have "(of_char (char_of (48 + k)) :: int) = int (of_char (char_of (48 + k)))" by (simp only: of_nat_of_char)
  with nat show "(of_char (char_of (48 + k)) :: int) = 48 + int k" by simp
qed

lemma digit_is_digit: "k < (10::nat) \<Longrightarrow> is_digit (char_of (48 + k))"
  by (simp add: is_digit_def)

lemma dec_split: "0 < n div 10 ^ k \<Longrightarrow> dec n = dec (n div 10 ^ k) @ last_digits k (n mod 10 ^ k)"
proof (induction k arbitrary: n)
  case (Suc k)
  have "10 \<le> n"
  proof (rule ccontr)
    assume "\<not> 10 \<le> n"
    then have "n div (10 * 10 ^ k) = 0" by (simp add: div_mult2_eq)
    with Suc.prems show False by simp
  qed
  then have n: "dec n = dec (n div 10) @ [char_of (48 + n mod 10)]" by (subst dec.simps) simp
  have d: "n div 10 div 10 ^ k = n div 10 ^ Suc k" by (simp add: div_mult2_eq)
  have m: "n div 10 mod 10 ^ k = n mod 10 ^ Suc k div 10" "n mod 10 = n mod 10 ^ Suc k mod 10"
    by (simp_all add: mod_mult2_eq)
  from Suc.IH [of "n div 10"] Suc.prems d show ?case
    unfolding n last_digits.simps m(2) [symmetric] m(1) [symmetric] by simp
qed simp

lemma dec_ne [simp]: "dec n \<noteq> []"
  by (subst dec.simps) simp

lemma dec_digits: "list_all is_digit (dec n)"
proof (induction n rule: dec.induct)
  case (1 n)
  then show ?case by (subst dec.simps) (simp add: digit_is_digit)
qed

lemma foldl_last_digits:
  "n < 10 ^ k \<Longrightarrow> foldl (\<lambda>a c. a * 10 + (of_char c - 48)) a (last_digits k n) = a * 10 ^ k + n" for a :: nat
proof (induction k arbitrary: n)
  case (Suc k)
  then have "n div 10 < 10 ^ k" by (simp add: less_mult_imp_div_less)
  from Suc.IH [OF this] show ?case by (simp add: algebra_simps)
qed simp

lemma digits_value_dec: "digits_value (dec n) = int n"
proof (induction n rule: dec.induct)
  case (1 n)
  show ?case
  proof (cases "n < 10")
    case True
    then show ?thesis by (subst dec.simps) (simp add: digits_value_def)
  next
    case False
    then have "digits_value (dec n) = digits_value (dec (n div 10)) * 10 + int (n mod 10)"
      by (subst dec.simps) (simp add: digits_value_def)
    also have "\<dots> = int (n div 10) * 10 + int (n mod 10)" using 1 False by simp
    also have "\<dots> = int n" by (metis mult.commute mult_div_mod_eq of_nat_add of_nat_mult of_nat_numeral)
    finally show ?thesis .
  qed
qed

lemma dec_inject: "dec m = dec n \<Longrightarrow> m = n"
  by (metis digits_value_dec of_nat_eq_iff)

lemma plain_digits_all: "list_all is_digit s \<Longrightarrow> s \<noteq> [] \<Longrightarrow> plain_digits s = Some s"
proof (induction s rule: plain_digits.induct)
  case (3 c d cs)
  then have "d \<noteq> CHR ''_''" by (auto simp: is_digit_def)
  with 3 show ?case by simp
qed auto

lemma strip_tight: "s \<noteq> [] \<Longrightarrow> \<not> is_space (hd s) \<Longrightarrow> \<not> is_space (last s) \<Longrightarrow> strip s = s"
proof -
  assume "s \<noteq> []" "\<not> is_space (hd s)" "\<not> is_space (last s)"
  then have "dropWhile is_space s = s" "dropWhile is_space (rev s) = rev s"
    by (simp_all add: dropWhile_eq_self_iff hd_rev)
  then show "strip s = s" by (simp add: strip_def)
qed

lemma digit_not_space: "is_digit c \<Longrightarrow> \<not> is_space c"
  by (auto simp: is_digit_def is_space_def)

text \<open>An integer written to the settings as text is read back as that integer.\<close>

lemma parse_shown: "parse_int (show_int z) = Inr z"
proof -
  obtain n where n: "z = int n \<or> z = - int n \<and> 0 < n" by (metis int_cases less_numeral_extra(3) nat_int negD zero_less_Suc)
  have hd: "is_digit (hd (dec n))" "is_digit (last (dec n))"
    using dec_digits [of n] by (simp_all add: list_all_iff)
  then have "hd (dec n) \<noteq> CHR ''-''" "hd (dec n) \<noteq> CHR ''+''" by (auto simp: is_digit_def)
  then have split: "split_sign (dec n) = (False, dec n)" by (cases "dec n") (simp_all add: split_sign_def)
  have plain: "plain_digits (dec n) = Some (dec n)" by (rule plain_digits_all) (simp_all add: dec_digits)
  show ?thesis
    using n
  proof
    assume z: "z = int n"
    then have "strip (show_int z) = dec n"
      using strip_tight [of "dec n"] hd digit_not_space by (simp add: show_int_def to_str_def)
    with split plain z show ?thesis by (simp add: parse_int_def digits_value_dec)
  next
    assume z: "z = - int n \<and> 0 < n"
    then have s: "show_int z = CHR ''-'' # dec n" by (simp add: show_int_def to_str_def)
    have "strip (CHR ''-'' # dec n) = CHR ''-'' # dec n"
      by (rule strip_tight) (use hd digit_not_space in \<open>auto simp: is_space_def\<close>)
    with z s plain show ?thesis by (simp add: parse_int_def split_sign_def digits_value_dec)
  qed
qed

lemma norm_shown: "norm_channel (VStr (show_int z)) = Inr (VInt z)"
proof -
  obtain n where n: "z = int n \<or> z = - int n \<and> 0 < n" by (metis int_cases less_numeral_extra(3) nat_int negD zero_less_Suc)
  have "hd (dec n) \<noteq> CHR ''-''" using dec_digits [of n] by (cases "dec n") (auto simp: is_digit_def)
  then have drop: "dropWhile (\<lambda>c. c = CHR ''-'') (dec n) = dec n" by (cases "dec n") simp_all
  have "dropWhile (\<lambda>c. c = CHR ''-'') (show_int z) = dec n"
    using n drop by (auto simp: show_int_def to_str_def)
  then show ?thesis using parse_shown [of z] by (simp add: norm_channel_def dec_digits)
qed

subsection \<open>From the list of channels to the storage channel\<close>

text \<open>
  Telethon marks the id of a channel as \<open>-100\<close> followed by its digits, ten at least:
  \<open>- (10 ^ 12 + id)\<close> (\<open>utils.get_peer_id\<close>).
\<close>

definition marked :: "dialog \<Rightarrow> bool" where
  "marked d \<longleftrightarrow>
     0 \<le> e_id (d_entity d) \<and> e_id (d_entity d) < 10 ^ 12 \<and> d_id d = - (10 ^ 12 + e_id (d_entity d))"

lemma undec_last_digits:
  assumes "n < 10 ^ k" "0 < k"
  shows "undec (last_digits k n) = Inr n"
proof -
  have "length (last_digits k n) \<noteq> 0" using assms(2) by simp
  then have "last_digits k n \<noteq> []" by fastforce
  with foldl_last_digits [OF assms(1), of 0] show ?thesis by (simp add: undec_def)
qed

lemma marked_ids:
  assumes "e < 10 ^ 12"
  shows "channel_ids (- (10 ^ 12 + int e)) =
    Inr (if e < 10 ^ 10 then {int (10 ^ 12 + e), int e} else {int (10 ^ 12 + e)})"
proof -
  define raw where "raw = 10 ^ 12 + e"
  have raw: "raw = e + 100 * 10 ^ 10" by (simp add: raw_def)
  have q: "raw div 10 ^ 10 = 100 + e div 10 ^ 10" "raw mod 10 ^ 10 = e mod 10 ^ 10"
    unfolding raw by (simp, rule mod_mult_self1)
  have small: "e div 10 ^ 10 < 100" using assms by (simp add: less_mult_imp_div_less)
  have s: "dec raw = dec (100 + e div 10 ^ 10) @ last_digits 10 (e mod 10 ^ 10)"
    using dec_split [of raw 10] q by simp
  have len: "length (dec (100 + k)) = 3" if "k < 100" for k
  proof -
    have "(100 + k) div 10 div 10 = 1" using that by (simp add: div_mult2_eq [symmetric])
    then show ?thesis by (subst dec.simps, subst dec.simps, subst dec.simps) simp
  qed
  have c100: "dec 100 = ''100''" by (simp add: dec.simps digit_chars)
  have t: "take 3 (dec raw) = dec (100 + e div 10 ^ 10)" "drop 3 (dec raw) = last_digits 10 (e mod 10 ^ 10)"
    using s len [OF small] by simp_all
  have iff: "take 3 (dec raw) = ''100'' \<longleftrightarrow> e < 10 ^ 10"
  proof
    assume "take 3 (dec raw) = ''100''"
    then have "dec (100 + e div 10 ^ 10) = dec 100" using t(1) c100 by simp
    then have "e div 10 ^ 10 = 0" using dec_inject by fastforce
    then show "e < 10 ^ 10" by (simp add: div_eq_0_iff)
  next
    assume "e < 10 ^ 10"
    then show "take 3 (dec raw) = ''100''" using t(1) c100 by simp
  qed
  have u: "undec (drop 3 (dec raw)) = Inr e" if "e < 10 ^ 10"
    using undec_last_digits [of e 10] that t(2) by simp
  have "nat \<bar>- (10 ^ 12 + int e)\<bar> = raw" by (simp add: raw_def)
  then have "channel_ids (- (10 ^ 12 + int e)) =
      (if take 3 (dec raw) = ''100''
       then (case undec (drop 3 (dec raw)) of Inl e' \<Rightarrow> Inl e' | Inr k \<Rightarrow> Inr {int raw, int k})
       else Inr {int raw})"
    by (simp only: channel_ids_def Let_def)
  with iff u show ?thesis by (simp add: raw_def)
qed

lemma scan_finds:
  assumes "d \<in> set ds" "d_is_channel d" "match d"
    and "\<And>d'. d' \<in> set ds \<Longrightarrow> d_is_channel d' \<Longrightarrow> match d' \<Longrightarrow> d_entity d' = d_entity d"
  shows "scan_dialogs match ds = Inr (d_entity d)"
  using assms(1,4)
proof (induction ds)
  case (Cons x ds)
  show ?case
  proof (cases "d_is_channel x \<and> match x")
    case True
    with Cons.prems(2) [of x] show ?thesis by simp
  next
    case False
    then have "d \<in> set ds" using Cons.prems(1) assms(2,3) by auto
    then have "scan_dialogs match ds = Inr (d_entity d)" by (rule Cons.IH) (rule Cons.prems(2); simp)
    with False show ?thesis by simp
  qed
qed simp

text \<open>C38: The id that \<open>tgfs channels\<close> prints for a channel is one the mount accepts: written to the
  settings as text it is read back as that number, and over a fresh session, where Telethon
  cannot look it up, the search through the dialogs ends at this very channel.\<close>

theorem printed_channel_resolves:
  assumes "t_dialogs C n = (Inr ds, n1)" "d \<in> set ds" "d_is_channel d"
    and "\<And>d'. d' \<in> set ds \<Longrightarrow> d_is_channel d' \<Longrightarrow> marked d' \<and>
        (e_id (d_entity d') = e_id (d_entity d) \<longrightarrow> d_entity d' = d_entity d)"
    and "t_connect C n0 = (Inr (), m)" "t_authorized C m = (Inr True, n)"
    and "t_get_entity C (ChanId (d_id d)) n' = (Inl ValueError, n)"
  shows "(\<exists>out title. cmd_channels (Inr k) C n0 = (Inr 0, out, t_disconnect C n1) \<and>
      Out (pad_left 16 (show_int (d_id d)) @ ''  '' @ title) \<in> set out) \<and>
    norm_channel (VStr (show_int (d_id d))) = Inr (VInt (d_id d)) \<and>
    resolve_channel C (ChanId (d_id d)) n' = (Inr (d_entity d), n1)"
proof (intro conjI)
  show "norm_channel (VStr (show_int (d_id d))) = Inr (VInt (d_id d))" by (rule norm_shown)
  let ?row = "\<lambda>d. (d_id d, case e_title (d_entity d) of None \<Rightarrow> ''?'' | Some t \<Rightarrow> t)"
  have "channels_run C n0 = (Inr (Some (map ?row (filter d_is_channel ds))), [], t_disconnect C n1)"
    using assms(1,5,6) by (simp add: channels_run_def)
  then obtain out where out: "cmd_channels (Inr k) C n0 = (Inr 0, out, t_disconnect C n1)"
    "(\<lambda>row. Out (channel_row row)) ` ?row ` set (filter d_is_channel ds) \<subseteq> set out"
    by (auto simp: cmd_channels_def)
  then have "Out (channel_row (?row d)) \<in> set out" using assms(2,3) by auto
  with out(1) show "\<exists>out title. cmd_channels (Inr k) C n0 = (Inr 0, out, t_disconnect C n1) \<and>
      Out (pad_left 16 (show_int (d_id d)) @ ''  '' @ title) \<in> set out"
    unfolding channel_row_def by auto
next
  let ?e = "e_id (d_entity d)"
  have m: "marked d" using assms(2-4) by blast
  then obtain e where e: "?e = int e" "e < 10 ^ 12" "d_id d = - (10 ^ 12 + int e)"
    by (cases ?e) (auto simp: marked_def)
  obtain ids where ids: "channel_ids (d_id d) = Inr ids" "ids \<subseteq> {int (10 ^ 12 + e), int e}"
    using marked_ids [OF e(2)] by (auto simp: e(3))
  have same: "d_entity d' = d_entity d"
    if "d' \<in> set ds" "d_is_channel d'" "e_id (d_entity d') \<in> ids \<or> d_id d' = d_id d" for d'
  proof -
    have "marked d'" using assms(4) that(1,2) by blast
    then have "e_id (d_entity d') = int e" using that(3) ids(2) e(3) by (auto simp: marked_def)
    with assms(4) [OF that(1,2)] e(1) show ?thesis by simp
  qed
  have "scan_dialogs (\<lambda>d'. e_id (d_entity d') \<in> ids \<or> d_id d' = d_id d) ds = Inr (d_entity d)"
    by (rule scan_finds [OF assms(2,3)]) (use same in auto)
  with assms(1,7) ids(1) show "resolve_channel C (ChanId (d_id d)) n' = (Inr (d_entity d), n1)"
    by (simp add: resolve_channel_def)
qed

definition demo_settings :: config where
  "demo_settings =
     \<lparr>k_api_id = 1, k_api_hash = ''h'', k_session = ''tgfs.session'', k_channel = VInt (- 1001234567890),
      k_chunk_size = 4, k_cache_cap = 100, k_connections = 0, k_delay = 15, k_upload_workers = 2,
      k_download_workers = 2, k_readahead = 2, k_meta_db = ''data/meta.db'', k_cache_dir = ''data/cache'',
      k_mount = ''mnt'', k_root = ''/srv''\<rparr>"

definition demo_channel :: "int \<Rightarrow> string \<Rightarrow> dialog" where
  "demo_channel i title = \<lparr>d_is_channel = True, d_id = - (10 ^ 12 + i),
     d_entity = \<lparr>e_id = i, e_username = None, e_title = Some title\<rparr>\<rparr>"

definition demo_account :: "(unit, tcenter) client" where
  "demo_account = (tc_client 8)\<lparr>t_get_entity := (\<lambda>_ n. (Inl ValueError, n)),
     t_dialogs := (\<lambda>n. (Inr [demo_channel 1234567890 ''store'', demo_channel 7 ''news''], n))\<rparr>"

theorem printed_channel_resolves_witness:
  "norm_channel (VStr (show_int (- 1001234567890))) = Inr (VInt (- 1001234567890)) \<and>
   resolve_channel demo_account (ChanId (- 1001234567890)) (tg_world (demo_tg [])) =
     (Inr (d_entity (demo_channel 1234567890 ''store'')), tg_world (demo_tg []))"
proof -
  let ?w = "tg_world (demo_tg [])" and ?d = "demo_channel 1234567890 ''store''"
  have "(\<exists>out title. cmd_channels (Inr demo_settings) demo_account ?w = (Inr 0, out, t_disconnect demo_account ?w) \<and>
      Out (pad_left 16 (show_int (d_id ?d)) @ ''  '' @ title) \<in> set out) \<and>
    norm_channel (VStr (show_int (d_id ?d))) = Inr (VInt (d_id ?d)) \<and>
    resolve_channel demo_account (ChanId (d_id ?d)) ?w = (Inr (d_entity ?d), ?w)"
  proof (rule printed_channel_resolves)
    show "t_dialogs demo_account ?w = (Inr [?d, demo_channel 7 ''news''], ?w)"
      "t_connect demo_account ?w = (Inr (), ?w)" "t_authorized demo_account ?w = (Inr True, ?w)"
      "t_get_entity demo_account (ChanId (d_id ?d)) ?w = (Inl ValueError, ?w)"
      by (simp_all add: demo_account_def tc_client_def)
  qed (auto simp: demo_channel_def marked_def)
  moreover have "d_id ?d = - 1001234567890" by (simp add: demo_channel_def)
  ultimately show ?thesis by simp
qed

subsection \<open>The smoke test\<close>

text \<open>C37: The smoke test tells the truth and does no harm: over a backend that keeps its contract, with
  any failures, it exits with 0 or raises, never with 2 (a mismatch); no blob that was there
  before is lost; and when it exits over a backend without lost answers, the backend holds
  exactly what it held before.\<close>

theorem smoke_harmless:
  assumes "faulty_backend E content binv" "binv b" "smoke_run E rnd b = (r, out, b')"
  shows "(r = Inr 0 \<or> (\<exists>e. r = Inl e)) \<and> binv b' \<and> content b \<subseteq>\<^sub>m content b' \<and>
    (blob_backend E content binv \<longrightarrow> r = Inr 0 \<longrightarrow> content b' = content b)"
proof -
  let ?p = "smoke_payload rnd"
  obtain u b1 where up: "upload E b ?p = (u, b1)" by force
  show ?thesis
  proof (cases u)
    case (Inl e)
    with faulty_backend.upload_raises [OF assms(1,2)] up assms(3) show ?thesis
      by (auto simp: smoke_run_def Let_def)
  next
    case (Inr h)
    note U = faulty_backend.upload_new [OF assms(1,2) up [unfolded Inr]]
    obtain g b2 where dn: "download E b1 h = (g, b2)" by force
    have D: "binv b2" "content b1 \<subseteq>\<^sub>m content b2" using faulty_backend.download_any [OF assms(1) _ dn] U by blast+
    have keep: "content b \<subseteq>\<^sub>m content b2" using U D(2) map_le_trans by blast
    show ?thesis
    proof (cases g)
      case (Inl e)
      with up Inr dn assms(3) D(1) keep show ?thesis by (auto simp: smoke_run_def Let_def)
    next
      case got: (Inr x)
      have x: "x = ?p" using faulty_backend.download_blob [OF assms(1) _ dn [unfolded got]] U by auto
      obtain q b3 where dl: "delete E b2 h = (q, b3)" by force
      have L: "binv b3" "(content b2)(h := None) \<subseteq>\<^sub>m content b3"
        using faulty_backend.delete_any [OF assms(1) D(1) dl] by blast+
      have "content b \<subseteq>\<^sub>m (content b2)(h := None)" using keep U by (auto simp: map_le_def)
      then have "content b \<subseteq>\<^sub>m content b3" using L(2) map_le_trans by blast
      moreover have "b' = b3" "r = Inr 0 \<or> (\<exists>e. r = Inl e)"
        using assms(3) up Inr dn got x dl by (auto simp: smoke_run_def Let_def split: sum.splits)
      moreover have "content b' = content b" if bb: "blob_backend E content binv"
      proof -
        have "content b1 = (content b)(h := Some ?p)" "content b h = None"
          using blob_backend.upload_Inr [OF bb assms(2) up [unfolded Inr]] by blast+
        moreover have "content b2 = content b1"
          using blob_backend.download_keeps [OF bb _ dn] U by blast
        moreover have "content b3 = (content b2)(h := None)"
          using blob_backend.delete_spec [OF bb D(1), of h] dl by auto
        ultimately show ?thesis using \<open>b' = b3\<close> by auto
      qed
      ultimately show ?thesis using L(1) by simp
    qed
  qed
qed

theorem smoke_harmless_witness:
  "fst (smoke_run (mem_env byte_digest) [7, 8] (s_back demo_stored)) = Inr 0 \<and>
   mem_content (snd (snd (smoke_run (mem_env byte_digest) [7, 8] (s_back demo_stored)))) =
     mem_content (s_back demo_stored)"
proof -
  obtain r out b' where run: "smoke_run (mem_env byte_digest) [7, 8] (s_back demo_stored) = (r, out, b')"
    by (metis prod_cases3)
  have "fst (smoke_run (mem_env byte_digest) [7, 8] (s_back demo_stored)) = Inr 0" by code_simp
  moreover have "mem_inv (s_back demo_stored)" using store_okD(1) [OF demo_stored_ok(1)] .
  ultimately show ?thesis
    using smoke_harmless [OF mem.faulty.faulty_backend_axioms _ run] mem.blob_backend_axioms [of byte_digest] run
    by simp
qed

text \<open>A download that fails leaves the test message in the channel: the delete is skipped.\<close>

lemma smoke_failure_leaves_message:
  "let res = smoke_run (boom_env (\<lambda>_. False) (\<lambda>_. True) byte_digest) [7] mem_new
   in fst res \<noteq> Inr 0 \<and> fst res \<noteq> Inr 2 \<and> length (mb_blobs (snd (snd res))) = 1"
  by code_simp

end
