(* ===== verification/CrashTrace.thy ===== *)
theory CrashTrace
  imports StoreWrite
begin

section \<open>What is on disk while a file is written\<close>

text \<open>
  A crash can come between any two durable actions of \<open>put_file\<close> and \<open>free_file\<close>: a call of the
  backend, or a method of \<open>Meta\<close>, which commits its transaction before it returns. The traces
  list the stores these actions leave, one after the other; the memory of the process (the
  file states, the cache index) is lost in a crash. The functions follow the code of \<open>Store\<close>
  step by step, and the last store of a trace is the one the operation returns.
\<close>

definition upload_trace :: "'b env \<Rightarrow> 'b store \<Rightarrow> sha \<Rightarrow> bytes \<Rightarrow> 'b store list" where
  "upload_trace E s sh d =
     (case upload E (s_back s) d of
        (Inl e, b) \<Rightarrow> [s\<lparr>s_back := b\<rparr>]
      | (Inr handle, b) \<Rightarrow>
          if blob_get (s_meta s) sh = None
          then [s\<lparr>s_back := b\<rparr>, snd (upload_blob E s sh d)]
          else [s\<lparr>s_back := b\<rparr>, s\<lparr>s_back := b, s_meta := blob_incref (s_meta s) sh\<rparr>,
                snd (upload_blob E s sh d)])"

definition release_trace :: "'b env \<Rightarrow> 'b store \<Rightarrow> sha \<Rightarrow> 'b store list" where
  "release_trace E s sh =
     (case blob_decref (s_meta s) sh of
        (None, m) \<Rightarrow> [s\<lparr>s_meta := m\<rparr>]
      | (Some handle, m) \<Rightarrow> [s\<lparr>s_meta := m\<rparr>, snd (release_blob E s sh)])"

fun release_all_trace :: "'b env \<Rightarrow> 'b store \<Rightarrow> sha list \<Rightarrow> 'b store list" where
  "release_all_trace E s [] = []"
| "release_all_trace E s (sh # shs) =
     release_trace E s sh @
     (case release_blob E s sh of
        (Inl e, s') \<Rightarrow> []
      | (Inr _, s') \<Rightarrow> release_all_trace E s' shs)"

fun incref_all_trace :: "'b store \<Rightarrow> sha list \<Rightarrow> 'b store list" where
  "incref_all_trace s [] = []"
| "incref_all_trace s (sh # shs) = incref_store s sh # incref_all_trace (incref_store s sh) shs"

definition put_ref_trace :: "'b env \<Rightarrow> 'b putst \<Rightarrow> sha \<Rightarrow> bytes \<Rightarrow> 'b store list" where
  "put_ref_trace E L sh d =
     (if map_of (p_pending L) sh \<noteq> None then []
      else if blob_get (s_meta (p_store L)) sh \<noteq> None then [incref_store (p_store L) sh]
      else (case reap_running L of
              (Inl e, L1) \<Rightarrow> []
            | (Inr _, L1) \<Rightarrow> upload_trace E (p_store L1) sh d))"

definition put_step_trace ::
    "'b env \<Rightarrow> nat set option \<Rightarrow> chunk list \<Rightarrow> nat \<Rightarrow> 'b putst \<Rightarrow> 'b store list" where
  "put_step_trace E dirty rows sz L =
     (let want = min (s_cs (p_store L)) (sz - p_off L); sh = c_sha (rows ! p_idx L)
      in if is_clean dirty rows (p_idx L) (p_off L) want
         then (if blob_get (s_meta (p_store L)) sh = None then [] else [incref_store (p_store L) sh])
         else (case f_read (p_src L) want of
                 (d, src) \<Rightarrow> if d = [] then [] else put_ref_trace E (L\<lparr>p_src := src\<rparr>) (sha256 E d) d))"

function (sequential) put_loop_trace ::
    "'b env \<Rightarrow> nat set option \<Rightarrow> chunk list \<Rightarrow> nat \<Rightarrow> 'b putst \<Rightarrow> 'b store list" where
  "put_loop_trace E dirty rows sz L =
     (if p_off L < sz
      then put_step_trace E dirty rows sz L @
        (case put_step E dirty rows sz L of
           (Inr True, L') \<Rightarrow> put_loop_trace E dirty rows sz L'
         | _ \<Rightarrow> [])
      else [])"
  by pat_completeness auto
termination
proof (relation "measure (\<lambda>(E, dirty, rows, sz, L). sz - p_off L + (length rows - p_idx L))")
  fix E :: "'a env" and dirty rows sz L x y b
  assume "p_off L < sz" "(x, y) = put_step E dirty rows sz L" "x = Inr b" "b = True"
  then show "((E, dirty, rows, sz, y), E, dirty, rows, sz, L)
      \<in> measure (\<lambda>(E, dirty, rows, sz, L). sz - p_off L + (length rows - p_idx L))"
    using put_step_progress [of E dirty rows sz L y] by simp
qed simp

declare put_loop_trace.simps [simp del]

definition put_start :: "'b store \<Rightarrow> pyfile \<Rightarrow> 'b putst" where
  "put_start s src =
     \<lparr>p_idx = 0, p_off = 0, p_src = src, p_new = [], p_acquired = [], p_pending = [],
      p_dups = [], p_running = [], p_store = s\<rparr>"

definition commit_trace :: "'b env \<Rightarrow> ino \<Rightarrow> sha list \<Rightarrow> 'b putst \<Rightarrow> 'b store list" where
  "commit_trace E i old_shas L =
     (let s1 = foldl incref_store (p_store L) (p_dups L)
      in incref_all_trace (p_store L) (p_dups L) @
         (case set_chunks (s_meta s1) i (p_new L) of
            (Inl e, m) \<Rightarrow> [s1\<lparr>s_meta := m\<rparr>]
          | (Inr _, m) \<Rightarrow>
              (let s2 = s1\<lparr>s_meta := set_size m i (p_off L)\<rparr>
               in s1\<lparr>s_meta := m\<rparr> # s2 # release_all_trace E s2 old_shas)))"

definition put_trace :: "'b env \<Rightarrow> 'b store \<Rightarrow> ino \<Rightarrow> pyfile \<Rightarrow> nat \<Rightarrow> nat set option \<Rightarrow> 'b store list" where
  "put_trace E s i src sz dirty =
     (let rows = get_chunks (s_meta s) i; L0 = put_start s src
      in s # put_loop_trace E dirty rows sz L0 @
         (case put_loop E dirty rows sz L0 of
            (Inl e, L) \<Rightarrow> release_all_trace E (p_store L) (held L)
          | (Inr _, L) \<Rightarrow>
              (if first_error (map snd (p_pending L)) = None
               then commit_trace E i (map c_sha rows) L
               else release_all_trace E (p_store L) (held L))))"

definition free_trace :: "'b env \<Rightarrow> 'b store \<Rightarrow> ino \<Rightarrow> 'b store list" where
  "free_trace E s i =
     s # release_all_trace E s (get_chunk_shas (s_meta s) i) @
     (case release_all E s (get_chunk_shas (s_meta s) i) of
        (Inl e, s') \<Rightarrow> []
      | (Inr _, s') \<Rightarrow> [s'\<lparr>s_meta := snd (set_chunks (s_meta s') i [])\<rparr>])"

subsection \<open>A trace ends where the operation ends\<close>

text \<open>\<open>ends s t s'\<close>: after the actions \<open>t\<close>, which start in \<open>s\<close>, the store is \<open>s'\<close>.\<close>

definition ends :: "'b store \<Rightarrow> 'b store list \<Rightarrow> 'b store \<Rightarrow> bool" where
  "ends s t s' \<longleftrightarrow> last (s # t) = s'"

lemma ends_Nil [simp]: "ends s [] s' \<longleftrightarrow> s' = s"
  by (auto simp: ends_def)

lemma ends_Cons [simp]: "ends s (x # t) s' \<longleftrightarrow> ends x t s'"
  by (simp add: ends_def)

lemma ends_append: "ends s t s1 \<Longrightarrow> ends s1 t' s' \<Longrightarrow> ends s (t @ t') s'"
  by (induction t arbitrary: s) auto

lemma upload_ends: "upload_blob E s sh d = (r, s') \<Longrightarrow> ends s (upload_trace E s sh d) s'"
  by (auto simp: upload_blob_def upload_trace_def split: prod.splits sum.splits if_splits)

lemma release_ends: "release_blob E s sh = (r, s') \<Longrightarrow> ends s (release_trace E s sh) s'"
  by (auto simp: release_blob_def release_trace_def split: prod.splits option.splits)

lemma release_all_ends: "release_all E s shs = (r, s') \<Longrightarrow> ends s (release_all_trace E s shs) s'"
proof (induction shs arbitrary: s)
  case (Cons sh shs)
  obtain q s1 where rel: "release_blob E s sh = (q, s1)" by force
  show ?case
  proof (cases q)
    case (Inl e)
    with rel Cons.prems release_ends [OF rel] show ?thesis by auto
  next
    case (Inr u)
    with rel Cons have "ends s1 (release_all_trace E s1 shs) s'" by simp
    with ends_append [OF release_ends [OF rel]] rel Inr show ?thesis by simp
  qed
qed simp

lemma release_all_ends_snd [simp]: "ends s (release_all_trace E s shs) (snd (release_all E s shs))"
  by (rule release_all_ends [OF prod.collapse [symmetric]])

lemma incref_all_ends: "ends s (incref_all_trace s shs) (foldl incref_store s shs)"
  by (induction shs arbitrary: s) auto

lemma put_ref_ends:
  assumes "put_ref E L sh d = (r, L')"
  shows "ends (p_store L) (put_ref_trace E L sh d) (p_store L')"
proof -
  obtain q L1 where reap: "reap_running L = (q, L1)" by force
  obtain r1 s1 where up: "upload_blob E (p_store L) sh d = (r1, s1)" by force
  show ?thesis
    using assms reap_running_frame(1) [OF reap] reap upload_ends [OF up] up
    by (auto simp: put_ref_def put_ref_trace_def split: if_splits sum.splits)
qed

lemma put_step_ends:
  assumes "put_step E dirty rows sz L = (r, L')"
  shows "ends (p_store L) (put_step_trace E dirty rows sz L) (p_store L')"
proof -
  define w where "w = min (s_cs (p_store L)) (sz - p_off L)"
  obtain d src where rd: "f_read (p_src L) w = (d, src)" by force
  obtain q L1 where ref: "put_ref E (L\<lparr>p_src := src\<rparr>) (sha256 E d) d = (q, L1)" by force
  show ?thesis
    using assms put_ref_ends [OF ref] rd ref
    by (auto simp: put_step_def put_step_trace_def put_clean_def put_dirty_def Let_def w_def [symmetric]
        split: if_splits sum.splits)
qed

lemma put_loop_ends:
  "put_loop E dirty rows sz L = (r, L') \<Longrightarrow>
     ends (p_store L) (put_loop_trace E dirty rows sz L) (p_store L')"
proof (induction E dirty rows sz L rule: put_loop.induct)
  case (1 E dirty rows sz L)
  obtain q L1 where st: "put_step E dirty rows sz L = (q, L1)" by force
  show ?case
  proof (cases "p_off L < sz")
    case False
    with "1.prems" show ?thesis by (simp add: put_loop.simps put_loop_trace.simps)
  next
    case True
    note one = put_step_ends [OF st]
    show ?thesis
    proof (cases "q = Inr True")
      case go: True
      with "1.prems" True st have "put_loop E dirty rows sz L1 = (r, L')" by (simp add: put_loop.simps)
      from "1.IH" [OF True st [symmetric] go refl this] ends_append [OF one] True st go
      show ?thesis by (simp add: put_loop_trace.simps)
    next
      case False
      with "1.prems" True st one show ?thesis
        by (auto simp: put_loop.simps put_loop_trace.simps split: sum.splits bool.splits)
    qed
  qed
qed

text \<open>The last store of a trace is the result of the operation.\<close>

lemma put_trace_last: "last (put_trace E s i src sz dirty) = snd (snd (put_file E s i src sz dirty))"
proof -
  let ?rows = "get_chunks (s_meta s) i"
  define L0 where "L0 = put_start s src"
  have s0: "p_store L0 = s" by (simp add: L0_def put_start_def)
  obtain q L where loop: "put_loop E dirty ?rows sz L0 = (q, L)" by force
  note ended = put_loop_ends [OF loop, unfolded s0]
  have undo: "ends (p_store L) (release_all_trace E (p_store L) (held L)) (snd (rollback E e L))" for e
    using release_all_ends [of E "p_store L" "held L"]
    by (auto simp: rollback_def held_def [symmetric] split: prod.splits sum.splits)
  define s1 where "s1 = foldl incref_store (p_store L) (p_dups L)"
  define fin where "fin = (case set_chunks (s_meta s1) i (p_new L) of
         (Inl e, m) \<Rightarrow> s1\<lparr>s_meta := m\<rparr>
       | (Inr _, m) \<Rightarrow> snd (release_all E (s1\<lparr>s_meta := set_size m i (p_off L)\<rparr>) (map c_sha ?rows)))"
  have commit: "ends (p_store L) (commit_trace E i (map c_sha ?rows) L) fin"
    unfolding commit_trace_def Let_def fin_def s1_def
    by (intro ends_append [OF incref_all_ends]) (auto split: prod.split sum.split)
  have put: "snd (snd (put_file E s i src sz dirty)) =
      (case q of Inl e \<Rightarrow> snd (rollback E e L)
       | Inr _ \<Rightarrow> (case first_error (map snd (p_pending L)) of Some e \<Rightarrow> snd (rollback E e L) | None \<Rightarrow> fin))"
    using loop unfolding put_file_def Let_def L0_def [unfolded put_start_def, symmetric] fin_def s1_def
    by (simp split: sum.split prod.split option.split)
  have "ends s (tl (put_trace E s i src sz dirty)) (snd (snd (put_file E s i src sz dirty)))"
    using loop ends_append [OF ended undo] ends_append [OF ended commit]
    unfolding put put_trace_def Let_def L0_def [symmetric]
    by (simp split: sum.split option.split)
  then show ?thesis by (simp add: ends_def put_trace_def Let_def)
qed

lemma free_trace_last: "last (free_trace E s i) = snd (free_file E s i)"
proof -
  obtain q s1 where rel: "release_all E s (get_chunk_shas (s_meta s) i) = (q, s1)" by force
  have "ends s (tl (free_trace E s i)) (snd (free_file E s i))"
  proof (cases q)
    case (Inl e)
    with rel release_all_ends [OF rel] show ?thesis by (simp add: free_trace_def free_file_def)
  next
    case (Inr u)
    with rel ends_append [OF release_all_ends [OF rel]] show ?thesis
      by (simp add: free_trace_def free_file_def split: prod.splits)
  qed
  then show ?thesis by (simp add: ends_def free_trace_def)
qed

end
