(* ===== verification/CrashSafe.thy ===== *)
theory CrashSafe
  imports CrashTrace
begin

section \<open>Stored files survive crashes and failing transfers\<close>

text \<open>
  A weaker invariant than \<open>store_ok\<close>, which every durable action keeps over a backend that may
  fail at any call (\<open>faulty_backend\<close>). \<open>R\<close> is a lower bound of the counts: a blob with at least
  one reference in \<open>R\<close> is registered, and a registered blob is in the backend. Blobs and
  references may be left over, which costs space and no data.
\<close>

definition blobs_safe :: "(bytes \<Rightarrow> sha) \<Rightarrow> (nat \<Rightarrow> bytes option) \<Rightarrow> meta \<Rightarrow> (sha \<Rightarrow> nat) \<Rightarrow> bool" where
  "blobs_safe hash cont m R \<longleftrightarrow>
     counts_ok m \<and> (\<forall>sh. R sh \<le> rc m sh) \<and>
     (\<forall>sh h n. loc m sh = Some (h, n) \<longrightarrow> (\<exists>d. cont h = Some d \<and> hash d = sh \<and> length d = n)) \<and>
     (\<forall>sh sh' h n n'. loc m sh = Some (h, n) \<longrightarrow> loc m sh' = Some (h, n') \<longrightarrow> sh = sh')"

lemma blobs_safeD:
  assumes "blobs_safe hash cont m R"
  shows "counts_ok m" "R sh \<le> rc m sh"
    and "loc m sh = Some (h, n) \<Longrightarrow> \<exists>d. cont h = Some d \<and> hash d = sh \<and> length d = n"
    and "loc m sh = Some (h, n) \<Longrightarrow> loc m sh' = Some (h, n') \<Longrightarrow> sh = sh'"
  using assms unfolding blobs_safe_def by blast+

lemma blobs_safe_mono:
  assumes "blobs_safe hash cont m R" "\<And>sh. R' sh \<le> R sh" "cont \<subseteq>\<^sub>m cont'"
  shows "blobs_safe hash cont' m R'"
  unfolding blobs_safe_def
proof (intro conjI allI impI)
  show "R' sh \<le> rc m sh" for sh using assms(2) blobs_safeD(2) [OF assms(1)] by (rule order_trans)
  fix sh h n
  assume "loc m sh = Some (h, n)"
  then obtain d where "cont h = Some d" "hash d = sh" "length d = n"
    using blobs_safeD(3) [OF assms(1)] by blast
  moreover from this(1) assms(3) have "cont' h = Some d" by (force simp: map_le_def)
  ultimately show "\<exists>d. cont' h = Some d \<and> hash d = sh \<and> length d = n" by blast
qed (use blobs_safeD(1,4) [OF assms(1)] in blast)+

lemma blobs_safe_same_blobs:
  assumes "blobs m' = blobs m"
  shows "blobs_safe hash cont m' R = blobs_safe hash cont m R"
proof -
  have "blob_get m' = blob_get m" using assms by (simp add: blob_get_def fun_eq_iff)
  then show ?thesis using assms by (simp add: blobs_safe_def counts_ok_def rc_def loc_def fun_eq_iff)
qed

lemma blobs_ok_safe: "blobs_ok hash cont m R \<Longrightarrow> blobs_safe hash cont m R"
  unfolding blobs_ok_def blobs_safe_def by auto

lemma safe_incref:
  assumes "blobs_safe hash cont m R" "blob_get m sh \<noteq> None"
  shows "blobs_safe hash cont (blob_incref m sh) (R(sh := R sh + 1))"
proof -
  note ok = blobs_safeD [OF assms(1)]
  have "0 < rc m sh" using rc_pos_iff [OF ok(1)] assms(2) by simp
  then have "(R(sh := R sh + 1)) j \<le> rc (blob_incref m sh) j" for j
    using ref_index.cnt_inc [OF ok(1) \<open>0 < rc m sh\<close>, of j] ok(2) [of j] by auto
  with assms(1) counts_ok_incref [OF ok(1)] show ?thesis by (simp add: blobs_safe_def)
qed

lemma safe_decref:
  assumes "blobs_safe hash cont m R"
  shows "blobs_safe hash cont (snd (blob_decref m sh)) (R(sh := R sh - 1))"
proof -
  note ok = blobs_safeD [OF assms]
  have "(R(sh := R sh - 1)) j \<le> rc (snd (blob_decref m sh)) j" for j
    using ref_index.cnt_dec [OF ok(1), of sh j] ok(2) [of j] by auto
  moreover have "loc (snd (blob_decref m sh)) j = Some x \<Longrightarrow> loc m j = Some x" for j x
    by (simp add: loc_decref [OF ok(1)] split: if_splits)
  ultimately show ?thesis using assms counts_ok_decref [OF ok(1)] unfolding blobs_safe_def by blast
qed

text \<open>A blob whose row is gone may be deleted.\<close>

lemma safe_delete:
  assumes "blobs_safe hash cont m R" "\<And>sh n. loc m sh \<noteq> Some (h, n)" "cont(h := None) \<subseteq>\<^sub>m cont'"
  shows "blobs_safe hash cont' m R"
proof -
  have "cont' h' = cont h'" if at: "loc m sh = Some (h', n)" for sh h' n
  proof -
    have "h' \<noteq> h" using assms(2) at by auto
    moreover obtain x where "cont h' = Some x" using blobs_safeD(3) [OF assms(1) at] by blast
    ultimately show ?thesis using assms(3) by (force simp: map_le_def)
  qed
  then show ?thesis using assms(1) unfolding blobs_safe_def by metis
qed

lemma safe_create:
  assumes ok: "blobs_safe hash cont m R" and new: "blob_get m (hash d) = None"
    and h: "cont h = None" "cont' h = Some d" "cont \<subseteq>\<^sub>m cont'"
  shows "\<exists>m'. blob_create m (hash d) h (length d) = (Inr (), m') \<and>
    blobs_safe hash cont' m' (R(hash d := R (hash d) + 1)) \<and>
    m' = m\<lparr>blobs := blobs m'\<rparr> \<and> blob_get m' (hash d) \<noteq> None"
proof -
  note okD = blobs_safeD [OF ok]
  define m' where "m' = m\<lparr>blobs := blobs m @ [(hash d, \<lparr>b_handle = h, b_len = length d, b_refcount = 1\<rparr>)]\<rparr>"
  have create: "blob_create m (hash d) h (length d) = (Inr (), m')"
    using new by (auto simp: blob_create_def sql_insert_def blob_get_def m'_def)
  have get: "blob_get m' j = (if j = hash d then Some \<lparr>b_handle = h, b_len = length d, b_refcount = 1\<rparr>
      else blob_get m j)" for j
    using new by (simp add: blob_get_def m'_def select_append_new)
  have "keyed (blobs m')"
    using okD(1) new by (simp add: m'_def counts_ok_def keyed_append_new blob_get_def)
  then have c: "counts_ok m'" using okD(1) by (auto simp: counts_ok_def get)
  have "rc m (hash d) = 0" using new by (simp add: rc_def)
  then have R: "(R(hash d := R (hash d) + 1)) j \<le> rc m' j" for j
    using okD(2) [of j] by (auto simp: rc_def get)
  have loc: "loc m' j = (if j = hash d then Some (h, length d) else loc m j)" for j
    by (simp add: loc_def get)
  have fresh: "h' \<noteq> h \<and> (\<exists>x. cont' h' = Some x \<and> hash x = j \<and> length x = n)" if "loc m j = Some (h', n)" for j h' n
    using okD(3) [OF that] h by (force simp: map_le_def)
  have "blobs_safe hash cont' m' (R(hash d := R (hash d) + 1))"
    unfolding blobs_safe_def
  proof (intro conjI allI impI c R)
    fix j h' n assume "loc m' j = Some (h', n)"
    then show "\<exists>x. cont' h' = Some x \<and> hash x = j \<and> length x = n"
      using fresh h(2) by (auto simp: loc split: if_splits)
  next
    fix j j' h' n n' assume "loc m' j = Some (h', n)" "loc m' j' = Some (h', n')"
    with fresh [of j h n] fresh [of j' h n'] show "j = j'"
      using okD(4) [of j h' n j' n'] by (auto simp: loc split: if_splits)
  qed
  then show ?thesis using create get by (auto simp: m'_def)
qed

subsection \<open>One store after another\<close>

text \<open>\<open>t\<close> has the rows and inodes of \<open>s0\<close>, and blobs for at least the references \<open>R\<close>.\<close>

definition safe_at ::
    "(bytes \<Rightarrow> sha) \<Rightarrow> ('b \<Rightarrow> nat \<Rightarrow> bytes option) \<Rightarrow> ('b \<Rightarrow> bool) \<Rightarrow> 'b store \<Rightarrow> (sha \<Rightarrow> nat) \<Rightarrow> 'b store \<Rightarrow> bool" where
  "safe_at hash content binv s0 R t \<longleftrightarrow>
     only_blobs s0 t \<and> binv (s_back t) \<and> blobs_safe hash (content (s_back t)) (s_meta t) R"

lemma safe_at_mono:
  "safe_at hash content binv s0 R t \<Longrightarrow> (\<And>sh. R' sh \<le> R sh) \<Longrightarrow> safe_at hash content binv s0 R' t"
  unfolding safe_at_def by (meson blobs_safe_mono map_le_refl)

lemma safe_at_meta:
  assumes "safe_at hash content binv s0 R t" "blobs_safe hash (content (s_back t)) m R'"
    and "m = (s_meta t)\<lparr>blobs := blobs m\<rparr>"
  shows "safe_at hash content binv s0 R' (t\<lparr>s_meta := m\<rparr>)"
proof -
  have "inodes m = inodes (s_meta t)" "dirents m = dirents (s_meta t)" "chunks m = chunks (s_meta t)"
    "seq m = seq (s_meta t)" "clock m = clock (s_meta t)"
    by (subst assms(3), simp)+
  with assms(1,2) show ?thesis by (simp add: safe_at_def only_blobs_iff)
qed

lemma only_blobs_back [simp]:
  "only_blobs s0 (t\<lparr>s_back := b\<rparr>) = only_blobs s0 t"
  "only_blobs s0 (t\<lparr>s_back := b, s_meta := m\<rparr>) = only_blobs s0 (t\<lparr>s_meta := m\<rparr>)"
  by (simp_all add: only_blobs_iff)

lemma safe_at_incref:
  assumes "safe_at hash content binv s0 R t" "blob_get (s_meta t) sh \<noteq> None"
  shows "safe_at hash content binv s0 (R(sh := R sh + 1)) (incref_store t sh)"
proof -
  have "blobs_safe hash (content (s_back t)) (blob_incref (s_meta t) sh) (R(sh := R sh + 1))"
    using assms by (intro safe_incref) (simp_all add: safe_at_def)
  then show ?thesis
    unfolding incref_store_def by (rule safe_at_meta [OF assms(1)]) (simp add: blob_incref_def)
qed

lemma safe_at_known: "safe_at hash content binv s0 R t \<Longrightarrow> 0 < R sh \<Longrightarrow> blob_get (s_meta t) sh \<noteq> None"
  by (metis blobs_safeD(1,2) less_le_trans rc_pos_iff safe_at_def)

lemma incref_all_safe:
  assumes "safe_at hash content binv s0 R s" "\<And>sh. sh \<in> set shs \<Longrightarrow> 0 < R sh"
  shows "safe_at hash content binv s0 (\<lambda>j. R j + count_list shs j) (foldl incref_store s shs) \<and>
    (\<forall>t \<in> set (incref_all_trace s shs). safe_at hash content binv s0 R t)"
  using assms
proof (induction shs arbitrary: s R)
  case (Cons sh shs)
  have "blob_get (s_meta s) sh \<noteq> None" using safe_at_known [OF Cons.prems(1)] Cons.prems(2) by simp
  note one = safe_at_incref [OF Cons.prems(1) this]
  have fn: "(\<lambda>j. (R(sh := R sh + 1)) j + count_list shs j) = (\<lambda>j. R j + count_list (sh # shs) j)"
    by (auto simp: fun_eq_iff)
  have "0 < (R(sh := R sh + 1)) j" if "j \<in> set shs" for j using Cons.prems(2) [of j] that by simp
  note IH = Cons.IH [OF one this, unfolded fn]
  have weak: "safe_at hash content binv s0 R t" if "safe_at hash content binv s0 (R(sh := R sh + 1)) t" for t
    using that by (rule safe_at_mono) simp
  show ?case
    unfolding incref_all_trace.simps list.set foldl_Cons using IH weak one by blast
qed simp

context faulty_backend
begin

abbreviation sat :: "'b store \<Rightarrow> (sha \<Rightarrow> nat) \<Rightarrow> 'b store \<Rightarrow> bool" where
  "sat \<equiv> safe_at (sha256 E) content binv"

lemma upload_safe:
  assumes s: "sat s0 R s" and up: "upload_blob E s (sha256 E d) d = (r, s')"
  shows "sat s0 (case r of Inl _ \<Rightarrow> R | Inr _ \<Rightarrow> R(sha256 E d := R (sha256 E d) + 1)) s'"
    "t \<in> set (upload_trace E s (sha256 E d) d) \<Longrightarrow> sat s0 R t"
    "blob_get (s_meta s') (sha256 E d) \<noteq> None \<or> r \<noteq> Inr ()"
proof -
  let ?sh = "sha256 E d"
  have S: "only_blobs s0 s" "binv (s_back s)" "blobs_safe (sha256 E) (content (s_back s)) (s_meta s) R"
    using s by (simp_all add: safe_at_def)
  have weak: "sat s0 R t" if "sat s0 (R(?sh := R ?sh + 1)) t" for t
    using that by (rule safe_at_mono) simp
  obtain q b where u: "upload E (s_back s) d = (q, b)" by force
  have "sat s0 (case r of Inl _ \<Rightarrow> R | Inr _ \<Rightarrow> R(?sh := R ?sh + 1)) s' \<and>
    (\<forall>t \<in> set (upload_trace E s ?sh d). sat s0 R t) \<and> (blob_get (s_meta s') ?sh \<noteq> None \<or> r \<noteq> Inr ())"
  proof (cases q)
    case (Inl e)
    note F = upload_raises [OF S(2) u [unfolded Inl]]
    have "sat s0 R (s\<lparr>s_back := b\<rparr>)"
      using S(1) F blobs_safe_mono [OF S(3)] by (simp add: safe_at_def)
    then show ?thesis using up u Inl by (auto simp: upload_blob_def upload_trace_def)
  next
    case (Inr h)
    from upload_new [OF S(2) u [unfolded Inr]]
    have F: "binv b" "content (s_back s) h = None" "content b h = Some d" "content (s_back s) \<subseteq>\<^sub>m content b"
      by simp_all
    have bk: "sat s0 R (s\<lparr>s_back := b\<rparr>)"
      using S(1) F blobs_safe_mono [OF S(3)] by (simp add: safe_at_def)
    show ?thesis
    proof (cases "blob_get (s_meta s) ?sh")
      case None
      obtain m where m: "blob_create (s_meta s) ?sh h (length d) = (Inr (), m)"
        "blobs_safe (sha256 E) (content b) m (R(?sh := R ?sh + 1))"
        "m = (s_meta s)\<lparr>blobs := blobs m\<rparr>" "blob_get m ?sh \<noteq> None"
        using safe_create [OF S(3) None F(2-4)] by (elim exE conjE)
      have "s' = (s\<lparr>s_back := b\<rparr>)\<lparr>s_meta := m\<rparr>" "r = Inr ()"
        using up u Inr None m(1) by (auto simp: upload_blob_def)
      moreover have "sat s0 (R(?sh := R ?sh + 1)) ((s\<lparr>s_back := b\<rparr>)\<lparr>s_meta := m\<rparr>)"
        by (rule safe_at_meta [OF bk]) (use m in simp_all)
      ultimately show ?thesis
        using bk weak u Inr None up m(4) by (auto simp: upload_trace_def)
    next
      case (Some x)
      let ?s1 = "incref_store (s\<lparr>s_back := b\<rparr>) ?sh"
      have s1: "sat s0 (R(?sh := R ?sh + 1)) ?s1"
        by (rule safe_at_incref [OF bk]) (simp add: Some)
      obtain r' b' where del: "delete E b h = (r', b')" by force
      have D: "binv b'" "(content b)(h := None) \<subseteq>\<^sub>m content b'" using delete_any [OF _ del] F by auto
      have "loc (s_meta ?s1) j \<noteq> Some (h, n)" for j n
        using blobs_safeD(3) [OF S(3), of j h n] F by (auto simp: incref_store_def)
      from safe_delete [OF _ this D(2), of "sha256 E" "R(?sh := R ?sh + 1)"] s1
      have s2: "sat s0 (R(?sh := R ?sh + 1)) (?s1\<lparr>s_back := b'\<rparr>)"
        using D(1) by (simp add: safe_at_def incref_store_def)
      have "s' = ?s1\<lparr>s_back := b'\<rparr>" "r = r'"
        using up u Inr Some del by (auto simp: upload_blob_def incref_store_def)
      moreover have "blob_get (s_meta ?s1) ?sh \<noteq> None"
        using Some by (simp add: incref_store_def blob_get_incref)
      ultimately show ?thesis
        using bk s1 s2 weak u Inr Some up
        by (auto simp: upload_trace_def incref_store_def split: sum.split)
    qed
  qed
  then show "sat s0 (case r of Inl _ \<Rightarrow> R | Inr _ \<Rightarrow> R(?sh := R ?sh + 1)) s'"
    "t \<in> set (upload_trace E s ?sh d) \<Longrightarrow> sat s0 R t"
    "blob_get (s_meta s') ?sh \<noteq> None \<or> r \<noteq> Inr ()" by blast+
qed

lemma release_safe:
  assumes s: "sat s0 R s" and rel: "release_blob E s sh = (r, s')"
  shows "sat s0 (R(sh := R sh - 1)) s'" "t \<in> set (release_trace E s sh) \<Longrightarrow> sat s0 (R(sh := R sh - 1)) t"
proof -
  let ?R = "R(sh := R sh - 1)"
  obtain oh m where dec: "blob_decref (s_meta s) sh = (oh, m)" by force
  have S: "binv (s_back s)" "blobs_safe (sha256 E) (content (s_back s)) (s_meta s) R"
    using s by (simp_all add: safe_at_def)
  have ms: "blobs_safe (sha256 E) (content (s_back s)) m ?R" using safe_decref [OF S(2), of sh] dec by simp
  have s1: "sat s0 ?R (s\<lparr>s_meta := m\<rparr>)"
    by (rule safe_at_meta [OF s ms]) (use dec in \<open>auto simp: blob_decref_def split: option.splits if_splits\<close>)
  have "sat s0 ?R s' \<and> (\<forall>t \<in> set (release_trace E s sh). sat s0 ?R t)"
  proof (cases oh)
    case None
    with rel dec s1 show ?thesis by (simp add: release_blob_def release_trace_def)
  next
    case (Some h)
    obtain r' b' where del: "delete E (s_back s) h = (r', b')" by force
    note D = delete_any [OF S(1) del]
    have "fst (blob_decref (s_meta s) sh) = Some h" using dec Some by simp
    then obtain n where last: "rc (s_meta s) sh \<le> 1" "loc (s_meta s) sh = Some (h, n)"
      using decref_handle(1) by blast
    have "loc m j \<noteq> Some (h, n')" for j n'
      using loc_decref [OF blobs_safeD(1) [OF S(2)], of sh j] last blobs_safeD(4) [OF S(2) last(2), of j n'] dec
      by (auto split: if_splits)
    from safe_delete [OF ms this] D
    have "sat s0 ?R (s\<lparr>s_meta := m, s_back := b'\<rparr>)"
      using s1 by (simp add: safe_at_def)
    moreover have "s' = s\<lparr>s_meta := m, s_back := b'\<rparr>"
      using rel dec Some del by (simp add: release_blob_def)
    ultimately show ?thesis using s1 rel dec Some by (simp add: release_trace_def)
  qed
  then show "sat s0 ?R s'" "t \<in> set (release_trace E s sh) \<Longrightarrow> sat s0 ?R t" by blast+
qed

lemma release_all_safe:
  assumes "sat s0 (\<lambda>j. R j + count_list shs j) s" "release_all E s shs = (r, s')"
  shows "sat s0 R s'" "t \<in> set (release_all_trace E s shs) \<Longrightarrow> sat s0 R t"
proof -
  have "sat s0 R s' \<and> (\<forall>t \<in> set (release_all_trace E s shs). sat s0 R t)"
    using assms
  proof (induction shs arbitrary: s)
    case (Cons sh shs)
    let ?R = "\<lambda>j. R j + count_list (sh # shs) j"
    obtain q s1 where rel: "release_blob E s sh = (q, s1)" by force
    have fn: "(?R(sh := ?R sh - 1)) = (\<lambda>j. R j + count_list shs j)" by (auto simp: fun_eq_iff)
    note one = release_safe [OF Cons.prems(1) rel, unfolded fn]
    have weak: "sat s0 R t" if "sat s0 (\<lambda>j. R j + count_list shs j) t" for t
      using that by (rule safe_at_mono) simp
    show ?case
    proof (cases q)
      case (Inl e)
      with rel Cons.prems(2) one weak show ?thesis by auto
    next
      case (Inr u)
      with rel Cons.prems(2) have "release_all E s1 shs = (r, s')" by simp
      from Cons.IH [OF one(1) this] one(2) weak rel Inr show ?thesis by auto
    qed
  qed simp
  then show "sat s0 R s'" "t \<in> set (release_all_trace E s shs) \<Longrightarrow> sat s0 R t" by blast+
qed

end

end
