(* ===== verification/CrashPut.thy ===== *)
theory CrashPut
  imports CrashSafe
begin

section \<open>Every point of put\_file and free\_file is safe\<close>

text \<open>
  The references that count are those of the files in a set \<open>A\<close>: the rows of a deleted file may
  stay behind without their blobs. A store is recoverable for \<open>A\<close> when each of these files can be
  read back; a restart after a crash finds such a store.
\<close>

definition refs_on :: "ino set \<Rightarrow> meta \<Rightarrow> sha \<Rightarrow> nat" where
  "refs_on A m sh = sql_count (chunks m) (\<lambda>(j, k) c. j \<in> A \<and> c_sha c = sh)"

definition recoverable ::
    "(bytes \<Rightarrow> sha) \<Rightarrow> ('b \<Rightarrow> nat \<Rightarrow> bytes option) \<Rightarrow> ('b \<Rightarrow> bool) \<Rightarrow> ino set \<Rightarrow> 'b store \<Rightarrow> bool" where
  "recoverable hash content binv A s \<longleftrightarrow>
     binv (s_back s) \<and> keyed (chunks (s_meta s)) \<and> 0 < s_cs s \<and>
     blobs_safe hash (content (s_back s)) (s_meta s) (refs_on A (s_meta s)) \<and>
     (\<forall>i \<in> A. rows_hold hash 0 (get_chunks (s_meta s) i) (sbytes content s i))"

lemma recoverableD:
  assumes "recoverable hash content binv A s"
  shows "binv (s_back s)" "keyed (chunks (s_meta s))" "0 < s_cs s"
    "blobs_safe hash (content (s_back s)) (s_meta s) (refs_on A (s_meta s))"
    "i \<in> A \<Longrightarrow> rows_hold hash 0 (get_chunks (s_meta s) i) (sbytes content s i)"
  using assms by (simp_all add: recoverable_def)

lemma count_row_where: "sql_count t (\<lambda>(j, k) c. j \<in> A \<and> c_sha c = sh) =
    (if i \<in> A then sql_count t (\<lambda>(j, k) c. j = i \<and> c_sha c = sh) else 0) +
    sql_count (sql_delete t (\<lambda>(j, idx). j = i)) (\<lambda>(j, k) c. j \<in> A \<and> c_sha c = sh)"
  by (induction t) (auto simp: sql_count_def sql_delete_def)

lemma refs_on_split: "refs_on A m sh =
    (if i \<in> A then count_list (map c_sha (get_chunks m i)) sh else 0) +
    sql_count (rows_without m i) (\<lambda>(j, k) c. j \<in> A \<and> c_sha c = sh)"
  unfolding count_shas_rows refs_on_def rows_without_def by (rule count_row_where)

lemma count_without: "sql_count (rows_without m i) (\<lambda>(j, k) c. j \<in> A - {i} \<and> c_sha c = sh) =
    sql_count (rows_without m i) (\<lambda>(j, k) c. j \<in> A \<and> c_sha c = sh)"
proof -
  have "sql_count (sql_delete t (\<lambda>(j, idx). j = i)) (\<lambda>(j, k) c. j \<in> A - {i} \<and> c_sha c = sh) =
      sql_count (sql_delete t (\<lambda>(j, idx). j = i)) (\<lambda>(j, k) c. j \<in> A \<and> c_sha c = sh)"
    for t :: "(ino \<times> nat, chunk) table"
    by (induction t) (auto simp: sql_count_def sql_delete_def)
  then show ?thesis by (simp add: rows_without_def)
qed

lemma count_new_on: "i \<in> A \<Longrightarrow> sql_count (map (\<lambda>(k, c). ((i, k), c)) cs) (\<lambda>(j, k) c. j \<in> A \<and> c_sha c = sh) =
    count_list (map (c_sha \<circ> snd) cs) sh"
  by (induction cs) (auto simp: sql_count_def)

lemma sql_count_append: "sql_count (t @ u) P = sql_count t P + sql_count u P"
  by (simp add: sql_count_def)

lemma refs_on_set:
  assumes "i \<in> A" "chunks m' = rows_without m i @ map (\<lambda>(k, c). ((i, k), c)) cs"
  shows "refs_on A m' sh + count_list (map c_sha (get_chunks m i)) sh =
    refs_on A m sh + count_list (map (c_sha \<circ> snd) cs) sh"
  using refs_on_split [of A m sh i] assms
  by (simp add: refs_on_def sql_count_append count_new_on del: map_map)

lemma refs_on_pos: "c \<in> set (get_chunks m i) \<Longrightarrow> i \<in> A \<Longrightarrow> 0 < refs_on A m (c_sha c)"
proof -
  assume "c \<in> set (get_chunks m i)" "i \<in> A"
  then have "c_sha c \<in> set (map c_sha (get_chunks m i))" by simp
  then have "count_list (map c_sha (get_chunks m i)) (c_sha c) \<noteq> 0" by (metis count_list_0_iff)
  with refs_on_split [of A m "c_sha c" i] \<open>i \<in> A\<close> show ?thesis by simp
qed

lemma refs_on_mono: "A \<subseteq> B \<Longrightarrow> refs_on A m sh \<le> refs_on B m sh"
proof -
  assume "A \<subseteq> B"
  then have "length (filter (\<lambda>(k, c). (case k of (j, _) \<Rightarrow> \<lambda>c. j \<in> A \<and> c_sha c = sh) c) t) \<le>
      length (filter (\<lambda>(k, c). (case k of (j, _) \<Rightarrow> \<lambda>c. j \<in> B \<and> c_sha c = sh) c) t)" for t :: "(ino \<times> nat, chunk) table"
    by (induction t) auto
  then show ?thesis by (simp add: refs_on_def sql_count_def)
qed

lemma refs_on_all: "refs_on UNIV m = refs m"
  by (simp add: refs_on_def refs_def fun_eq_iff case_prod_unfold)

text \<open>The rows and the blobs they name determine the bytes.\<close>

lemma safe_blob_hash:
  assumes "blobs_safe hash cont m R" "0 < R sh"
  shows "hash (blob_bytes cont m sh) = sh"
proof -
  have "0 < rc m sh" using blobs_safeD(2) [OF assms(1), of sh] assms(2) by linarith
  then have "blob_get m sh \<noteq> None" using rc_pos_iff [OF blobs_safeD(1) [OF assms(1)]] by blast
  then obtain h n where "loc m sh = Some (h, n)"
    using loc_None_iff by (metis not_None_eq surj_pair)
  with blobs_safeD(3) [OF assms(1) this] show ?thesis by (auto simp: blob_bytes_def)
qed

lemma recoverableI:
  assumes sat: "safe_at hash content binv s0 (refs_on A (s_meta s0)) t"
    and "keyed (chunks (s_meta s0))" "0 < s_cs s0" "inj hash"
    and rows: "\<And>i. i \<in> A \<Longrightarrow> rows_hold hash 0 (get_chunks (s_meta s0) i) (D i)"
  shows "recoverable hash content binv A t \<and> (\<forall>i \<in> A. sbytes content t i = D i)"
proof -
  have t: "only_blobs s0 t" "binv (s_back t)"
    "blobs_safe hash (content (s_back t)) (s_meta t) (refs_on A (s_meta s0))"
    using sat by (simp_all add: safe_at_def)
  have same: "chunks (s_meta t) = chunks (s_meta s0)" "s_cs t = s_cs s0" using t(1) by (simp_all add: only_blobs_iff)
  then have gc: "get_chunks (s_meta t) = get_chunks (s_meta s0)" "refs_on A (s_meta t) = refs_on A (s_meta s0)"
    by (simp_all add: fun_eq_iff get_chunks_def refs_on_def)
  have bytes: "sbytes content t i = D i" if "i \<in> A" for i
    unfolding sbytes_def file_bytes_def gc
    by (rule rows_hold_blob_bytes [OF rows [OF that] assms(4)])
      (use safe_blob_hash [OF t(3)] refs_on_pos [OF _ that] in blast)
  have "rows_hold hash 0 (get_chunks (s_meta t) i) (sbytes content t i)" if "i \<in> A" for i
    using rows [OF that] by (simp add: bytes [OF that] gc)
  with t assms(2,3) bytes show ?thesis by (simp add: recoverable_def same gc)
qed

lemma recoverable_safe: "recoverable hash content binv A s \<Longrightarrow> safe_at hash content binv s (refs_on A (s_meta s)) s"
  by (simp add: recoverable_def safe_at_def)

lemma store_ok_recoverable: "store_ok hash content binv s \<Longrightarrow> recoverable hash content binv A s"
proof -
  assume ok: "store_ok hash content binv s"
  have "blobs_safe hash (content (s_back s)) (s_meta s) (refs (s_meta s))"
    using store_okD(4) [OF ok] by (rule blobs_ok_safe)
  then have "blobs_safe hash (content (s_back s)) (s_meta s) (refs_on A (s_meta s))"
    by (rule blobs_safe_mono) (use refs_on_mono [of A UNIV "s_meta s"] in \<open>simp_all add: refs_on_all\<close>)
  then show ?thesis using store_okD(1-3,5) [OF ok] by (simp add: recoverable_def)
qed

subsection \<open>The loop\<close>

definition put_safe ::
    "(bytes \<Rightarrow> sha) \<Rightarrow> ('b \<Rightarrow> nat \<Rightarrow> bytes option) \<Rightarrow> ('b \<Rightarrow> bool) \<Rightarrow> 'b store \<Rightarrow> (sha \<Rightarrow> nat) \<Rightarrow> 'b putst \<Rightarrow> bool" where
  "put_safe hash content binv s0 R L \<longleftrightarrow>
     safe_at hash content binv s0 (\<lambda>j. R j + count_list (held L) j) (p_store L) \<and>
     (\<forall>sh \<in> fst ` set (p_pending L). R sh = 0)"

lemma put_safe_cong:
  "p_store L' = p_store L \<Longrightarrow> p_pending L' = p_pending L \<Longrightarrow> p_acquired L' = p_acquired L \<Longrightarrow>
     put_safe hash content binv s0 R L' = put_safe hash content binv s0 R L"
  by (simp add: put_safe_def held_def)

lemma put_safe_weak: "put_safe hash content binv s0 R L \<Longrightarrow> safe_at hash content binv s0 R (p_store L)"
  unfolding put_safe_def by (auto elim: safe_at_mono)

lemma held_good: "first_error (map snd (p_pending L)) = None \<Longrightarrow> held L = p_acquired L"
proof -
  assume good: "first_error (map snd (p_pending L)) = None"
  have fails: "first_error rs = None \<longleftrightarrow> (\<forall>e. Inl e \<notin> set rs)" for rs
    by (induction rs rule: first_error.induct) auto
  have "map_of (p_pending L) sh \<noteq> Some (Inl e)" for sh e
    using good fails [of "map snd (p_pending L)"] by (metis map_of_SomeD set_map image_eqI snd_conv)
  then show ?thesis unfolding held_def by (auto intro!: filter_True split: option.splits sum.splits)
qed

text \<open>One more reference in hand.\<close>

lemma put_safe_acquire:
  assumes L: "put_safe hash content binv s0 R L" and known: "blob_get (s_meta (p_store L)) sh \<noteq> None"
    and free: "map_of (p_pending L) sh = None"
    and L': "p_store L' = incref_store (p_store L) sh" "p_pending L' = p_pending L"
      "p_acquired L' = p_acquired L @ [sh]"
  shows "put_safe hash content binv s0 R L'"
    "safe_at hash content binv s0 R (incref_store (p_store L) sh)"
proof -
  let ?R = "\<lambda>j. R j + count_list (held L) j"
  have s: "safe_at hash content binv s0 (?R(sh := ?R sh + 1)) (incref_store (p_store L) sh)"
    using L known by (intro safe_at_incref) (simp_all add: put_safe_def)
  then show "safe_at hash content binv s0 R (incref_store (p_store L) sh)"
    by (rule safe_at_mono) simp
  have "held L' = held L @ [sh]" using free by (simp add: held_def L')
  then have "(\<lambda>j. R j + count_list (held L') j) = ?R(sh := ?R sh + 1)" by (auto simp: fun_eq_iff)
  with s L show "put_safe hash content binv s0 R L'" by (simp add: put_safe_def L')
qed

context faulty_backend
begin

abbreviation psafe :: "'b store \<Rightarrow> (sha \<Rightarrow> nat) \<Rightarrow> 'b putst \<Rightarrow> bool" where
  "psafe \<equiv> put_safe (sha256 E) content binv"

lemma put_ref_safe:
  assumes L: "psafe s0 R L" and ref: "put_ref E L (sha256 E d) d = (r, L')"
  shows "psafe s0 R L' \<and> (\<forall>t \<in> set (put_ref_trace E L (sha256 E d) d). sat s0 R t)"
proof -
  let ?sh = "sha256 E d" and ?R = "\<lambda>j. R j + count_list (held L) j"
  have S: "sat s0 ?R (p_store L)" using L by (simp add: put_safe_def)
  consider (dup) "map_of (p_pending L) ?sh \<noteq> None"
    | (known) "map_of (p_pending L) ?sh = None" "blob_get (s_meta (p_store L)) ?sh \<noteq> None"
    | (new) "map_of (p_pending L) ?sh = None" "blob_get (s_meta (p_store L)) ?sh = None" by blast
  then show ?thesis
  proof cases
    case dup
    then have "L' = L\<lparr>p_dups := p_dups L @ [?sh]\<rparr>" using ref by (simp add: put_ref_def)
    with L dup show ?thesis by (auto simp: put_safe_def put_ref_trace_def)
  next
    case known
    let ?L = "L\<lparr>p_store := incref_store (p_store L) ?sh, p_acquired := p_acquired L @ [?sh]\<rparr>"
    have "L' = ?L" using ref known by (auto simp: put_ref_def)
    with put_safe_acquire [OF L known(2,1), of ?L] known show ?thesis
      by (simp add: put_ref_trace_def)
  next
    case new
    obtain q L1 where reap: "reap_running L = (q, L1)" by force
    note F = reap_running_frame [OF reap]
    show ?thesis
    proof (cases q)
      case (Inl e)
      then have "L' = L1" using ref new reap by (auto simp: put_ref_def)
      with L put_safe_cong [OF F(1-3)] new reap Inl show ?thesis by (simp add: put_ref_trace_def)
    next
      case (Inr u)
      obtain r1 s1 where up: "upload_blob E (p_store L) ?sh d = (r1, s1)" by force
      have L': "L' = L1\<lparr>p_store := s1, p_pending := p_pending L @ [(?sh, r1)],
          p_running := p_running L1 @ [r1], p_acquired := p_acquired L @ [?sh]\<rparr>"
        using ref new reap Inr up F by (auto simp: put_ref_def)
      note U = upload_safe [OF S up]
      have "\<not> 0 < ?R ?sh" using safe_at_known [OF S, of ?sh] new(2) by blast
      then have zero: "R ?sh = 0" "?sh \<notin> set (held L)" by (auto simp: count_list_0_iff)
      have out: "?sh \<notin> set (p_acquired L)" using mem_held [OF _ new(1)] zero(2) by blast
      have "held L' = held L @ (case r1 of Inl _ \<Rightarrow> [] | Inr _ \<Rightarrow> [?sh])"
        by (rule held_upload [OF new(1) out]) (simp_all add: L')
      then have "(\<lambda>j. R j + count_list (held L') j) =
          (case r1 of Inl _ \<Rightarrow> ?R | Inr _ \<Rightarrow> ?R(?sh := ?R ?sh + 1))"
        by (auto simp: fun_eq_iff split: sum.splits)
      then have "psafe s0 R L'"
        using U(1) L zero(1) unfolding put_safe_def by (auto simp: L')
      moreover have "sat s0 R t" if "t \<in> set (upload_trace E (p_store L) ?sh d)" for t
        using U(2) [OF that] by (rule safe_at_mono) simp
      ultimately show ?thesis using new reap Inr F(1) by (simp add: put_ref_trace_def)
    qed
  qed
qed

lemma put_step_safe:
  assumes L: "psafe s0 R L" "put_local (sha256 E) (s_cs s0) S X L" and off: "p_off L < length X"
    and cs: "0 < s_cs s0" and S: "length X \<le> length S"
    and rh: "rows_hold (sha256 E) 0 rows D" and R: "\<And>c. c \<in> set rows \<Longrightarrow> 0 < R (c_sha c)"
    and tgt: "put_target (s_cs s0) dirty rows D S (length X) X"
    and step: "put_step E dirty rows (length X) L = (r, L')"
  shows "psafe s0 R L' \<and> (\<forall>t \<in> set (put_step_trace E dirty rows (length X) L). sat s0 R t) \<and>
    r \<noteq> Inr False \<and> (r = Inr True \<longrightarrow> put_local (sha256 E) (s_cs s0) S X L')"
proof -
  define w where "w = min (s_cs s0) (length X - p_off L)"
  have s: "sat s0 R (p_store L)" using put_safe_weak [OF L(1)] .
  then have w: "min (s_cs (p_store L)) (length X - p_off L) = w"
    by (simp add: safe_at_def only_blobs_iff w_def)
  show ?thesis
  proof (cases "is_clean dirty rows (p_idx L) (p_off L) w")
    case True
    let ?sh = "c_sha (rows ! p_idx L)"
    have cl: "put_clean w ?sh L = (r, L')" using step True by (simp add: put_step_def Let_def w)
    have pos: "0 < R ?sh" using True by (intro R nth_mem) (auto simp: is_clean_def split: option.splits)
    have known: "blob_get (s_meta (p_store L)) ?sh \<noteq> None" by (rule safe_at_known [OF s pos])
    have free: "map_of (p_pending L) ?sh = None"
      using L(1) pos by (auto simp: put_safe_def map_of_eq_None_iff)
    have r: "r = Inr True" "p_store L' = incref_store (p_store L) ?sh" "p_pending L' = p_pending L"
      "p_acquired L' = p_acquired L @ [?sh]"
      using cl known by (auto simp: put_clean_def)
    from put_clean_local [OF L(2) off cs rh tgt True w_def cl [unfolded r(1)]]
      put_safe_acquire [OF L(1) known free r(2-4)] r(1) known True
    show ?thesis by (auto simp: put_step_trace_def Let_def w)
  next
    case False
    have di: "put_dirty E w L = (r, L')" using step False by (simp add: put_step_def Let_def w)
    obtain d src where rd: "f_read (p_src L) w = (d, src)" "d \<noteq> []" and fin: "r \<noteq> Inr False"
      "r = Inr True \<Longrightarrow> put_local (sha256 E) (s_cs s0) S X L'"
      by (rule put_dirty_local [OF L(2) off cs S tgt w_def False di]) blast
    obtain q L1 where ref: "put_ref E (L\<lparr>p_src := src\<rparr>) (sha256 E d) d = (q, L1)" by force
    have "psafe s0 R (L\<lparr>p_src := src\<rparr>)" using L(1) by (simp add: put_safe_def)
    note P = put_ref_safe [OF this ref]
    have "psafe s0 R L'"
      using di rd ref P put_safe_cong [of L' L1] by (auto simp: put_dirty_def split: sum.splits)
    moreover have "put_step_trace E dirty rows (length X) L = put_ref_trace E (L\<lparr>p_src := src\<rparr>) (sha256 E d) d"
      using False rd by (simp add: put_step_trace_def Let_def w)
    ultimately show ?thesis using P fin by simp
  qed
qed

lemma put_loop_safe:
  assumes cs: "0 < s_cs s0" and S: "length X \<le> length S"
    and rh: "rows_hold (sha256 E) 0 rows D" and R: "\<And>c. c \<in> set rows \<Longrightarrow> 0 < R (c_sha c)"
    and tgt: "put_target (s_cs s0) dirty rows D S (length X) X"
    and L: "psafe s0 R L" "put_local (sha256 E) (s_cs s0) S X L"
    and loop: "put_loop E dirty rows (length X) L = (r, L')"
  shows "psafe s0 R L' \<and> (\<forall>t \<in> set (put_loop_trace E dirty rows (length X) L). sat s0 R t) \<and>
    (r = Inr () \<longrightarrow> put_local (sha256 E) (s_cs s0) S X L' \<and> p_off L' = length X)"
  using L loop
proof (induction "length X - p_off L + (length rows - p_idx L)" arbitrary: L rule: less_induct)
  case less
  show ?case
  proof (cases "p_off L < length X")
    case False
    then have "p_off L = length X" using put_localD(6) [OF less.prems(2)] by simp
    with less.prems show ?thesis by (simp add: put_loop.simps put_loop_trace.simps)
  next
    case True
    obtain q L1 where st: "put_step E dirty rows (length X) L = (q, L1)" by force
    note one = put_step_safe [OF less.prems(1,2) True cs S rh R tgt st]
    show ?thesis
    proof (cases "q = Inr True")
      case go: True
      then have "put_loop E dirty rows (length X) L1 = (r, L')"
        using less.prems(3) True st by (simp add: put_loop.simps)
      moreover have "psafe s0 R L1" "put_local (sha256 E) (s_cs s0) S X L1" using one go by blast+
      ultimately have "psafe s0 R L' \<and> (\<forall>t \<in> set (put_loop_trace E dirty rows (length X) L1). sat s0 R t) \<and>
          (r = Inr () \<longrightarrow> put_local (sha256 E) (s_cs s0) S X L' \<and> p_off L' = length X)"
        using less.hyps [OF put_step_progress [OF st [unfolded go] True]] by blast
      moreover have "put_loop_trace E dirty rows (length X) L =
          put_step_trace E dirty rows (length X) L @ put_loop_trace E dirty rows (length X) L1"
        using True st go by (subst put_loop_trace.simps) simp
      ultimately show ?thesis using one by auto
    next
      case False
      with one obtain e where "q = Inl e" by (cases q) auto
      with less.prems(3) True st one show ?thesis
        by (auto simp: put_loop.simps put_loop_trace.simps)
    qed
  qed
qed

subsection \<open>The commit\<close>

text \<open>A store that can be read back, with the files of \<open>s0\<close> or with \<open>X\<close> in place of file \<open>i\<close>.\<close>

definition old_or_new :: "ino set \<Rightarrow> 'b store \<Rightarrow> ino \<Rightarrow> bytes \<Rightarrow> 'b store \<Rightarrow> bool" where
  "old_or_new A s0 i X t \<longleftrightarrow> recoverable (sha256 E) content binv A t \<and>
     ((\<forall>j \<in> A. sbytes content t j = sbytes content s0 j) \<or>
      (\<forall>j \<in> A. sbytes content t j = (if j = i then X else sbytes content s0 j)))"

lemma sat_old:
  assumes "recoverable (sha256 E) content binv A s0" "inj (sha256 E)" "sat s0 (refs_on A (s_meta s0)) t"
  shows "old_or_new A s0 i X t"
  using recoverableI [OF assms(3) recoverableD(2,3) [OF assms(1)] assms(2) recoverableD(5) [OF assms(1)]]
  by (simp add: old_or_new_def)

lemma commit_safe:
  assumes ok: "recoverable (sha256 E) content binv A s0" and inj: "inj (sha256 E)" and i: "i \<in> A"
    and L: "psafe s0 (refs_on A (s_meta s0)) L" "put_local (sha256 E) (s_cs s0) S X L"
    and off: "p_off L = length X" and good: "first_error (map snd (p_pending L)) = None"
    and t: "t \<in> set (commit_trace E i (map c_sha (get_chunks (s_meta s0) i)) L)"
  shows "old_or_new A s0 i X t"
proof -
  let ?R = "refs_on A (s_meta s0)" and ?old = "map c_sha (get_chunks (s_meta s0) i)"
  note I = put_localD [OF L(2)]
  define s1 where "s1 = foldl incref_store (p_store L) (p_dups L)"
  have held: "held L = p_acquired L" by (rule held_good [OF good])
  have dups: "0 < ?R sh + count_list (held L) sh" if "sh \<in> set (p_dups L)" for sh
    using that I(1,2) held by (auto simp: count_list_0_iff neq0_conv [symmetric] simp del: neq0_conv)
  have "sat s0 (\<lambda>j. ?R j + count_list (held L) j) (p_store L)" using L(1) by (simp add: put_safe_def)
  from incref_all_safe [OF this dups]
  have inc: "sat s0 (\<lambda>j. ?R j + count_list (held L) j + count_list (p_dups L) j) s1"
    "\<And>t. t \<in> set (incref_all_trace (p_store L) (p_dups L)) \<Longrightarrow> sat s0 (\<lambda>j. ?R j + count_list (held L) j) t"
    by (simp_all add: s1_def)
  have new: "(\<lambda>j. ?R j + count_list (held L) j + count_list (p_dups L) j) =
      (\<lambda>j. ?R j + count_list (map (c_sha \<circ> snd) (p_new L)) j)"
    using I(3) held by (simp add: fun_eq_iff)
  have idx: "distinct (map fst (p_new L))" "sorted (map fst (p_new L))" by (simp_all add: I(4))
  let ?ch = "rows_without (s_meta s1) i @ map (\<lambda>(k, c). ((i, k), c)) (p_new L)"
  define m where "m = (s_meta s1)\<lparr>chunks := ?ch\<rparr>"
  have set: "set_chunks (s_meta s1) i (p_new L) = (Inr (), m)"
    using set_chunks_ok [OF idx(1), of "s_meta s1" i] by (simp add: m_def)
  have only1: "only_blobs s0 s1" using inc(1) by (simp add: safe_at_def)
  then have same: "chunks (s_meta s1) = chunks (s_meta s0)" by (simp add: only_blobs_iff)
  text \<open>The stores after the new rows are in place have these inodes and rows.\<close>
  define after where "after sz = s0\<lparr>s_meta := (case sz of None \<Rightarrow> (s_meta s0)\<lparr>chunks := ?ch\<rparr>
      | Some n \<Rightarrow> set_size ((s_meta s0)\<lparr>chunks := ?ch\<rparr>) i n)\<rparr>" for sz
  have ch: "chunks (s_meta (after sz)) = ?ch" for sz by (simp add: after_def set_size_def split: option.split)
  have refs: "refs_on A (s_meta (after sz)) sh + count_list ?old sh =
      ?R sh + count_list (map (c_sha \<circ> snd) (p_new L)) sh" for sz sh
    using refs_on_set [OF i, of "s_meta (after sz)" "s_meta s0" "p_new L" sh] ch [of sz] same
    by (simp add: rows_without_def)
  have gc: "get_chunks (s_meta (after sz)) j = (if j = i then map snd (p_new L) else get_chunks (s_meta s0) j)" for sz j
    using get_chunks_set [OF idx(2), of "s_meta s1" i j] ch [of sz] same by (simp add: get_chunks_def)
  have rec: "old_or_new A s0 i X t" if "sat (after sz) (refs_on A (s_meta (after sz))) t" for sz t
  proof -
    have "keyed (chunks (s_meta (after sz)))"
      using keyed_set_chunks [OF _ idx(1), of "s_meta s1" i] recoverableD(2) [OF ok] by (simp add: ch same)
    moreover have "0 < s_cs (after sz)" using recoverableD(3) [OF ok] by (simp add: after_def)
    moreover have "rows_hold (sha256 E) 0 (get_chunks (s_meta (after sz)) j) (if j = i then X else sbytes content s0 j)"
      if "j \<in> A" for j
      using recoverableD(5) [OF ok that] I(5) off by (simp add: gc)
    ultimately have "recoverable (sha256 E) content binv A t \<and>
        (\<forall>j \<in> A. sbytes content t j = (if j = i then X else sbytes content s0 j))"
      by (rule recoverableI [OF that _ _ inj])
    then show ?thesis unfolding old_or_new_def by blast
  qed
  have start: "sat (after sz) (\<lambda>j. refs_on A (s_meta (after sz)) j + count_list ?old j)
      (s1\<lparr>s_meta := (case sz of None \<Rightarrow> m | Some n \<Rightarrow> set_size m i n)\<rparr>)" (is "sat _ _ (?t sz)") for sz
  proof -
    have "blobs (s_meta (?t sz)) = blobs (s_meta s1)" by (simp add: m_def set_size_def split: option.split)
    from blobs_safe_same_blobs [OF this]
    have "blobs_safe (sha256 E) (content (s_back s1)) (s_meta (?t sz)) (\<lambda>j. refs_on A (s_meta (after sz)) j + count_list ?old j)"
      using inc(1) unfolding refs by (simp add: safe_at_def new)
    moreover have "only_blobs (after sz) (?t sz)"
      using only1 by (simp add: only_blobs_iff after_def m_def set_size_def split: option.split)
    ultimately show ?thesis using inc(1) by (simp add: safe_at_def)
  qed
  have weak: "sat s' (refs_on A (s_meta s')) t" if "sat s' (\<lambda>j. refs_on A (s_meta s') j + N j) t" for s' N t
    using that by (rule safe_at_mono) simp
  obtain r s2 where rel: "release_all E (?t (Some (length X))) ?old = (r, s2)" by force
  have "commit_trace E i ?old L = incref_all_trace (p_store L) (p_dups L) @
      ?t None # ?t (Some (length X)) # release_all_trace E (?t (Some (length X))) ?old"
    by (simp add: commit_trace_def Let_def s1_def [symmetric] set off)
  with t consider "t \<in> set (incref_all_trace (p_store L) (p_dups L))" | "t = ?t None"
    | "t = ?t (Some (length X))" | "t \<in> set (release_all_trace E (?t (Some (length X))) ?old)"
    by auto
  then show ?thesis
  proof cases
    case 1
    then show ?thesis using sat_old [OF ok inj weak [OF inc(2)]] by blast
  next
    case 2
    show ?thesis unfolding 2 by (rule rec [OF weak [OF start [of None]]])
  next
    case 3
    show ?thesis unfolding 3 by (rule rec [OF weak [OF start [of "Some (length X)"]]])
  next
    case 4
    then show ?thesis using rec release_all_safe(2) [OF start rel] by blast
  qed
qed

lemma put_trace_safe:
  assumes ok: "recoverable (sha256 E) content binv A s" and inj: "inj (sha256 E)" and i: "i \<in> A"
    and src: "f_pos src = 0" "length X \<le> length (f_data src)"
    and tgt: "put_target (s_cs s) dirty (get_chunks (s_meta s) i) (sbytes content s i) (f_data src) (length X) X"
    and t: "t \<in> set (put_trace E s i src (length X) dirty)"
  shows "old_or_new A s i X t"
proof -
  let ?rows = "get_chunks (s_meta s) i" and ?R = "refs_on A (s_meta s)"
  define L0 where "L0 = put_start s src"
  have L0: "psafe s ?R L0" "put_local (sha256 E) (s_cs s) (f_data src) X L0"
    using recoverable_safe [OF ok] src(1)
    by (simp_all add: L0_def put_start_def put_safe_def held_def put_local_def rows_shape_def)
  obtain q L where loop: "put_loop E dirty ?rows (length X) L0 = (q, L)" by force
  have "psafe s ?R L \<and> (\<forall>t \<in> set (put_loop_trace E dirty ?rows (length X) L0). sat s ?R t) \<and>
      (q = Inr () \<longrightarrow> put_local (sha256 E) (s_cs s) (f_data src) X L \<and> p_off L = length X)"
    by (rule put_loop_safe [OF recoverableD(3) [OF ok] src(2) recoverableD(5) [OF ok i] _ tgt L0 loop])
      (rule refs_on_pos [OF _ i])
  then have P: "psafe s ?R L" "\<And>t. t \<in> set (put_loop_trace E dirty ?rows (length X) L0) \<Longrightarrow> sat s ?R t"
    "q = Inr () \<Longrightarrow> put_local (sha256 E) (s_cs s) (f_data src) X L \<and> p_off L = length X" by blast+
  have undo: "sat s ?R t" if "t \<in> set (release_all_trace E (p_store L) (held L))" for t
  proof -
    obtain r s2 where "release_all E (p_store L) (held L) = (r, s2)" by force
    from release_all_safe(2) [OF _ this that] P(1) show ?thesis by (simp add: put_safe_def)
  qed
  have "sat s ?R t \<or> q = Inr () \<and> first_error (map snd (p_pending L)) = None \<and>
      t \<in> set (commit_trace E i (map c_sha ?rows) L)"
    using t loop P(2) undo recoverable_safe [OF ok]
    by (auto simp: put_trace_def Let_def L0_def [symmetric] split: sum.splits if_splits)
  then show ?thesis
    using sat_old [OF ok inj] commit_safe [OF ok inj i P(1)] P(3) by blast
qed

text \<open>
  \<open>free_file\<close> of a deleted file: every other file stays readable at every point, also when a
  delete fails half way.
\<close>

lemma free_trace_safe:
  assumes ok: "recoverable (sha256 E) content binv A s" and inj: "inj (sha256 E)" and i: "i \<in> A"
    and t: "t \<in> set (free_trace E s i)"
  shows "recoverable (sha256 E) content binv (A - {i}) t \<and> (\<forall>j \<in> A - {i}. sbytes content t j = sbytes content s j)"
proof -
  let ?A = "A - {i}" and ?shas = "get_chunk_shas (s_meta s) i"
  have shas: "?shas = map c_sha (get_chunks (s_meta s) i)" by (simp add: get_chunk_shas_def)
  have R: "refs_on A (s_meta s) = (\<lambda>sh. refs_on ?A (s_meta s) sh + count_list ?shas sh)"
    using refs_on_split [of A "s_meta s" _ i] refs_on_split [of ?A "s_meta s" _ i, unfolded count_without] i
    by (simp add: shas fun_eq_iff)
  obtain r s1 where rel: "release_all E s ?shas = (r, s1)" by force
  have S: "sat s (refs_on A (s_meta s)) s" by (rule recoverable_safe [OF ok])
  note F = release_all_safe [OF S [unfolded R] rel]
  have rows: "rows_hold (sha256 E) 0 (get_chunks (s_meta s) j) (sbytes content s j)" if "j \<in> ?A" for j
    using recoverableD(5) [OF ok] that by blast
  have rec: ?thesis if "sat s (refs_on ?A (s_meta s)) t"
    using recoverableI [OF that recoverableD(2,3) [OF ok] inj rows] by blast
  define s2 where "s2 = s1\<lparr>s_meta := (s_meta s1)\<lparr>chunks := rows_without (s_meta s1) i\<rparr>\<rparr>"
  have set: "snd (set_chunks (s_meta s1) i []) = s_meta s2"
    using set_chunks_ok [of "[]" "s_meta s1" i] by (simp add: s2_def)
  consider "t = s" | "t \<in> set (release_all_trace E s ?shas)" | "t = s2"
    using t rel set by (auto simp: free_trace_def s2_def split: sum.splits)
  then show ?thesis
  proof cases
    case 1
    have "sat s (refs_on ?A (s_meta s)) s"
      using S by (rule safe_at_mono) (simp add: R)
    with rec 1 show ?thesis by simp
  next
    case 2
    then show ?thesis using rec F(2) by blast
  next
    case 3
    let ?s0 = "s\<lparr>s_meta := (s_meta s)\<lparr>chunks := rows_without (s_meta s1) i\<rparr>\<rparr>"
    have only1: "only_blobs s s1" using F(1) by (simp add: safe_at_def)
    then have same: "chunks (s_meta s1) = chunks (s_meta s)" by (simp add: only_blobs_iff)
    have gc: "get_chunks (s_meta ?s0) j = get_chunks (s_meta s) j" if "j \<in> ?A" for j
      using get_chunks_set [of "[]" "s_meta s" i j] that same by (simp add: get_chunks_def rows_without_def)
    have r0: "refs_on ?A (s_meta ?s0) = refs_on ?A (s_meta s)"
      using refs_on_split [of ?A "s_meta s" _ i] same by (simp add: fun_eq_iff refs_on_def rows_without_def)
    have "blobs_safe (sha256 E) (content (s_back s1)) (s_meta s2) (refs_on ?A (s_meta ?s0))"
      using blobs_safe_same_blobs [of "s_meta s2" "s_meta s1"] F(1) unfolding r0 by (simp add: s2_def safe_at_def)
    moreover have "only_blobs ?s0 s2" using only1 by (simp add: only_blobs_iff s2_def)
    ultimately have "sat ?s0 (refs_on ?A (s_meta ?s0)) s2" using F(1) by (simp add: safe_at_def s2_def)
    moreover have "keyed (chunks (s_meta ?s0))" using recoverableD(2) [OF ok] same by (simp add: rows_without_def)
    moreover have "0 < s_cs ?s0" using recoverableD(3) [OF ok] by simp
    ultimately show ?thesis
      unfolding 3 by (rule recoverableI [OF _ _ _ inj]) (use rows gc in simp)
  qed
qed

end

end
