(* ===== verification/CrashProps.thy ===== *)
theory CrashProps
  imports CrashPut StoreProps
begin

section \<open>Properties of writing under faults and crashes\<close>

text \<open>
  An unreliable backend, by a script of faults: each call takes the next entry; \<open>None\<close> lets it
  work, \<open>Some False\<close> makes it raise before it has done anything, \<open>Some True\<close> after it has done
  all, as when the answer of a server is lost.
\<close>

record flaky =
  fl_mem :: membackend
  fl_faults :: "bool option list"

definition flaky_call :: "(membackend \<Rightarrow> ('a, membackend) res) \<Rightarrow> flaky \<Rightarrow> ('a, flaky) res" where
  "flaky_call op b =
     (case op (fl_mem b) of (r, m) \<Rightarrow>
        (case fl_faults b of
           [] \<Rightarrow> (r, b\<lparr>fl_mem := m\<rparr>)
         | f # fs \<Rightarrow>
             (case f of
                None \<Rightarrow> (r, b\<lparr>fl_mem := m, fl_faults := fs\<rparr>)
              | Some done \<Rightarrow> (Inl ConnectionError, b\<lparr>fl_mem := (if done then m else fl_mem b), fl_faults := fs\<rparr>))))"

definition flaky_env :: "(bytes \<Rightarrow> sha) \<Rightarrow> flaky env" where
  "flaky_env hash = \<lparr>upload = (\<lambda>b d. flaky_call (\<lambda>m. mem_upload m d) b),
     download = (\<lambda>b h. flaky_call (\<lambda>m. mem_download m h) b),
     delete = (\<lambda>b h. flaky_call (\<lambda>m. mem_delete m h) b), sha256 = hash\<rparr>"

lemma flaky_env_simps [simp]:
  "upload (flaky_env hash) b d = flaky_call (\<lambda>m. mem_upload m d) b"
  "download (flaky_env hash) b h = flaky_call (\<lambda>m. mem_download m h) b"
  "delete (flaky_env hash) b h = flaky_call (\<lambda>m. mem_delete m h) b" "sha256 (flaky_env hash) = hash"
  by (simp_all add: flaky_env_def)

definition flaky_content :: "flaky \<Rightarrow> nat \<Rightarrow> bytes option" where
  "flaky_content b = mem_content (fl_mem b)"

definition flaky_inv :: "flaky \<Rightarrow> bool" where
  "flaky_inv b = mem_inv (fl_mem b)"

lemma flaky_callD:
  assumes "flaky_call op b = (r, b')" "op (fl_mem b) = (r1, m)"
  shows "fl_mem b' = m \<or> fl_mem b' = fl_mem b \<and> r = Inl ConnectionError" "r = Inr x \<Longrightarrow> r1 = Inr x \<and> fl_mem b' = m"
  using assms by (auto simp: flaky_call_def split: list.splits option.splits if_splits)

interpretation flaky: faulty_backend "flaky_env hash" flaky_content flaky_inv
proof unfold_locales
  fix b d h b'
  assume "flaky_inv b" and u: "upload (flaky_env hash) b d = (Inr h, b')"
  then have inv: "mem_inv (fl_mem b)" by (simp add: flaky_inv_def)
  obtain r m where mu: "mem_upload (fl_mem b) d = (r, m)" by force
  from flaky_callD [OF u [simplified] mu] mem_upload_spec [OF inv mu]
  show "flaky_inv b' \<and> flaky_content b h = None \<and> flaky_content b' h = Some d \<and> flaky_content b \<subseteq>\<^sub>m flaky_content b'"
    by (auto simp: flaky_inv_def flaky_content_def map_le_def)
next
  fix b d e b'
  assume "flaky_inv b" and u: "upload (flaky_env hash) b d = (Inl e, b')"
  then have inv: "mem_inv (fl_mem b)" by (simp add: flaky_inv_def)
  obtain r m where mu: "mem_upload (fl_mem b) d = (r, m)" by force
  from flaky_callD(1) [OF u [simplified] mu] mem_upload_spec [OF inv mu] inv
  show "flaky_inv b' \<and> flaky_content b \<subseteq>\<^sub>m flaky_content b'"
    by (auto simp: flaky_inv_def flaky_content_def map_le_def)
next
  fix b h d b'
  assume u: "download (flaky_env hash) b h = (Inr d, b')"
  obtain r m where mu: "mem_download (fl_mem b) h = (r, m)" by force
  from flaky_callD(2) [OF u [simplified] mu] mem_download_spec [OF mu]
  show "flaky_content b h = Some d" by (simp add: flaky_content_def split: option.splits)
next
  fix b h r b'
  assume inv: "flaky_inv b" and u: "download (flaky_env hash) b h = (r, b')"
  obtain r m where mu: "mem_download (fl_mem b) h = (r, m)" by force
  from flaky_callD(1) [OF u [simplified] mu] mem_download_spec [OF mu] inv
  show "flaky_inv b' \<and> flaky_content b \<subseteq>\<^sub>m flaky_content b'"
    by (auto simp: flaky_inv_def flaky_content_def)
next
  fix b h r' b'
  assume "flaky_inv b" and u: "delete (flaky_env hash) b h = (r', b')"
  then have inv: "mem_inv (fl_mem b)" by (simp add: flaky_inv_def)
  obtain m where mu: "mem_delete (fl_mem b) h = (Inr (), m)" "mem_inv m" "mem_content m = (mem_content (fl_mem b))(h := None)"
    using mem_delete_spec [OF inv] by blast
  from flaky_callD(1) [OF u [simplified] mu(1)] mu(2,3) inv
  show "flaky_inv b' \<and> (flaky_content b)(h := None) \<subseteq>\<^sub>m flaky_content b'"
    by (auto simp: flaky_inv_def flaky_content_def map_le_def split: if_splits)
qed

subsection \<open>Writing a file\<close>

text \<open>
  A database with an empty file \<open>f\<close>, inode 2, and a backend whose faults are scripted.
\<close>

definition demo_index :: meta where
  "demo_index = snd (create (new_meta 0 1000 1000) 1 ''f'' 33188 KFile 0 0 None)"

lemma demo_index_empty: "chunks demo_index = []" "blobs demo_index = []"
  by code_simp+

definition flaky_store :: "bool option list \<Rightarrow> flaky store" where
  "flaky_store faults =
     new_store demo_index \<lparr>fl_mem = mem_new, fl_faults = faults\<rparr> 2 None 1 0"

lemma flaky_start:
  "recoverable byte_digest flaky_content flaky_inv UNIV (flaky_store faults)"
  "sbytes flaky_content (flaky_store faults) i = []"
  using mem_inv_new
  by (auto simp: recoverable_def flaky_store_def new_store_def demo_index_empty blobs_safe_def counts_ok_def
      loc_def rc_def refs_on_def blob_get_def sql_select_def sql_count_def get_chunks_def sbytes_def
      file_bytes_def flaky_inv_def)

lemma demo_target_new: "put_target cs None [] D (f_data demo_file) (length demo_data) demo_data"
  using put_target_None [of 7 demo_data] by simp

text \<open>C12: Writing a file is safe under crashes and failing transfers. Over a backend whose uploads and
  deletes may raise at any point, with or without having had their effect: at every moment
  between two durable actions of \<open>put_file\<close>, all files of \<open>A\<close> can be read back, each with the
  bytes it had before, or file \<open>i\<close> with its new bytes and every other one with its old bytes.
  The state \<open>put_file\<close> returns, also when it raises, is one of these.\<close>

theorem crash_safe_write:
  assumes "faulty_backend E content binv" "inj (sha256 E)" "recoverable (sha256 E) content binv A s" "i \<in> A"
    and "f_pos src = 0" "length X \<le> length (f_data src)"
    and "put_target (s_cs s) dirty (get_chunks (s_meta s) i) (sbytes content s i) (f_data src) (length X) X"
  shows "snd (snd (put_file E s i src (length X) dirty)) \<in> set (put_trace E s i src (length X) dirty) \<and>
    (\<forall>t \<in> set (put_trace E s i src (length X) dirty).
       recoverable (sha256 E) content binv A t \<and>
       ((\<forall>j \<in> A. sbytes content t j = sbytes content s j) \<or>
        (\<forall>j \<in> A. sbytes content t j = (if j = i then X else sbytes content s j))))"
proof -
  have "put_trace E s i src (length X) dirty \<noteq> []" by (simp add: put_trace_def Let_def)
  then have "snd (snd (put_file E s i src (length X) dirty)) \<in> set (put_trace E s i src (length X) dirty)"
    by (metis last_in_set put_trace_last)
  with faulty_backend.put_trace_safe [OF assms(1,3,2,4-7)] show ?thesis
    by (simp add: faulty_backend.old_or_new_def [OF assms(1)])
qed

theorem crash_safe_write_witness:
  "list_all (\<lambda>t. sbytes flaky_content t 2 \<in> {[], demo_data})
     (put_trace (flaky_env byte_digest) (flaky_store [None, Some True]) 2 demo_file 7 None)"
proof -
  have "get_chunks (s_meta (flaky_store [None, Some True])) 2 = []" by code_simp
  then have "put_target (s_cs (flaky_store [None, Some True])) None
      (get_chunks (s_meta (flaky_store [None, Some True])) 2)
      (sbytes flaky_content (flaky_store [None, Some True]) 2) (f_data demo_file) (length demo_data) demo_data"
    using demo_target_new by simp
  from crash_safe_write [OF flaky.faulty_backend_axioms [of byte_digest] _ _ UNIV_I demo_file_simps(2) _ this]
  show ?thesis using byte_digest_inj flaky_start by (auto simp: list_all_iff)
qed

text \<open>
  What the store may show for a moment: the new content with the old size. The chunk rows and
  the size of the inode are committed one after the other, so a crash between them leaves a
  file whose recorded size is not that of its content.
\<close>

definition demo_overwrite :: "flaky store list" where
  "demo_overwrite = put_trace (flaky_env byte_digest) (flaky_store []) 2 demo_file 7 None"

lemma crash_leaves_old_size:
  "list_ex (\<lambda>t. sbytes flaky_content t 2 = demo_data \<and>
     map_option i_size (get_inode (s_meta t) 2) = Some 0) demo_overwrite"
  by code_simp

text \<open>
  A delete that fails while the old content is released makes \<open>put_file\<close> raise although the
  new content is in place; the old references that were not reached are never released.
  Here the file is cut to its first chunk and the delete of the next one fails.
\<close>

definition demo_shrunk :: "(exn + unit) \<times> pyfile \<times> flaky store" where
  "demo_shrunk =
     (case put_file (flaky_env byte_digest) (flaky_store [None, None, None, Some False]) 2 demo_file 7 None of
        (_, src, s) \<Rightarrow> put_file (flaky_env byte_digest) s 2 demo_file 2 None)"

lemma failed_release_raises_after_commit:
  "fst demo_shrunk = Inl ConnectionError"
  "sbytes flaky_content (snd (snd demo_shrunk)) 2 = [1, 2]"
  "map_option b_refcount (blob_get (s_meta (snd (snd demo_shrunk))) (byte_digest [5])) = Some 1"
  by code_simp+

subsection \<open>Deleting a file\<close>

text \<open>C13: Deleting a file is safe for the others under crashes and failing transfers: at every moment
  between two durable actions of \<open>free_file\<close>, and in the state it returns, also when a delete
  raised, every other file of \<open>A\<close> can be read back with the bytes it had, shared chunks
  included.\<close>

theorem crash_safe_delete:
  assumes "faulty_backend E content binv" "inj (sha256 E)" "recoverable (sha256 E) content binv A s" "i \<in> A"
  shows "snd (free_file E s i) \<in> set (free_trace E s i) \<and>
    (\<forall>t \<in> set (free_trace E s i). recoverable (sha256 E) content binv (A - {i}) t \<and>
       (\<forall>j \<in> A - {i}. sbytes content t j = sbytes content s j))"
proof -
  have "free_trace E s i \<noteq> []" by (simp add: free_trace_def)
  then have "snd (free_file E s i) \<in> set (free_trace E s i)" by (metis last_in_set free_trace_last)
  with faulty_backend.free_trace_safe [OF assms(1,3,2,4)] show ?thesis by blast
qed

theorem crash_safe_delete_witness:
  "\<exists>s. sbytes flaky_content s 2 = demo_data \<and>
     list_all (\<lambda>t. sbytes flaky_content t 2 = demo_data) (free_trace (flaky_env byte_digest) s 3)"
proof -
  let ?E = "flaky_env byte_digest" and ?s0 = "flaky_store []"
  let ?s1 = "snd (snd (put_file ?E ?s0 2 demo_file 7 None))"
  let ?s2 = "snd (snd (put_file ?E ?s1 3 demo_file 7 None))"
  have same: "sbytes flaky_content ?s2 2 = demo_data" by code_simp
  have put: "recoverable byte_digest flaky_content flaky_inv UNIV (snd (snd (put_file ?E s i demo_file 7 None)))"
    if "recoverable byte_digest flaky_content flaky_inv UNIV s" "get_chunks (s_meta s) i = []" for s i
  proof -
    have tgt: "put_target (s_cs s) None (get_chunks (s_meta s) i) (sbytes flaky_content s i) (f_data demo_file)
        (length demo_data) demo_data"
      unfolding that(2) by (rule demo_target_new)
    have "put_trace ?E s i demo_file 7 None \<noteq> []" by (simp add: put_trace_def Let_def)
    then have "snd (snd (put_file ?E s i demo_file 7 None)) \<in> set (put_trace ?E s i demo_file 7 None)"
      by (metis last_in_set put_trace_last)
    then have "flaky.old_or_new byte_digest UNIV s i demo_data (snd (snd (put_file ?E s i demo_file 7 None)))"
      using that(1) byte_digest_inj tgt
        flaky.put_trace_safe [where hash = byte_digest and A = UNIV and s = s and i = i and src = demo_file
          and X = demo_data and dirty = None] by simp
    then show ?thesis by (simp add: flaky.old_or_new_def)
  qed
  have "get_chunks (s_meta ?s0) 2 = []" "get_chunks (s_meta ?s1) 3 = []" by code_simp+
  with put flaky_start(1) have "recoverable byte_digest flaky_content flaky_inv UNIV ?s2" by blast
  with crash_safe_delete [OF flaky.faulty_backend_axioms [of byte_digest], where A = UNIV and s = ?s2 and i = 3]
    byte_digest_inj same
  show ?thesis by (intro exI [of _ ?s2]) (auto simp: list_all_iff)
qed

end
