(* ===== verification/AsyncBridge.thy ===== *)
theory AsyncBridge
  imports Prelude "HOL-Library.Multiset"
begin

section \<open>The bridge to the event loop (tgfs/asyncbridge.py)\<close>

text \<open>
  One thread runs an event loop; any thread may hand a coroutine to it and wait for the result.
  A coroutine is what it does up to its next suspension and what follows. The event loop is that
  of \<open>asyncio\<close>: callbacks run in the order they were scheduled; an iteration runs those that were
  ready when it began; a stop request takes effect at the end of its iteration.
\<close>

datatype (dead 'w, 'r) coro = Return "exn + 'r" | Await "'w \<Rightarrow> 'w" "'w \<Rightarrow> ('w, 'r) coro"

text \<open>A coroutine by itself: from a state of the world to its result and the state it leaves.\<close>

primrec run_coro :: "('w, 'r) coro \<Rightarrow> 'w \<Rightarrow> (exn + 'r) \<times> 'w" where
  "run_coro (Return r) w = (r, w)"
| "run_coro (Await f k) w = run_coro (k w) (f w)"

text \<open>
  What the loop has in its queue: \<open>run_coroutine_threadsafe\<close> schedules the creation of a task, a
  task schedules its first step and, when it is done, the callback that copies its result to the
  future the caller waits on.
\<close>

datatype (dead 'w, 'r) callback =
    NewTask nat "('w, 'r) coro"
  | Resume nat "('w, 'r) coro"
  | Deliver nat "exn + 'r"
  | StopLoop

datatype thread = NotStarted | Alive | Ended

record ('w, 'r) bridge =
  b_world :: 'w
  b_thread :: thread
  b_ready :: "('w, 'r) callback list"
  b_todo :: nat
  b_stopping :: bool
  b_waiting :: "(nat \<times> ('w, 'r) coro) list"
  b_futures :: "(exn + 'r) option list"

definition new_bridge :: "'w \<Rightarrow> ('w, 'r) bridge" where
  "new_bridge w = \<lparr>b_world = w, b_thread = NotStarted, b_ready = [], b_todo = 0, b_stopping = False,
     b_waiting = [], b_futures = []\<rparr>"

text \<open>\<open>start\<close>: a thread that has ended cannot be started again.\<close>

definition bridge_start :: "('w, 'r) bridge \<Rightarrow> (exn + unit) \<times> ('w, 'r) bridge" where
  "bridge_start b =
     (if b_thread b = Alive then (Inr (), b)
      else if b_thread b = Ended then (Inl RuntimeError, b)
      else (Inr (), b\<lparr>b_thread := Alive\<rparr>))"

definition bridge_submit :: "('w, 'r) coro \<Rightarrow> ('w, 'r) bridge \<Rightarrow> nat \<times> ('w, 'r) bridge" where
  "bridge_submit c b =
     (length (b_futures b),
      b\<lparr>b_ready := b_ready b @ [NewTask (length (b_futures b)) c], b_futures := b_futures b @ [None]\<rparr>)"

definition bridge_stop :: "('w, 'r) bridge \<Rightarrow> ('w, 'r) bridge" where
  "bridge_stop b = (if b_thread b \<noteq> Alive then b else b\<lparr>b_ready := b_ready b @ [StopLoop]\<rparr>)"

subsection \<open>The thread (run_forever)\<close>

fun run_callback :: "('w, 'r) callback \<Rightarrow> ('w, 'r) bridge \<Rightarrow> ('w, 'r) bridge" where
  "run_callback (NewTask k c) b = b\<lparr>b_ready := b_ready b @ [Resume k c]\<rparr>"
| "run_callback (Resume k (Return r)) b = b\<lparr>b_ready := b_ready b @ [Deliver k r]\<rparr>"
| "run_callback (Resume k (Await f g)) b =
     (let w = b_world b; b1 = b\<lparr>b_world := f w\<rparr>
      in case g w of
           Return r \<Rightarrow> b1\<lparr>b_ready := b_ready b @ [Deliver k r]\<rparr>
         | Await f' g' \<Rightarrow> b1\<lparr>b_waiting := b_waiting b @ [(k, Await f' g')]\<rparr>)"
| "run_callback (Deliver k r) b = b\<lparr>b_futures := (b_futures b)[k := Some r]\<rparr>"
| "run_callback StopLoop b = b\<lparr>b_stopping := True\<rparr>"

text \<open>One step of the thread; \<open>None\<close> when it is not running or waits for I/O or a request.\<close>

definition loop_step :: "('w, 'r) bridge \<Rightarrow> ('w, 'r) bridge option" where
  "loop_step b =
     (if b_thread b \<noteq> Alive then None
      else case b_todo b of
             Suc n \<Rightarrow>
               (case b_ready b of
                  [] \<Rightarrow> None
                | cb # rest \<Rightarrow> Some (run_callback cb (b\<lparr>b_ready := rest, b_todo := n\<rparr>)))
           | 0 \<Rightarrow>
               if b_stopping b then Some (b\<lparr>b_thread := Ended, b_stopping := False\<rparr>)
               else if b_ready b = [] then None
               else Some (b\<lparr>b_todo := length (b_ready b)\<rparr>))"

text \<open>I/O completes: a suspended task is scheduled again.\<close>

definition wake_at :: "nat \<Rightarrow> ('w, 'r) bridge \<Rightarrow> ('w, 'r) bridge option" where
  "wake_at i b =
     (if i < length (b_waiting b)
      then Some (b\<lparr>b_waiting := take i (b_waiting b) @ drop (Suc i) (b_waiting b),
                   b_ready := b_ready b @ [case b_waiting b ! i of (k, c) \<Rightarrow> Resume k c]\<rparr>)
      else None)"

text \<open>What goes on by itself, and with the calls of any threads.\<close>

inductive bridge_work :: "('w, 'r) bridge \<Rightarrow> ('w, 'r) bridge \<Rightarrow> bool" where
  Loop: "loop_step b = Some b' \<Longrightarrow> bridge_work b b'"
| Wake: "wake_at i b = Some b' \<Longrightarrow> bridge_work b b'"

inductive bridge_step :: "('w, 'r) bridge \<Rightarrow> ('w, 'r) bridge \<Rightarrow> bool" where
  Work: "bridge_work b b' \<Longrightarrow> bridge_step b b'"
| Start: "bridge_step b (snd (bridge_start b))"
| Submit: "bridge_step b (snd (bridge_submit c b))"
| Stop: "bridge_step b (bridge_stop b)"

text \<open>
  \<open>call\<close>: submit and wait for the result. In this schedule I/O completes when the loop is idle,
  oldest first. A caller of a loop that does not run waits for ever (\<open>None\<close>).
\<close>

definition bridge_turn :: "('w, 'r) bridge \<Rightarrow> ('w, 'r) bridge option" where
  "bridge_turn b = (case loop_step b of Some b' \<Rightarrow> Some b' | None \<Rightarrow> if b_thread b = Alive then wake_at 0 b else None)"

partial_function (option) await_result ::
    "nat \<Rightarrow> ('w, 'r) bridge \<Rightarrow> ((exn + 'r) \<times> ('w, 'r) bridge) option" where
  "await_result k b =
     (case b_futures b ! k of
        Some r \<Rightarrow> Some (r, b)
      | None \<Rightarrow> (case bridge_turn b of None \<Rightarrow> None | Some b' \<Rightarrow> await_result k b'))"

definition bridge_call :: "('w, 'r) coro \<Rightarrow> ('w, 'r) bridge \<Rightarrow> ((exn + 'r) \<times> ('w, 'r) bridge) option" where
  "bridge_call c b = (case bridge_submit c b of (k, b1) \<Rightarrow> await_result k b1)"

subsection \<open>No coroutine is lost or answered twice\<close>

fun cb_id :: "('w, 'r) callback \<Rightarrow> nat list" where
  "cb_id (NewTask k c) = [k]" | "cb_id (Resume k c) = [k]" | "cb_id (Deliver k r) = [k]" | "cb_id StopLoop = []"

definition pending :: "('w, 'r) bridge \<Rightarrow> nat multiset" where
  "pending b = mset (concat (map cb_id (b_ready b))) + mset (map fst (b_waiting b))"

definition bridge_inv :: "('w, 'r) bridge \<Rightarrow> bool" where
  "bridge_inv b \<longleftrightarrow> b_todo b \<le> length (b_ready b) \<and>
     (\<forall>k. count (pending b) k = (if k < length (b_futures b) \<and> b_futures b ! k = None then 1 else 0))"

lemma run_callback_pending:
  assumes "count (pending b) k + count (mset (cb_id cb)) k =
      (if k < length (b_futures b) \<and> b_futures b ! k = None then 1 else 0)" (is "_ = ?n b")
  shows "count (pending (run_callback cb b)) k =
      (if k < length (b_futures (run_callback cb b)) \<and> b_futures (run_callback cb b) ! k = None then 1 else 0)"
  using assms
  by (cases "(cb, b)" rule: run_callback.cases)
     (auto simp: pending_def Let_def nth_list_update split: coro.split if_splits)

lemma run_callback_todo: "b_todo (run_callback cb b) = b_todo b"
  by (cases "(cb, b)" rule: run_callback.cases) (auto simp: Let_def split: coro.split)

lemma run_callback_ready: "length (b_ready b) \<le> length (b_ready (run_callback cb b))"
  by (cases "(cb, b)" rule: run_callback.cases) (auto simp: Let_def split: coro.split)

lemma pending_control [simp]:
  "pending (b\<lparr>b_thread := t\<rparr>) = pending b" "pending (b\<lparr>b_todo := n\<rparr>) = pending b"
  "pending (b\<lparr>b_stopping := x\<rparr>) = pending b"
  by (simp_all add: pending_def)

lemma loop_step_inv:
  assumes "bridge_inv b" "loop_step b = Some b'"
  shows "bridge_inv b'"
proof (cases "b_todo b")
  case 0
  then have "pending b' = pending b \<and> b_futures b' = b_futures b \<and> b_todo b' \<le> length (b_ready b')"
    using assms(2) by (auto simp: loop_step_def split: if_splits)
  then show ?thesis using assms(1) by (simp only: bridge_inv_def) blast
next
  case (Suc n)
  with assms obtain cb rest where r: "b_ready b = cb # rest"
    and b': "b' = run_callback cb (b\<lparr>b_ready := rest, b_todo := n\<rparr>)"
    by (auto simp: loop_step_def split: if_splits list.splits)
  have "b_todo b' \<le> length (b_ready b')"
    using assms(1) Suc r run_callback_ready [of "b\<lparr>b_ready := rest, b_todo := n\<rparr>" cb]
    by (simp add: b' run_callback_todo bridge_inv_def)
  moreover have "count (pending (b\<lparr>b_ready := rest, b_todo := n\<rparr>)) k + count (mset (cb_id cb)) k =
      (if k < length (b_futures b) \<and> b_futures b ! k = None then 1 else 0)" for k
  proof -
    have "count (pending b) k = (if k < length (b_futures b) \<and> b_futures b ! k = None then 1 else 0)"
      using assms(1) by (simp only: bridge_inv_def)
    then show ?thesis by (simp add: pending_def r ac_simps)
  qed
  ultimately show ?thesis
    using run_callback_pending [of "b\<lparr>b_ready := rest, b_todo := n\<rparr>" _ cb] by (simp add: bridge_inv_def b')
qed

lemma wake_at_inv:
  assumes "bridge_inv b" "wake_at i b = Some b'"
  shows "bridge_inv b'"
proof -
  have i: "i < length (b_waiting b)" using assms(2) by (simp add: wake_at_def split: if_splits)
  have "mset (map fst (b_waiting b)) =
      mset (map fst (take i (b_waiting b) @ drop (Suc i) (b_waiting b))) + {#fst (b_waiting b ! i)#}"
    using arg_cong [OF id_take_nth_drop [OF i], of "\<lambda>xs. mset (map fst xs)"] by simp
  then have "pending b' = pending b"
    using assms(2) i by (auto simp: wake_at_def pending_def split: prod.split)
  moreover have "b_futures b' = b_futures b" "b_todo b' = b_todo b" "length (b_ready b) \<le> length (b_ready b')"
    using assms(2) by (auto simp: wake_at_def split: if_splits)
  ultimately show ?thesis using assms(1) by (auto simp: bridge_inv_def)
qed

lemma submit_inv: "bridge_inv b \<Longrightarrow> bridge_inv (snd (bridge_submit c b))"
  by (auto simp: bridge_inv_def bridge_submit_def pending_def nth_append)

lemma bridge_work_inv: "bridge_work b b' \<Longrightarrow> bridge_inv b \<Longrightarrow> bridge_inv b'"
  by (cases rule: bridge_work.cases) (auto intro: loop_step_inv wake_at_inv)

lemma bridge_step_inv: "bridge_step b b' \<Longrightarrow> bridge_inv b \<Longrightarrow> bridge_inv b'"
proof (induction rule: bridge_step.induct)
  case (Work b b')
  then show ?case by (rule bridge_work_inv)
next
  case (Start b)
  then show ?case by (simp add: bridge_start_def bridge_inv_def)
next
  case (Submit b c)
  then show ?case by (rule submit_inv)
next
  case (Stop b)
  then show ?case by (auto simp: bridge_stop_def bridge_inv_def pending_def)
qed

lemma bridge_reach_inv: "bridge_step\<^sup>*\<^sup>* (new_bridge w) b \<Longrightarrow> bridge_inv b"
proof (induction rule: rtranclp_induct)
  case base
  show ?case by (simp add: bridge_inv_def new_bridge_def pending_def)
next
  case (step y z)
  then show ?case using bridge_step_inv by blast
qed

subsection \<open>A stopped loop\<close>

text \<open>Once the thread has ended no call brings it back and no waiting caller gets an answer.\<close>

lemma ended_step:
  assumes "bridge_step b b'" "b_thread b = Ended"
  shows "b_thread b' = Ended \<and> (\<exists>fs. b_futures b' = b_futures b @ fs)"
  using assms
  by (auto simp: bridge_step.simps bridge_work.simps loop_step_def wake_at_def bridge_start_def
      bridge_submit_def bridge_stop_def split: if_splits)

lemma ended_forever:
  assumes "bridge_step\<^sup>*\<^sup>* b b'" "b_thread b = Ended"
  shows "b_thread b' = Ended \<and> (\<exists>fs. b_futures b' = b_futures b @ fs)"
  using assms
proof (induction rule: rtranclp_induct)
  case (step y z)
  then show ?case using ended_step [of y z] by auto
qed simp

lemma call_after_stop_waits_forever:
  assumes "b_thread b = Ended" "bridge_step\<^sup>*\<^sup>* (snd (bridge_submit c b)) b'"
  shows "b_futures b' ! fst (bridge_submit c b) = None \<and> bridge_start b' = (Inl RuntimeError, b')
    \<and> bridge_call c b = None"
proof -
  have "b_thread (snd (bridge_submit c b)) = Ended" using assms(1) by (simp add: bridge_submit_def)
  then show ?thesis using ended_forever [OF assms(2)]
    by (auto simp: bridge_submit_def bridge_start_def bridge_call_def nth_append bridge_turn_def
        loop_step_def await_result.simps)
qed

subsection \<open>Every call of a running loop returns\<close>

text \<open>A step of the loop turns a piece of work into smaller ones.\<close>

inductive_set after_await :: "(('w, 'r) coro \<times> ('w, 'r) coro) set" where
  "(g w, Await f g) \<in> after_await"

lemma wf_after_await: "wf (after_await :: (('w, 'r) coro \<times> ('w, 'r) coro) set)"
proof (rule wfUNIVI)
  fix P and x :: "('w, 'r) coro"
  assume step: "\<forall>x :: ('w, 'r) coro. (\<forall>y. (y, x) \<in> after_await \<longrightarrow> P y) \<longrightarrow> P x"
  show "P x"
  proof (induction x)
    case (Return r)
    show ?case using step by (blast elim: after_await.cases)
  next
    case (Await f g)
    then have "\<forall>y. (y, Await f g) \<in> after_await \<longrightarrow> P y" by (auto elim: after_await.cases)
    then show ?case using step by blast
  qed
qed

fun cb_work :: "('w, 'r) callback \<Rightarrow> (('w, 'r) coro \<times> nat) list" where
  "cb_work (NewTask k c) = [(c, 3)]" | "cb_work (Resume k c) = [(c, 1)]"
| "cb_work (Deliver k r) = [(Return r, 0)]" | "cb_work StopLoop = []"

definition bridge_items :: "('w, 'r) bridge \<Rightarrow> (('w, 'r) coro \<times> nat) multiset" where
  "bridge_items b = mset (concat (map cb_work (b_ready b))) + mset (map (\<lambda>(k, c). (c, 2)) (b_waiting b))"

definition item_less :: "((('w, 'r) coro \<times> nat) \<times> ('w, 'r) coro \<times> nat) set" where
  "item_less = after_await <*lex*> less_than"

definition bridge_less :: "(('w, 'r) bridge \<times> ('w, 'r) bridge) set" where
  "bridge_less = inv_image (mult item_less <*lex*> less_than) (\<lambda>b. (bridge_items b, if b_todo b = 0 then 1 else 0))"

lemma wf_bridge_less: "wf bridge_less"
  unfolding bridge_less_def item_less_def
  by (intro wf_inv_image wf_lex_prod wf_mult wf_after_await wf_less_than)

definition bridge_running :: "('w, 'r) bridge \<Rightarrow> bool" where
  "bridge_running b \<longleftrightarrow> b_thread b = Alive \<and> \<not> b_stopping b \<and> StopLoop \<notin> set (b_ready b)"

lemma run_callback_running:
  assumes "bridge_running b" "cb \<noteq> StopLoop"
  shows "bridge_running (run_callback cb b) \<and> length (b_futures (run_callback cb b)) = length (b_futures b)"
  using assms
  by (cases "(cb, b)" rule: run_callback.cases) (auto simp: bridge_running_def Let_def split: coro.split)

lemma run_callback_items:
  assumes "cb \<noteq> StopLoop"
  obtains x K where "cb_work cb = [x]" "bridge_items (run_callback cb b) = bridge_items b + K"
    "\<And>y. y \<in># K \<Longrightarrow> (y, x) \<in> item_less"
proof (cases "(cb, b)" rule: run_callback.cases)
  case (1 k c)
  then show ?thesis by (intro that [of "(c, 3)" "{#(c, 1)#}"]) (auto simp: bridge_items_def item_less_def)
next
  case (2 k r)
  then show ?thesis
    by (intro that [of "(Return r, 1)" "{#(Return r, 0)#}"]) (auto simp: bridge_items_def item_less_def)
next
  case (3 k f g)
  have below: "(g w, Await f g) \<in> after_await" for w by (rule after_await.intros)
  show ?thesis
  proof (cases "g (b_world b)")
    case (Return r)
    with 3 below [of "b_world b"] show ?thesis
      by (intro that [of "(Await f g, 1)" "{#(Return r, 0)#}"]) (auto simp: bridge_items_def item_less_def)
  next
    case (Await f' g')
    with 3 below [of "b_world b"] show ?thesis
      by (intro that [of "(Await f g, 1)" "{#(Await f' g', 2)#}"]) (auto simp: bridge_items_def item_less_def)
  qed
next
  case (4 k r)
  then show ?thesis by (intro that [of "(Return r, 0)" "{#}"]) (auto simp: bridge_items_def)
qed (use assms in auto)

lemma items_mult:
  assumes "\<And>y. y \<in># K \<Longrightarrow> (y, x) \<in> r"
  shows "(I + K, add_mset x I) \<in> mult r"
  using one_step_implies_mult [of "{#x#}" K r I] assms by simp

lemma work_decreases:
  assumes "bridge_work b b'" "bridge_running b"
  shows "(b', b) \<in> bridge_less \<and> bridge_running b' \<and> length (b_futures b') = length (b_futures b)"
  using assms(1)
proof cases
  case Loop
  show ?thesis
  proof (cases "b_todo b")
    case 0
    then show ?thesis using Loop assms(2)
      by (auto simp: loop_step_def bridge_running_def bridge_less_def bridge_items_def split: if_splits)
  next
    case (Suc n)
    with Loop obtain cb rest where r: "b_ready b = cb # rest"
      and b': "b' = run_callback cb (b\<lparr>b_ready := rest, b_todo := n\<rparr>)"
      by (auto simp: loop_step_def split: if_splits list.splits)
    have cb: "cb \<noteq> StopLoop" and run: "bridge_running (b\<lparr>b_ready := rest, b_todo := n\<rparr>)"
      using assms(2) r by (auto simp: bridge_running_def)
    obtain x K where x: "cb_work cb = [x]" and K: "\<And>y. y \<in># K \<Longrightarrow> (y, x) \<in> item_less"
      and it: "bridge_items b' = bridge_items (b\<lparr>b_ready := rest, b_todo := n\<rparr>) + K"
      using run_callback_items [OF cb] b' by metis
    have "bridge_items b = add_mset x (bridge_items (b\<lparr>b_ready := rest, b_todo := n\<rparr>))"
      by (simp add: bridge_items_def r x)
    then have "(bridge_items b', bridge_items b) \<in> mult item_less" using items_mult [OF K] it by simp
    then show ?thesis using run_callback_running [OF run cb] by (simp add: bridge_less_def b')
  qed
next
  case (Wake i)
  then have i: "i < length (b_waiting b)" by (simp add: wake_at_def split: if_splits)
  obtain k c where kc: "b_waiting b ! i = (k, c)" by force
  let ?I = "mset (concat (map cb_work (b_ready b))) +
    mset (map (\<lambda>(k, c). (c, 2)) (take i (b_waiting b) @ drop (Suc i) (b_waiting b)))"
  have "bridge_items b = add_mset (c, 2) ?I"
    using arg_cong [OF id_take_nth_drop [OF i], of "\<lambda>xs. mset (map (\<lambda>(k, c). (c, 2::nat)) xs)"]
    by (simp add: bridge_items_def kc)
  moreover have "bridge_items b' = ?I + {#(c, 1)#}"
    using Wake i kc by (auto simp: bridge_items_def wake_at_def)
  ultimately have "(bridge_items b', bridge_items b) \<in> mult item_less"
    using items_mult [of "{#(c, 1)#}" "(c, 2)" item_less ?I] by (simp add: item_less_def)
  then show ?thesis using Wake i kc assms(2) by (auto simp: wake_at_def bridge_less_def bridge_running_def)
qed

lemma turn_works: "bridge_turn b = Some b' \<Longrightarrow> bridge_work b b'"
  by (auto simp: bridge_turn_def intro: bridge_work.intros split: option.splits if_splits)

text \<open>As long as an answer is missing the loop has something to do.\<close>

lemma turn_possible:
  assumes "bridge_inv b" "bridge_running b" "k < length (b_futures b)" "b_futures b ! k = None"
  obtains b' where "bridge_turn b = Some b'"
proof -
  have "count (pending b) k = 1" using assms by (simp add: bridge_inv_def)
  then have "b_ready b \<noteq> [] \<or> b_waiting b \<noteq> []" by (auto simp: pending_def)
  moreover have "b_todo b \<le> length (b_ready b)" using assms(1) by (simp add: bridge_inv_def)
  ultimately have "bridge_turn b \<noteq> None"
    using assms(2)
    by (auto simp: bridge_turn_def loop_step_def wake_at_def bridge_running_def split: nat.split list.split)
  then show thesis using that by blast
qed

lemma await_next:
  "b_futures b ! k = None \<Longrightarrow> bridge_turn b = Some b' \<Longrightarrow> await_result k b = await_result k b'"
  by (subst await_result.simps) simp

lemma await_returns:
  assumes "bridge_inv b" "bridge_running b" "k < length (b_futures b)"
  shows "\<exists>r b'. await_result k b = Some (r, b')"
  using wf_bridge_less assms
proof (induction b rule: wf_induct_rule)
  case (less b)
  show ?case
  proof (cases "b_futures b ! k")
    case (Some r)
    then show ?thesis by (subst await_result.simps) simp
  next
    case None
    from turn_possible [OF less.prems None] obtain b' where t: "bridge_turn b = Some b'" .
    note w = turn_works [OF t]
    note d = work_decreases [OF w less.prems(2)] bridge_work_inv [OF w less.prems(1)]
    show ?thesis using less.IH [of b'] d less.prems(3) await_next [OF None t] by simp
  qed
qed

text \<open>With nothing else in the loop the coroutine runs as it would by itself.\<close>

lemma await_alone:
  assumes "bridge_running b" "b_todo b = 0" "b_ready b = [Resume k c]" "b_waiting b = []"
    "k < length (b_futures b)" "b_futures b ! k = None"
  shows "\<exists>b'. await_result k b = Some (fst (run_coro c (b_world b)), b') \<and>
    b_world b' = snd (run_coro c (b_world b))"
  using assms
proof (induction c arbitrary: b)
  case (Return r)
  then show ?case
    by (simp add: await_next bridge_turn_def loop_step_def bridge_running_def await_result.simps)
next
  case (Await f g)
  let ?w = "b_world b"
  show ?case
  proof (cases "g ?w")
    case (Return r)
    with Await.prems show ?thesis
      by (simp add: await_next bridge_turn_def loop_step_def bridge_running_def await_result.simps)
  next
    case (Await f' g')
    let ?b = "b\<lparr>b_world := f ?w, b_waiting := [], b_ready := [Resume k (Await f' g')], b_todo := 0\<rparr>"
    have "await_result k b = await_result k ?b"
      using Await.prems Await
      by (simp add: await_next bridge_turn_def loop_step_def wake_at_def bridge_running_def)
    moreover have "bridge_running ?b" using Await.prems(1) by (simp add: bridge_running_def)
    ultimately show ?thesis
      using Await.IH [of "Await f' g'" ?b] rangeI [of g ?w] Await.prems Await by simp
  qed
qed

text \<open>C36: While the loop runs and nobody has asked it to stop, a call returns, whatever other
  coroutines the loop is working on; with no other coroutine in the loop the result and the
  effect are those of running the coroutine by itself, which is how the backend's model reads
  \<open>self.loop.call\<close>.\<close>

theorem bridge_call_returns:
  assumes "bridge_step\<^sup>*\<^sup>* (new_bridge w) b" "b_thread b = Alive" "\<not> b_stopping b" "StopLoop \<notin> set (b_ready b)"
  shows "\<exists>r b'. bridge_call c b = Some (r, b') \<and>
    (b_ready b = [] \<longrightarrow> b_waiting b = [] \<longrightarrow> (r, b_world b') = run_coro c (b_world b))"
proof -
  obtain k b1 where sub: "bridge_submit c b = (k, b1)" by force
  have inv: "bridge_inv b" by (rule bridge_reach_inv [OF assms(1)])
  have run: "bridge_running b1" using assms sub by (auto simp: bridge_running_def bridge_submit_def)
  have b1: "bridge_inv b1" using submit_inv [OF inv, of c] sub by simp
  have k: "k < length (b_futures b1)" "b_futures b1 ! k = None" using sub by (auto simp: bridge_submit_def)
  show ?thesis
  proof (cases "b_ready b = [] \<and> b_waiting b = []")
    case True
    have todo: "b_todo b = 0" using inv True by (simp add: bridge_inv_def)
    let ?b = "b1\<lparr>b_ready := [Resume k c], b_todo := 0\<rparr>"
    have "await_result k b1 = await_result k ?b"
      using sub True todo run k
      by (auto simp: bridge_submit_def await_next bridge_turn_def loop_step_def bridge_running_def)
    moreover have "bridge_running ?b" "b_waiting ?b = []" "b_world ?b = b_world b"
      using run sub True by (auto simp: bridge_running_def bridge_submit_def)
    ultimately show ?thesis using await_alone [of ?b k c] k sub
      by (auto simp: bridge_call_def)
  next
    case False
    then show ?thesis using await_returns [OF b1 run k(1)] sub by (auto simp: bridge_call_def)
  qed
qed

definition demo_coro :: "(nat, nat) coro" where
  "demo_coro = Await (\<lambda>n. n + 1) (\<lambda>n. Await (\<lambda>m. m * 2) (\<lambda>m. Return (Inr (n + m))))"

theorem bridge_call_returns_witness:
  "\<exists>r b'. bridge_call demo_coro (snd (bridge_start (new_bridge 3))) = Some (r, b') \<and> r = Inr 7 \<and> b_world b' = 8"
proof -
  have "bridge_step\<^sup>*\<^sup>* (new_bridge 3) (snd (bridge_start (new_bridge (3::nat))))"
    by (rule r_into_rtranclp) (rule bridge_step.Start)
  from bridge_call_returns [OF this, of demo_coro] show ?thesis
    by (auto simp: bridge_start_def new_bridge_def demo_coro_def)
qed

end
