(* ===== verification/Spec2Isabelle.thy ===== *)
theory Spec2Isabelle
  imports MetaProps SessionProps StoreIter StoreRace CommandProps CrashProps AsyncBridge
begin

text \<open>
  Verification of \<open>tgfs\<close>, a FUSE file system that keeps file content in the messages of a
  Telegram channel. Every module below \<open>src/tgfs/\<close> is modelled.

  \<^bold>\<open>The program\<close>

  The kernel's requests reach the adapter (\<open>mount.py\<close>), which calls \<open>FsCore\<close> (\<open>fuse_ops.py\<close>) and
  turns its exceptions into errno codes. \<open>FsCore\<close> checks names and handles and works on three
  objects: the metadata index (\<open>meta.py\<close>: inodes, directory entries, the chunk rows of each
  file, the reference count of each blob), the store (\<open>store.py\<close>: cuts a file into chunks,
  shares equal chunks by their digest, uploads and downloads them), and the writeback
  manager (\<open>cache.py\<close>: one temporary file per open file, written back on close, on a timer or
  at unmount). Reads go through an LRU cache on disk (also \<open>cache.py\<close>). Blobs go to a backend:
  in memory (\<open>backend.py\<close>) or Telegram (\<open>telegram.py\<close>), which moves big ones in parts over several
  connections (\<open>fasttransfer.py\<close>) and runs its coroutines on the loop of one thread
  (\<open>asyncbridge.py\<close>). \<open>config.py\<close> reads the settings; \<open>main.py\<close> has the subcommands.

  \<^bold>\<open>The theories\<close>

  Each part has a theory of definitions, in the order and with the names of the code, and
  theories of lemmas. An exception is a value (\<open>exn\<close> in \<open>Prelude\<close>); an operation returns
  \<open>Inl e\<close> or \<open>Inr x\<close> with the state it leaves behind, because a method that raises keeps what
  it changed before.

  \<^item> \<open>Prelude\<close>: types, exceptions, byte strings, slices and splices.
  \<^item> \<open>SqlTable\<close>: keyed tables as the code uses SQLite; the locale \<open>keyed_rows\<close>.
  \<^item> \<open>Meta\<close>, \<open>MetaInv\<close>, \<open>MetaProps\<close> (\<open>meta.py\<close>): the four tables, every query and mutation;
    link counts balance (\<open>meta_wf\<close>) and every method keeps that.
  \<^item> \<open>Backend\<close> (\<open>backend.py\<close> and the failing backend of the tests): the protocol as a record of
    operations, its contract as the locales \<open>blob_backend\<close>, \<open>reliable_backend\<close> (transfers return)
    and \<open>faulty_backend\<close> (any call may fail, before or after its effect).
  \<^item> \<open>ReadCache\<close> (\<open>ReadCache\<close> of \<open>cache.py\<close>): index, eviction, waiting for a download in flight;
    the locale \<open>chunk_source\<close> is what the store relies on.
  \<^item> \<open>PyFile\<close>: Python's unbuffered file objects.
  \<^item> \<open>Store\<close> (\<open>store.py\<close>); \<open>BlobRefs\<close> (reference counts, locale \<open>counted_index\<close>), \<open>ChunkMap\<close> (rows
    as a byte string), \<open>StoreWrite\<close> and \<open>StoreSpec\<close> (\<open>put_file\<close>, \<open>free_file\<close>), \<open>StoreRead\<close>, \<open>StoreProps\<close>.
    The abstract store is a map from inodes to byte strings (\<open>sbytes\<close>). \<open>StoreIter\<close>: downloads
    ahead of their consumer. \<open>StoreRace\<close>: uploads and releases of several threads, interleaved.
  \<^item> \<open>CrashTrace\<close> (the stores that the durable actions of \<open>put_file\<close> and \<open>free_file\<close> leave, one by
    one), \<open>CrashSafe\<close>, \<open>CrashPut\<close>, \<open>CrashProps\<close>: what a crash at any of them leaves.
  \<^item> \<open>Writeback\<close> (\<open>_FileState\<close> and \<open>WritebackManager\<close> of \<open>cache.py\<close>); \<open>FileView\<close> (what a user
    sees in a file state), \<open>WritebackSpec\<close>, \<open>WritebackFlush\<close>, \<open>WritebackSession\<close> (sequences of calls
    against byte strings), \<open>WritebackTotal\<close> (they return), \<open>WritebackProps\<close>; \<open>WritebackManager\<close>,
    \<open>WritebackReap\<close>, \<open>WritebackSteps\<close> (interleavings with the reaper) and \<open>ManagerProps\<close>. The
    abstract manager is \<open>mgr_view\<close>, a map from inodes to byte strings.
  \<^item> \<open>FsCore\<close> (\<open>fuse_ops.py\<close>); \<open>FsTree\<close> (what leaves the tree alone), \<open>FsHandles\<close> (handles against
    reference counts), \<open>FsSteps\<close> (requests and reaper as a step relation and the invariant
    \<open>core_inv\<close>), \<open>FsData\<close> (requests on content in terms of \<open>mgr_view\<close>), \<open>FsProps\<close>.
  \<^item> \<open>Mount\<close>, \<open>MountProps\<close> (\<open>mount.py\<close>): the handlers, \<open>build_core\<close>, its cleanup, \<open>mount()\<close> as a
    loop over the events of a mount, and paged directory listings.
  \<^item> \<open>SessionInv\<close>, \<open>SessionData\<close>, \<open>SessionCore\<close>, \<open>SessionRequests\<close>, \<open>SessionMount\<close>, \<open>SessionErrors\<close>,
    \<open>SessionProps\<close>: a whole mount against its specification, a map from inodes to byte strings
    that each request changes (\<open>rq_effect\<close>, \<open>session_files\<close>) and that each answer must agree with
    (\<open>reply_ok\<close>, \<open>session_ok\<close>).
  \<^item> \<open>FastTransfer\<close>, \<open>TransferProps\<close>, \<open>TransferReturns\<close> (\<open>fasttransfer.py\<close>): the connection pool,
    and workers that share one iterator under every schedule; the locales \<open>part_job\<close>,
    \<open>file_server\<close>, \<open>transfer\<close>, \<open>quiet_net\<close>.
  \<^item> \<open>Telegram\<close>, \<open>TelegramProps\<close> (\<open>telegram.py\<close>): connecting, finding the channel, retrying, and
    the three backend operations with their parallel and stock paths. \<open>TelegramBackend\<close>,
    \<open>ChannelProps\<close>: the laws of a channel (locale \<open>telegram_channel\<close>) give the contract
    \<open>faulty_backend\<close>.
  \<^item> \<open>AsyncBridge\<close> (\<open>asyncbridge.py\<close>): the thread's queue of callbacks, the suspended coroutines
    and the futures as a step relation (\<open>bridge_step\<close>).
  \<^item> \<open>Config\<close> (\<open>config.py\<close>): sizes, overrides, loading. \<open>Commands\<close>, \<open>CommandProps\<close> (\<open>main.py\<close>): the
    subcommands with their output and exit codes, and how the settings reach the parts.

  \<^bold>\<open>What the properties show\<close>

  C1, C2, C33: a whole mount. Whatever the kernel asks, in whatever order and with the reaper in
  between, the answers and what is in the backend at the end are those of the specification; the
  next mount continues there; and no request ends the mount with an exception. C3 to C10: the
  store. \<open>put_file\<close> replaces the content of one file or changes nothing, leaks no blob, and
  returns over a backend that answers; \<open>read_range\<close> gives the slice asked for. C11: reference
  counts under every interleaving of threads. C12, C13: crashes. C14 to C18: the index and the
  cache. C19 to C21: the writeback of one file refines a byte string; C22 to C27: the manager,
  its reaper and its shutdown; C27 is an execution that loses data. C28 to C32: \<open>FsCore\<close>, with
  its invariant under every sequence of requests. C34 to C36: parallel transfer, the contract of
  the Telegram backend, the event loop. C37, C38: the smoke test and the list of channels. C39,
  C40: directory listing, retries. Lemmas not numbered show further defects, each evaluated on a
  concrete state; the text before each says what goes wrong.

  \<^bold>\<open>Assumptions and bounds\<close>

  \<^item> The digest has no collisions where content is concerned (\<open>inj (sha256 E)\<close>).
  \<^item> Inside one \<open>put_file\<close> the store runs the work of its pools at submission, one schedule of
    those the code allows. \<open>StoreRace\<close> has every schedule of the calls that share the index and
    the backend, but not the local variables of \<open>put_file\<close>. The parts of a parallel transfer run
    under every schedule, given as a list of worker numbers; one that does not bring every
    worker to its end has no result (\<open>None\<close>). C35 asks for a schedule that lets each worker run
    often enough.
  \<^item> A call of the manager and of \<open>FsCore\<close> is one atomic step. A pass of the reaper is several in
    \<open>WritebackSteps\<close> and \<open>FsSteps\<close>, and one in the sessions, where a write between the flush and
    the removal of a closed file would be lost (lemma \<open>reaper_drops_write\<close>).
  \<^item> The sessions cover the requests of \<open>rq_safe\<close>: the kernel names parents it has looked up,
    writes are not empty, and a file is not written, nor cut again, while an earlier truncation
    of it is unflushed, because then the code brings old bytes back (C27). C33 also asks for
    \<open>rq_loaded\<close>: no write through a handle opened for reading to a file without a name whose
    content was never loaded.
  \<^item> There is no fuel. Loops that end are functions with a measure; \<open>with_retry\<close>, which waits
    out any number of flood waits, and \<open>await_result\<close>, which waits for a future, are partial
    functions whose \<open>None\<close> is not returning; C35 and C36 show that they return.
  \<^item> Sizes and offsets are natural numbers, as Python's integers are unbounded and the kernel
    sends no negative ones; times are reals, so the rounding of floats is left out.
  \<^item> Telethon's client and connections, pyfuse3's \<open>readdir_reply\<close>, the digest and the network
    are parameters. The event loop is that of the standard library, as far as the bridge uses it.

  \<^bold>\<open>Not modelled\<close>

  The end-to-end scripts and the tests; \<open>small_file\<close>, which nothing calls; making the mount
  point, the FUSE options and the signal handlers; \<open>argparse\<close> and the logging set-up; the removal
  of stale temporary files at start; reading and parsing the TOML file; log lines; the ten
  seconds that \<open>AsyncLoop.stop\<close> waits for its thread.

  \<^bold>\<open>What could come next\<close>

  The local state of \<open>put_file\<close> under every schedule of its pool, and the steps of the reaper
  inside a session.
\<close>

end
